(* ===== verification/Prelude.thy ===== *)
theory Prelude
  imports Main "HOL-Library.Word"
begin

text \<open>
  Shared vocabulary of the development: the machine integer types of the C sources, the
  lemma collections the component theories extend, generic facts on words, list scans and
  event runs, and the two small locales that every component's state machine and codec
  is an instance of.
\<close>

unbundle bit_operations_syntax

subsection \<open>Machine integers and bytes\<close>

type_synonym u8 = "8 word"
type_synonym u16 = "16 word"
type_synonym u32 = "32 word"
type_synonym u64 = "64 word"
type_synonym bytes = "8 word list"

text \<open>Lengths of encoded data, read-after-write facts, and frame facts (fields kept).\<close>

named_theorems len_simps
named_theorems codec_simps
named_theorems frame_simps

subsection \<open>Words\<close>

lemma unat_and_mask:
  fixes a m :: "'a::len word"
  assumes "Suc (unat m) = 2 ^ k"
  shows "unat (a AND m) = unat a mod 2 ^ k"
proof -
  have "unat m = mask k"
    using assms by (simp add: mask_eq_exp_minus_1)
  then have "unat (a AND m) = unat a AND mask k"
    by (simp add: unsigned_and_eq)
  also have "\<dots> = unat a mod 2 ^ k"
    by (simp add: take_bit_eq_mod flip: take_bit_eq_mask)
  finally show ?thesis .
qed

lemma unat_less_256 [simp]: "unat (x :: u8) < 256"
  using unsigned_less [of x, where ?'a = nat] by simp

lemma unat_less_2_32: "unat (x :: u32) < 4294967296"
  using unsigned_less [of x, where ?'a = nat] by simp

lemma unat_less_2_64: "unat (x :: u64) < 18446744073709551616"
  using unsigned_less [of x, where ?'a = nat] by simp

lemma unat_Suc_small:
  fixes a :: "'a::len word"
  assumes "Suc (unat a) < 2 ^ LENGTH('a)"
  shows "unat (a + 1) = Suc (unat a)"
proof -
  have "unat (a + 1) = (unat a + unat (1::'a word)) mod 2 ^ LENGTH('a)"
    by (rule unat_word_ariths(1))
  then show ?thesis
    using assms by simp
qed

subsection \<open>Bytes of a word\<close>

definition le_bytes :: "nat \<Rightarrow> 'a::len word \<Rightarrow> bytes" where
  "le_bytes k v = map (\<lambda>i. ucast (drop_bit (8 * i) v)) [0..<k]"

definition le_value :: "bytes \<Rightarrow> 'a::len word" where
  "le_value bs = foldr (\<lambda>b v. push_bit 8 v OR ucast b) bs 0"

lemma le_bytes_0 [simp]: "le_bytes 0 v = []"
  by (simp add: le_bytes_def)

lemma le_bytes_Suc: "le_bytes (Suc k) v = ucast v # le_bytes k (drop_bit 8 v)"
  by (simp add: le_bytes_def upt_conv_Cons map_Suc_upt [symmetric] ac_simps del: upt_Suc)

lemma length_le_bytes [simp, len_simps]: "length (le_bytes k v) = k"
  by (simp add: le_bytes_def)

lemma le_value_bytes: "le_value (le_bytes k v) = take_bit (8 * k) v"
proof (induction k arbitrary: v)
  case 0
  then show ?case by (simp add: le_value_def)
next
  case (Suc k)
  have "le_value (le_bytes (Suc k) v) = push_bit 8 (le_value (le_bytes k (drop_bit 8 v))) OR ucast (ucast v :: u8)"
    by (simp add: le_bytes_Suc le_value_def)
  also have "\<dots> = take_bit (8 * Suc k) v"
    unfolding Suc.IH by (rule bit_word_eqI) (auto simp: bit_simps)
  finally show ?case .
qed

text \<open>The C idiom of shifting each byte to its place, as nested shifts.\<close>

lemma shifted_or4:
  "push_bit 24 a OR push_bit 16 b OR push_bit 8 c OR d
   = push_bit 8 (push_bit 8 (push_bit 8 (push_bit 8 0 OR a) OR b) OR c) OR (d :: 'a::len word)"
  by (simp only: push_bit_or push_bit_push_bit push_bit_of_0 arith_simps or.left_neutral or.assoc)

lemma shifted_or8:
  "push_bit 56 a OR push_bit 48 b OR push_bit 40 c OR push_bit 32 d
     OR push_bit 24 e OR push_bit 16 f OR push_bit 8 g OR h
   = push_bit 8 (push_bit 8 (push_bit 8 (push_bit 8 (push_bit 8 (push_bit 8 (push_bit 8
       (push_bit 8 0 OR a) OR b) OR c) OR d) OR e) OR f) OR g) OR (h :: 'a::len word)"
  by (simp only: push_bit_or push_bit_push_bit push_bit_of_0 arith_simps or.left_neutral or.assoc)

lemma le_value_Cons: "le_value (b # bs) = push_bit 8 (le_value bs) OR ucast b"
  by (simp add: le_value_def)

lemma le_value_Nil: "le_value [] = 0"
  by (simp add: le_value_def)

lemma le_value_take: "n = length bs \<Longrightarrow> le_value (take n (bs @ rest)) = le_value bs"
  by simp

subsection \<open>Slots of a table\<close>

lemma nth_update: "xs[i := x] ! j = (if i = j \<and> j < length xs then x else xs ! j)"
  by (cases "i < length xs") (auto simp: nth_list_update list_update_beyond)

subsection \<open>First match of a scan\<close>

text \<open>
  \<open>scan_first n P\<close> is the C idiom of a linear search: the lowest \<open>i < n\<close> with
  \<open>P i\<close>.
\<close>

definition scan_first :: "nat \<Rightarrow> (nat \<Rightarrow> bool) \<Rightarrow> nat option" where
  "scan_first n P = List.find P [0..<n]"

lemma scan_first_None_iff: "scan_first n P = None \<longleftrightarrow> (\<forall>i<n. \<not> P i)"
  by (auto simp: scan_first_def find_None_iff)

lemma scan_first_Some_iff:
  "scan_first n P = Some i \<longleftrightarrow> i < n \<and> P i \<and> (\<forall>j<i. \<not> P j)"
proof -
  have "scan_first n P = Some i \<longleftrightarrow>
      (\<exists>k<n. P ([0..<n] ! k) \<and> i = [0..<n] ! k \<and> (\<forall>j<k. \<not> P ([0..<n] ! j)))"
    by (simp add: scan_first_def find_Some_iff)
  also have "\<dots> \<longleftrightarrow> i < n \<and> P i \<and> (\<forall>j<i. \<not> P j)"
    by auto
  finally show ?thesis .
qed

lemma scan_firstD:
  "scan_first n P = Some i \<Longrightarrow> i < n"
  "scan_first n P = Some i \<Longrightarrow> P i"
  by (simp_all add: scan_first_Some_iff)

lemma scan_first_cong:
  "(\<And>i. i < n \<Longrightarrow> P i = Q i) \<Longrightarrow> scan_first n P = scan_first n Q"
  unfolding scan_first_def by (rule find_cong) auto

lemma scan_first_ex: "\<exists>i<n. P i \<Longrightarrow> \<exists>i. scan_first n P = Some i"
  using scan_first_None_iff [of n P] by (cases "scan_first n P") auto

text \<open>Keeping the least accepted value while walking over a list.\<close>

definition keep_least :: "('j \<Rightarrow> bool) \<Rightarrow> ('j \<Rightarrow> nat) \<Rightarrow> nat option \<Rightarrow> 'j \<Rightarrow> nat option" where
  "keep_least P f best j =
     (if P j \<and> (case best of None \<Rightarrow> True | Some b \<Rightarrow> f j < b) then Some (f j) else best)"

lemma foldl_keep_least_lower:
  "(\<exists>j\<in>set js. P j \<and> f j = t) \<or> b0 = Some t \<Longrightarrow> \<exists>s\<le>t. foldl (keep_least P f) b0 js = Some s"
proof (induction js arbitrary: b0 t)
  case Nil
  then show ?case by auto
next
  case (Cons j js)
  have "(\<exists>i\<in>set js. P i \<and> f i = t) \<or> (\<exists>u\<le>t. keep_least P f b0 j = Some u)"
  proof (cases "\<exists>i\<in>set js. P i \<and> f i = t")
    case False
    then have "P j \<and> f j = t \<or> b0 = Some t"
      using Cons.prems by auto
    then have "\<exists>u\<le>t. keep_least P f b0 j = Some u"
    proof
      assume "P j \<and> f j = t"
      then show ?thesis
        by (cases b0) (auto simp: keep_least_def not_less)
    next
      assume "b0 = Some t"
      then show ?thesis
        by (auto simp: keep_least_def intro: less_imp_le)
    qed
    then show ?thesis ..
  qed simp
  then obtain u where "u \<le> t" "(\<exists>i\<in>set js. P i \<and> f i = u) \<or> keep_least P f b0 j = Some u"
    by blast
  then obtain s where "s \<le> u" "foldl (keep_least P f) (keep_least P f b0 j) js = Some s"
    using Cons.IH [of u "keep_least P f b0 j"] by auto
  then show ?case
    using \<open>u \<le> t\<close> by auto
qed

lemma foldl_keep_least_source:
  "foldl (keep_least P f) b0 js = Some s \<Longrightarrow> b0 = Some s \<or> (\<exists>j\<in>set js. P j \<and> f j = s)"
  by (induction js arbitrary: b0) (fastforce simp: keep_least_def split: if_splits)+

subsection \<open>Runs of a step function\<close>

text \<open>
  A component driven by events is a step function; an invariant that each step keeps
  holds after every run.
\<close>

locale stepper =
  fixes step :: "'s \<Rightarrow> 'e \<Rightarrow> 's"
    and inv :: "'s \<Rightarrow> bool"
  assumes inv_step: "inv s \<Longrightarrow> inv (step s e)"
begin

lemma inv_run: "inv s \<Longrightarrow> inv (foldl step s es)"
  by (induction es arbitrary: s) (auto intro: inv_step)

lemma inv_run_prefix: "inv s \<Longrightarrow> es = es1 @ es2 \<Longrightarrow> inv (foldl step s es1)"
  by (rule inv_run)

end

subsection \<open>Indexes from a hash to slot numbers\<close>

text \<open>
  What the owners of a slot table (clients, leases, profiles, keystore) rely on: \<open>find\<close>
  ends and returns the lowest accepted slot among the entries stored under a hash, \<open>insert\<close>
  adds an entry or fails without a change, \<open>reset\<close> empties.  \<open>room\<close> bounds the number of
  buckets in use.  A table whose matching slots are all entered is searched as by a scan.
\<close>

locale slot_index =
  fixes find :: "'x \<Rightarrow> u32 \<Rightarrow> (nat \<Rightarrow> bool) \<Rightarrow> nat option option"
    and ins :: "'m \<Rightarrow> 'x \<Rightarrow> u32 \<Rightarrow> u32 \<Rightarrow> (bool \<times> 'x) option"
    and reset :: "'m \<Rightarrow> 'x \<Rightarrow> nat \<Rightarrow> bool \<times> 'x"
    and entries :: "'x \<Rightarrow> (u32 \<times> nat) set"
    and invar :: "'x \<Rightarrow> bool"
    and used :: "'x \<Rightarrow> nat"
    and cap :: nat
  assumes find_none: "invar x \<Longrightarrow> find x h P = Some None \<longleftrightarrow> (\<forall>s. (h, s) \<in> entries x \<longrightarrow> \<not> P s)"
    and find_some: "invar x \<Longrightarrow> find x h P = Some (Some s) \<longleftrightarrow>
      (h, s) \<in> entries x \<and> P s \<and> (\<forall>t. (h, t) \<in> entries x \<and> P t \<longrightarrow> s \<le> t)"
    and find_ends: "invar x \<Longrightarrow> find x h P \<noteq> None"
    and ins_ends: "invar x \<Longrightarrow> used x < cap \<Longrightarrow> slot + 1 \<noteq> 0 \<Longrightarrow> ins m x h slot \<noteq> None"
    and ins_ok: "invar x \<Longrightarrow> used x < cap \<Longrightarrow> slot + 1 \<noteq> 0 \<Longrightarrow>
      ins m x h slot = Some (True, y) \<Longrightarrow>
      invar y \<and> entries y = insert (h, unat slot) (entries x) \<and> used y \<le> Suc (used x)"
    and ins_fail: "ins m x h slot = Some (False, y) \<Longrightarrow> y = x"
    and reset_inv: "invar x \<Longrightarrow> reset m x n = (ok, y) \<Longrightarrow> invar y \<and> entries y = {} \<and> used y = 0"
begin

lemma find_eq_scan:
  assumes "invar x" and inside: "\<And>i. P i \<Longrightarrow> i < n" and entered: "\<And>i. P i \<Longrightarrow> (h, i) \<in> entries x"
  shows "find x h P = Some (scan_first n P)"
proof (cases "find x h P")
  case None
  then show ?thesis using find_ends assms(1) by blast
next
  case (Some r)
  show ?thesis
  proof (cases r)
    case None
    then have "\<not> P i" for i
      using Some find_none [OF assms(1), of h P] entered by blast
    then have "scan_first n P = None"
      by (simp add: scan_first_None_iff)
    then show ?thesis using Some None by simp
  next
    case (Some s)
    have "P s" and least: "\<And>t. P t \<Longrightarrow> s \<le> t"
      using \<open>find x h P = Some r\<close> Some find_some [OF assms(1), of h P s] entered by blast+
    then have "scan_first n P = Some s"
      unfolding scan_first_Some_iff using inside leD by blast
    then show ?thesis using \<open>find x h P = Some r\<close> Some by simp
  qed
qed

lemma find_accepts:
  "invar x \<Longrightarrow> find x h P = Some (Some s) \<Longrightarrow> P s"
  by (simp add: find_some)

end

subsection \<open>Fixed-length codecs\<close>

text \<open>
  A fixed-length codec: \<open>enc\<close> writes \<open>n\<close> bytes, and \<open>dec\<close> reads the value back
  from any buffer that starts with them.
\<close>

locale codec =
  fixes enc :: "'v \<Rightarrow> bytes"
    and dec :: "bytes \<Rightarrow> 'v"
    and n :: nat
  assumes enc_length: "length (enc v) = n"
    and dec_enc: "dec (enc v @ rest) = v"
begin

lemma enc_inj: "enc v = enc w \<Longrightarrow> v = w"
  using dec_enc [of v "[]"] dec_enc [of w "[]"] by simp

lemma dec_enc_exact: "dec (enc v) = v"
  using dec_enc [of v "[]"] by simp

lemma dec_at: "length pre = k \<Longrightarrow> dec (drop k (pre @ enc v @ rest)) = v"
  by (simp add: dec_enc)

end

end
