(* ===== verification/Cstring.thy ===== *)
theory Cstring
  imports Prelude
begin

text \<open>
  What the sources use of the C library on text: character classes and case folding of the
  C locale, \<open>strtok_r\<close>, \<open>strtol\<close>/\<open>strtoul\<close> with a 64-bit \<open>long\<close> (LP64), decimal
  printing, \<open>snprintf\<close> truncation, and \<open>inet_pton\<close>/\<open>inet_ntop\<close> for IPv4.  A C string
  is the list of its characters without the final NUL.
\<close>

subsection \<open>Characters\<close>

definition isspace :: "char \<Rightarrow> bool" where
  "isspace c \<longleftrightarrow> of_char c \<in> {9, 10, 11, 12, 13, 32 :: nat}"

definition isdigit :: "char \<Rightarrow> bool" where
  "isdigit c \<longleftrightarrow> 48 \<le> (of_char c :: nat) \<and> (of_char c :: nat) \<le> 57"

definition tolower :: "char \<Rightarrow> char" where
  "tolower c = (if 65 \<le> (of_char c :: nat) \<and> (of_char c :: nat) \<le> 90
                then char_of (of_char c + 32 :: nat) else c)"

text \<open>\<open>strcasecmp(a, b) == 0\<close>.\<close>

definition strcaseeq :: "string \<Rightarrow> string \<Rightarrow> bool" where
  "strcaseeq a b \<longleftrightarrow> map tolower a = map tolower b"

text \<open>\<open>strncasecmp(a, b, n) == 0\<close>.\<close>

definition strncaseeq :: "nat \<Rightarrow> string \<Rightarrow> string \<Rightarrow> bool" where
  "strncaseeq n a b \<longleftrightarrow> map tolower (take n a) = map tolower (take n b)"

text \<open>The C string in a buffer: up to the first NUL.\<close>

definition cstr :: "bytes \<Rightarrow> string" where
  "cstr b = map (\<lambda>x. char_of (unat x)) (takeWhile (\<lambda>x. x \<noteq> 0) b)"

definition str_bytes :: "string \<Rightarrow> bytes" where
  "str_bytes s = map (\<lambda>c. of_nat (of_char c)) s"

text \<open>What \<open>snprintf(buf, n, "%s", s)\<close> leaves in a buffer.\<close>

definition fit :: "nat \<Rightarrow> string \<Rightarrow> string" where
  "fit n s = take (n - 1) s"

lemma strcaseeq_refl [simp]: "strcaseeq s s"
  by (simp add: strcaseeq_def)

lemma strcaseeq_sym: "strcaseeq a b \<longleftrightarrow> strcaseeq b a"
  by (auto simp: strcaseeq_def)

lemma strcaseeq_trans: "strcaseeq a b \<Longrightarrow> strcaseeq b c \<Longrightarrow> strcaseeq a c"
  by (simp add: strcaseeq_def)

lemma strcaseeq_Nil [simp]: "strcaseeq [] s \<longleftrightarrow> s = []" "strcaseeq s [] \<longleftrightarrow> s = []"
  by (auto simp: strcaseeq_def)

lemma cstr_bytes:
  assumes "CHR 0x00 \<notin> set s"
  shows "cstr (str_bytes s) = s" and "cstr (str_bytes s @ 0 # rest) = s"
proof -
  have code: "unat (of_nat (of_char c) :: u8) = of_char c" for c
    by (simp add: unat_of_nat)
  have "(of_nat (of_char c) :: u8) \<noteq> 0" if "c \<in> set s" for c
  proof
    assume "(of_nat (of_char c) :: u8) = 0"
    then have "(of_char c :: nat) = of_char (CHR 0x00)"
      using code [of c] by simp
    then show False
      using that assms by (metis char_of_char)
  qed
  then have "\<forall>x\<in>set (str_bytes s). x \<noteq> 0"
    by (auto simp: str_bytes_def)
  moreover have "map (\<lambda>x. char_of (unat x)) (str_bytes s) = s"
    by (simp add: str_bytes_def comp_def code)
  ultimately show "cstr (str_bytes s) = s" and "cstr (str_bytes s @ 0 # rest) = s"
    by (simp_all add: cstr_def takeWhile_append2 takeWhile_eq_all_conv [THEN iffD2])
qed

subsection \<open>Tokens\<close>

text \<open>The successive results of \<open>strtok_r\<close> for a set of separators.\<close>

fun token_at :: "(char \<Rightarrow> bool) \<Rightarrow> string \<Rightarrow> string \<Rightarrow> string list" where
  "token_at sep cur [] = (if cur = [] then [] else [rev cur])"
| "token_at sep cur (c # cs) =
     (if sep c then (if cur = [] then token_at sep [] cs else rev cur # token_at sep [] cs)
      else token_at sep (c # cur) cs)"

definition blank :: "char \<Rightarrow> bool" where
  "blank c \<longleftrightarrow> c = CHR '' '' \<or> c = CHR 0x09 \<or> c = CHR 0x0D \<or> c = CHR 0x0A"

definition tokens :: "string \<Rightarrow> string list" where
  "tokens s = token_at blank [] s"

definition word_text :: "string \<Rightarrow> bool" where
  "word_text s \<longleftrightarrow> s \<noteq> [] \<and> (\<forall>c\<in>set s. \<not> blank c)"

lemma token_at_word:
  "\<forall>c\<in>set w. \<not> sep c \<Longrightarrow> token_at sep cur (w @ s) = token_at sep (rev w @ cur) s"
  by (induction w arbitrary: cur) auto

lemma tokens_word_end: "word_text w \<Longrightarrow> tokens w = [w]"
  using token_at_word [of w blank "[]" "[]"] by (simp add: tokens_def word_text_def)

lemma tokens_word_sep: "word_text w \<Longrightarrow> blank c \<Longrightarrow> tokens (w @ c # s) = w # tokens s"
  using token_at_word [of w blank "[]" "c # s"] by (simp add: tokens_def word_text_def)

lemma tokens_sep: "blank c \<Longrightarrow> tokens (c # s) = tokens s"
  by (simp add: tokens_def)

lemma tokens_Nil: "tokens [] = []"
  by (simp add: tokens_def)

lemma token_at_clean:
  assumes "w \<in> set (token_at sep cur s)" and "\<forall>c\<in>set cur. \<not> sep c"
  shows "w \<noteq> [] \<and> (\<forall>c\<in>set w. \<not> sep c)"
  using assms
proof (induction s arbitrary: cur)
  case Nil
  then show ?case by (simp split: if_splits)
next
  case (Cons c cs)
  show ?case
  proof (cases "sep c")
    case True
    then have "w = rev cur \<and> cur \<noteq> [] \<or> w \<in> set (token_at sep [] cs)"
      using Cons.prems(1) by (auto split: if_splits)
    then show ?thesis
      using Cons.IH [of "[]"] Cons.prems(2) by auto
  next
    case False
    then show ?thesis
      using Cons.IH [of "c # cur"] Cons.prems by simp
  qed
qed

lemma tokens_are_words: "w \<in> set (tokens s) \<Longrightarrow> word_text w"
  using token_at_clean [of w blank "[]" s] by (simp add: tokens_def word_text_def)

subsection \<open>Numbers\<close>

definition digit :: "nat \<Rightarrow> char" where
  "digit d = char_of (48 + d)"

definition digit_val :: "char \<Rightarrow> nat" where
  "digit_val c = of_char c - 48"

fun dec :: "nat \<Rightarrow> string" where
  "dec n = (if n < 10 then [digit n] else dec (n div 10) @ [digit (n mod 10)])"

declare dec.simps [simp del]

definition digits_val :: "string \<Rightarrow> nat" where
  "digits_val s = foldl (\<lambda>v c. v * 10 + digit_val c) 0 s"

lemma of_char_digit: "d < 10 \<Longrightarrow> of_char (digit d) = 48 + d"
  by (simp add: digit_def)

lemma isdigit_digit [simp]: "d < 10 \<Longrightarrow> isdigit (digit d)"
  by (simp add: isdigit_def of_char_digit)

lemma digit_val_digit [simp]: "d < 10 \<Longrightarrow> digit_val (digit d) = d"
  by (simp add: digit_val_def of_char_digit)

lemma dec_digits: "\<forall>c\<in>set (dec n). isdigit c"
proof (induction n rule: dec.induct)
  case (1 n)
  then show ?case
    by (subst dec.simps) auto
qed

lemma dec_not_Nil [simp]: "dec n \<noteq> []"
  by (subst dec.simps) simp

lemma Nil_not_dec [simp]: "[] \<noteq> dec n"
  by (metis dec_not_Nil)

lemma digits_val_dec [simp]: "digits_val (dec n) = n"
proof (induction n rule: dec.induct)
  case (1 n)
  then show ?case
    by (subst dec.simps) (auto simp: digits_val_def)
qed

lemma length_dec: "n < 10 ^ k \<Longrightarrow> 0 < k \<Longrightarrow> length (dec n) \<le> k"
proof (induction n arbitrary: k rule: dec.induct)
  case (1 n)
  show ?case
  proof (cases "n < 10")
    case True
    then show ?thesis
      using "1.prems" by (subst dec.simps) simp
  next
    case False
    obtain k' where k: "k = Suc k'"
      using "1.prems"(2) by (cases k) auto
    have "0 < k'"
      using False "1.prems"(1) k by (cases k') auto
    then have "length (dec (n div 10)) \<le> k'"
      using False "1.prems"(1) k by (intro "1.IH") auto
    then show ?thesis
      using False k by (subst dec.simps) simp
  qed
qed

lemma hd_dec: "10 \<le> n \<Longrightarrow> hd (dec n) \<noteq> CHR ''0''"
proof (induction n rule: dec.induct)
  case (1 n)
  have "hd (dec n) = hd (dec (n div 10))"
    using "1.prems" by (subst dec.simps) simp
  moreover have "hd (dec (n div 10)) \<noteq> CHR ''0''"
  proof (cases "n div 10 < 10")
    case True
    have "1 \<le> n div 10"
      using "1.prems" by simp
    then have "(of_char (digit (n div 10)) :: nat) \<noteq> of_char (CHR ''0'')"
      using True by (simp add: of_char_digit)
    then have "digit (n div 10) \<noteq> CHR ''0''"
      by metis
    then show ?thesis
      using True by (subst dec.simps) simp
  next
    case False
    then show ?thesis
      using "1.IH" "1.prems" by simp
  qed
  ultimately show ?case by simp
qed

text \<open>
  The scan both \<open>strtol\<close> and \<open>strtoul\<close> make in base 10: blanks, a sign, digits; \<open>None\<close>
  when there is no digit (then \<open>*end\<close> is the start and the value 0).
\<close>

definition strto_scan :: "string \<Rightarrow> (bool \<times> nat \<times> string) option" where
  "strto_scan s =
     (let s1 = dropWhile isspace s;
          neg = (s1 \<noteq> [] \<and> hd s1 = CHR ''-'');
          s2 = (if s1 \<noteq> [] \<and> (hd s1 = CHR ''-'' \<or> hd s1 = CHR ''+'') then tl s1 else s1);
          ds = takeWhile isdigit s2
      in if ds = [] then None else Some (neg, digits_val ds, dropWhile isdigit s2))"

text \<open>Value, \<open>*end\<close> and whether \<open>errno\<close> became \<open>ERANGE\<close>.\<close>

definition strtol :: "string \<Rightarrow> int \<times> string \<times> bool" where
  "strtol s =
     (case strto_scan s of
        None \<Rightarrow> (0, s, False)
      | Some (neg, n, rest) \<Rightarrow>
          (let v = (if neg then - int n else int n)
           in if v < - (2 ^ 63) then (- (2 ^ 63), rest, True)
              else if v > 2 ^ 63 - 1 then (2 ^ 63 - 1, rest, True)
              else (v, rest, False)))"

definition strtoul :: "string \<Rightarrow> nat \<times> string \<times> bool" where
  "strtoul s =
     (case strto_scan s of
        None \<Rightarrow> (0, s, False)
      | Some (neg, n, rest) \<Rightarrow>
          (if n > 2 ^ 64 - 1 then (2 ^ 64 - 1, rest, True)
           else ((if neg then (2 ^ 64 - n) mod 2 ^ 64 else n), rest, False)))"

lemma digit_not_special:
  "isdigit c \<Longrightarrow> \<not> isspace c" "isdigit c \<Longrightarrow> c \<noteq> CHR ''-''" "isdigit c \<Longrightarrow> c \<noteq> CHR ''+''"
  "isdigit c \<Longrightarrow> c \<noteq> CHR ''.''" "isdigit c \<Longrightarrow> c \<noteq> CHR ''/''" "isdigit c \<Longrightarrow> \<not> blank c"
  "isdigit c \<Longrightarrow> c \<noteq> CHR 0x00"
  by (auto simp: isdigit_def isspace_def blank_def)

lemma strto_scan_dec: "strto_scan (dec n) = Some (False, n, [])"
proof -
  obtain c cs where cs: "dec n = c # cs"
    using dec_not_Nil [of n] by (cases "dec n") auto
  have c: "isdigit c"
    using dec_digits [of n] cs by simp
  have all: "takeWhile isdigit (dec n) = dec n" "dropWhile isdigit (dec n) = []"
    using dec_digits [of n] by (auto simp: takeWhile_eq_all_conv)
  have start: "dropWhile isspace (dec n) = dec n"
    using digit_not_special(1) [OF c] by (simp add: cs)
  have sign: "hd (dec n) \<noteq> CHR ''-''" "hd (dec n) \<noteq> CHR ''+''"
    using digit_not_special(2,3) [OF c] by (simp_all add: cs)
  show ?thesis
    unfolding strto_scan_def Let_def start using sign by (simp add: all)
qed

lemma strtol_dec: "n < 2 ^ 63 \<Longrightarrow> strtol (dec n) = (int n, [], False)"
  by (simp add: strtol_def strto_scan_dec)

lemma strtoul_dec: "n < 2 ^ 64 \<Longrightarrow> strtoul (dec n) = (n, [], False)"
  by (simp add: strtoul_def strto_scan_dec)

subsection \<open>IPv4 addresses\<close>

text \<open>
  Byte order of the released targets (x86, ARM, AArch64, mipsel): little-endian.  An
  address in network order is the word loaded from its four bytes.
\<close>

definition load_le32 :: "bytes \<Rightarrow> u32" where
  "load_le32 b = of_nat (unat (b ! 0) + 256 * (unat (b ! 1)
     + 256 * (unat (b ! 2) + 256 * unat (b ! 3))))"

definition addr_byte :: "u32 \<Rightarrow> nat \<Rightarrow> nat" where
  "addr_byte a i = unat a div 256 ^ i mod 256"

definition htonl :: "u32 \<Rightarrow> u32" where
  "htonl v = load_le32 (map (\<lambda>i. of_nat (addr_byte v i)) [3, 2, 1, 0])"

abbreviation ntohl :: "u32 \<Rightarrow> u32" where
  "ntohl \<equiv> htonl"

fun split_on :: "char \<Rightarrow> string \<Rightarrow> string list" where
  "split_on c [] = [[]]"
| "split_on c (x # xs) =
     (if x = c then [] # split_on c xs
      else case split_on c xs of [] \<Rightarrow> [[x]] | y # ys \<Rightarrow> (x # y) # ys)"

definition octet :: "string \<Rightarrow> nat option" where
  "octet s =
     (if s \<noteq> [] \<and> length s \<le> 3 \<and> (\<forall>c\<in>set s. isdigit c)
         \<and> (length s > 1 \<longrightarrow> hd s \<noteq> CHR ''0'') \<and> digits_val s \<le> 255
      then Some (digits_val s) else None)"

text \<open>\<open>inet_pton(AF_INET, s, &a) == 1\<close> with \<open>a.s_addr\<close>.\<close>

definition inet_pton :: "string \<Rightarrow> u32 option" where
  "inet_pton s =
     (case split_on (CHR ''.'') s of
        [a, b, c, d] \<Rightarrow>
          (case (octet a, octet b, octet c, octet d) of
             (Some a', Some b', Some c', Some d') \<Rightarrow>
                Some (load_le32 [of_nat a', of_nat b', of_nat c', of_nat d'])
           | _ \<Rightarrow> None)
      | _ \<Rightarrow> None)"

definition inet_ntop :: "u32 \<Rightarrow> string" where
  "inet_ntop a = dec (addr_byte a 0) @ ''.'' @ dec (addr_byte a 1) @ ''.''
     @ dec (addr_byte a 2) @ ''.'' @ dec (addr_byte a 3)"

lemma split_on_word:
  "c \<notin> set w \<Longrightarrow> split_on c (w @ c # s) = w # split_on c s"
  "c \<notin> set w \<Longrightarrow> split_on c w = [w]"
  by (induction w) auto

lemma octet_dec:
  assumes "n \<le> 255"
  shows "octet (dec n) = Some n"
proof -
  have "length (dec n) \<le> 3"
    using assms by (intro length_dec) simp_all
  moreover have "length (dec n) = 1" if "n < 10"
    using that by (subst dec.simps) simp
  ultimately show ?thesis
    using assms dec_digits [of n] hd_dec [of n] by (force simp: octet_def)
qed

lemma octet_bound: "octet s = Some n \<Longrightarrow> n \<le> 255"
  by (auto simp: octet_def split: if_splits)

lemma addr_byte_less [simp]: "addr_byte a i < 256"
  by (simp add: addr_byte_def)

lemma four_bytes_bound:
  "a < 256 \<Longrightarrow> b < 256 \<Longrightarrow> c < 256 \<Longrightarrow> d < (256::nat) \<Longrightarrow>
   a + 256 * (b + 256 * (c + 256 * d)) < 4294967296"
  by (drule Suc_leI)+ simp

lemma unat_load_le32:
  "unat (load_le32 b) = unat (b ! 0) + 256 * (unat (b ! 1)
     + 256 * (unat (b ! 2) + 256 * unat (b ! 3)))"
proof -
  have "unat (b ! 0) + 256 * (unat (b ! 1) + 256 * (unat (b ! 2) + 256 * unat (b ! 3))) < 4294967296"
    by (intro four_bytes_bound unat_less_256)
  then show ?thesis
    unfolding load_le32_def unat_of_nat by (intro mod_less) simp
qed

lemma unat_byte: "unat (of_nat (addr_byte a i) :: u8) = addr_byte a i"
  by (simp add: unat_of_nat)

lemma nat_four_bytes:
  "n mod 256 + 256 * (n div 256 mod 256 + 256 * (n div 65536 mod 256 + 256 * (n div 16777216))) = (n::nat)"
  using mod_mult_div_eq [of n 256] mod_mult_div_eq [of "n div 256" 256]
    mod_mult_div_eq [of "n div 256 div 256" 256]
  by (simp add: div_mult2_eq [symmetric])

lemma byte_split:
  assumes "a < (256::nat)"
  shows "(a + 256 * r) mod 256 = a" and "(a + 256 * r) div 256 = r"
  using assms by simp_all

lemma load_le32_bytes:
  "load_le32 [of_nat (addr_byte a 0), of_nat (addr_byte a 1), of_nat (addr_byte a 2),
              of_nat (addr_byte a 3)] = a"
proof -
  have "unat a div 16777216 < 256"
    using unat_less_2_32 [of a] by (simp add: less_mult_imp_div_less)
  then have "addr_byte a 3 = unat a div 16777216"
    by (simp add: addr_byte_def)
  then have "addr_byte a 0 + 256 * (addr_byte a 1 + 256 * (addr_byte a 2 + 256 * addr_byte a 3)) = unat a"
    using nat_four_bytes [of "unat a"] by (simp add: addr_byte_def)
  then show ?thesis
    unfolding word_unat_eq_iff unat_load_le32 by (simp only: nth_Cons_0 nth_Cons_numeral unat_byte)
      (simp add: unat_byte)
qed

lemma addr_byte_load:
  "addr_byte (load_le32 [x0, x1, x2, x3]) 0 = unat x0"
  "addr_byte (load_le32 [x0, x1, x2, x3]) 1 = unat x1"
  "addr_byte (load_le32 [x0, x1, x2, x3]) 2 = unat x2"
  "addr_byte (load_le32 [x0, x1, x2, x3]) 3 = unat x3"
proof -
  let ?n = "unat x0 + 256 * (unat x1 + 256 * (unat x2 + 256 * unat x3))"
  have n: "unat (load_le32 [x0, x1, x2, x3]) = ?n"
    by (simp only: unat_load_le32) simp
  have d1: "?n div 256 ^ 1 = unat x1 + 256 * (unat x2 + 256 * unat x3)"
    by (simp only: power_one_right byte_split(2) [OF unat_less_256])
  have d2: "?n div 256 ^ 2 = unat x2 + 256 * unat x3"
    unfolding power2_eq_square div_mult2_eq byte_split(2) [OF unat_less_256] ..
  have d3: "?n div 256 ^ 3 = unat x3"
    unfolding power3_eq_cube div_mult2_eq byte_split(2) [OF unat_less_256] ..
  show "addr_byte (load_le32 [x0, x1, x2, x3]) 0 = unat x0"
    unfolding addr_byte_def n by (simp only: power_0 div_by_1 byte_split(1) [OF unat_less_256])
  show "addr_byte (load_le32 [x0, x1, x2, x3]) 1 = unat x1"
    unfolding addr_byte_def n d1 by (rule byte_split(1) [OF unat_less_256])
  show "addr_byte (load_le32 [x0, x1, x2, x3]) 2 = unat x2"
    unfolding addr_byte_def n d2 by (rule byte_split(1) [OF unat_less_256])
  show "addr_byte (load_le32 [x0, x1, x2, x3]) 3 = unat x3"
    unfolding addr_byte_def n d3 by simp
qed

lemma inet_pton_ntop [simp]: "inet_pton (inet_ntop a) = Some a"
proof -
  have sep: "CHR ''.'' \<notin> set (dec n)" for n
    using dec_digits [of n] digit_not_special(4) by blast
  have oct: "octet (dec (addr_byte a i)) = Some (addr_byte a i)" for i
    using addr_byte_less [of a i] by (intro octet_dec) linarith
  show ?thesis
    by (simp add: inet_pton_def inet_ntop_def split_on_word [OF sep] oct load_le32_bytes [unfolded One_nat_def])
qed

lemma htonl_htonl [simp]: "htonl (htonl v) = v"
  unfolding htonl_def list.map addr_byte_load unat_byte by (rule load_le32_bytes)

lemma htonl_inject [simp]: "htonl a = htonl b \<longleftrightarrow> a = b"
  by (metis htonl_htonl)

lemma length_inet_ntop: "length (inet_ntop a) \<le> 15"
proof -
  have "length (dec (addr_byte a i)) \<le> 3" for i
    using addr_byte_less [of a i] by (intro length_dec) (simp_all add: less_trans [of _ 256])
  from this [of 0] this [of 1] this [of 2] this [of 3] show ?thesis
    by (simp add: inet_ntop_def)
qed

lemma inet_ntop_chars:
  "c \<in> set (inet_ntop a) \<Longrightarrow> isdigit c \<or> c = CHR ''.''"
  using dec_digits by (auto simp: inet_ntop_def)

lemma word_text_inet_ntop: "word_text (inet_ntop a)"
  using inet_ntop_chars [of _ a] digit_not_special(6)
  by (auto simp: word_text_def blank_def inet_ntop_def)

end
