(* ===== verification/Slotidx.thy ===== *)
theory Slotidx
  imports Cstring
begin

text \<open>
  \<open>src/slotidx.c\<close>: the open-addressing hash index from a key's hash to slot numbers,
  used for the client table, the leases, the profiles and the keystore.  The table is the
  two C arrays, probed linearly; \<open>slot\<close> holds the slot number plus one and 0 marks an
  empty bucket.  The probe loops take fuel: \<open>None\<close> is a loop that never meets an empty
  bucket, and the invariant shows that a table's own size is always enough.
\<close>

subsection \<open>Model\<close>

record slotidx =
  sx_hash :: "u32 list"
  sx_slot :: "u32 list"
  sx_mask :: u32
  sx_used :: u32

definition SLOTIDX_MIN_BUCKETS :: u32 where
  "SLOTIDX_MIN_BUCKETS = 16"

definition slotidx_free :: slotidx where
  "slotidx_free = \<lparr>sx_hash = [], sx_slot = [], sx_mask = 0, sx_used = 0\<rparr>"

text \<open>\<open>while (n < entries * 2 && n < 0x40000000) n <<= 1\<close>; at most 26 doublings.\<close>

fun buckets_loop :: "nat \<Rightarrow> u32 \<Rightarrow> nat \<Rightarrow> u32" where
  "buckets_loop 0 n entries = n"
| "buckets_loop (Suc fuel) n entries =
     (if unat n < entries * 2 \<and> n < 0x40000000
      then buckets_loop fuel (push_bit 1 n) entries else n)"

definition buckets_for :: "nat \<Rightarrow> u32" where
  "buckets_for entries = buckets_loop 27 SLOTIDX_MIN_BUCKETS entries"

text \<open>
  \<open>mem n\<close> says whether both \<open>calloc\<close>s of \<open>n\<close> elements succeed; a failure leaves
  an empty index and returns -1 (\<open>None\<close> here).
\<close>

definition alloc_table :: "(u32 \<Rightarrow> bool) \<Rightarrow> u32 \<Rightarrow> slotidx option" where
  "alloc_table mem n =
     (if mem n
      then Some \<lparr>sx_hash = replicate (unat n) 0, sx_slot = replicate (unat n) 0,
                 sx_mask = n - 1, sx_used = 0\<rparr>
      else None)"

definition slotidx_reset :: "(u32 \<Rightarrow> bool) \<Rightarrow> slotidx \<Rightarrow> nat \<Rightarrow> bool \<times> slotidx" where
  "slotidx_reset mem x entries =
     (let n = buckets_for entries
      in if sx_mask x \<noteq> 0 \<and> sx_mask x + 1 = n
         then (True, x\<lparr>sx_hash := replicate (unat n) 0, sx_slot := replicate (unat n) 0,
                       sx_used := 0\<rparr>)
         else case alloc_table mem n of
                None \<Rightarrow> (False, slotidx_free)
              | Some y \<Rightarrow> (True, y))"

fun put_loop :: "nat \<Rightarrow> slotidx \<Rightarrow> u32 \<Rightarrow> u32 \<Rightarrow> u32 \<Rightarrow> slotidx option" where
  "put_loop 0 x h slot1 i = None"
| "put_loop (Suc fuel) x h slot1 i =
     (if sx_slot x ! unat i \<noteq> 0
      then if sx_slot x ! unat i = slot1 \<and> sx_hash x ! unat i = h
           then Some x
           else put_loop fuel x h slot1 ((i + 1) AND sx_mask x)
      else Some (x\<lparr>sx_hash := (sx_hash x)[unat i := h],
                   sx_slot := (sx_slot x)[unat i := slot1],
                   sx_used := sx_used x + 1\<rparr>))"

definition put :: "slotidx \<Rightarrow> u32 \<Rightarrow> u32 \<Rightarrow> slotidx option" where
  "put x h slot1 = put_loop (length (sx_slot x)) x h slot1 (h AND sx_mask x)"

text \<open>The buckets of the old table, in order, put into the bigger one.\<close>

fun rehash :: "(u32 \<times> u32) list \<Rightarrow> slotidx \<Rightarrow> slotidx option" where
  "rehash [] y = Some y"
| "rehash ((h, s1) # bs) y =
     (if s1 \<noteq> 0
      then (case put y h s1 of None \<Rightarrow> None | Some y' \<Rightarrow> rehash bs y')
      else rehash bs y)"

text \<open>
  \<open>slotidx_insert\<close>: \<open>None\<close> a loop that never ends, \<open>Some (False, x)\<close> the return
  -1 (no memory, the index unchanged), \<open>Some (True, x)\<close> the return 0.
\<close>

definition slotidx_insert ::
  "(u32 \<Rightarrow> bool) \<Rightarrow> slotidx \<Rightarrow> u32 \<Rightarrow> u32 \<Rightarrow> (bool \<times> slotidx) option" where
  "slotidx_insert mem x h slot =
     (if sx_mask x = 0 \<or> (sx_used x + 1) * 2 > sx_mask x + 1
      then (case alloc_table mem (if sx_mask x = 0 then SLOTIDX_MIN_BUCKETS
                                  else (sx_mask x + 1) * 2) of
              None \<Rightarrow> Some (False, x)
            | Some bigger \<Rightarrow>
                (case rehash (if sx_mask x = 0 then [] else zip (sx_hash x) (sx_slot x)) bigger of
                   None \<Rightarrow> None
                 | Some y \<Rightarrow> map_option (Pair True) (put y h (slot + 1))))
      else map_option (Pair True) (put x h (slot + 1)))"

definition slotidx_crowded :: "slotidx \<Rightarrow> nat \<Rightarrow> bool" where
  "slotidx_crowded x live \<longleftrightarrow> unat (sx_used x) > live * 2 + unat SLOTIDX_MIN_BUCKETS"

fun find_loop ::
  "nat \<Rightarrow> slotidx \<Rightarrow> u32 \<Rightarrow> (nat \<Rightarrow> bool) \<Rightarrow> u32 \<Rightarrow> nat option \<Rightarrow> nat option option" where
  "find_loop 0 x h mtch i best = None"
| "find_loop (Suc fuel) x h mtch i best =
     (if sx_slot x ! unat i = 0 then Some best
      else let slot = unat (sx_slot x ! unat i - 1)
           in find_loop fuel x h mtch ((i + 1) AND sx_mask x)
                (if sx_hash x ! unat i = h
                    \<and> (case best of None \<Rightarrow> True | Some b \<Rightarrow> slot < b) \<and> mtch slot
                 then Some slot else best))"

text \<open>The outer \<open>None\<close> is a loop that never ends, the inner one the result -1.\<close>

definition slotidx_find :: "slotidx \<Rightarrow> u32 \<Rightarrow> (nat \<Rightarrow> bool) \<Rightarrow> nat option option" where
  "slotidx_find x h mtch =
     (if sx_mask x = 0 then Some None
      else find_loop (length (sx_slot x)) x h mtch (h AND sx_mask x) None)"

text \<open>The hashes: murmur3's finaliser, FNV-1a over bytes and over a lower-cased string.\<close>

definition slotidx_hash_u32 :: "u32 \<Rightarrow> u32" where
  "slotidx_hash_u32 v0 =
     (let v1 = v0 XOR drop_bit 16 v0;
          v2 = v1 * 0x85ebca6b;
          v3 = v2 XOR drop_bit 13 v2;
          v4 = v3 * 0xc2b2ae35
      in v4 XOR drop_bit 16 v4)"

definition fnv_step :: "u32 \<Rightarrow> u8 \<Rightarrow> u32" where
  "fnv_step h b = (h XOR ucast b) * 16777619"

definition slotidx_hash_bytes :: "bytes \<Rightarrow> u32" where
  "slotidx_hash_bytes p = slotidx_hash_u32 (foldl fnv_step 2166136261 p)"

definition slotidx_hash_nocase :: "string \<Rightarrow> u32" where
  "slotidx_hash_nocase s =
     slotidx_hash_u32 (foldl fnv_step 2166136261 (str_bytes (map tolower s)))"

subsection \<open>Buckets as positions modulo the table size\<close>

definition buckets :: "slotidx \<Rightarrow> nat" where
  "buckets x = length (sx_slot x)"

abbreviation occ :: "slotidx \<Rightarrow> nat \<Rightarrow> bool" where
  "occ x j \<equiv> sx_slot x ! j \<noteq> 0"

definition occupied :: "slotidx \<Rightarrow> nat set" where
  "occupied x = {j. j < buckets x \<and> occ x j}"

text \<open>The shape of an allocated table: two arrays of a power of two of buckets.\<close>

definition shape :: "slotidx \<Rightarrow> nat \<Rightarrow> bool" where
  "shape x k \<longleftrightarrow> 4 \<le> k \<and> k \<le> 30 \<and> buckets x = 2 ^ k \<and> length (sx_hash x) = 2 ^ k
     \<and> Suc (unat (sx_mask x)) = 2 ^ k"

text \<open>
  No holes: the buckets from an entry's home position to the entry are all in use, so a
  probe from there meets the entry before an empty bucket.
\<close>

definition no_holes :: "slotidx \<Rightarrow> bool" where
  "no_holes x \<longleftrightarrow> (\<forall>j\<in>occupied x. \<exists>d<buckets x.
     j = (unat (sx_hash x ! j) + d) mod buckets x
     \<and> (\<forall>e<d. occ x ((unat (sx_hash x ! j) + e) mod buckets x)))"

text \<open>An allocated table: shaped, without holes, and \<open>used\<close> counts the buckets in use.\<close>

definition table_inv :: "slotidx \<Rightarrow> bool" where
  "table_inv x \<longleftrightarrow> (\<exists>k. shape x k) \<and> no_holes x \<and> card (occupied x) = unat (sx_used x)"

definition slotidx_inv :: "slotidx \<Rightarrow> bool" where
  "slotidx_inv x \<longleftrightarrow> x = slotidx_free \<or>
     table_inv x \<and> 2 * unat (sx_used x) \<le> buckets x"

definition slotidx_entries :: "slotidx \<Rightarrow> (u32 \<times> nat) set" where
  "slotidx_entries x = (\<lambda>j. (sx_hash x ! j, unat (sx_slot x ! j - 1))) ` occupied x"

lemma free_facts:
  "buckets slotidx_free = 0" "occupied slotidx_free = {}" "slotidx_entries slotidx_free = {}"
  "sx_mask slotidx_free = 0" "sx_used slotidx_free = 0" "slotidx_inv slotidx_free"
  by (simp_all add: slotidx_free_def buckets_def occupied_def slotidx_entries_def slotidx_inv_def)

lemma shape_mask: "shape x k \<Longrightarrow> sx_mask x \<noteq> 0"
proof
  assume "shape x k" and "sx_mask x = 0"
  then have "Suc 0 = 2 ^ k" and "4 \<le> k"
    by (auto simp: shape_def)
  then show False
    using power_increasing [of 4 k "2::nat"] by simp
qed

lemma shape_pow: "shape x k \<Longrightarrow> (16::nat) \<le> 2 ^ k \<and> (2::nat) ^ k \<le> 2 ^ 30"
  using power_increasing [of 4 k "2::nat"] power_increasing [of k 30 "2::nat"]
  by (auto simp: shape_def)

lemma finite_occupied [simp]: "finite (occupied x)"
  by (simp add: occupied_def)

lemma home_position: "shape x k \<Longrightarrow> unat (h AND sx_mask x) = unat h mod buckets x"
  by (simp add: shape_def unat_and_mask)

lemma next_position:
  assumes "shape x k" and "unat i < buckets x"
  shows "unat ((i + 1) AND sx_mask x) = Suc (unat i) mod buckets x"
proof -
  have "Suc (unat i) < 2 ^ LENGTH(32)"
    using assms shape_pow [OF assms(1)] by (auto simp: shape_def)
  then have "unat (i + 1) = Suc (unat i)"
    by (rule unat_Suc_small)
  then show ?thesis
    using home_position [OF assms(1), of "i + 1"] by simp
qed

text \<open>From any position of a table that is not full, a first empty bucket is met.\<close>

lemma first_empty:
  assumes "shape x k" and "card (occupied x) < buckets x"
  obtains e where "e < buckets x" and "\<not> occ x ((p + e) mod buckets x)"
    and "\<forall>d<e. occ x ((p + d) mod buckets x)"
proof -
  let ?n = "buckets x"
  let ?P = "\<lambda>d. d < ?n \<and> \<not> occ x ((p + d) mod ?n)"
  have n0: "0 < ?n"
    using assms(2) by simp
  obtain j where j: "j < ?n" "j \<notin> occupied x"
  proof (cases "\<forall>j<?n. j \<in> occupied x")
    case True
    then have "{..<?n} \<subseteq> occupied x" by blast
    then have "card {..<?n} \<le> card (occupied x)"
      by (rule card_mono [OF finite_occupied])
    then show ?thesis using assms(2) by simp
  next
    case False
    then show ?thesis using that by blast
  qed
  define d where "d = (j + (?n - p mod ?n)) mod ?n"
  have "(p + d) mod ?n = j"
  proof -
    have "(p + d) mod ?n = (p mod ?n + (j + (?n - p mod ?n))) mod ?n"
      unfolding d_def by (simp only: mod_add_right_eq mod_add_left_eq)
    also have "p mod ?n + (j + (?n - p mod ?n)) = j + ?n"
      using mod_less_divisor [OF n0, of p] by simp
    finally show ?thesis using j by simp
  qed
  then have "?P d"
    using j n0 by (simp add: d_def occupied_def)
  then have "\<exists>d. ?P d" ..
  then obtain e where "?P e" and least: "\<forall>d<e. \<not> ?P d"
    unfolding exists_least_iff [of ?P] by blast
  then have "\<forall>d<e. occ x ((p + d) mod ?n)"
    by fastforce
  then show ?thesis
    using \<open>?P e\<close> that by blast
qed

subsection \<open>The probe loops\<close>

abbreviation set_bucket :: "slotidx \<Rightarrow> nat \<Rightarrow> u32 \<Rightarrow> u32 \<Rightarrow> slotidx" where
  "set_bucket x j h s1 \<equiv> x\<lparr>sx_hash := (sx_hash x)[j := h], sx_slot := (sx_slot x)[j := s1],
                           sx_used := sx_used x + 1\<rparr>"

lemma shift_position:
  "Suc i mod n = i' \<Longrightarrow> (i' + d) mod n = (i + Suc d) mod (n::nat)"
  by (metis add_Suc_shift mod_add_left_eq)

lemma probe_step:
  assumes "shape x k" and "unat i < buckets x"
    and "\<forall>d<Suc e. occ x ((unat i + d) mod buckets x)"
    and "\<not> occ x ((unat i + Suc e) mod buckets x)"
  defines "i' \<equiv> (i + 1) AND sx_mask x"
  shows "unat i' < buckets x" and "occ x (unat i)" and "unat i mod buckets x = unat i"
    and "\<And>d. (unat i' + d) mod buckets x = (unat i + Suc d) mod buckets x"
    and "\<forall>d<e. occ x ((unat i' + d) mod buckets x)"
    and "\<not> occ x ((unat i' + e) mod buckets x)"
proof -
  have i': "unat i' = Suc (unat i) mod buckets x"
    unfolding i'_def using assms(1,2) by (rule next_position)
  show shift: "\<And>d. (unat i' + d) mod buckets x = (unat i + Suc d) mod buckets x"
    by (rule shift_position [OF i' [symmetric]])
  show "unat i' < buckets x"
    unfolding i' using assms(2) by (intro mod_less_divisor) simp
  show here: "unat i mod buckets x = unat i"
    using assms(2) by simp
  show "occ x (unat i)"
    using spec [OF assms(3), of 0] here by simp
  show "\<forall>d<e. occ x ((unat i' + d) mod buckets x)"
    unfolding shift using assms(3) Suc_mono by blast
  show "\<not> occ x ((unat i' + e) mod buckets x)"
    using assms(4) by (simp only: shift simp_thms)
qed

lemma put_loop_result:
  assumes "shape x k" and "unat i < buckets x" and "e < fuel"
    and "\<forall>d<e. occ x ((unat i + d) mod buckets x)"
    and "\<not> occ x ((unat i + e) mod buckets x)"
  shows "put_loop fuel x h s1 i = Some
    (if \<exists>d<e. sx_slot x ! ((unat i + d) mod buckets x) = s1
              \<and> sx_hash x ! ((unat i + d) mod buckets x) = h
     then x else set_bucket x ((unat i + e) mod buckets x) h s1)"
  using assms(2-)
proof (induction e arbitrary: i fuel)
  case 0
  then show ?case by (cases fuel) auto
next
  case (Suc e)
  obtain f where f: "fuel = Suc f" "e < f"
    using Suc.prems(2) by (cases fuel) auto
  note st = probe_step [OF assms(1) Suc.prems(1,3,4)]
  have ex: "(\<exists>d<Suc e. Q d) \<longleftrightarrow> Q 0 \<or> (\<exists>d<e. Q (Suc d))" for Q
    by (auto simp: less_Suc_eq_0_disj)
  show ?case
    unfolding f(1) ex put_loop.simps Suc.IH [OF st(1) f(2) st(5,6)] st(4)
    using st(2,3) by auto
qed

lemma find_loop_result:
  assumes "shape x k" and "unat i < buckets x" and "e < fuel"
    and "\<forall>d<e. occ x ((unat i + d) mod buckets x)"
    and "\<not> occ x ((unat i + e) mod buckets x)"
  shows "find_loop fuel x h P i best = Some
    (foldl (keep_least (\<lambda>j. sx_hash x ! j = h \<and> P (unat (sx_slot x ! j - 1)))
                       (\<lambda>j. unat (sx_slot x ! j - 1)))
       best (map (\<lambda>d. (unat i + d) mod buckets x) [0..<e]))"
  using assms(2-)
proof (induction e arbitrary: i fuel best)
  case 0
  then show ?case by (cases fuel) auto
next
  case (Suc e)
  obtain f where f: "fuel = Suc f" "e < f"
    using Suc.prems(2) by (cases fuel) auto
  note st = probe_step [OF assms(1) Suc.prems(1,3,4)]
  have positions: "map (\<lambda>d. (unat i + d) mod buckets x) [0..<Suc e]
      = unat i # map (\<lambda>d. (unat ((i + 1) AND sx_mask x) + d) mod buckets x) [0..<e]"
    unfolding st(4) using st(3)
    by (simp add: upt_conv_Cons map_Suc_upt [symmetric] del: upt_Suc)
  show ?case
    unfolding f(1) positions find_loop.simps Let_def Suc.IH [OF st(1) f(2) st(5,6)]
    using st(2) by (simp add: keep_least_def [where best = best] conj_ac)
qed

subsection \<open>What the operations do to the set of entries\<close>

lemma table_not_full:
  "table_inv x \<Longrightarrow> 2 * unat (sx_used x) \<le> buckets x \<Longrightarrow> card (occupied x) < buckets x"
  using shape_pow by (fastforce simp: table_inv_def shape_def)

lemma bucket_added:
  assumes inv: "table_inv x" and sh: "shape x k" and s1: "s1 \<noteq> 0"
    and e: "e < buckets x" "\<forall>d<e. occ x ((unat h + d) mod buckets x)"
    and empty: "\<not> occ x ((unat h + e) mod buckets x)"
  defines "y \<equiv> set_bucket x ((unat h + e) mod buckets x) h s1"
  shows "table_inv y" and "slotidx_entries y = insert (h, unat (s1 - 1)) (slotidx_entries x)"
    and "buckets y = buckets x" and "unat (sx_used y) = Suc (unat (sx_used x))"
    and "sx_mask y = sx_mask x"
proof -
  let ?n = "buckets x"
  let ?j = "(unat h + e) mod ?n"
  have j: "?j < ?n"
    using e(1) by (intro mod_less_divisor) simp
  show n: "buckets y = ?n"
    by (simp add: y_def buckets_def)
  show "sx_mask y = sx_mask x"
    by (simp add: y_def)
  have len: "length (sx_hash x) = ?n" "length (sx_slot x) = ?n"
    using sh by (simp_all add: shape_def buckets_def)
  have get: "sx_hash y ! i = (if i = ?j then h else sx_hash x ! i)"
      "sx_slot y ! i = (if i = ?j then s1 else sx_slot x ! i)" if "i < ?n" for i
    using that len j by (auto simp: y_def)
  have occ_mono: "occ y i" if "occ x i" "i < ?n" for i
    using that get(2) s1 by simp
  have j_new: "?j \<notin> occupied x"
    using empty by (simp add: occupied_def)
  have occd: "occupied y = insert ?j (occupied x)"
    using get(2) s1 j n by (auto simp: occupied_def split: if_splits)
  show entries: "slotidx_entries y = insert (h, unat (s1 - 1)) (slotidx_entries x)"
  proof -
    have "(\<lambda>i. (sx_hash y ! i, unat (sx_slot y ! i - 1))) ` occupied x
        = (\<lambda>i. (sx_hash x ! i, unat (sx_slot x ! i - 1))) ` occupied x"
      using j_new by (intro image_cong) (auto simp: get occupied_def)
    then show ?thesis
      unfolding slotidx_entries_def occd image_insert using j by (simp add: get)
  qed
  have card: "card (occupied x) = unat (sx_used x)"
    using inv by (simp add: table_inv_def)
  have "card (occupied x) \<le> ?n"
    using card_mono [of "{..<?n}" "occupied x"] by (auto simp: occupied_def)
  then show used: "unat (sx_used y) = Suc (unat (sx_used x))"
    using card shape_pow [OF sh] sh
    by (simp add: y_def shape_def unat_Suc_small)
  have "no_holes y"
    unfolding no_holes_def n
  proof
    fix i assume "i \<in> occupied y"
    then consider "i = ?j" | "i \<in> occupied x" "i \<noteq> ?j"
      using occd by blast
    then show "\<exists>d<?n. i = (unat (sx_hash y ! i) + d) mod ?n
        \<and> (\<forall>e<d. occ y ((unat (sx_hash y ! i) + e) mod ?n))"
    proof cases
      case 1
      then show ?thesis
        using e j s1 by (intro exI [of _ e]) (auto simp: get intro!: occ_mono)
    next
      case 2
      then have "i < ?n"
        by (simp add: occupied_def)
      obtain d where "d < ?n" "i = (unat (sx_hash x ! i) + d) mod ?n"
          "\<forall>e<d. occ x ((unat (sx_hash x ! i) + e) mod ?n)"
        using inv 2(1) by (auto simp: table_inv_def no_holes_def)
      moreover have "sx_hash y ! i = sx_hash x ! i"
        using 2(2) \<open>i < ?n\<close> by (simp add: get)
      moreover have "occ y (q mod ?n)" if "occ x (q mod ?n)" for q
        using that j by (intro occ_mono) (auto intro: mod_less_divisor)
      ultimately show ?thesis
        by (intro exI [of _ d]) auto
    qed
  qed
  moreover have "shape y k"
    using sh n by (simp add: shape_def y_def buckets_def)
  moreover have "card (occupied y) = unat (sx_used y)"
    using j_new card used by (simp add: occd)
  ultimately show "table_inv y"
    by (auto simp: table_inv_def)
qed

text \<open>\<open>put\<close> on a table that is not full ends, and enters the pair.\<close>

lemma put_correct:
  assumes inv: "table_inv x" and room: "unat (sx_used x) < buckets x" and s1: "s1 \<noteq> 0"
  obtains y where "put x h s1 = Some y" and "table_inv y"
    and "slotidx_entries y = insert (h, unat (s1 - 1)) (slotidx_entries x)"
    and "buckets y = buckets x" and "unat (sx_used y) \<le> Suc (unat (sx_used x))"
    and "sx_mask y = sx_mask x"
proof -
  obtain k where sh: "shape x k"
    using inv by (auto simp: table_inv_def)
  have notfull: "card (occupied x) < buckets x"
    using inv room by (simp add: table_inv_def)
  define p where "p = h AND sx_mask x"
  have p: "unat p = unat h mod buckets x"
    unfolding p_def by (rule home_position [OF sh])
  have pos: "(unat p + d) mod buckets x = (unat h + d) mod buckets x" for d
    by (simp add: p mod_simps)
  obtain e where e: "e < buckets x" "\<not> occ x ((unat p + e) mod buckets x)"
      "\<forall>d<e. occ x ((unat p + d) mod buckets x)"
    using first_empty [OF sh notfull] by blast
  have "unat p < buckets x"
    unfolding p using room by (intro mod_less_divisor) simp
  then have put: "put x h s1 = Some (if \<exists>d<e. sx_slot x ! ((unat h + d) mod buckets x) = s1
              \<and> sx_hash x ! ((unat h + d) mod buckets x) = h
     then x else set_bucket x ((unat h + e) mod buckets x) h s1)"
    using put_loop_result [OF sh _ e(1,3,2)] unfolding put_def pos
    by (simp add: p_def buckets_def)
  note added = bucket_added [OF inv sh s1 e(1), of h, folded pos, OF e(3,2), unfolded pos]
  show ?thesis
  proof (cases "\<exists>d<e. sx_slot x ! ((unat h + d) mod buckets x) = s1
              \<and> sx_hash x ! ((unat h + d) mod buckets x) = h")
    case True
    then obtain j where j: "j < buckets x" "sx_slot x ! j = s1" "sx_hash x ! j = h"
      using mod_less_divisor [of "buckets x"] room by (metis gr_implies_not0 gr_zeroI)
    then have "(h, unat (s1 - 1)) \<in> slotidx_entries x"
      using s1 by (auto simp: slotidx_entries_def occupied_def intro!: rev_image_eqI [of j])
    then show ?thesis
      using True put inv that [of x] by (simp add: insert_absorb)
  next
    case False
    then have "put x h s1 = Some (set_bucket x ((unat h + e) mod buckets x) h s1)"
      unfolding put by (simp only: if_False)
    then show ?thesis
      using added(1,2,3) eq_refl [OF added(4)] added(5) by (rule that)
  qed
qed

lemma put_inv:
  assumes "table_inv x" and "2 * Suc (unat (sx_used x)) \<le> buckets x" and "s1 \<noteq> 0"
    and y: "put x h s1 = Some y"
  shows "slotidx_inv y" and "slotidx_entries y = insert (h, unat (s1 - 1)) (slotidx_entries x)"
    and "unat (sx_used y) \<le> Suc (unat (sx_used x))"
proof -
  have "unat (sx_used x) < buckets x"
    using assms(2) by simp
  then obtain z where z: "put x h s1 = Some z" "table_inv z"
      "slotidx_entries z = insert (h, unat (s1 - 1)) (slotidx_entries x)"
      "buckets z = buckets x" "unat (sx_used z) \<le> Suc (unat (sx_used x))"
    by (rule put_correct [OF assms(1) _ assms(3)])
  have "y = z"
    using z(1) y by simp
  then show "slotidx_entries y = insert (h, unat (s1 - 1)) (slotidx_entries x)"
    and "unat (sx_used y) \<le> Suc (unat (sx_used x))" and "slotidx_inv y"
    using z(2-) assms(2) by (simp_all add: slotidx_inv_def)
qed

abbreviation live_pairs :: "(u32 \<times> u32) list \<Rightarrow> (u32 \<times> u32) list" where
  "live_pairs \<equiv> filter (\<lambda>b. snd b \<noteq> 0)"

lemma rehash_correct:
  assumes "table_inv y" and "unat (sx_used y) + length (live_pairs bs) < buckets y"
  shows "\<exists>z. rehash bs y = Some z \<and> table_inv z
    \<and> slotidx_entries z = (\<lambda>b. (fst b, unat (snd b - 1))) ` set (live_pairs bs) \<union> slotidx_entries y
    \<and> buckets z = buckets y \<and> unat (sx_used z) \<le> unat (sx_used y) + length (live_pairs bs)
    \<and> sx_mask z = sx_mask y"
  using assms
proof (induction bs arbitrary: y)
  case Nil
  then show ?case by simp
next
  case (Cons b bs)
  obtain h s1 where b: "b = (h, s1)" by (cases b)
  show ?case
  proof (cases "s1 = 0")
    case True
    then show ?thesis
      using Cons.IH [of y] Cons.prems b by simp
  next
    case False
    then have "unat (sx_used y) < buckets y"
      using Cons.prems(2) b by simp
    then obtain y' where y': "put y h s1 = Some y'" "table_inv y'"
        "slotidx_entries y' = insert (h, unat (s1 - 1)) (slotidx_entries y)"
        "buckets y' = buckets y" "unat (sx_used y') \<le> Suc (unat (sx_used y))"
        "sx_mask y' = sx_mask y"
      by (rule put_correct [OF Cons.prems(1) _ False])
    then have "unat (sx_used y') + length (live_pairs bs) < buckets y'"
      using Cons.prems(2) b False by simp
    then show ?thesis
      using Cons.IH [OF y'(2)] y' b False by auto
  qed
qed

text \<open>A new table is empty.\<close>

lemma alloc_inv:
  assumes "alloc_table mem n = Some y" and "unat n = 2 ^ k" and "4 \<le> k" and "k \<le> 30"
  shows "table_inv y" and "slotidx_entries y = {}" and "sx_used y = 0" and "buckets y = 2 ^ k"
    and "Suc (unat (sx_mask y)) = 2 ^ k"
proof -
  have y: "y = \<lparr>sx_hash = replicate (unat n) 0, sx_slot = replicate (unat n) 0,
                 sx_mask = n - 1, sx_used = 0\<rparr>"
    using assms(1) by (auto simp: alloc_table_def split: if_splits)
  have "n \<noteq> 0"
    using assms(2) by auto
  then show mask: "Suc (unat (sx_mask y)) = 2 ^ k"
    using assms(2) by (simp add: y unat_minus_one)
  have "occupied y = {}"
    by (auto simp: y occupied_def buckets_def)
  then show "slotidx_entries y = {}" and "sx_used y = 0" and "buckets y = 2 ^ k" and "table_inv y"
    using mask assms(2-4)
    by (auto simp: table_inv_def slotidx_entries_def no_holes_def shape_def y buckets_def)
qed

lemma buckets_loop_pow:
  assumes "unat n = 2 ^ j" and "4 \<le> j" and "j \<le> 30"
  shows "\<exists>k. unat (buckets_loop fuel n e) = 2 ^ k \<and> 4 \<le> k \<and> k \<le> 30"
  using assms
proof (induction fuel arbitrary: n j)
  case 0
  then show ?case by auto
next
  case (Suc fuel)
  show ?case
  proof (cases "unat n < e * 2 \<and> n < 0x40000000")
    case True
    then have "unat n < 2 ^ 30"
      by (simp add: word_less_nat_alt)
    then have j: "j < 30"
      using Suc.prems(1) by (metis one_less_numeral_iff power_strict_increasing_iff semiring_norm(76))
    then have "(2::nat) ^ j \<le> 2 ^ 29"
      by (intro power_increasing) auto
    then have "unat (push_bit 1 n) = 2 ^ Suc j"
      using Suc.prems(1) by (simp add: unat_word_ariths mult.commute)
    then show ?thesis
      using Suc.IH [of "push_bit 1 n" "Suc j"] j Suc.prems(2) True by simp
  next
    case False
    then show ?thesis
      using Suc.prems by (auto simp: if_not_P)
  qed
qed

lemma buckets_for_pow: "\<exists>k. unat (buckets_for e) = 2 ^ k \<and> 4 \<le> k \<and> k \<le> 30"
  unfolding buckets_for_def by (rule buckets_loop_pow [of _ 4]) (simp_all add: SLOTIDX_MIN_BUCKETS_def)

lemma entries_zip:
  assumes "length (sx_hash x) = length (sx_slot x)"
  shows "(\<lambda>b. (fst b, unat (snd b - 1))) ` set (live_pairs (zip (sx_hash x) (sx_slot x)))
    = slotidx_entries x"
  using assms unfolding slotidx_entries_def occupied_def buckets_def
  by (fastforce simp: set_zip image_iff)

lemma length_live_pairs:
  assumes "length (sx_hash x) = length (sx_slot x)"
  shows "length (live_pairs (zip (sx_hash x) (sx_slot x))) = card (occupied x)"
proof -
  let ?z = "zip (sx_hash x) (sx_slot x)"
  have "length (live_pairs ?z) = card {j. j < length ?z \<and> snd (?z ! j) \<noteq> 0}"
    by (rule length_filter_conv_card)
  also have "{j. j < length ?z \<and> snd (?z ! j) \<noteq> 0} = occupied x"
    using assms by (auto simp: occupied_def buckets_def)
  finally show ?thesis .
qed

text \<open>The room within which the 32-bit arithmetic of the table sizes cannot wrap.\<close>

definition SLOTIDX_ROOM :: nat where
  "SLOTIDX_ROOM = 2 ^ 29 - 1"

text \<open>\<open>slotidx_insert\<close> grows the table when the next entry would make it more than half full.\<close>

lemma slotidx_insert_correct:
  assumes inv: "slotidx_inv x" and room: "unat (sx_used x) < SLOTIDX_ROOM" and slot: "slot + 1 \<noteq> 0"
  shows "slotidx_insert mem x h slot = Some (False, x) \<or>
    (\<exists>y. slotidx_insert mem x h slot = Some (True, y) \<and> slotidx_inv y
      \<and> slotidx_entries y = insert (h, unat slot) (slotidx_entries x)
      \<and> unat (sx_used y) \<le> Suc (unat (sx_used x)))"
proof -
  have finish: "\<exists>z. map_option (Pair True) (put y h (slot + 1)) = Some (True, z) \<and> slotidx_inv z
      \<and> slotidx_entries z = insert (h, unat slot) (slotidx_entries x)
      \<and> unat (sx_used z) \<le> Suc (unat (sx_used x))"
    if y: "table_inv y" "2 * Suc (unat (sx_used x)) \<le> buckets y" "slotidx_entries y = slotidx_entries x"
       "unat (sx_used y) \<le> unat (sx_used x)" for y
  proof -
    have "unat (sx_used y) < buckets y"
      using y(2,4) by simp
    then obtain z where z: "put y h (slot + 1) = Some z"
      by (rule put_correct [OF y(1) _ slot])
    have "2 * Suc (unat (sx_used y)) \<le> buckets y"
      using y(2,4) by simp
    from put_inv [OF y(1) this slot z] z y(3,4) show ?thesis
      by simp
  qed
  show ?thesis
  proof (cases "x = slotidx_free")
    case True
    show ?thesis
    proof (cases "alloc_table mem SLOTIDX_MIN_BUCKETS")
      case None
      then show ?thesis
        by (simp add: slotidx_insert_def True free_facts)
    next
      case (Some y)
      have "unat SLOTIDX_MIN_BUCKETS = 2 ^ 4"
        by (simp add: SLOTIDX_MIN_BUCKETS_def)
      note y = alloc_inv [OF Some this]
      show ?thesis
        using finish [of y] y Some by (simp add: slotidx_insert_def True free_facts)
    qed
  next
    case False
    then have tab: "table_inv x" "2 * unat (sx_used x) \<le> buckets x"
      using inv by (auto simp: slotidx_inv_def)
    then obtain k where sh: "shape x k"
      by (auto simp: table_inv_def)
    have mask: "unat (sx_mask x + 1) = buckets x" "buckets x = 2 ^ k"
      using sh shape_pow [OF sh] by (simp_all add: shape_def unat_Suc_small)
    have grow: "(sx_used x + 1) * 2 > sx_mask x + 1 \<longleftrightarrow> buckets x < 2 * Suc (unat (sx_used x))"
    proof -
      have "unat ((sx_used x + 1) * 2) = 2 * Suc (unat (sx_used x))"
        using room by (simp add: unat_word_ariths SLOTIDX_ROOM_def)
      then show ?thesis
        by (simp only: word_less_nat_alt mask(1))
    qed
    show ?thesis
    proof (cases "buckets x < 2 * Suc (unat (sx_used x))")
      case False
      then show ?thesis
        unfolding slotidx_insert_def grow using finish [of x] tab(1) shape_mask [OF sh] by simp
    next
      case True
      then have "(2::nat) ^ k < 2 ^ 30"
        using room by (simp add: mask(2) SLOTIDX_ROOM_def)
      then have k: "k < 30"
        by (metis one_less_numeral_iff power_strict_increasing_iff semiring_norm(76))
      then have "(2::nat) ^ k \<le> 2 ^ 29"
        by (intro power_increasing) auto
      then have size: "unat ((sx_mask x + 1) * 2) = 2 ^ Suc k"
        using unat_word_ariths(2) [of "sx_mask x + 1" 2] unfolding mask by simp
      show ?thesis
      proof (cases "alloc_table mem ((sx_mask x + 1) * 2)")
        case None
        then show ?thesis
          unfolding slotidx_insert_def grow using shape_mask [OF sh] True by simp
      next
        case (Some y)
        have k': "4 \<le> Suc k" "Suc k \<le> 30"
          using sh k by (auto simp: shape_def)
        note y = alloc_inv [OF Some size k']
        have len: "length (sx_hash x) = length (sx_slot x)"
          using sh by (simp add: shape_def buckets_def)
        let ?bs = "zip (sx_hash x) (sx_slot x)"
        have live: "length (live_pairs ?bs) = unat (sx_used x)"
          using length_live_pairs [OF len] tab(1) by (simp add: table_inv_def)
        have "unat (sx_used y) + length (live_pairs ?bs) < buckets y"
          using y(3,4) live tab(2) mask(2) shape_pow [OF sh] by simp
        from rehash_correct [OF y(1) this] obtain z where z: "rehash ?bs y = Some z" "table_inv z"
            "slotidx_entries z = slotidx_entries x" "buckets z = buckets y"
            "unat (sx_used z) \<le> unat (sx_used x)"
          using y(2,3) live entries_zip [OF len] by auto
        have "2 * Suc (unat (sx_used x)) \<le> buckets z"
          using tab(2) mask(2) y(4) z(4) k'(1) shape_pow [OF sh] by simp
        from finish [OF z(2) this z(3,5)] show ?thesis
          unfolding slotidx_insert_def grow using shape_mask [OF sh] True Some z(1) by simp
      qed
    qed
  qed
qed

subsection \<open>Finding the lowest slot\<close>

lemma slotidx_find_result:
  assumes "slotidx_inv x"
  shows "\<exists>js. slotidx_find x h P = Some (foldl (keep_least
      (\<lambda>j. sx_hash x ! j = h \<and> P (unat (sx_slot x ! j - 1))) (\<lambda>j. unat (sx_slot x ! j - 1))) None js)
    \<and> set js \<subseteq> occupied x \<and> (\<forall>j\<in>occupied x. sx_hash x ! j = h \<longrightarrow> j \<in> set js)"
proof (cases "x = slotidx_free")
  case True
  then show ?thesis
    by (intro exI [of _ "[]"]) (simp add: slotidx_find_def free_facts)
next
  case False
  then have tab: "table_inv x" "2 * unat (sx_used x) \<le> buckets x"
    using assms by (auto simp: slotidx_inv_def)
  then obtain k where sh: "shape x k"
    by (auto simp: table_inv_def)
  define p where "p = h AND sx_mask x"
  have p: "unat p = unat h mod buckets x"
    unfolding p_def by (rule home_position [OF sh])
  obtain e where e: "e < buckets x" "\<not> occ x ((unat p + e) mod buckets x)"
      "\<forall>d<e. occ x ((unat p + d) mod buckets x)"
    using first_empty [OF sh table_not_full [OF tab]] by blast
  have n0: "0 < buckets x"
    using e(1) by simp
  let ?js = "map (\<lambda>d. (unat p + d) mod buckets x) [0..<e]"
  have "slotidx_find x h P = Some (foldl (keep_least
      (\<lambda>j. sx_hash x ! j = h \<and> P (unat (sx_slot x ! j - 1))) (\<lambda>j. unat (sx_slot x ! j - 1))) None ?js)"
    using find_loop_result [OF sh _ e(1,3,2), where P = P and best = None and h = h] shape_mask [OF sh] n0
    by (simp add: slotidx_find_def p_def [symmetric] p buckets_def [symmetric])
  moreover have "set ?js \<subseteq> occupied x"
    using e(3) n0 by (auto simp: occupied_def)
  moreover have "j \<in> set ?js" if j: "j \<in> occupied x" "sx_hash x ! j = h" for j
  proof -
    obtain d where d: "d < buckets x" "j = (unat h + d) mod buckets x"
        "\<forall>c<d. occ x ((unat h + c) mod buckets x)"
      using tab(1) j by (auto simp: table_inv_def no_holes_def)
    have pos: "(unat p + c) mod buckets x = (unat h + c) mod buckets x" for c
      by (simp add: p mod_simps)
    have "d < e"
    proof (rule ccontr)
      assume "\<not> d < e"
      then have "occ x ((unat h + e) mod buckets x)"
        using d j(1) by (cases "d = e") (auto simp: occupied_def)
      then show False
        using e(2) pos by simp
    qed
    then show ?thesis
      using d(2) pos by (auto simp: image_iff)
  qed
  ultimately show ?thesis by blast
qed

lemma slotidx_find_Some:
  assumes "slotidx_inv x"
  shows "slotidx_find x h P = Some (Some s) \<longleftrightarrow>
    (h, s) \<in> slotidx_entries x \<and> P s \<and> (\<forall>t. (h, t) \<in> slotidx_entries x \<and> P t \<longrightarrow> s \<le> t)"
    and "slotidx_find x h P = Some None \<longleftrightarrow> (\<forall>t. (h, t) \<in> slotidx_entries x \<longrightarrow> \<not> P t)"
    and "slotidx_find x h P \<noteq> None"
proof -
  let ?f = "\<lambda>j. unat (sx_slot x ! j - 1)"
  let ?Q = "\<lambda>j. sx_hash x ! j = h \<and> P (?f j)"
  obtain js where js: "slotidx_find x h P = Some (foldl (keep_least ?Q ?f) None js)"
      "set js \<subseteq> occupied x" "\<forall>j\<in>occupied x. sx_hash x ! j = h \<longrightarrow> j \<in> set js"
    using slotidx_find_result [OF assms, of h P] by blast
  have mem: "(h, t) \<in> slotidx_entries x \<and> P t \<longleftrightarrow> (\<exists>j\<in>set js. ?Q j \<and> ?f j = t)" for t
    using js(2,3) by (auto simp: slotidx_entries_def)
  have lower: "\<exists>s\<le>t. foldl (keep_least ?Q ?f) None js = Some s"
    if "(h, t) \<in> slotidx_entries x" "P t" for t
    using that mem by (intro foldl_keep_least_lower) blast
  have source: "(h, s) \<in> slotidx_entries x \<and> P s" if "foldl (keep_least ?Q ?f) None js = Some s" for s
    using foldl_keep_least_source [OF that] mem by auto
  show "slotidx_find x h P = Some (Some s) \<longleftrightarrow>
    (h, s) \<in> slotidx_entries x \<and> P s \<and> (\<forall>t. (h, t) \<in> slotidx_entries x \<and> P t \<longrightarrow> s \<le> t)"
  proof
    assume "slotidx_find x h P = Some (Some s)"
    then have r: "foldl (keep_least ?Q ?f) None js = Some s"
      unfolding js(1) by simp
    have "s \<le> t" if "(h, t) \<in> slotidx_entries x" "P t" for t
      using lower [OF that] r by auto
    then show "(h, s) \<in> slotidx_entries x \<and> P s \<and> (\<forall>t. (h, t) \<in> slotidx_entries x \<and> P t \<longrightarrow> s \<le> t)"
      using source [OF r] by blast
  next
    assume least: "(h, s) \<in> slotidx_entries x \<and> P s \<and> (\<forall>t. (h, t) \<in> slotidx_entries x \<and> P t \<longrightarrow> s \<le> t)"
    then obtain u where u: "u \<le> s" "foldl (keep_least ?Q ?f) None js = Some u"
      using lower by blast
    then have "s \<le> u"
      using source least by blast
    then show "slotidx_find x h P = Some (Some s)"
      unfolding js(1) using u by simp
  qed
  show "slotidx_find x h P = Some None \<longleftrightarrow> (\<forall>t. (h, t) \<in> slotidx_entries x \<longrightarrow> \<not> P t)"
  proof
    assume "slotidx_find x h P = Some None"
    then show "\<forall>t. (h, t) \<in> slotidx_entries x \<longrightarrow> \<not> P t"
      unfolding js(1) using lower by fastforce
  next
    assume "\<forall>t. (h, t) \<in> slotidx_entries x \<longrightarrow> \<not> P t"
    then show "slotidx_find x h P = Some None"
      unfolding js(1) using source by (cases "foldl (keep_least ?Q ?f) None js") auto
  qed
  show "slotidx_find x h P \<noteq> None"
    unfolding js(1) by simp
qed

lemma slotidx_reset_correct:
  assumes "slotidx_inv x" and "slotidx_reset mem x n = (ok, y)"
  shows "slotidx_inv y \<and> slotidx_entries y = {} \<and> unat (sx_used y) = 0"
proof -
  obtain k where k: "unat (buckets_for n) = 2 ^ k" "4 \<le> k" "k \<le> 30"
    using buckets_for_pow by blast
  show ?thesis
  proof (cases "sx_mask x \<noteq> 0 \<and> sx_mask x + 1 = buckets_for n")
    case True
    then have y: "y = x\<lparr>sx_hash := replicate (unat (buckets_for n)) 0,
        sx_slot := replicate (unat (buckets_for n)) 0, sx_used := 0\<rparr>"
      using assms(2) by (simp add: slotidx_reset_def Let_def)
    have "sx_mask x = buckets_for n - 1"
      using True by (metis add_diff_cancel_right')
    then have "alloc_table (\<lambda>_. True) (buckets_for n) = Some y"
      by (simp add: alloc_table_def y)
    from alloc_inv [OF this k] show ?thesis
      by (simp add: slotidx_inv_def)
  next
    case False
    then have "y = slotidx_free \<or> alloc_table mem (buckets_for n) = Some y"
      using assms(2) by (auto simp: slotidx_reset_def Let_def split: option.splits)
    then show ?thesis
      using alloc_inv [of mem "buckets_for n" y k] k by (auto simp: slotidx_inv_def free_facts)
  qed
qed

text \<open>The hash table provides the index interface.\<close>

interpretation idx: slot_index slotidx_find slotidx_insert slotidx_reset
    slotidx_entries slotidx_inv "\<lambda>x. unat (sx_used x)" SLOTIDX_ROOM
proof unfold_locales
  fix x y :: slotidx and h slot :: u32 and mem :: "u32 \<Rightarrow> bool"
  assume x: "slotidx_inv x" "unat (sx_used x) < SLOTIDX_ROOM" "slot + 1 \<noteq> 0"
  show "slotidx_insert mem x h slot \<noteq> None"
    using slotidx_insert_correct [OF x, of mem h] by auto
  assume "slotidx_insert mem x h slot = Some (True, y)"
  then show "slotidx_inv y \<and> slotidx_entries y = insert (h, unat slot) (slotidx_entries x)
      \<and> unat (sx_used y) \<le> Suc (unat (sx_used x))"
    using slotidx_insert_correct [OF x, of mem h] by auto
next
  fix mem x h slot y
  assume "slotidx_insert mem x h slot = Some (False, y)"
  then show "y = x"
    by (auto simp: slotidx_insert_def split: if_splits option.splits)
qed (simp_all add: slotidx_find_Some slotidx_reset_correct)

subsection \<open>The calls of the owners\<close>

text \<open>
  How the tables' owners call the index: the result -1 is \<open>None\<close> or \<open>False\<close>.  A probe
  loop that would not end is mapped to the same; \<open>idx.find_ends\<close> and \<open>idx.ins_ends\<close>
  show that it always ends on a table that satisfies the invariant and has room.
\<close>

definition slotidx_lookup :: "slotidx \<Rightarrow> u32 \<Rightarrow> (nat \<Rightarrow> bool) \<Rightarrow> nat option" where
  "slotidx_lookup x h mtch = (case slotidx_find x h mtch of None \<Rightarrow> None | Some r \<Rightarrow> r)"

definition slotidx_enter :: "(u32 \<Rightarrow> bool) \<Rightarrow> slotidx \<Rightarrow> u32 \<Rightarrow> nat \<Rightarrow> bool \<times> slotidx" where
  "slotidx_enter mem x h slot =
     (case slotidx_insert mem x h (of_nat slot) of None \<Rightarrow> (False, x) | Some r \<Rightarrow> r)"

lemma slotidx_lookup_scan:
  assumes "slotidx_inv x" "\<And>i. P i \<Longrightarrow> i < n" "\<And>i. P i \<Longrightarrow> (h, i) \<in> slotidx_entries x"
  shows "slotidx_lookup x h P = scan_first n P"
  using idx.find_eq_scan [OF assms] by (simp add: slotidx_lookup_def)

lemma slotidx_lookup_Some:
  "slotidx_inv x \<Longrightarrow> slotidx_lookup x h P = Some i \<Longrightarrow> P i \<and> (h, i) \<in> slotidx_entries x"
  using idx.find_some [of x h P i] by (auto simp: slotidx_lookup_def split: option.splits)

lemma slotidx_lookup_None:
  "slotidx_inv x \<Longrightarrow> slotidx_lookup x h P = None \<Longrightarrow> (h, i) \<in> slotidx_entries x \<Longrightarrow> \<not> P i"
  using idx.find_none [of x h P] idx.find_ends [of x h P]
  by (auto simp: slotidx_lookup_def split: option.splits)

lemma slot_number:
  assumes "slot < 2 ^ 32 - 1"
  shows "unat (of_nat slot :: u32) = slot" "(of_nat slot :: u32) + 1 \<noteq> 0"
proof -
  show u: "unat (of_nat slot :: u32) = slot"
    using assms by (simp add: unat_of_nat)
  have "unat ((of_nat slot :: u32) + 1) = Suc slot"
    using assms u by (subst unat_Suc_small) simp_all
  then show "(of_nat slot :: u32) + 1 \<noteq> 0"
    by (metis nat.distinct(1) unat_0)
qed

lemma slotidx_enter_ok:
  assumes "slotidx_inv x" "unat (sx_used x) < SLOTIDX_ROOM" "slot < 2 ^ 32 - 1"
    and "slotidx_enter mem x h slot = (ok, y)"
  shows "slotidx_inv y" "slotidx_entries y = (if ok then insert (h, slot) (slotidx_entries x) else slotidx_entries x)"
    and "unat (sx_used y) \<le> Suc (unat (sx_used x))"
proof -
  note u = slot_number(1) [OF assms(3)] and nz = slot_number(2) [OF assms(3)]
  obtain b z where r: "slotidx_insert mem x h (of_nat slot) = Some (b, z)"
    using idx.ins_ends [OF assms(1,2) nz, of mem h] by (auto simp: not_None_eq)
  then have bz: "b = ok" "z = y"
    using assms(4) by (simp_all add: slotidx_enter_def)
  show "slotidx_inv y" "slotidx_entries y = (if ok then insert (h, slot) (slotidx_entries x) else slotidx_entries x)"
    "unat (sx_used y) \<le> Suc (unat (sx_used x))"
    using idx.ins_ok [OF assms(1,2) nz, of mem h y] idx.ins_fail [of mem x h "of_nat slot" y] r u assms(1)
    unfolding bz by (cases ok; auto)+
qed

lemma slotidx_hash_nocase_eq: "strcaseeq a b \<Longrightarrow> slotidx_hash_nocase a = slotidx_hash_nocase b"
  by (simp add: slotidx_hash_nocase_def strcaseeq_def)

lemma slotidx_free_ok: "slotidx_inv slotidx_free" "slotidx_entries slotidx_free = {}" "sx_used slotidx_free = 0"
  by (simp_all add: slotidx_inv_def free_facts)

subsection \<open>Properties\<close>

text \<open>C23: searching the index always ends and gives what a scan of the whole table would: the
  lowest slot, under the given hash, that the caller accepts.\<close>

theorem slotidx_find_least:
  assumes "slotidx_inv x"
  shows "(slotidx_find x h P = Some None \<longleftrightarrow> (\<forall>s. (h, s) \<in> slotidx_entries x \<longrightarrow> \<not> P s)) \<and>
     (slotidx_find x h P = Some (Some s) \<longleftrightarrow>
        (h, s) \<in> slotidx_entries x \<and> P s \<and> (\<forall>t. (h, t) \<in> slotidx_entries x \<and> P t \<longrightarrow> s \<le> t)) \<and>
     slotidx_find x h P \<noteq> None"
  by (intro conjI slotidx_find_Some [OF assms])

theorem slotidx_find_least_witness:
  "slotidx_find slotidx_free 7 (\<lambda>_. True) = Some None"
  using slotidx_find_least [OF slotidx_free_ok(1), of 7 "\<lambda>_. True"] by (simp add: slotidx_free_ok)

text \<open>Inserting, growing the table when it gets half full, ends and adds exactly the one
  entry; without memory the index is unchanged.\<close>

lemma slotidx_insert_adds:
  assumes "slotidx_inv x" "unat (sx_used x) < SLOTIDX_ROOM" "slot < 2 ^ 32 - 1"
  shows "slotidx_insert mem x h (of_nat slot) = Some (False, x) \<or>
     (\<exists>y. slotidx_insert mem x h (of_nat slot) = Some (True, y) \<and> slotidx_inv y \<and>
        slotidx_entries y = insert (h, slot) (slotidx_entries x))"
proof -
  note u = slot_number(1) [OF assms(3)] and nz = slot_number(2) [OF assms(3)]
  obtain ok y where r: "slotidx_insert mem x h (of_nat slot) = Some (ok, y)"
    using idx.ins_ends [OF assms(1,2) nz, of mem h] by (auto simp only: not_None_eq split_paired_Ex)
  show ?thesis
  proof (cases ok)
    case True
    with r have ins: "slotidx_insert mem x h (of_nat slot) = Some (True, y)" by (simp only:)
    from idx.ins_ok [OF assms(1,2) nz ins] show ?thesis unfolding u ins by blast
  next
    case False
    with r have ins: "slotidx_insert mem x h (of_nat slot) = Some (False, y)" by (simp only:)
    from idx.ins_fail [OF ins] show ?thesis unfolding ins by simp
  qed
qed


end
