(* ===== verification/Monocypher.thy ===== *)
theory Monocypher
  imports Prelude
begin

text \<open>
  The vendored cryptographic library (\<open>src/monocypher.c\<close>) is a parameter of the model: a
  record with one function per primitive the program calls.  Incremental hashing
  (init, update, final) is the hash of the concatenated input.  \<open>mono_ok\<close> is what the
  program relies on, as the library documents it: output lengths, decryption of what was
  encrypted, and commuting Diffie-Hellman.  Nothing is assumed about strength.
\<close>

record monocypher =
  mc_blake2b :: "nat \<Rightarrow> bytes \<Rightarrow> bytes"
  mc_blake2b_keyed :: "nat \<Rightarrow> bytes \<Rightarrow> bytes \<Rightarrow> bytes"
  mc_x25519 :: "bytes \<Rightarrow> bytes \<Rightarrow> bytes"
  mc_x25519_public_key :: "bytes \<Rightarrow> bytes"
  mc_aead_write :: "bytes \<Rightarrow> bytes \<Rightarrow> bytes \<Rightarrow> bytes \<Rightarrow> bytes \<times> bytes"
  mc_aead_read :: "bytes \<Rightarrow> bytes \<Rightarrow> bytes \<Rightarrow> bytes \<Rightarrow> bytes \<Rightarrow> bytes option"
  mc_argon2id :: "bytes \<Rightarrow> bytes \<Rightarrow> bytes"

definition mono_ok :: "monocypher \<Rightarrow> bool" where
  "mono_ok mc \<longleftrightarrow>
     (\<forall>n x. length (mc_blake2b mc n x) = n) \<and>
     (\<forall>n k x. length (mc_blake2b_keyed mc n k x) = n) \<and>
     (\<forall>a b. length (mc_x25519 mc a b) = 32) \<and>
     (\<forall>a. length (mc_x25519_public_key mc a) = 32) \<and>
     (\<forall>p s. length (mc_argon2id mc p s) = 32) \<and>
     (\<forall>a b. mc_x25519 mc a (mc_x25519_public_key mc b) = mc_x25519 mc b (mc_x25519_public_key mc a)) \<and>
     (\<forall>k n ad p c t. mc_aead_write mc k n ad p = (c, t) \<longrightarrow>
        length c = length p \<and> length t = 16 \<and> mc_aead_read mc k n ad c t = Some p) \<and>
     (\<forall>k n ad c t p. mc_aead_read mc k n ad c t = Some p \<longrightarrow> length p = length c)"

lemma mono_okD [len_simps]:
  assumes "mono_ok mc"
  shows "length (mc_blake2b mc n x) = n"
    and "length (mc_blake2b_keyed mc n k x) = n"
    and "length (mc_x25519 mc a b) = 32"
    and "length (mc_x25519_public_key mc a) = 32"
    and "length (mc_argon2id mc pass salt) = 32"
    and "length (fst (mc_aead_write mc k nonce ad p)) = length p"
    and "length (snd (mc_aead_write mc k nonce ad p)) = 16"
  using assms by (simp_all add: mono_ok_def) (metis prod.collapse)+

lemma mono_ok_dh:
  "mono_ok mc \<Longrightarrow>
   mc_x25519 mc a (mc_x25519_public_key mc b) = mc_x25519 mc b (mc_x25519_public_key mc a)"
  by (simp add: mono_ok_def)

lemma mono_ok_aead:
  "mono_ok mc \<Longrightarrow> mc_aead_write mc k n ad p = (c, t) \<Longrightarrow> mc_aead_read mc k n ad c t = Some p"
  by (simp add: mono_ok_def)

lemma mono_ok_read_length:
  "mono_ok mc \<Longrightarrow> mc_aead_read mc k n ad c t = Some p \<Longrightarrow> length p = length c"
  unfolding mono_ok_def by blast

text \<open>\<open>crypto_verify16\<close> and \<open>crypto_verify32\<close>: equality of the buffers.\<close>

definition crypto_verify :: "nat \<Rightarrow> bytes \<Rightarrow> bytes \<Rightarrow> bool" where
  "crypto_verify n a b \<longleftrightarrow> take n a = take n b"

text \<open>
  A concrete instance, to show that \<open>mono_ok\<close> can hold and to evaluate examples: a
  checksum for the hashes and a tag of the key and the nonce, so that a wrong key fails.
\<close>

definition toy_sum :: "bytes \<Rightarrow> u8" where
  "toy_sum x = foldl (\<lambda>s b. s * 3 + b + 1) 7 x"

definition toy_mono :: monocypher where
  "toy_mono =
     \<lparr>mc_blake2b = (\<lambda>n x. replicate n (toy_sum x)),
      mc_blake2b_keyed = (\<lambda>n k x. replicate n (toy_sum (k @ x))),
      mc_x25519 = (\<lambda>a b. replicate 32 (sum_list (take 1 a) + sum_list (take 1 b))),
      mc_x25519_public_key = (\<lambda>a. replicate 32 (sum_list (take 1 a))),
      mc_aead_write = (\<lambda>k n ad p. (p, replicate 16 (toy_sum (k @ n @ ad)))),
      mc_aead_read = (\<lambda>k n ad c t. if t = replicate 16 (toy_sum (k @ n @ ad)) then Some c else None),
      mc_argon2id = (\<lambda>p s. replicate 32 (toy_sum (p @ s)))\<rparr>"

lemma toy_mono_ok: "mono_ok toy_mono"
  by (simp add: mono_ok_def toy_mono_def add.commute)

end
