(* ===== verification/Util.thy ===== *)
theory Util
  imports Cstring
begin

text \<open>
  \<open>src/util.c\<close>: big-endian words, hexadecimal text, trimming, the validators of the
  configuration and of control messages, the control-message builder and token reader,
  and the IPv4 header check of forwarded packets.  A C status of 0/-1 is a truth value or
  an option holding what the call stores.
\<close>

subsection \<open>Model\<close>

definition write_be64 :: "u64 \<Rightarrow> bytes" where
  "write_be64 val = [ucast (drop_bit 56 val), ucast (drop_bit 48 val), ucast (drop_bit 40 val),
     ucast (drop_bit 32 val), ucast (drop_bit 24 val), ucast (drop_bit 16 val),
     ucast (drop_bit 8 val), ucast val]"

definition read_be64 :: "bytes \<Rightarrow> u64" where
  "read_be64 src = push_bit 56 (ucast (src ! 0)) OR push_bit 48 (ucast (src ! 1))
     OR push_bit 40 (ucast (src ! 2)) OR push_bit 32 (ucast (src ! 3))
     OR push_bit 24 (ucast (src ! 4)) OR push_bit 16 (ucast (src ! 5))
     OR push_bit 8 (ucast (src ! 6)) OR ucast (src ! 7)"

definition hex_chars :: string where
  "hex_chars = ''0123456789abcdef''"

text \<open>The text left in \<open>out\<close>: empty when it does not fit.\<close>

definition hex_encode :: "bytes \<Rightarrow> nat \<Rightarrow> string" where
  "hex_encode b out_size =
     (if length b * 2 + 1 > out_size then []
      else concat (map (\<lambda>x. [hex_chars ! unat (drop_bit 4 x), hex_chars ! unat (x AND 0x0f)]) b))"

definition trim_whitespace :: "string \<Rightarrow> string" where
  "trim_whitespace text = rev (dropWhile isspace (rev (dropWhile isspace text)))"

definition validate_ipv4 :: "string \<Rightarrow> bool" where
  "validate_ipv4 value = (inet_pton value \<noteq> None)"

text \<open>\<open>strchr(buffer, '/')\<close>: the text before the first slash and the text after it.\<close>

definition cut_at :: "char \<Rightarrow> string \<Rightarrow> (string \<times> string) option" where
  "cut_at c s = (if c \<in> set s then Some (takeWhile (\<lambda>x. x \<noteq> c) s, tl (dropWhile (\<lambda>x. x \<noteq> c) s))
                 else None)"

text \<open>The address and prefix of \<open>address/prefix\<close>, as both CIDR readers check it.\<close>

definition cidr_parts :: "string \<Rightarrow> (string \<times> nat) option" where
  "cidr_parts cidr =
     (if length cidr \<ge> 32 then None
      else case cut_at (CHR ''/'') cidr of
             None \<Rightarrow> None
           | Some (addr, pfx) \<Rightarrow>
               (if addr = [] \<or> pfx = [] then None
                else if inet_pton addr = None then None
                else (case strtol pfx of
                        (prefix, end, erange) \<Rightarrow>
                          if erange \<or> end = pfx \<or> end \<noteq> [] \<or> prefix < 0 \<or> prefix > 32
                          then None else Some (addr, nat prefix))))"

definition validate_route_cidr :: "string \<Rightarrow> bool" where
  "validate_route_cidr cidr = (cidr = [] \<or> cidr_parts cidr \<noteq> None)"

fun validate_route_list :: "string list \<Rightarrow> bool" where
  "validate_route_list [] = True"
| "validate_route_list (r # rs) = (if \<not> validate_route_cidr r then False else validate_route_list rs)"

definition prefix_mask :: "nat \<Rightarrow> u32" where
  "prefix_mask prefix = (if prefix = 0 then 0 else push_bit (32 - prefix) (NOT 0))"

text \<open>The address text and the netmask text, for buffers of these sizes.\<close>

definition parse_local_cidr :: "string \<Rightarrow> nat \<Rightarrow> nat \<Rightarrow> (string \<times> string) option" where
  "parse_local_cidr cidr ip_size netmask_size =
     (if cidr = [] then None
      else case cidr_parts cidr of
             None \<Rightarrow> None
           | Some (addr, prefix) \<Rightarrow>
               (let mask = inet_ntop (htonl (prefix_mask prefix))
                in if length addr \<ge> ip_size \<or> length mask \<ge> netmask_size then None
                   else Some (addr, mask)))"

definition parse_ranged :: "int \<Rightarrow> int \<Rightarrow> string \<Rightarrow> int option" where
  "parse_ranged lo hi value =
     (if value = [] then None
      else case strtol value of
             (parsed, end, erange) \<Rightarrow>
               if erange \<or> end = value \<or> end \<noteq> [] \<or> parsed < lo \<or> parsed > hi
               then None else Some parsed)"

definition parse_port :: "string \<Rightarrow> int option" where
  "parse_port value = parse_ranged 1 65535 value"

definition parse_mtu :: "string \<Rightarrow> int option" where
  "parse_mtu value = parse_ranged 576 9000 value"

definition copy_option :: "nat \<Rightarrow> string \<Rightarrow> string option" where
  "copy_option dest_size value =
     (if dest_size = 0 \<or> value = [] then None
      else if length value \<ge> dest_size then None
      else Some (fit dest_size value))"

definition CAMEX_MAX_ROUTES :: nat where
  "CAMEX_MAX_ROUTES = 16"

text \<open>\<open>routes[0..count)\<close> as a list; each entry is 32 bytes.\<close>

definition append_route_option :: "string list \<Rightarrow> string \<Rightarrow> string list option" where
  "append_route_option routes value =
     (if value = [] then None
      else if length routes \<ge> CAMEX_MAX_ROUTES then None
      else if \<not> validate_route_cidr value then None
      else if length value \<ge> 32 then None
      else Some (routes @ [fit 32 value]))"

text \<open>\<open>buffer[0..offset)\<close> as a string; \<open>txt\<close> is the formatted field.\<close>

definition append_control_field :: "nat \<Rightarrow> string \<Rightarrow> string \<Rightarrow> string option" where
  "append_control_field n buffer txt =
     (if length buffer \<ge> n then None
      else if length txt \<ge> n - length buffer then None
      else Some (buffer @ txt))"

definition token_value :: "string \<Rightarrow> string \<Rightarrow> nat \<Rightarrow> string option" where
  "token_value token key value_size =
     (if value_size = 0 then None
      else if take (length key) token \<noteq> key \<or> length token \<le> length key
              \<or> token ! length key \<noteq> CHR ''=''
      then None
      else copy_option value_size (drop (length key + 1) token))"

definition is_zero_key :: "bytes \<Rightarrow> bool" where
  "is_zero_key key = list_all (\<lambda>b. b = 0) (take 32 key)"

text \<open>Source and destination, as loaded by \<open>memcpy\<close> (network order).\<close>

definition ipv4_parse_endpoints :: "bytes \<Rightarrow> (u32 \<times> u32) option" where
  "ipv4_parse_endpoints packet =
     (if length packet < 20 then None
      else let version = drop_bit 4 (packet ! 0); ihl = packet ! 0 AND 0x0f;
               hdr_len = unat ihl * 4
           in if version \<noteq> 4 \<or> ihl < 5 \<or> length packet < hdr_len then None
              else Some (load_le32 (drop 12 packet), load_le32 (drop 16 packet)))"

text \<open>
  \<open>read_key_file\<close> on the file's content: \<open>fgets\<close> takes at most 255 characters of the
  first line, C then sees it up to a NUL.
\<close>

fun fgets_line :: "nat \<Rightarrow> string \<Rightarrow> string" where
  "fgets_line 0 s = []"
| "fgets_line (Suc n) [] = []"
| "fgets_line (Suc n) (c # cs) = (if c = CHR 0x0A then [c] else c # fgets_line n cs)"

definition sp_tab :: "char \<Rightarrow> bool" where
  "sp_tab c \<longleftrightarrow> c = CHR '' '' \<or> c = CHR 0x09"

definition read_key_file :: "string \<Rightarrow> nat \<Rightarrow> string option" where
  "read_key_file content out_size =
     (if content = [] then None
      else let line = takeWhile (\<lambda>c. c \<noteq> CHR 0x00) (fgets_line 255 content);
               p = dropWhile sp_tab line;
               q = (if take 11 p = ''server_key='' then dropWhile sp_tab (drop 11 p) else p);
               r = rev (dropWhile blank (rev q))
           in if r = [] \<or> length r \<ge> out_size then None else Some r)"

subsection \<open>Big-endian words\<close>

lemma write_be64_le: "write_be64 v = rev (le_bytes 8 v)"
  by (simp add: write_be64_def le_bytes_def upt_rec)

lemma read_be64_le:
  assumes "length p = 8"
  shows "read_be64 (p @ rest) = le_value (rev p)"
proof -
  obtain a b c d e f g h where p: "p = [a, b, c, d, e, f, g, h]"
    using assms by (auto simp: length_Suc_conv numeral_eq_Suc)
  have "(p @ rest) ! 0 = a" "(p @ rest) ! 1 = b" "(p @ rest) ! 2 = c" "(p @ rest) ! 3 = d"
    "(p @ rest) ! 4 = e" "(p @ rest) ! 5 = f" "(p @ rest) ! 6 = g" "(p @ rest) ! 7 = h"
    by (simp_all add: p)
  moreover have "rev p = [h, g, f, e, d, c, b, a]"
    by (simp add: p)
  ultimately show ?thesis
    by (simp only: read_be64_def shifted_or8 le_value_Cons le_value_Nil)
qed

interpretation be64: codec write_be64 read_be64 8
proof unfold_locales
  fix v rest
  show "length (write_be64 v) = 8"
    by (simp add: write_be64_def)
  then show "read_be64 (write_be64 v @ rest) = v"
    by (simp add: read_be64_le) (simp add: write_be64_le le_value_bytes take_bit_word_eq_self)
qed

subsection \<open>Options, tokens and fields\<close>

lemma fit_id: "length s < n \<Longrightarrow> fit n s = s"
  by (simp add: fit_def)

lemma length_fit: "0 < n \<Longrightarrow> length (fit n s) < n"
  by (auto simp: fit_def)

lemma copy_option_Some_iff:
  "copy_option n v = Some w \<longleftrightarrow> v \<noteq> [] \<and> length v < n \<and> w = v"
  by (auto simp: copy_option_def fit_id)

lemma copy_option_eq: "v \<noteq> [] \<Longrightarrow> length v < n \<Longrightarrow> copy_option n v = Some v"
  by (simp add: copy_option_Some_iff)

lemma token_value_field: "0 < n \<Longrightarrow> token_value (key @ CHR ''='' # v) key n = copy_option n v"
  by (auto simp: token_value_def nth_append)

lemma token_value_Some:
  assumes "token_value token key n = Some v"
  shows "token = key @ CHR ''='' # v" and "v \<noteq> []" and "length v < n"
proof -
  have t: "take (length key) token = key" "length key < length token" "token ! length key = CHR ''=''"
      and v: "copy_option n (drop (length key + 1) token) = Some v"
    using assms by (auto simp: token_value_def not_le split: if_splits)
  then have "v = drop (length key + 1) token"
    by (simp add: copy_option_Some_iff)
  then show "token = key @ CHR ''='' # v"
    using t by (metis Suc_eq_plus1 append_take_drop_id Cons_nth_drop_Suc)
  show "v \<noteq> []" and "length v < n"
    using v by (auto simp: copy_option_Some_iff)
qed

lemma append_field_Some_iff:
  "append_control_field n b t = Some b' \<longleftrightarrow> b' = b @ t \<and> length (b @ t) < n"
  by (auto simp: append_control_field_def)

lemma append_route_Some:
  assumes "append_route_option rs v = Some rs'"
  shows "rs' = rs @ [v]" and "validate_route_cidr v" and "length rs' \<le> CAMEX_MAX_ROUTES"
    and "v \<noteq> []" and "length v < 32"
  using assms by (auto simp: append_route_option_def fit_id not_le split: if_splits)

lemma append_route_eq:
  "v \<noteq> [] \<Longrightarrow> length rs < CAMEX_MAX_ROUTES \<Longrightarrow> validate_route_cidr v \<Longrightarrow> length v < 32 \<Longrightarrow>
   append_route_option rs v = Some (rs @ [v])"
  by (simp add: append_route_option_def fit_id)

lemma trim_no_space:
  assumes "trim_whitespace s = t"
  shows "t \<noteq> [] \<Longrightarrow> \<not> isspace (hd t)" and "t \<noteq> [] \<Longrightarrow> \<not> isspace (last t)"
proof -
  let ?d = "dropWhile isspace s"
  have t: "t = rev (dropWhile isspace (rev ?d))"
    using assms by (simp add: trim_whitespace_def)
  show "\<not> isspace (last t)" if "t \<noteq> []"
    using that unfolding t by (metis hd_dropWhile last_rev rev_is_Nil_conv)
  show "\<not> isspace (hd t)" if "t \<noteq> []"
  proof -
    obtain pre where "rev ?d = pre @ dropWhile isspace (rev ?d)"
      by (metis takeWhile_dropWhile_id)
    then have "?d = t @ rev pre"
      unfolding t by (metis rev_append rev_rev_ident)
    then have "hd t = hd ?d" and "?d \<noteq> []"
      using that by (auto simp: hd_append)
    then show ?thesis
      by (metis hd_dropWhile)
  qed
qed

lemma trim_idem: "trim_whitespace (trim_whitespace s) = trim_whitespace s"
proof -
  have id: "dropWhile isspace u = u" if "u \<noteq> [] \<Longrightarrow> \<not> isspace (hd u)" for u
    using that by (cases u) auto
  let ?t = "trim_whitespace s"
  have "dropWhile isspace ?t = ?t"
    by (rule id) (rule trim_no_space(1) [OF refl])
  moreover have "dropWhile isspace (rev ?t) = rev ?t"
    by (rule id) (metis hd_rev rev_is_Nil_conv trim_no_space(2) [OF refl])
  ultimately show ?thesis
    by (simp add: trim_whitespace_def [of ?t])
qed

subsection \<open>CIDR text\<close>

lemma cut_at_parts: "c \<notin> set a \<Longrightarrow> cut_at c (a @ c # b) = Some (a, b)"
  by (induction a) (auto simp: cut_at_def)

lemma cut_at_Some: "cut_at c s = Some (a, b) \<Longrightarrow> s = a @ c # b \<and> c \<notin> set a"
proof (induction s arbitrary: a)
  case Nil
  then show ?case by (simp add: cut_at_def)
next
  case (Cons x xs)
  show ?case
  proof (cases "x = c")
    case True
    then show ?thesis
      using Cons.prems by (auto simp: cut_at_def)
  next
    case False
    then obtain a' where "a = x # a'" and "cut_at c xs = Some (a', b)"
      using Cons.prems by (auto simp: cut_at_def split: if_splits)
    then show ?thesis
      using Cons.IH False by simp
  qed
qed

lemma cidr_parts_sound:
  assumes "cidr_parts cidr = Some (addr, prefix)"
  shows "inet_pton addr \<noteq> None" and "prefix \<le> 32" and "length cidr < 32"
    and "\<exists>rest. cidr = addr @ CHR ''/'' # rest"
proof -
  show "inet_pton addr \<noteq> None" "prefix \<le> 32" "length cidr < 32"
    using assms by (auto simp: cidr_parts_def not_le split: if_splits option.splits prod.splits)
  have "\<exists>r. cut_at (CHR ''/'') cidr = Some (addr, r)"
    using assms by (auto simp: cidr_parts_def split: if_splits option.splits prod.splits)
  then show "\<exists>rest. cidr = addr @ CHR ''/'' # rest"
    using cut_at_Some by blast
qed

lemma cidr_parts_text:
  assumes "p \<le> 32"
  shows "cidr_parts (inet_ntop a @ ''/'' @ dec p) = Some (inet_ntop a, p)"
proof -
  have "CHR ''/'' \<notin> set (inet_ntop a)"
    using inet_ntop_chars digit_not_special(5) by blast
  then have cut: "cut_at (CHR ''/'') (inet_ntop a @ CHR ''/'' # dec p) = Some (inet_ntop a, dec p)"
    by (simp add: cut_at_parts)
  have "length (dec p) \<le> 2"
    using assms by (intro length_dec) simp_all
  moreover have "strtol (dec p) = (int p, [], False)"
    using assms by (intro strtol_dec) simp
  moreover have "inet_ntop a \<noteq> []"
    using word_text_inet_ntop by (auto simp: word_text_def)
  ultimately show ?thesis
    using length_inet_ntop [of a] assms by (simp add: cidr_parts_def cut)
qed

lemma validate_route_text: "p \<le> 32 \<Longrightarrow> validate_route_cidr (inet_ntop a @ ''/'' @ dec p)"
  by (simp only: validate_route_cidr_def cidr_parts_text) simp

lemma parse_local_cidr_text:
  "p \<le> 32 \<Longrightarrow> parse_local_cidr (inet_ntop a @ ''/'' @ dec p) 16 16
    = Some (inet_ntop a, inet_ntop (htonl (prefix_mask p)))"
  using length_inet_ntop [of a] length_inet_ntop [of "htonl (prefix_mask p)"]
  unfolding parse_local_cidr_def by (simp only: cidr_parts_text) (simp add: Let_def)

lemma parse_local_cidr_sound:
  assumes "parse_local_cidr cidr n m = Some (ip, mk)"
  shows "inet_pton ip \<noteq> None" and "inet_pton mk \<noteq> None" and "cidr \<noteq> []"
    and "length ip < n" and "length mk < m"
proof -
  obtain p where "cidr_parts cidr = Some (ip, p)" and "mk = inet_ntop (htonl (prefix_mask p))"
      and "cidr \<noteq> []" and "length ip < n" and "length mk < m"
    using assms by (auto simp: parse_local_cidr_def Let_def not_le split: if_splits option.splits)
  then show "inet_pton ip \<noteq> None" and "inet_pton mk \<noteq> None" and "cidr \<noteq> []"
    and "length ip < n" and "length mk < m"
    using cidr_parts_sound(1) by auto
qed

lemma parse_ranged_bounds: "parse_ranged lo hi v = Some n \<Longrightarrow> lo \<le> n \<and> n \<le> hi"
  by (auto simp: parse_ranged_def split: if_splits prod.splits)

lemma parse_ranged_dec:
  "lo \<le> int n \<Longrightarrow> int n \<le> hi \<Longrightarrow> hi < 2 ^ 63 \<Longrightarrow> parse_ranged lo hi (dec n) = Some (int n)"
  by (simp add: parse_ranged_def strtol_dec)

lemma endpoints_header:
  assumes "ipv4_parse_endpoints p = Some (s, d)"
  shows "20 \<le> length p" and "s = load_le32 (drop 12 p)" and "d = load_le32 (drop 16 p)"
    and "drop_bit 4 (p ! 0) = 4"
  using assms by (auto simp: ipv4_parse_endpoints_def Let_def not_less split: if_splits)

end
