(* ===== verification/Keys.thy ===== *)
theory Keys
  imports Monocypher Util
begin

text \<open>
  \<open>src/keys.c\<close>: base64 and hexadecimal key texts, and keys from pre-shared key strings
  with the cache of derived passphrase keys.  Base64 is shown to round-trip; the cache is
  shown transparent, bounded and undone by a rolled-back reload.
\<close>

subsection \<open>Model\<close>

definition KEY_LEN :: nat where "KEY_LEN = 32"
definition KEY_B64_LEN :: nat where "KEY_B64_LEN = 44"

definition b64_chars :: string where
  "b64_chars = ''ABCDEFGHIJKLMNOPQRSTUVWXYZabcdefghijklmnopqrstuvwxyz0123456789+/''"

text \<open>One turn of the encoding loop on the bytes from \<open>in[i]\<close> on.\<close>

definition b64_quad :: "bytes \<Rightarrow> string" where
  "b64_quad inp =
     (let v0 = push_bit 16 (ucast (inp ! 0)) :: u32;
          v1 = (if 1 < length inp then v0 OR push_bit 8 (ucast (inp ! 1)) else v0);
          v = (if 2 < length inp then v1 OR ucast (inp ! 2) else v1);
          ch = (\<lambda>k. b64_chars ! unat (drop_bit k v AND 0x3f))
      in [ch 18, ch 12, if 1 < length inp then ch 6 else CHR ''='',
          if 2 < length inp then ch 0 else CHR ''=''])"

fun b64_encode_loop :: "bytes \<Rightarrow> string" where
  "b64_encode_loop [] = []"
| "b64_encode_loop (b # bs) = b64_quad (b # bs) @ b64_encode_loop (drop 2 bs)"

definition key_base64_encode :: "bytes \<Rightarrow> nat \<Rightarrow> string option" where
  "key_base64_encode inp out_size =
     (if out_size < (length inp + 2) div 3 * 4 + 1 then None else Some (b64_encode_loop inp))"

text \<open>\<open>strchr\<close> in the alphabet: the position, or -1.\<close>

definition b64_value :: "char \<Rightarrow> int" where
  "b64_value c = (case scan_first (length b64_chars) (\<lambda>i. b64_chars ! i = c) of
                    None \<Rightarrow> - 1 | Some i \<Rightarrow> int i)"

text \<open>One turn of the decoding loop; \<open>final\<close> is \<open>i + 4 == len\<close>.\<close>

definition b64_unquad :: "char \<Rightarrow> char \<Rightarrow> char \<Rightarrow> char \<Rightarrow> bool \<Rightarrow> bytes option" where
  "b64_unquad ca cb cc cd final =
     (let a = b64_value ca; b = b64_value cb;
          c = (if cc = CHR ''='' then - 2 else b64_value cc);
          d = (if cd = CHR ''='' then - 2 else b64_value cd)
      in if a < 0 \<or> b < 0 \<or> c = - 1 \<or> d = - 1 \<or> (c = - 2 \<and> d \<noteq> - 2)
            \<or> ((c = - 2 \<or> d = - 2) \<and> \<not> final)
         then None
         else let v = push_bit 18 (of_int a) OR push_bit 12 (of_int b)
                        OR push_bit 6 (if c < 0 then 0 else of_int c)
                        OR (if d < 0 then 0 else of_int d) :: u32
              in Some ([ucast (drop_bit 16 v)] @ (if c \<ge> 0 then [ucast (drop_bit 8 v)] else [])
                         @ (if d \<ge> 0 then [ucast v] else [])))"

fun b64_decode_loop :: "nat \<Rightarrow> bytes \<Rightarrow> string \<Rightarrow> bytes option" where
  "b64_decode_loop out_size out (a # b # c # d # rest) =
     (case b64_unquad a b c d (rest = []) of
        None \<Rightarrow> None
      | Some bs \<Rightarrow> (if length out + length bs > out_size then None
                    else b64_decode_loop out_size (out @ bs) rest))"
| "b64_decode_loop out_size out _ = Some out"

definition key_base64_decode :: "string \<Rightarrow> nat \<Rightarrow> bytes option" where
  "key_base64_decode inp out_size =
     (if length inp = 0 \<or> length inp mod 4 \<noteq> 0 then None else b64_decode_loop out_size [] inp)"

definition key_parse_b64 :: "string \<Rightarrow> bytes option" where
  "key_parse_b64 txt =
     (case key_base64_decode txt (KEY_LEN + 3) of
        None \<Rightarrow> None | Some buf \<Rightarrow> (if length buf \<noteq> KEY_LEN then None else Some buf))"

definition hex_value :: "char \<Rightarrow> int" where
  "hex_value c =
     (let n = of_char c
      in if 48 \<le> n \<and> n \<le> 57 then n - 48
         else if 97 \<le> n \<and> n \<le> 102 then n - 97 + 10
         else if 65 \<le> n \<and> n \<le> 70 then n - 65 + 10
         else - 1)"

fun hex_loop :: "string \<Rightarrow> bytes option" where
  "hex_loop (h # l # rest) =
     (let hi = hex_value h; lo = hex_value l
      in if hi < 0 \<or> lo < 0 then None
         else map_option (\<lambda>ks. of_int (hi * 16 + lo) # ks) (hex_loop rest))"
| "hex_loop _ = Some []"

definition parse_hex_key :: "string \<Rightarrow> bytes option" where
  "parse_hex_key txt = (if length txt \<noteq> KEY_LEN * 2 then None else hex_loop txt)"

text \<open>
  The cache of Argon2id results.  \<open>k_locked\<close> is \<open>key_memory_locked\<close>.  What the system
  gives in one derivation is a parameter: whether the work area can be allocated, whether
  the memory can be unlocked for it, and whether it can be allocated then.
\<close>

definition KEY_CACHE_SIZE :: nat where "KEY_CACHE_SIZE = 260"

record key_cache_entry =
  kc_id :: bytes
  kc_key :: bytes
  kc_used :: bool
  kc_seen :: bool
  kc_fresh :: bool

record key_state =
  k_cache :: "key_cache_entry list"
  k_next :: nat
  k_id_key :: bytes
  k_id_ready :: bool
  k_locked :: bool

record key_env =
  ke_malloc :: bool
  ke_munlock :: bool
  ke_malloc_unlocked :: bool

datatype key_err = KEY_ERR_BAD | KEY_ERR_NOMEM

definition kc_zero :: key_cache_entry where
  "kc_zero = \<lparr>kc_id = replicate 32 0, kc_key = replicate 32 0, kc_used = False,
     kc_seen = False, kc_fresh = False\<rparr>"

definition key_start :: key_state where
  "key_start = \<lparr>k_cache = replicate KEY_CACHE_SIZE kc_zero, k_next = 0,
     k_id_key = replicate 32 0, k_id_ready = False, k_locked = False\<rparr>"

definition key_set_memory_locked :: "bool \<Rightarrow> key_state \<Rightarrow> key_state" where
  "key_set_memory_locked b st = st\<lparr>k_locked := b\<rparr>"

text \<open>
  \<open>key_locked_calloc\<close>: whether the block is allocated, and the state.  \<open>ok1\<close> and
  \<open>ok2\<close> are the two calls of \<open>calloc\<close>, \<open>un\<close> and \<open>re\<close> that \<open>munlockall\<close> and
  \<open>mlockall\<close> succeed.
\<close>

definition key_locked_calloc ::
  "bool \<Rightarrow> bool \<Rightarrow> bool \<Rightarrow> bool \<Rightarrow> nat \<Rightarrow> nat \<Rightarrow> key_state \<Rightarrow> bool \<times> key_state" where
  "key_locked_calloc ok1 un ok2 re count elem st =
     (if \<not> ok1 \<and> count \<noteq> 0 \<and> elem \<noteq> 0 \<and> k_locked st \<and> un
      then (ok2, if \<not> re then st\<lparr>k_locked := False\<rparr> else st)
      else (ok1, st))"

definition key_cache_clear :: "key_state \<Rightarrow> key_state" where
  "key_cache_clear st = st\<lparr>k_cache := replicate KEY_CACHE_SIZE kc_zero,
     k_id_key := replicate 32 0, k_id_ready := False, k_next := 0\<rparr>"

definition key_cache_mark :: "key_state \<Rightarrow> key_state" where
  "key_cache_mark st = st\<lparr>k_cache := map (\<lambda>e. e\<lparr>kc_seen := False, kc_fresh := False\<rparr>) (k_cache st)\<rparr>"

definition key_cache_drop_new :: "key_state \<Rightarrow> key_state" where
  "key_cache_drop_new st =
     st\<lparr>k_cache := map (\<lambda>e. if kc_used e \<and> kc_fresh e then kc_zero else e) (k_cache st)\<rparr>"

definition key_cache_sweep :: "key_state \<Rightarrow> key_state" where
  "key_cache_sweep st =
     st\<lparr>k_cache := map (\<lambda>e. if kc_used e \<and> \<not> kc_seen e then kc_zero else e) (k_cache st)\<rparr>"

definition KEY_ARGON2_SALT :: bytes where
  "KEY_ARGON2_SALT = str_bytes ''camex-v2-psk-kdf''"

definition argon2id :: "monocypher \<Rightarrow> key_env \<Rightarrow> bool \<Rightarrow> string \<Rightarrow> key_err + bytes" where
  "argon2id mc env locked pass =
     (if ke_malloc env \<or> locked \<and> ke_munlock env \<and> ke_malloc_unlocked env
      then Inr (mc_argon2id mc (str_bytes pass) KEY_ARGON2_SALT) else Inl KEY_ERR_NOMEM)"

definition raw_key_nonzero :: "bytes \<Rightarrow> key_err + bytes" where
  "raw_key_nonzero key =
     (if crypto_verify 32 key (replicate KEY_LEN 0) then Inl KEY_ERR_BAD else Inr key)"

text \<open>\<open>id_seed\<close> is the random identity key, drawn when there is none (\<open>None\<close>: no entropy).\<close>

definition key_cache_ready :: "bytes option \<Rightarrow> key_state \<Rightarrow> key_state" where
  "key_cache_ready id_seed st =
     (if k_id_ready st then st
      else case id_seed of None \<Rightarrow> st | Some s \<Rightarrow> st\<lparr>k_id_key := s, k_id_ready := True\<rparr>)"

definition key_cache_store :: "bytes \<Rightarrow> bytes \<Rightarrow> key_state \<Rightarrow> key_state" where
  "key_cache_store ident key st =
     (let (slot, nxt) = (case scan_first KEY_CACHE_SIZE (\<lambda>i. \<not> kc_used (k_cache st ! i)) of
                           Some i \<Rightarrow> (i, k_next st)
                         | None \<Rightarrow> (k_next st, (k_next st + 1) mod KEY_CACHE_SIZE))
      in st\<lparr>k_cache := (k_cache st)[slot := \<lparr>kc_id = ident, kc_key = key, kc_used = True,
               kc_seen = True, kc_fresh = True\<rparr>], k_next := nxt\<rparr>)"

definition key_from_psk ::
  "monocypher \<Rightarrow> key_env \<Rightarrow> bytes option \<Rightarrow> string \<Rightarrow> key_state \<Rightarrow> key_state \<times> (key_err + bytes)" where
  "key_from_psk mc env id_seed psk st =
     (if psk = [] then (st, Inl KEY_ERR_BAD)
      else if take 4 psk = ''hex:'' then
        (st, case parse_hex_key (drop 4 psk) of None \<Rightarrow> Inl KEY_ERR_BAD | Some k \<Rightarrow> raw_key_nonzero k)
      else if take 7 psk = ''base64:'' then
        (st, case key_parse_b64 (drop 7 psk) of None \<Rightarrow> Inl KEY_ERR_BAD | Some k \<Rightarrow> raw_key_nonzero k)
      else let st1 = key_cache_ready id_seed st
           in if \<not> k_id_ready st1 then (st1, argon2id mc env (k_locked st1) psk)
              else let ident = mc_blake2b_keyed mc 32 (k_id_key st1) (str_bytes psk)
                   in case scan_first KEY_CACHE_SIZE
                        (\<lambda>i. kc_used (k_cache st1 ! i) \<and> crypto_verify 32 (kc_id (k_cache st1 ! i)) ident) of
                        Some i \<Rightarrow>
                          (st1\<lparr>k_cache := (k_cache st1)[i := (k_cache st1 ! i)\<lparr>kc_seen := True\<rparr>]\<rparr>,
                           Inr (kc_key (k_cache st1 ! i)))
                      | None \<Rightarrow>
                          (case argon2id mc env (k_locked st1) psk of
                             Inl e \<Rightarrow> (st1, Inl e)
                           | Inr key \<Rightarrow> (key_cache_store ident key st1, Inr key)))"

text \<open>
  The private key is written to the caller's buffer as soon as it parses, and wiped again
  when it is zero: the new content of that buffer, and the public key.
\<close>

definition key_server_from_b64 :: "monocypher \<Rightarrow> string \<Rightarrow> bytes \<Rightarrow> bytes \<times> bytes option" where
  "key_server_from_b64 mc priv_b64 priv_old =
     (case key_parse_b64 priv_b64 of
        None \<Rightarrow> (priv_old, None)
      | Some priv \<Rightarrow>
          (if crypto_verify 32 priv (replicate KEY_LEN 0) then (replicate KEY_LEN 0, None)
           else (priv, Some (mc_x25519_public_key mc priv))))"

definition key_generate :: "monocypher \<Rightarrow> bytes option \<Rightarrow> (string \<times> string) option" where
  "key_generate mc seed =
     (case seed of
        None \<Rightarrow> None
      | Some priv \<Rightarrow>
          (case (key_base64_encode priv (KEY_B64_LEN + 1),
                 key_base64_encode (mc_x25519_public_key mc priv) (KEY_B64_LEN + 1)) of
             (Some a, Some b) \<Rightarrow> Some (a, b) | _ \<Rightarrow> None))"

subsection \<open>Base64 round trip\<close>

lemma b64_value_char:
  assumes "k < 64"
  shows "b64_value (b64_chars ! k) = int k" "b64_chars ! k \<noteq> CHR ''=''"
proof -
  have "distinct b64_chars" "length b64_chars = 64" "CHR ''='' \<notin> set b64_chars"
    by (simp_all add: b64_chars_def)
  then have "scan_first (length b64_chars) (\<lambda>i. b64_chars ! i = b64_chars ! k) = Some k"
    using assms by (auto simp: scan_first_Some_iff nth_eq_iff_index_eq)
  then show "b64_value (b64_chars ! k) = int k"
    by (simp add: b64_value_def)
  show "b64_chars ! k \<noteq> CHR ''=''"
    using \<open>CHR ''='' \<notin> set b64_chars\<close> \<open>length b64_chars = 64\<close> assms by (metis nth_mem)
qed

lemma sextet_bound: "unat (w AND 0x3f :: u32) < 64"
  using word_and_le1 [of w "0x3f"] by (simp add: word_le_nat_alt)

lemma b64_sextet:
  "b64_value (b64_chars ! unat (w AND 0x3f :: u32)) = int (unat (w AND 0x3f))"
  "b64_chars ! unat (w AND 0x3f :: u32) \<noteq> CHR ''=''"
  using b64_value_char [OF sextet_bound] by simp_all

lemma mask6: "(0x3f :: u32) = mask 6"
  by (simp add: mask_eq_exp_minus_1)

lemma b64_regroup:
  fixes v :: u32
  assumes "\<And>n. bit v n \<Longrightarrow> n < 24"
  shows "push_bit 18 (drop_bit 18 v AND 0x3f) OR push_bit 12 (drop_bit 12 v AND 0x3f)
     OR push_bit 6 (drop_bit 6 v AND 0x3f) OR (v AND 0x3f) = v"
proof (rule bit_word_eqI)
  fix n assume n: "n < LENGTH(32)"
  consider "n < 6" | "6 \<le> n" "n < 12" | "12 \<le> n" "n < 18" | "18 \<le> n" "n < 24" | "24 \<le> n" by linarith
  then show "bit (push_bit 18 (drop_bit 18 v AND 0x3f) OR push_bit 12 (drop_bit 12 v AND 0x3f)
     OR push_bit 6 (drop_bit 6 v AND 0x3f) OR (v AND 0x3f)) n = bit v n"
    by cases (use n assms [of n] in \<open>auto simp: mask6 bit_simps\<close>)
qed

lemma b64_bytes_bits:
  fixes a b c :: u8
  shows "bit (push_bit 16 (ucast a) OR push_bit 8 (ucast b) OR ucast c :: u32) n \<Longrightarrow> n < 24"
    and "ucast (drop_bit 16 (push_bit 16 (ucast a) OR push_bit 8 (ucast b) OR ucast c :: u32)) = a"
    and "ucast (drop_bit 8 (push_bit 16 (ucast a) OR push_bit 8 (ucast b) OR ucast c :: u32)) = b"
    and "ucast (push_bit 16 (ucast a) OR push_bit 8 (ucast b) OR ucast c :: u32) = c"
  subgoal by (auto simp: bit_simps dest: bit_imp_le_length)
  subgoal by (rule bit_word_eqI) (auto simp: bit_simps dest: bit_imp_le_length)
  subgoal by (rule bit_word_eqI) (auto simp: bit_simps dest: bit_imp_le_length)
  subgoal by (rule bit_word_eqI) (auto simp: bit_simps dest: bit_imp_le_length)
  done

definition b64_word :: "u8 \<Rightarrow> u8 \<Rightarrow> u8 \<Rightarrow> u32" where
  "b64_word a b c = push_bit 16 (ucast a) OR push_bit 8 (ucast b) OR ucast c"

lemma b64_word_parts:
  "push_bit 18 (drop_bit 18 (b64_word a b c) AND 0x3f) OR push_bit 12 (drop_bit 12 (b64_word a b c) AND 0x3f)
     OR push_bit 6 (drop_bit 6 (b64_word a b c) AND 0x3f) OR (b64_word a b c AND 0x3f) = b64_word a b c"
  "ucast (drop_bit 16 (b64_word a b c)) = a" "ucast (drop_bit 8 (b64_word a b c)) = b" "ucast (b64_word a b c) = c"
  "b64_word a b 0 AND 0x3f = 0" "drop_bit 6 (b64_word a 0 0) AND 0x3f = 0"
  unfolding b64_word_def
  using b64_regroup [OF b64_bytes_bits(1) [of a b c]] b64_bytes_bits(2-4) [of a b c]
       apply (simp_all only:)
  subgoal by (rule bit_word_eqI) (auto simp: mask6 bit_simps)
  subgoal by (rule bit_word_eqI) (auto simp: mask6 bit_simps)
  done

lemma of_int_sextet: "(of_int (int (unat w)) :: u32) = w"
  by simp

lemma b64_unquad_word:
  fixes v :: u32
  defines "ch \<equiv> \<lambda>k. b64_chars ! unat (drop_bit k v AND 0x3f)"
  shows "v = b64_word a b c \<Longrightarrow> b64_unquad (ch 18) (ch 12) (ch 6) (ch 0) fin = Some [a, b, c]"
    and "v = b64_word a b 0 \<Longrightarrow> b64_unquad (ch 18) (ch 12) (ch 6) (CHR ''='') True = Some [a, b]"
    and "v = b64_word a 0 0 \<Longrightarrow> b64_unquad (ch 18) (ch 12) (CHR ''='') (CHR ''='') True = Some [a]"
proof -
  have drop0: "drop_bit 0 v = v" by simp
  note facts = b64_sextet of_int_sextet drop0 if_True if_False Let_def
  have z: "\<not> (int n < 0)" "int n \<noteq> - 1" "int n \<noteq> - 2" "int n \<ge> 0" for n by simp_all
  have neg: "(- 2 :: int) < 0" "(- 2 :: int) \<noteq> - 1" "\<not> (0 \<le> (- 2 :: int))" by simp_all
  show "b64_unquad (ch 18) (ch 12) (ch 6) (ch 0) fin = Some [a, b, c]" if v: "v = b64_word a b c"
    using b64_word_parts(1) [of a b c] b64_word_parts(2-4) [of a b c]
    unfolding b64_unquad_def ch_def v by (simp only: facts drop_bit_0 id_apply z simp_thms append.simps)
  show "b64_unquad (ch 18) (ch 12) (ch 6) (CHR ''='') True = Some [a, b]" if v: "v = b64_word a b 0"
    using b64_word_parts(1) [of a b 0] b64_word_parts(2-4) [of a b 0] b64_word_parts(5) [of a b]
    unfolding b64_unquad_def ch_def v by (simp only: facts drop_bit_0 id_apply z neg simp_thms append.simps or.right_neutral push_bit_of_0)
  show "b64_unquad (ch 18) (ch 12) (CHR ''='') (CHR ''='') True = Some [a]" if v: "v = b64_word a 0 0"
    using b64_word_parts(1) [of a 0 0] b64_word_parts(2-4) [of a 0 0] b64_word_parts(5) [of a 0] b64_word_parts(6) [of a]
    unfolding b64_unquad_def ch_def v by (simp only: facts drop_bit_0 id_apply z neg simp_thms append.simps or.right_neutral push_bit_of_0)
qed

lemma b64_word_zero:
  "b64_word a b 0 = push_bit 16 (ucast a) OR push_bit 8 (ucast b)" "b64_word a 0 0 = push_bit 16 (ucast a)"
  by (simp_all add: b64_word_def)

lemma b64_unquad_quad:
  "\<exists>p q r s. b64_quad (a # b # c # rest) = [p, q, r, s] \<and> b64_unquad p q r s fin = Some [a, b, c]"
  "\<exists>p q r s. b64_quad [a, b] = [p, q, r, s] \<and> b64_unquad p q r s True = Some [a, b]"
  "\<exists>p q r s. b64_quad [a] = [p, q, r, s] \<and> b64_unquad p q r s True = Some [a]"
proof -
  have idx: "(a # b # c # rest) ! 0 = a" "(a # b # c # rest) ! 1 = b" "(a # b # c # rest) ! 2 = c"
    "[a, b] ! 0 = a" "[a, b] ! 1 = b" "[a] ! 0 = a"
    "(1 < length (a # b # c # rest)) = True" "(2 < length (a # b # c # rest)) = True"
    "(1 < length [a, b]) = True" "(2 < length [a, b]) = False"
    "(1 < length [a]) = False" "(2 < length [a]) = False"
    by simp_all
  show "\<exists>p q r s. b64_quad (a # b # c # rest) = [p, q, r, s] \<and> b64_unquad p q r s fin = Some [a, b, c]"
    using b64_unquad_word(1) [OF refl, of a b c fin]
    unfolding b64_quad_def Let_def idx if_True b64_word_def or.assoc by blast
  show "\<exists>p q r s. b64_quad [a, b] = [p, q, r, s] \<and> b64_unquad p q r s True = Some [a, b]"
    using b64_unquad_word(2) [OF refl, of a b]
    unfolding b64_quad_def Let_def idx if_True if_False b64_word_zero by auto
  show "\<exists>p q r s. b64_quad [a] = [p, q, r, s] \<and> b64_unquad p q r s True = Some [a]"
    using b64_unquad_word(3) [OF refl, of a]
    unfolding b64_quad_def Let_def idx if_True if_False b64_word_zero by auto
qed

lemma b64_encode_Nil_iff: "b64_encode_loop bs = [] \<longleftrightarrow> bs = []"
  by (cases bs) (simp_all add: b64_quad_def Let_def)

lemma b64_decode_encode_loop:
  "length out + length bs \<le> n \<Longrightarrow> b64_decode_loop n out (b64_encode_loop bs) = Some (out @ bs)"
proof (induction bs arbitrary: out rule: b64_encode_loop.induct)
  case (2 b bs)
  consider "bs = []" | c where "bs = [c]" | c d rest where "bs = c # d # rest"
    by (cases bs rule: remdups_adj.cases) auto
  then show ?case
  proof cases
    case 1
    then show ?thesis
      using b64_unquad_quad(3) [of b] "2.prems" by auto
  next
    case 2
    then show ?thesis
      using b64_unquad_quad(2) [of b c] "2.prems" by auto
  next
    case 3
    have ih: "b64_decode_loop n (out @ [b, c, d]) (b64_encode_loop rest) = Some ((out @ [b, c, d]) @ rest)"
      using "2.IH" [of "out @ [b, c, d]"] "2.prems" 3 by simp
    obtain p q r s where "b64_quad (b # c # d # rest) = [p, q, r, s]"
      "b64_unquad p q r s (rest = []) = Some [b, c, d]"
      using b64_unquad_quad(1) by blast
    then show ?thesis
      using ih "2.prems" 3 by (simp add: b64_encode_Nil_iff)
  qed
qed simp

lemma length_b64_quad: "length (b64_quad bs) = 4"
  by (simp add: b64_quad_def Let_def)

lemma length_b64_encode_loop: "length (b64_encode_loop bs) = (length bs + 2) div 3 * 4"
proof (induction bs rule: b64_encode_loop.induct)
  case (2 b bs)
  have "4 + (length bs - 2 + 2) div 3 * 4 = (Suc (length bs) + 2) div 3 * 4"
  proof (cases "length bs < 2")
    case True
    then have "length bs = 0 \<or> length bs = 1" by linarith
    then show ?thesis by auto
  next
    case False
    then obtain m where "length bs = m + 2" by (metis add.commute le_Suc_ex not_less)
    then have "length bs - 2 + 2 = m + 2" "Suc (length bs) + 2 = m + 2 + 3" by simp_all
    moreover have "(m + 2 + 3) div 3 = (m + 2) div 3 + 1" by (rule div_add_self2) simp
    ultimately show ?thesis by presburger
  qed
  then show ?case using 2 by (simp add: length_b64_quad)
qed simp

lemma key_base64_decode_encode:
  assumes "bs \<noteq> []" "key_base64_encode bs m = Some s" "length bs \<le> n"
  shows "key_base64_decode s n = Some bs" "length s < m" "length s = (length bs + 2) div 3 * 4"
proof -
  have s: "s = b64_encode_loop bs" and m: "(length bs + 2) div 3 * 4 + 1 \<le> m"
    using assms(2) by (auto simp: key_base64_encode_def split: if_splits)
  have "0 < (length bs + 2) div 3"
    using assms(1) by (cases bs) (simp_all add: div_greater_zero_iff)
  then show "key_base64_decode s n = Some bs"
    using assms b64_decode_encode_loop [of "[]" bs n]
    by (simp add: key_base64_decode_def s length_b64_encode_loop)
  show "length s < m" "length s = (length bs + 2) div 3 * 4"
    using m by (simp_all add: s length_b64_encode_loop)
qed

lemma key_parse_encode:
  assumes "length k = KEY_LEN"
  shows "\<exists>s. key_base64_encode k (KEY_B64_LEN + 1) = Some s \<and> key_parse_b64 s = Some k \<and> length s = KEY_B64_LEN"
proof -
  have "key_base64_encode k (KEY_B64_LEN + 1) = Some (b64_encode_loop k)"
    using assms by (simp add: key_base64_encode_def KEY_LEN_def KEY_B64_LEN_def)
  moreover from key_base64_decode_encode [OF _ this, of "KEY_LEN + 3"]
  have "key_base64_decode (b64_encode_loop k) (KEY_LEN + 3) = Some k" "length (b64_encode_loop k) = KEY_B64_LEN"
    using assms by (fastforce simp: KEY_LEN_def KEY_B64_LEN_def)+
  ultimately show ?thesis
    using assms by (simp add: key_parse_b64_def)
qed

lemma key_parse_b64_length: "key_parse_b64 t = Some k \<Longrightarrow> length k = KEY_LEN"
  by (auto simp: key_parse_b64_def split: option.splits if_splits)

lemma hex_loop_length: "hex_loop s = Some k \<Longrightarrow> length k = length s div 2"
  by (induction s arbitrary: k rule: hex_loop.induct) (auto simp: Let_def split: if_splits)

lemma parse_hex_key_length: "parse_hex_key s = Some k \<Longrightarrow> length k = KEY_LEN"
  by (auto simp: parse_hex_key_def split: if_splits dest: hex_loop_length)

subsection \<open>The cache\<close>

text \<open>Every used entry is the derived key of some passphrase under the hash of that passphrase.\<close>

definition key_cache_ok :: "monocypher \<Rightarrow> key_state \<Rightarrow> bool" where
  "key_cache_ok mc st \<longleftrightarrow> length (k_cache st) = KEY_CACHE_SIZE \<and> k_next st < KEY_CACHE_SIZE \<and>
     (\<forall>e\<in>set (k_cache st). kc_used e \<longrightarrow> k_id_ready st \<and>
        (\<exists>p. kc_id e = mc_blake2b_keyed mc 32 (k_id_key st) (str_bytes p) \<and>
             kc_key e = mc_argon2id mc (str_bytes p) KEY_ARGON2_SALT))"

lemma key_cache_ok_start: "key_cache_ok mc key_start"
  by (simp add: key_cache_ok_def key_start_def kc_zero_def KEY_CACHE_SIZE_def)

lemma key_cache_ok_clear: "key_cache_ok mc (key_cache_clear st)"
  by (simp add: key_cache_ok_def key_cache_clear_def kc_zero_def KEY_CACHE_SIZE_def)

lemma key_cache_ok_maint:
  assumes "key_cache_ok mc st"
  shows "key_cache_ok mc (key_cache_mark st)" "key_cache_ok mc (key_cache_drop_new st)"
    "key_cache_ok mc (key_cache_sweep st)"
  using assms by (auto simp: key_cache_ok_def key_cache_mark_def key_cache_drop_new_def
      key_cache_sweep_def kc_zero_def)

lemma key_cache_ok_ready:
  "key_cache_ok mc st \<Longrightarrow> key_cache_ok mc (key_cache_ready seed st)"
  by (auto simp: key_cache_ok_def key_cache_ready_def split: option.splits)

lemma set_update_cases: "e \<in> set (xs[i := y]) \<Longrightarrow> e = y \<or> e \<in> set xs"
  using set_update_subset_insert [of xs i y] by blast

lemma key_cache_store_props:
  "length (k_cache (key_cache_store ident key st)) = length (k_cache st)"
  "k_next st < KEY_CACHE_SIZE \<Longrightarrow> k_next (key_cache_store ident key st) < KEY_CACHE_SIZE"
  "k_id_key (key_cache_store ident key st) = k_id_key st"
  "k_id_ready (key_cache_store ident key st) = k_id_ready st"
  "k_locked (key_cache_store ident key st) = k_locked st"
  "e \<in> set (k_cache (key_cache_store ident key st)) \<Longrightarrow>
     e = \<lparr>kc_id = ident, kc_key = key, kc_used = True, kc_seen = True, kc_fresh = True\<rparr>
     \<or> e \<in> set (k_cache st)"
  by (auto simp: key_cache_store_def KEY_CACHE_SIZE_def Let_def split: option.splits dest: set_update_cases)

text \<open>What a call of \<open>key_from_psk\<close> does, by the kind of key text.\<close>

definition psk_is_raw :: "string \<Rightarrow> bool" where
  "psk_is_raw psk \<longleftrightarrow> psk = [] \<or> take 4 psk = ''hex:'' \<or> take 7 psk = ''base64:''"

lemma key_from_psk_raw: "psk_is_raw psk \<Longrightarrow> fst (key_from_psk mc env seed psk st) = st"
  by (auto simp: key_from_psk_def psk_is_raw_def)

lemma key_from_psk_passphrase_eq:
  assumes "\<not> psk_is_raw psk"
  shows "key_from_psk mc env seed psk st =
     (if \<not> k_id_ready (key_cache_ready seed st)
      then (key_cache_ready seed st, argon2id mc env (k_locked (key_cache_ready seed st)) psk)
      else case scan_first KEY_CACHE_SIZE
             (\<lambda>i. kc_used (k_cache (key_cache_ready seed st) ! i) \<and>
                  crypto_verify 32 (kc_id (k_cache (key_cache_ready seed st) ! i))
                    (mc_blake2b_keyed mc 32 (k_id_key (key_cache_ready seed st)) (str_bytes psk))) of
             Some i \<Rightarrow>
               ((key_cache_ready seed st)\<lparr>k_cache := (k_cache (key_cache_ready seed st))
                  [i := (k_cache (key_cache_ready seed st) ! i)\<lparr>kc_seen := True\<rparr>]\<rparr>,
                Inr (kc_key (k_cache (key_cache_ready seed st) ! i)))
           | None \<Rightarrow>
               (case argon2id mc env (k_locked (key_cache_ready seed st)) psk of
                  Inl e \<Rightarrow> (key_cache_ready seed st, Inl e)
                | Inr key \<Rightarrow>
                    (key_cache_store (mc_blake2b_keyed mc 32 (k_id_key (key_cache_ready seed st)) (str_bytes psk))
                       key (key_cache_ready seed st), Inr key)))"
proof -
  have "(psk = []) = False" "(take 4 psk = ''hex:'') = False" "(take 7 psk = ''base64:'') = False"
    using assms unfolding psk_is_raw_def by blast+
  then show ?thesis
    unfolding key_from_psk_def Let_def by (simp only: if_False)
qed

lemma key_from_psk_cases [consumes 2, case_names uncached hit nomem miss]:
  assumes "\<not> psk_is_raw psk" "key_from_psk mc env seed psk st = (st', r)"
  obtains "\<not> k_id_ready (key_cache_ready seed st)" "st' = key_cache_ready seed st"
      "r = argon2id mc env (k_locked (key_cache_ready seed st)) psk"
  | i where "k_id_ready (key_cache_ready seed st)" "i < KEY_CACHE_SIZE"
      "kc_used (k_cache (key_cache_ready seed st) ! i)"
      "crypto_verify 32 (kc_id (k_cache (key_cache_ready seed st) ! i))
         (mc_blake2b_keyed mc 32 (k_id_key (key_cache_ready seed st)) (str_bytes psk))"
      "st' = (key_cache_ready seed st)\<lparr>k_cache := (k_cache (key_cache_ready seed st))
         [i := (k_cache (key_cache_ready seed st) ! i)\<lparr>kc_seen := True\<rparr>]\<rparr>"
      "r = Inr (kc_key (k_cache (key_cache_ready seed st) ! i))"
  | e where "argon2id mc env (k_locked (key_cache_ready seed st)) psk = Inl e"
      "st' = key_cache_ready seed st" "r = Inl e"
  | key where "k_id_ready (key_cache_ready seed st)"
      "argon2id mc env (k_locked (key_cache_ready seed st)) psk = Inr key"
      "st' = key_cache_store (mc_blake2b_keyed mc 32 (k_id_key (key_cache_ready seed st)) (str_bytes psk))
         key (key_cache_ready seed st)" "r = Inr key"
proof -
  let ?st1 = "key_cache_ready seed st"
  let ?ident = "mc_blake2b_keyed mc 32 (k_id_key ?st1) (str_bytes psk)"
  let ?P = "\<lambda>i. kc_used (k_cache ?st1 ! i) \<and> crypto_verify 32 (kc_id (k_cache ?st1 ! i)) ?ident"
  note eq = assms(2) [unfolded key_from_psk_passphrase_eq [OF assms(1)]]
  show thesis
  proof (cases "k_id_ready ?st1")
    case False
    then have "st' = ?st1" "r = argon2id mc env (k_locked ?st1) psk"
      using eq by auto
    with False show thesis by (rule that(1))
  next
    case True
    show thesis
    proof (cases "scan_first KEY_CACHE_SIZE ?P")
      case (Some i)
      then have "st' = ?st1\<lparr>k_cache := (k_cache ?st1)[i := (k_cache ?st1 ! i)\<lparr>kc_seen := True\<rparr>]\<rparr>"
        "r = Inr (kc_key (k_cache ?st1 ! i))"
        using eq True by auto
      with True scan_firstD [OF Some] show thesis by (intro that(2)) blast+
    next
      case None
      show thesis
      proof (cases "argon2id mc env (k_locked ?st1) psk")
        case (Inl e)
        then have "st' = ?st1" "r = Inl e" using eq True None by auto
        with Inl show thesis by (rule that(3))
      next
        case (Inr key)
        then have "st' = key_cache_store ?ident key ?st1" "r = Inr key" using eq True None by auto
        with True Inr show thesis by (rule that(4))
      qed
    qed
  qed
qed

lemma argon2id_Inr: "argon2id mc env locked p = Inr k \<Longrightarrow> k = mc_argon2id mc (str_bytes p) KEY_ARGON2_SALT"
  by (simp add: argon2id_def split: if_splits)

lemma crypto_verify_eq: "length a = n \<Longrightarrow> length b = n \<Longrightarrow> crypto_verify n a b \<longleftrightarrow> a = b"
  by (simp add: crypto_verify_def)

lemma key_cache_ok_from_psk:
  assumes mc: "mono_ok mc" and ok: "key_cache_ok mc st" and "key_from_psk mc env seed psk st = (st', r)"
  shows "key_cache_ok mc st'"
proof (cases "psk_is_raw psk")
  case True
  then show ?thesis using assms key_from_psk_raw [of psk mc env seed st] by simp
next
  case False
  have ok1: "key_cache_ok mc (key_cache_ready seed st)" using ok by (rule key_cache_ok_ready)
  from False assms(3) show ?thesis
  proof (cases rule: key_from_psk_cases)
    case (hit i)
    have "k_cache (key_cache_ready seed st) ! i \<in> set (k_cache (key_cache_ready seed st))"
      using ok1 hit(2) by (simp add: key_cache_ok_def)
    then show ?thesis
      using ok1 unfolding hit(5) by (fastforce simp: key_cache_ok_def dest!: set_update_cases)
  next
    case (miss key)
    show ?thesis
      using ok1 miss(1) argon2id_Inr [OF miss(2)] unfolding miss(3) key_cache_ok_def
      by (fastforce simp: key_cache_store_props(1-5) dest!: key_cache_store_props(6))
  qed (use ok1 in simp_all)
qed

lemma key_from_psk_passphrase:
  assumes mc: "mono_ok mc" and ok: "key_cache_ok mc st" and "\<not> psk_is_raw psk"
    and "key_from_psk mc env seed psk st = (st', Inr k)"
  shows "\<exists>p. k = mc_argon2id mc (str_bytes p) KEY_ARGON2_SALT \<and>
     (p = psk \<or> mc_blake2b_keyed mc 32 (k_id_key st') (str_bytes p) = mc_blake2b_keyed mc 32 (k_id_key st') (str_bytes psk))"
proof -
  have ok1: "key_cache_ok mc (key_cache_ready seed st)" using ok by (rule key_cache_ok_ready)
  from assms(3,4) show ?thesis
  proof (cases rule: key_from_psk_cases)
    case uncached
    then show ?thesis using argon2id_Inr by metis
  next
    case (hit i)
    have "k_cache (key_cache_ready seed st) ! i \<in> set (k_cache (key_cache_ready seed st))"
      using ok1 hit(2) by (simp add: key_cache_ok_def)
    then obtain p where p: "kc_id (k_cache (key_cache_ready seed st) ! i)
        = mc_blake2b_keyed mc 32 (k_id_key (key_cache_ready seed st)) (str_bytes p)"
      "kc_key (k_cache (key_cache_ready seed st) ! i) = mc_argon2id mc (str_bytes p) KEY_ARGON2_SALT"
      using ok1 hit(3) unfolding key_cache_ok_def by blast
    have "mc_blake2b_keyed mc 32 (k_id_key st') (str_bytes p) = mc_blake2b_keyed mc 32 (k_id_key st') (str_bytes psk)"
      using hit(4) unfolding p(1) hit(5) by (simp add: crypto_verify_def mono_okD(2) [OF mc])
    then show ?thesis using p(2) hit(6) by auto
  next
    case (miss key)
    then show ?thesis using argon2id_Inr [OF miss(2)] by auto
  qed auto
qed

text \<open>Between \<open>key_cache_mark\<close> and the end of a reload.\<close>

definition cached :: "key_state \<Rightarrow> (bytes \<times> bytes) set" where
  "cached st = {(kc_id e, kc_key e) |e. e \<in> set (k_cache st) \<and> kc_used e}"

definition kept_from :: "(bytes \<times> bytes) set \<Rightarrow> key_state \<Rightarrow> bool" where
  "kept_from U st \<longleftrightarrow> length (k_cache st) = KEY_CACHE_SIZE \<and> (\<forall>e\<in>set (k_cache st). kc_used e \<and> \<not> kc_fresh e \<longrightarrow> (kc_id e, kc_key e) \<in> U)"

lemma kept_from_psk: "kept_from U st \<Longrightarrow> kept_from U (fst (key_from_psk mc env seed psk st))"
proof -
  assume k: "kept_from U st"
  obtain st' r where eq: "key_from_psk mc env seed psk st = (st', r)" by fastforce
  have k1: "kept_from U (key_cache_ready seed st)"
    using k by (auto simp: kept_from_def key_cache_ready_def split: option.splits)
  show ?thesis
  proof (cases "psk_is_raw psk")
    case True
    then show ?thesis using k key_from_psk_raw by simp
  next
    case False
    from False eq have "kept_from U st'"
    proof (cases rule: key_from_psk_cases)
      case (hit i)
      have "k_cache (key_cache_ready seed st) ! i \<in> set (k_cache (key_cache_ready seed st))"
        using k1 hit(2) by (simp add: kept_from_def)
      then show ?thesis using k1 unfolding hit(5) by (fastforce simp: kept_from_def dest!: set_update_cases)
    next
      case (miss key)
      show ?thesis
        using k1 unfolding miss(3) kept_from_def
        by (fastforce simp: key_cache_store_props(1-5) dest!: key_cache_store_props(6))
    qed (use k1 in simp_all)
    then show ?thesis by (simp add: eq)
  qed
qed

type_synonym psk_lookup = "key_env \<times> bytes option \<times> string"

definition key_lookups :: "monocypher \<Rightarrow> key_state \<Rightarrow> psk_lookup list \<Rightarrow> key_state" where
  "key_lookups mc st qs = foldl (\<lambda>s (env, seed, psk). fst (key_from_psk mc env seed psk s)) st qs"

interpretation kept: stepper "\<lambda>s (env, seed, psk). fst (key_from_psk mc env seed psk s)" "kept_from U" for mc U
  by unfold_locales (auto intro: kept_from_psk split: prod.splits)

lemma cached_drop_new: "kept_from U st \<Longrightarrow> cached (key_cache_drop_new st) \<subseteq> U"
  by (auto simp: cached_def kept_from_def key_cache_drop_new_def kc_zero_def split: if_splits)

lemma kept_from_mark: "length (k_cache st) = KEY_CACHE_SIZE \<Longrightarrow> kept_from (cached st) (key_cache_mark st)"
  by (auto simp: kept_from_def cached_def key_cache_mark_def)

lemma cached_sweep: "e \<in> set (k_cache (key_cache_sweep st)) \<Longrightarrow> kc_used e \<Longrightarrow> kc_seen e"
  by (auto simp: key_cache_sweep_def kc_zero_def split: if_splits)

subsection \<open>Properties\<close>

text \<open>Decoding what was encoded in base64 gives the bytes back, and the text has four
  characters for every three bytes begun.\<close>

lemma base64_round_trip:
  assumes "bs \<noteq> []" "key_base64_encode bs m = Some s" "length bs \<le> n"
  shows "key_base64_decode s n = Some bs \<and> length s = (length bs + 2) div 3 * 4 \<and> length s < m"
  using key_base64_decode_encode [OF assms] by blast


text \<open>C26: the passphrase cache changes no result: a key handed out for a passphrase is the
  Argon2id key of that passphrase (or of one with the same keyed hash), and the cache stays
  well-formed.\<close>

theorem key_cache_transparent:
  assumes "mono_ok mc" "key_cache_ok mc st" "\<not> psk_is_raw psk" "key_from_psk mc env seed psk st = (st', Inr k)"
  shows "key_cache_ok mc st' \<and> (\<exists>p. k = mc_argon2id mc (str_bytes p) KEY_ARGON2_SALT \<and>
     (p = psk \<or> mc_blake2b_keyed mc 32 (k_id_key st') (str_bytes p)
                  = mc_blake2b_keyed mc 32 (k_id_key st') (str_bytes psk)))"
  using key_cache_ok_from_psk [OF assms(1,2,4)] key_from_psk_passphrase [OF assms] by blast

theorem key_cache_transparent_witness:
  "\<exists>st' k. key_from_psk toy_mono \<lparr>ke_malloc = True, ke_munlock = False, ke_malloc_unlocked = False\<rparr>
     (Some [1]) ''secret'' key_start = (st', Inr k) \<and> key_cache_ok toy_mono st'"
proof -
  let ?env = "\<lparr>ke_malloc = True, ke_munlock = False, ke_malloc_unlocked = False\<rparr>"
  obtain st' r where eq: "key_from_psk toy_mono ?env (Some [1]) ''secret'' key_start = (st', r)" by fastforce
  have raw: "\<not> psk_is_raw ''secret''" by (simp add: psk_is_raw_def)
  from raw eq obtain k where "r = Inr k"
    by (cases rule: key_from_psk_cases) (simp_all add: argon2id_def)
  then show ?thesis
    using eq key_cache_transparent [OF toy_mono_ok key_cache_ok_start raw] by blast
qed

text \<open>A reload that is rolled back leaves no key behind: whatever was looked up since the
  mark, after \<open>key_cache_drop_new\<close> the cache holds only keys it held before; a reload that
  succeeds keeps, after \<open>key_cache_sweep\<close>, only keys looked up since.\<close>

lemma key_reload_rollback:
  assumes "length (k_cache st) = KEY_CACHE_SIZE"
  shows "cached (key_cache_drop_new (key_lookups mc (key_cache_mark st) qs)) \<subseteq> cached st \<and>
     (\<forall>e. e \<in> set (k_cache (key_cache_sweep (key_lookups mc (key_cache_mark st) qs))) \<and> kc_used e \<longrightarrow> kc_seen e)"
  using kept.inv_run [OF kept_from_mark [OF assms]] cached_drop_new cached_sweep
  unfolding key_lookups_def by blast


end
