(* ===== verification/Crypto.thy ===== *)
theory Crypto
  imports Keys
begin

text \<open>
  \<open>src/crypto.c\<close>: the key context of the process, holding the global key and the server
  key pair.  The cache of \<open>Keys\<close> is threaded through the calls that derive a key.
\<close>

subsection \<open>Model\<close>

record camex_crypto =
  cc_psk_key :: bytes
  cc_fingerprint :: bytes
  cc_ready :: bool
  cc_has_global :: bool
  cc_server_priv :: bytes
  cc_server_pub :: bytes
  cc_has_server_key :: bool
  cc_has_server_pub :: bool

definition crypto_zero :: camex_crypto where
  "crypto_zero = \<lparr>cc_psk_key = replicate 32 0, cc_fingerprint = replicate 16 0, cc_ready = False,
     cc_has_global = False, cc_server_priv = replicate 32 0, cc_server_pub = replicate 32 0,
     cc_has_server_key = False, cc_has_server_pub = False\<rparr>"

definition derive_psk_key ::
  "monocypher \<Rightarrow> key_env \<Rightarrow> bytes option \<Rightarrow> string \<Rightarrow> key_state \<Rightarrow> key_state \<times> (key_err + bytes)" where
  "derive_psk_key mc env id_seed psk st = key_from_psk mc env id_seed psk st"

definition crypto_set_server_key :: "monocypher \<Rightarrow> string \<Rightarrow> camex_crypto \<Rightarrow> camex_crypto \<times> bool" where
  "crypto_set_server_key mc priv_b64 ctx =
     (case key_server_from_b64 mc priv_b64 (cc_server_priv ctx) of
        (priv, None) \<Rightarrow> (ctx\<lparr>cc_server_priv := priv\<rparr>, False)
      | (priv, Some pub) \<Rightarrow>
          (ctx\<lparr>cc_server_priv := priv, cc_server_pub := pub, cc_has_server_key := True,
               cc_has_server_pub := True\<rparr>, True))"

definition crypto_set_server_pub :: "string \<Rightarrow> camex_crypto \<Rightarrow> camex_crypto \<times> bool" where
  "crypto_set_server_pub pub_b64 ctx =
     (case key_parse_b64 pub_b64 of
        None \<Rightarrow> (ctx, False)
      | Some pub \<Rightarrow>
          (if crypto_verify 32 pub (replicate 32 0) then (ctx\<lparr>cc_server_pub := pub\<rparr>, False)
           else (ctx\<lparr>cc_server_pub := pub, cc_has_server_pub := True\<rparr>, True)))"

definition crypto_init ::
  "monocypher \<Rightarrow> key_env \<Rightarrow> bytes option \<Rightarrow> string \<Rightarrow> key_state \<Rightarrow> camex_crypto
     \<Rightarrow> key_state \<times> camex_crypto \<times> key_err option" where
  "crypto_init mc env id_seed psk st ctx =
     (let ctx1 = ctx\<lparr>cc_ready := True\<rparr>
      in if psk = [] then (st, ctx1\<lparr>cc_has_global := False\<rparr>, None)
         else case derive_psk_key mc env id_seed psk st of
                (st', Inl e) \<Rightarrow> (st', ctx1, Some e)
              | (st', Inr key) \<Rightarrow>
                  (st', ctx1\<lparr>cc_psk_key := key, cc_fingerprint := mc_blake2b mc 16 key,
                             cc_has_global := True\<rparr>, None))"

definition crypto_restore_ctx :: "camex_crypto \<Rightarrow> camex_crypto \<Rightarrow> camex_crypto" where
  "crypto_restore_ctx saved ctx = saved"

definition crypto_drop_global :: "camex_crypto \<Rightarrow> camex_crypto" where
  "crypto_drop_global ctx = ctx\<lparr>cc_psk_key := replicate 32 0, cc_has_global := False\<rparr>"

definition crypto_wipe_ctx :: "camex_crypto \<Rightarrow> camex_crypto" where
  "crypto_wipe_ctx ctx = crypto_zero"

subsection \<open>Lemmas\<close>

text \<open>A key derivation that fails keeps the global key and the server's pair.\<close>

lemma crypto_init_failure:
  "crypto_init mc env seed psk st ctx = (st', ctx', Some e) \<Longrightarrow> ctx' = ctx\<lparr>cc_ready := True\<rparr>"
  by (auto simp: crypto_init_def Let_def split: if_splits prod.splits sum.splits)

text \<open>The context is consistent: a key pair it says it has is one.\<close>

definition crypto_ok :: "monocypher \<Rightarrow> camex_crypto \<Rightarrow> bool" where
  "crypto_ok mc ctx \<longleftrightarrow> (cc_has_server_key ctx \<longrightarrow>
     cc_server_pub ctx = mc_x25519_public_key mc (cc_server_priv ctx) \<and>
     cc_server_priv ctx \<noteq> replicate 32 0)"

lemma crypto_set_server_key_ok:
  "crypto_set_server_key mc b64 ctx = (ctx', True) \<Longrightarrow> crypto_ok mc ctx'"
  by (auto simp: crypto_set_server_key_def key_server_from_b64_def crypto_ok_def crypto_verify_def KEY_LEN_def
      dest: key_parse_b64_length split: option.splits if_splits)

lemma crypto_ok_global:
  "crypto_ok mc ctx \<Longrightarrow> crypto_init mc env seed psk st ctx = (st', ctx', e) \<Longrightarrow> crypto_ok mc ctx'"
  "crypto_ok mc ctx \<Longrightarrow> crypto_ok mc (crypto_drop_global ctx)"
  by (auto simp: crypto_ok_def crypto_init_def crypto_drop_global_def Let_def
      split: if_splits prod.splits sum.splits)

end
