(* ===== verification/Config.thy ===== *)
theory Config
  imports Slotidx Crypto
begin

text \<open>
  \<open>src/config.c\<close>: profiles, the configuration file, the table of client profiles with its
  two indexes, and the keystore; also the two validators it takes from
  \<open>src/nginxmap.c\<close>.  A pointer into an array is the index; a status is a truth value
  beside the state left behind.  Log messages are left out.  What the system decides is an
  argument: whether an array of the given length can be allocated, and whether a hash table
  can (\<open>mem\<close>, see \<open>Slotidx\<close>).
\<close>

subsection \<open>Profiles\<close>

definition CAMEX_CLIENT_ID_LEN :: nat where "CAMEX_CLIENT_ID_LEN = 32"
definition CAMEX_MAX_CLIENTS_DEFAULT :: nat where "CAMEX_MAX_CLIENTS_DEFAULT = 256"
definition CAMEX_MAX_CLIENTS_LIMIT :: nat where "CAMEX_MAX_CLIENTS_LIMIT = 65534"
definition CAMEX_PEER_PORT_DEFAULT :: int where "CAMEX_PEER_PORT_DEFAULT = 8080"
definition CAMEX_AUTO_POOL_DEFAULT_NET :: u32 where "CAMEX_AUTO_POOL_DEFAULT_NET = 0x0AC80000"
definition CAMEX_AUTO_POOL_DEFAULT_PREFIX :: nat where "CAMEX_AUTO_POOL_DEFAULT_PREFIX = 24"
definition CAMEX_AUTO_POOL_MIN_PREFIX :: nat where "CAMEX_AUTO_POOL_MIN_PREFIX = 8"
definition CAMEX_AUTO_POOL_MAX_PREFIX :: nat where "CAMEX_AUTO_POOL_MAX_PREFIX = 30"
definition CAMEX_CLIENT_TIMEOUT :: nat where "CAMEX_CLIENT_TIMEOUT = 120"
definition CAMEX_CLIENT_TIMEOUT_MIN :: nat where "CAMEX_CLIENT_TIMEOUT_MIN = 60"
definition CAMEX_NAME_MAX :: nat where "CAMEX_NAME_MAX = 64"
definition MAP_HOST_MAX :: nat where "MAP_HOST_MAX = 253"

record camex_profile =
  p_local_cidr :: string
  p_gateway_ip :: string
  p_route_cidrs :: "string list"
  p_mtu :: int
  p_peer_port :: int
  p_psk :: string

definition config_profile_reset :: camex_profile where
  "config_profile_reset = \<lparr>p_local_cidr = [], p_gateway_ip = [], p_route_cidrs = [], p_mtu = 0,
     p_peer_port = 0, p_psk = []\<rparr>"

definition config_profile_append_route :: "camex_profile \<Rightarrow> string \<Rightarrow> camex_profile option" where
  "config_profile_append_route p val =
     map_option (\<lambda>rs. p\<lparr>p_route_cidrs := rs\<rparr>) (append_route_option (p_route_cidrs p) val)"

definition config_profile_merge :: "camex_profile \<Rightarrow> camex_profile \<Rightarrow> camex_profile" where
  "config_profile_merge dst src =
     dst\<lparr>p_local_cidr := (if p_local_cidr src \<noteq> [] then fit 32 (p_local_cidr src) else p_local_cidr dst),
         p_gateway_ip := (if p_gateway_ip src \<noteq> [] then fit 16 (p_gateway_ip src) else p_gateway_ip dst),
         p_mtu := (if p_mtu src > 0 then p_mtu src else p_mtu dst),
         p_peer_port := (if p_peer_port src \<noteq> 0 then p_peer_port src else p_peer_port dst),
         p_route_cidrs := p_route_cidrs dst @
           map (fit 32) (take (CAMEX_MAX_ROUTES - length (p_route_cidrs dst)) (p_route_cidrs src))\<rparr>"

subsection \<open>Validators of \<open>nginxmap.c\<close>\<close>

definition valid_label :: "string \<Rightarrow> bool" where
  "valid_label l \<longleftrightarrow> \<not> (l = [] \<or> length l > 63 \<or> hd l = CHR ''-'' \<or> last l = CHR ''-'')
     \<and> list_all (\<lambda>c. let n = of_char c :: nat in (97 \<le> n \<and> n \<le> 122) \<or> (48 \<le> n \<and> n \<le> 57) \<or> c = CHR ''-'') l"

definition valid_hostname :: "string \<Rightarrow> bool" where
  "valid_hostname name \<longleftrightarrow> name \<noteq> [] \<and> length name \<le> MAP_HOST_MAX \<and>
     list_all valid_label (split_on (CHR ''.'') (map tolower name))"

definition camex_domain_valid :: "string \<Rightarrow> bool" where
  "camex_domain_valid domain = valid_hostname domain"

text \<open>The continuation bytes of a multi-byte character: the code point and the rest.\<close>

fun utf8_cont :: "nat \<Rightarrow> u32 \<Rightarrow> bytes \<Rightarrow> (u32 \<times> bytes) option" where
  "utf8_cont 0 cp p = Some (cp, p)"
| "utf8_cont (Suc k) cp [] = None"
| "utf8_cont (Suc k) cp (b # p) =
     (if b AND 0xc0 \<noteq> 0x80 then None else utf8_cont k (push_bit 6 cp OR ucast (b AND 0x3f)) p)"

lemma utf8_cont_length: "utf8_cont k cp p = Some (cp', q) \<Longrightarrow> length q \<le> length p"
  by (induction k cp p rule: utf8_cont.induct) (auto split: if_splits)

function name_loop :: "bytes \<Rightarrow> bool" where
  "name_loop [] = True"
| "name_loop (b # p) =
     (if b < 0x80 then (if b < 0x20 \<or> b = 0x7f then False else name_loop p)
      else (case (if 0xc2 \<le> b \<and> b \<le> 0xdf then Some (2, b AND 0x1f)
                  else if 0xe0 \<le> b \<and> b \<le> 0xef then Some (3, b AND 0x0f)
                  else if 0xf0 \<le> b \<and> b \<le> 0xf4 then Some (4, b AND 0x07) else None) of
              None \<Rightarrow> False
            | Some (len, lead) \<Rightarrow>
                (case utf8_cont (len - 1) (ucast lead) p of
                   None \<Rightarrow> False
                 | Some (cp, q) \<Rightarrow>
                     (if (len = (3 :: nat) \<and> cp < 0x800) \<or> (len = 4 \<and> cp < 0x10000) \<or> cp > 0x10ffff
                         \<or> (0xd800 \<le> cp \<and> cp \<le> 0xdfff) \<or> (0x80 \<le> cp \<and> cp \<le> 0x9f)
                      then False else name_loop q))))"
  by pat_completeness auto
termination
  by (relation "measure length") (auto dest: utf8_cont_length)

definition camex_name_valid :: "string \<Rightarrow> bool" where
  "camex_name_valid name \<longleftrightarrow> name \<noteq> [] \<and> length name \<le> CAMEX_NAME_MAX \<and> name_loop (str_bytes name)"

subsection \<open>The profile table\<close>

record server_profile =
  sp_client_id :: string
  sp_profile :: camex_profile
  sp_name :: string
  sp_active :: bool
  sp_has_ip :: bool
  sp_ip_be :: u32

record server_globals =
  g_bind_ip :: string
  g_local_cidr :: string
  g_tun_dev :: string
  g_bind_dev :: string
  g_pid_file :: string
  g_control_socket :: string
  g_domain :: string
  g_psk :: string
  g_port :: int
  g_mtu :: int
  g_encrypt :: bool
  g_encrypt_set :: bool
  g_deny_unknown_clients :: bool
  g_client_isolation :: bool
  g_server_key :: string
  g_pool_net :: u32
  g_pool_prefix :: nat
  g_pool_set :: bool
  g_max_clients :: nat
  g_client_timeout :: nat

text \<open>\<open>db_clients\<close> is \<open>clients[0..client_count)\<close>, \<open>db_cap\<close> the allocated length.\<close>

record server_db =
  db_defaults :: camex_profile
  db_clients :: "server_profile list"
  db_cap :: nat
  db_by_id :: slotidx
  db_by_ip :: slotidx
  db_globals :: server_globals
  db_loaded :: bool

definition globals_zero :: server_globals where
  "globals_zero = \<lparr>g_bind_ip = [], g_local_cidr = [], g_tun_dev = [], g_bind_dev = [],
     g_pid_file = [], g_control_socket = [], g_domain = [], g_psk = [], g_port = 0, g_mtu = 0,
     g_encrypt = False, g_encrypt_set = False, g_deny_unknown_clients = False,
     g_client_isolation = False, g_server_key = [], g_pool_net = 0, g_pool_prefix = 0,
     g_pool_set = False, g_max_clients = 0, g_client_timeout = 0\<rparr>"

definition db_zero :: server_db where
  "db_zero = \<lparr>db_defaults = config_profile_reset, db_clients = [], db_cap = 0,
     db_by_id = slotidx_free, db_by_ip = slotidx_free, db_globals = globals_zero, db_loaded = False\<rparr>"

definition config_server_db_reset :: server_db where
  "config_server_db_reset = db_zero\<lparr>db_globals := globals_zero
     \<lparr>g_pool_net := CAMEX_AUTO_POOL_DEFAULT_NET, g_pool_prefix := CAMEX_AUTO_POOL_DEFAULT_PREFIX\<rparr>\<rparr>"

definition config_db_free :: "server_db \<Rightarrow> server_db" where
  "config_db_free db = db_zero"

definition profile_id_match :: "server_db \<Rightarrow> string \<Rightarrow> nat \<Rightarrow> bool" where
  "profile_id_match db key slot \<longleftrightarrow> slot < length (db_clients db) \<and> sp_active (db_clients db ! slot)
     \<and> strcaseeq (sp_client_id (db_clients db ! slot)) key"

definition config_db_find_client :: "server_db \<Rightarrow> string \<Rightarrow> nat option" where
  "config_db_find_client db client_id =
     (if client_id = [] then None
      else slotidx_lookup (db_by_id db) (slotidx_hash_nocase client_id) (profile_id_match db client_id))"

definition profile_ip_match :: "server_db \<Rightarrow> u32 \<Rightarrow> nat \<Rightarrow> bool" where
  "profile_ip_match db key slot \<longleftrightarrow> slot < length (db_clients db) \<and> sp_active (db_clients db ! slot)
     \<and> sp_has_ip (db_clients db ! slot) \<and> sp_ip_be (db_clients db ! slot) = key"

definition config_db_find_profile_by_ip :: "server_db \<Rightarrow> u32 \<Rightarrow> nat option" where
  "config_db_find_profile_by_ip db ip_be =
     slotidx_lookup (db_by_ip db) (slotidx_hash_u32 ip_be) (profile_ip_match db ip_be)"

text \<open>\<open>grow n\<close>: \<open>key_locked_calloc\<close> gives an array of \<open>n\<close> profiles.\<close>

record cfg_env =
  ce_grow :: "nat \<Rightarrow> bool"
  ce_mem :: "u32 \<Rightarrow> bool"

text \<open>The second half of \<open>config_db_get_client_slot\<close>: a new entry at the end.\<close>

definition config_db_new_client :: "cfg_env \<Rightarrow> string \<Rightarrow> server_db \<Rightarrow> server_db \<times> nat option" where
  "config_db_new_client env client_id db =
     (let n = length (db_clients db); cap = (if db_cap db \<noteq> 0 then db_cap db * 2 else 16)
      in if length client_id \<ge> CAMEX_CLIENT_ID_LEN then (db, None)
         else if n \<ge> CAMEX_MAX_CLIENTS_LIMIT then (db, None)
         else if n = db_cap db \<and> \<not> ce_grow env cap then (db, None)
         else let db1 = (if n = db_cap db then db\<lparr>db_cap := cap\<rparr> else db);
                  (ok, x) = slotidx_enter (ce_mem env) (db_by_id db) (slotidx_hash_nocase client_id) n
              in if \<not> ok then (db1\<lparr>db_by_id := x\<rparr>, None)
                 else (db1\<lparr>db_by_id := x,
                         db_clients := db_clients db @
                           [\<lparr>sp_client_id = client_id, sp_profile = config_profile_reset,
                             sp_name = [], sp_active = True, sp_has_ip = False, sp_ip_be = 0\<rparr>]\<rparr>,
                       Some n))"

definition config_db_get_client_slot :: "cfg_env \<Rightarrow> string \<Rightarrow> server_db \<Rightarrow> server_db \<times> nat option" where
  "config_db_get_client_slot env client_id db =
     (if client_id = [] then (db, None)
      else case config_db_find_client db client_id of
             Some i \<Rightarrow> (db, Some i)
           | None \<Rightarrow> config_db_new_client env client_id db)"

subsection \<open>Values\<close>

definition config_parse_pool :: "string \<Rightarrow> (u32 \<times> nat) option" where
  "config_parse_pool val =
     (case cut_at (CHR ''/'') val of
        None \<Rightarrow> None
      | Some (addr, rest) \<Rightarrow>
          (if length addr \<ge> 16 then None
           else case (inet_pton addr, strtoul rest) of
                  (None, _) \<Rightarrow> None
                | (Some a, (p, end, erange)) \<Rightarrow>
                    (if rest = [] \<or> end \<noteq> [] \<or> erange
                        \<or> p < CAMEX_AUTO_POOL_MIN_PREFIX \<or> p > CAMEX_AUTO_POOL_MAX_PREFIX
                     then None
                     else let m = push_bit (32 - p) (0xFFFFFFFF :: u32); host = ntohl a
                          in if host AND NOT m \<noteq> 0 then None else Some (host, p))))"

definition parse_bounded_uint :: "nat \<Rightarrow> nat \<Rightarrow> string \<Rightarrow> nat option" where
  "parse_bounded_uint lo hi val =
     (case strtoul val of
        (v, end, erange) \<Rightarrow>
          (if val = [] \<or> hd val = CHR ''-'' \<or> end \<noteq> [] \<or> erange \<or> v < lo \<or> v > hi
           then None else Some v))"

definition parse_client_timeout :: "string \<Rightarrow> nat option" where
  "parse_client_timeout val = parse_bounded_uint CAMEX_CLIENT_TIMEOUT_MIN CAMEX_CLIENT_TIMEOUT val"

definition parse_max_clients :: "string \<Rightarrow> nat option" where
  "parse_max_clients val = parse_bounded_uint 1 CAMEX_MAX_CLIENTS_LIMIT val"

definition parse_peer_port :: "string \<Rightarrow> int option" where
  "parse_peer_port val =
     (if val = ''none'' then Some (- 1)
      else case strtol val of
             (v, end, erange) \<Rightarrow>
               (if \<not> list_all isdigit val \<or> length val > 5 \<or> erange \<or> end = val \<or> end \<noteq> []
                   \<or> v < 1 \<or> v > 65535
                then None else Some v))"

definition config_db_apply_kv :: "camex_profile \<Rightarrow> string \<Rightarrow> string \<Rightarrow> camex_profile option" where
  "config_db_apply_kv p key val =
     (if key = ''local_cidr'' then map_option (\<lambda>v. p\<lparr>p_local_cidr := v\<rparr>) (copy_option 32 val)
      else if key = ''gateway_ip'' then map_option (\<lambda>v. p\<lparr>p_gateway_ip := v\<rparr>) (copy_option 16 val)
      else if key = ''route_cidr'' then config_profile_append_route p val
      else if key = ''mtu'' then map_option (\<lambda>v. p\<lparr>p_mtu := v\<rparr>) (parse_mtu val)
      else if key = ''psk'' then map_option (\<lambda>v. p\<lparr>p_psk := v\<rparr>) (copy_option 128 val)
      else if key = ''peer_port'' then map_option (\<lambda>v. p\<lparr>p_peer_port := v\<rparr>) (parse_peer_port val)
      else Some p)"

definition yes_no :: "string \<Rightarrow> bool option" where
  "yes_no val =
     (if strcaseeq val ''yes'' \<or> strcaseeq val ''true'' \<or> val = ''1'' then Some True
      else if strcaseeq val ''no'' \<or> strcaseeq val ''false'' \<or> val = ''0'' then Some False
      else None)"

text \<open>A field that is stored when the value is good: the globals and the status.\<close>

definition stored :: "server_globals \<Rightarrow> ('a \<Rightarrow> server_globals) \<Rightarrow> 'a option \<Rightarrow> server_globals \<times> bool" where
  "stored g upd r = (case r of None \<Rightarrow> (g, False) | Some v \<Rightarrow> (upd v, True))"

text \<open>One \<open>key = value\<close> line of the \<open>[server]\<close> section.\<close>

definition config_server_kv :: "string \<Rightarrow> string \<Rightarrow> server_globals \<Rightarrow> server_globals \<times> bool" where
  "config_server_kv key val g =
     (if key = ''port'' then stored g (\<lambda>v. g\<lparr>g_port := v\<rparr>) (parse_port val)
      else if key = ''bind_ip'' then stored g (\<lambda>v. g\<lparr>g_bind_ip := v\<rparr>) (copy_option 16 val)
      else if key = ''local_cidr'' then stored g (\<lambda>v. g\<lparr>g_local_cidr := v\<rparr>) (copy_option 32 val)
      else if key = ''mtu'' then stored g (\<lambda>v. g\<lparr>g_mtu := v\<rparr>) (parse_mtu val)
      else if key = ''encrypt'' then
        (let g1 = g\<lparr>g_encrypt_set := True\<rparr> in stored g1 (\<lambda>v. g1\<lparr>g_encrypt := v\<rparr>) (yes_no val))
      else if key = ''allow_unknown_clients'' then
        stored g (\<lambda>v. g\<lparr>g_deny_unknown_clients := \<not> v\<rparr>) (yes_no val)
      else if key = ''client_isolation'' then
        stored g (\<lambda>v. g\<lparr>g_client_isolation := v\<rparr>) (yes_no val)
      else if key = ''server_key'' then stored g (\<lambda>v. g\<lparr>g_server_key := v\<rparr>) (copy_option 64 val)
      else if key = ''psk'' then stored g (\<lambda>v. g\<lparr>g_psk := v\<rparr>) (copy_option 128 val)
      else if key = ''auto_pool'' then
        (case config_parse_pool val of
           None \<Rightarrow> (g\<lparr>g_pool_set := False\<rparr>, False)
         | Some (net, prefix) \<Rightarrow> (g\<lparr>g_pool_net := net, g_pool_prefix := prefix, g_pool_set := True\<rparr>, True))
      else if key = ''max_clients'' then stored g (\<lambda>v. g\<lparr>g_max_clients := v\<rparr>) (parse_max_clients val)
      else if key = ''client_timeout'' then
        stored g (\<lambda>v. g\<lparr>g_client_timeout := v\<rparr>) (parse_client_timeout val)
      else if key = ''tun_dev'' then stored g (\<lambda>v. g\<lparr>g_tun_dev := v\<rparr>) (copy_option 256 val)
      else if key = ''bind_dev'' then stored g (\<lambda>v. g\<lparr>g_bind_dev := v\<rparr>) (copy_option 16 val)
      else if key = ''pid_file'' then stored g (\<lambda>v. g\<lparr>g_pid_file := v\<rparr>) (copy_option 256 val)
      else if key = ''control_socket'' then
        stored g (\<lambda>v. g\<lparr>g_control_socket := v\<rparr>) (copy_option 108 val)
      else if key = ''domain'' then
        stored g (\<lambda>v. g\<lparr>g_domain := v\<rparr>)
          (if \<not> camex_domain_valid val then None else copy_option 254 val)
      else if key = ''name'' then (g, False)
      else if key = ''peer_port'' then (g, False)
      else (g, True))"

subsection \<open>The file\<close>

datatype cfg_section = SECTION_NONE | SECTION_DEFAULTS | SECTION_CLIENT nat | SECTION_SERVER

text \<open>A \<open>[section]\<close> line, trimmed.\<close>

definition config_section_line ::
  "cfg_env \<Rightarrow> string \<Rightarrow> server_db \<times> cfg_section \<Rightarrow> (server_db \<times> cfg_section) \<times> bool" where
  "config_section_line env line st =
     (if length line < 2 \<or> last line \<noteq> CHR '']'' then (st, False)
      else let content = trim_whitespace (tl (butlast line)); db = fst st
           in if strcaseeq content ''server'' then ((db, SECTION_SERVER), True)
              else if strcaseeq content ''defaults'' then ((db, SECTION_DEFAULTS), True)
              else if strncaseeq 6 content ''client'' \<and> (length content = 6 \<or> isspace (content ! 6)) then
                (let ident = trim_whitespace (drop 6 content)
                 in if ident = [] then (st, False)
                    else case config_db_get_client_slot env ident db of
                           (db1, None) \<Rightarrow> ((db1, snd st), False)
                         | (db1, Some i) \<Rightarrow> ((db1, SECTION_CLIENT i), True))
              else (st, False))"

text \<open>A \<open>key = value\<close> line in each section.\<close>

definition config_value_line ::
  "string \<Rightarrow> string \<Rightarrow> server_db \<times> cfg_section \<Rightarrow> (server_db \<times> cfg_section) \<times> bool" where
  "config_value_line key val st =
     (case st of (db, sec) \<Rightarrow>
        (case sec of
           SECTION_SERVER \<Rightarrow>
             (case config_server_kv key val (db_globals db) of
                (g, ok) \<Rightarrow> ((db\<lparr>db_globals := g\<rparr>, sec), ok))
         | SECTION_NONE \<Rightarrow> (st, False)
         | SECTION_DEFAULTS \<Rightarrow>
             (if key = ''name'' then (st, False)
              else case config_db_apply_kv (db_defaults db) key val of
                     None \<Rightarrow> (st, False)
                   | Some p \<Rightarrow> ((db\<lparr>db_defaults := p\<rparr>, sec), True))
         | SECTION_CLIENT i \<Rightarrow>
             (let c = db_clients db ! i
              in if key = ''name'' then
                   (if \<not> camex_name_valid val then (st, False)
                    else ((db\<lparr>db_clients := (db_clients db)[i := c\<lparr>sp_name := fit (CAMEX_NAME_MAX + 1) val\<rparr>]\<rparr>, sec), True))
                 else case config_db_apply_kv (sp_profile c) key val of
                        None \<Rightarrow> (st, False)
                      | Some p \<Rightarrow>
                          ((db\<lparr>db_clients := (db_clients db)[i := c\<lparr>sp_profile := p\<rparr>]\<rparr>, sec), True))))"

text \<open>One turn of the loop, on what \<open>fgets\<close> put into the buffer.\<close>

definition config_line ::
  "cfg_env \<Rightarrow> string \<Rightarrow> server_db \<times> cfg_section \<Rightarrow> (server_db \<times> cfg_section) \<times> bool" where
  "config_line env raw st =
     (let line = trim_whitespace (takeWhile (\<lambda>c. c \<noteq> CHR 0x00) raw)
      in if line = [] \<or> hd line = CHR ''#'' \<or> hd line = CHR '';'' then (st, True)
         else if hd line = CHR ''['' then config_section_line env line st
         else case cut_at (CHR ''='') line of
                None \<Rightarrow> (st, False)
              | Some (k, v) \<Rightarrow>
                  (let key = trim_whitespace k; val = trim_whitespace v
                   in if key = [] \<or> val = [] then (st, False) else config_value_line key val st))"

text \<open>The chunks \<open>fgets(line, 512, fp)\<close> reads.\<close>

lemma fgets_line_length: "0 < n \<Longrightarrow> s \<noteq> [] \<Longrightarrow> 0 < length (fgets_line n s)"
  by (cases n; cases s) simp_all

function fgets_chunks :: "nat \<Rightarrow> string \<Rightarrow> string list" where
  "fgets_chunks n s =
     (if s = [] \<or> n = 0 then []
      else fgets_line n s # fgets_chunks n (drop (length (fgets_line n s)) s))"
  by pat_completeness auto
termination
  by (relation "measure (\<lambda>(n, s). length s)") (auto dest!: fgets_line_length)

declare fgets_chunks.simps [simp del]

fun config_lines ::
  "cfg_env \<Rightarrow> string list \<Rightarrow> server_db \<times> cfg_section \<Rightarrow> (server_db \<times> cfg_section) \<times> bool" where
  "config_lines env [] st = (st, True)"
| "config_lines env (l # ls) st =
     (case config_line env l st of
        (st1, False) \<Rightarrow> (st1, False)
      | (st1, True) \<Rightarrow> config_lines env ls st1)"

text \<open>After the file is read: the address of each \<open>local_cidr\<close>, indexed.\<close>

definition profile_addr :: "server_profile \<Rightarrow> u32 option" where
  "profile_addr c =
     (if \<not> sp_active c \<or> p_local_cidr (sp_profile c) = [] then None
      else case parse_local_cidr (p_local_cidr (sp_profile c)) 16 16 of
             None \<Rightarrow> None | Some (ip, m) \<Rightarrow> inet_pton ip)"

fun index_ips_loop :: "cfg_env \<Rightarrow> nat list \<Rightarrow> server_db \<Rightarrow> server_db \<times> bool" where
  "index_ips_loop env [] db = (db, True)"
| "index_ips_loop env (i # is) db =
     (case profile_addr (db_clients db ! i) of
        None \<Rightarrow> index_ips_loop env is db
      | Some a \<Rightarrow>
          (let db1 = db\<lparr>db_clients := (db_clients db)
                 [i := (db_clients db ! i)\<lparr>sp_has_ip := True, sp_ip_be := a\<rparr>]\<rparr>
           in case slotidx_enter (ce_mem env) (db_by_ip db1) (slotidx_hash_u32 a) i of
                (False, x) \<Rightarrow> (db1\<lparr>db_by_ip := x\<rparr>, False)
              | (True, x) \<Rightarrow> index_ips_loop env is (db1\<lparr>db_by_ip := x\<rparr>)))"

definition config_db_index_ips :: "cfg_env \<Rightarrow> server_db \<Rightarrow> server_db \<times> bool" where
  "config_db_index_ips env db =
     (case slotidx_reset (ce_mem env) (db_by_ip db) (length (db_clients db)) of
        (False, x) \<Rightarrow> (db\<lparr>db_by_ip := x\<rparr>, False)
      | (True, x) \<Rightarrow> index_ips_loop env [0..<length (db_clients db)] (db\<lparr>db_by_ip := x\<rparr>))"

text \<open>
  The whole file.  \<open>None\<close>: no path, or no such file, which leaves an empty database and
  succeeds; an unreadable file is \<open>Some (Inl ())\<close>.
\<close>

definition config_db_load_file :: "cfg_env \<Rightarrow> (unit + string) option \<Rightarrow> server_db \<times> bool" where
  "config_db_load_file env file =
     (case file of
        None \<Rightarrow> (config_server_db_reset, True)
      | Some (Inl _) \<Rightarrow> (config_server_db_reset, False)
      | Some (Inr content) \<Rightarrow>
          (case config_lines env (fgets_chunks 511 content) (config_server_db_reset, SECTION_NONE) of
             ((db, sec), False) \<Rightarrow> (db, False)
           | ((db, sec), True) \<Rightarrow>
               (case config_db_index_ips env db of
                  (db1, False) \<Rightarrow> (db1, False)
                | (db1, True) \<Rightarrow> (db1\<lparr>db_loaded := True\<rparr>, True))))"

definition config_db_lookup_profile :: "server_db \<Rightarrow> string \<Rightarrow> camex_profile" where
  "config_db_lookup_profile db client_id =
     (case config_db_find_client db client_id of
        None \<Rightarrow> db_defaults db
      | Some i \<Rightarrow> config_profile_merge (db_defaults db) (sp_profile (db_clients db ! i)))"

definition config_db_peer_port :: "server_db \<Rightarrow> string \<Rightarrow> int" where
  "config_db_peer_port db client_id =
     (let port0 = p_peer_port (db_defaults db);
          port = (case config_db_find_client db client_id of
                    Some i \<Rightarrow> (if p_peer_port (sp_profile (db_clients db ! i)) \<noteq> 0
                               then p_peer_port (sp_profile (db_clients db ! i)) else port0)
                  | None \<Rightarrow> port0)
      in if port \<noteq> 0 then port else CAMEX_PEER_PORT_DEFAULT)"

subsection \<open>The profile table and its index by ID\<close>

abbreviation db_id :: "server_db \<Rightarrow> nat \<Rightarrow> string" where
  "db_id db i \<equiv> sp_client_id (db_clients db ! i)"

definition db_ids_ok :: "server_db \<Rightarrow> bool" where
  "db_ids_ok db \<longleftrightarrow> slotidx_inv (db_by_id db) \<and> unat (sx_used (db_by_id db)) \<le> length (db_clients db) \<and>
     length (db_clients db) \<le> CAMEX_MAX_CLIENTS_LIMIT \<and>
     (\<forall>i<length (db_clients db). sp_active (db_clients db ! i) \<and> db_id db i \<noteq> [] \<and>
        length (db_id db i) < CAMEX_CLIENT_ID_LEN \<and>
        (slotidx_hash_nocase (db_id db i), i) \<in> slotidx_entries (db_by_id db)) \<and>
     (\<forall>i j. i < j \<and> j < length (db_clients db) \<longrightarrow> \<not> strcaseeq (db_id db i) (db_id db j))"

lemma db_ids_ok_reset: "db_ids_ok config_server_db_reset"
  by (simp add: db_ids_ok_def config_server_db_reset_def db_zero_def slotidx_free_ok)

lemma find_client_scan:
  assumes "db_ids_ok db" "w \<noteq> []"
  shows "config_db_find_client db w = scan_first (length (db_clients db)) (\<lambda>i. strcaseeq (db_id db i) w)"
proof -
  have "config_db_find_client db w = scan_first (length (db_clients db)) (profile_id_match db w)"
    unfolding config_db_find_client_def using assms(2)
  proof (simp, intro slotidx_lookup_scan)
    show "slotidx_inv (db_by_id db)" using assms by (simp add: db_ids_ok_def)
    show "profile_id_match db w i \<Longrightarrow> i < length (db_clients db)" for i
      by (simp add: profile_id_match_def)
    show "(slotidx_hash_nocase w, i) \<in> slotidx_entries (db_by_id db)" if "profile_id_match db w i" for i
      using assms that slotidx_hash_nocase_eq by (fastforce simp: profile_id_match_def db_ids_ok_def)
  qed
  also have "\<dots> = scan_first (length (db_clients db)) (\<lambda>i. strcaseeq (db_id db i) w)"
    using assms(1) by (intro scan_first_cong) (simp add: profile_id_match_def db_ids_ok_def)
  finally show ?thesis .
qed

lemma find_client_Some:
  assumes "db_ids_ok db" "config_db_find_client db w = Some i"
  shows "i < length (db_clients db)" "strcaseeq (db_id db i) w" "w \<noteq> []"
proof -
  show "w \<noteq> []" using assms(2) by (auto simp: config_db_find_client_def)
  then show "i < length (db_clients db)" "strcaseeq (db_id db i) w"
    using assms find_client_scan scan_firstD by auto
qed

lemma db_ids_ok_same:
  assumes "db_ids_ok db" "db_by_id db' = db_by_id db"
    and "map (\<lambda>c. (sp_client_id c, sp_active c)) (db_clients db') = map (\<lambda>c. (sp_client_id c, sp_active c)) (db_clients db)"
  shows "db_ids_ok db'"
proof -
  have len: "length (db_clients db') = length (db_clients db)"
    using assms(3) map_eq_imp_length_eq by blast
  have "sp_client_id (db_clients db' ! i) = sp_client_id (db_clients db ! i)"
    "sp_active (db_clients db' ! i) = sp_active (db_clients db ! i)" if "i < length (db_clients db)" for i
    using arg_cong [OF assms(3), of "\<lambda>l. l ! i"] that len by simp_all
  then show ?thesis
    using assms(1,2) len unfolding db_ids_ok_def by auto
qed

lemma map_update_same: "i < length xs \<Longrightarrow> f y = f (xs ! i) \<Longrightarrow> map f (xs[i := y]) = map f xs"
  by (metis list_update_id map_update)

lemma slotidx_enter_fail: "slotidx_enter mem x h n = (False, y) \<Longrightarrow> y = x"
  using idx.ins_fail by (auto simp: slotidx_enter_def split: option.splits)

lemma db_ids_ok_add:
  assumes ok: "db_ids_ok db" and w: "w \<noteq> []" "length w < CAMEX_CLIENT_ID_LEN"
    and n: "length (db_clients db) < CAMEX_MAX_CLIENTS_LIMIT"
    and free: "config_db_find_client db w = None"
    and en: "slotidx_enter mem (db_by_id db) (slotidx_hash_nocase w) (length (db_clients db)) = (True, x)"
    and c: "sp_client_id c = w" "sp_active c"
    and db': "db_by_id db' = x" "db_clients db' = db_clients db @ [c]"
  shows "db_ids_ok db'"
proof -
  let ?n = "length (db_clients db)"
  have pre: "slotidx_inv (db_by_id db)" "unat (sx_used (db_by_id db)) < SLOTIDX_ROOM" "?n < 2 ^ 32 - 1"
    using ok n by (auto simp: db_ids_ok_def SLOTIDX_ROOM_def CAMEX_MAX_CLIENTS_LIMIT_def)
  note E = slotidx_enter_ok [OF pre en]
  have new: "\<not> strcaseeq (db_id db i) w" if "i < ?n" for i
    using free that unfolding find_client_scan [OF ok w(1)] scan_first_None_iff by blast
  have ids: "db_id db' i = (if i = ?n then w else db_id db i)"
    "sp_active (db_clients db' ! i) \<longleftrightarrow> (if i = ?n then True else sp_active (db_clients db ! i))" if "i < Suc ?n" for i
    using that by (auto simp: db' nth_append c less_Suc_eq)
  show ?thesis
    unfolding db_ids_ok_def
  proof (intro conjI allI impI)
    show "slotidx_inv (db_by_id db')" "length (db_clients db') \<le> CAMEX_MAX_CLIENTS_LIMIT"
      using E n by (simp_all add: db')
    show "unat (sx_used (db_by_id db')) \<le> length (db_clients db')"
      using E(3) ok by (simp add: db' db_ids_ok_def)
  next
    fix i assume "i < length (db_clients db')"
    then have i: "i < Suc ?n" by (simp add: db')
    show "sp_active (db_clients db' ! i)" "db_id db' i \<noteq> []" "length (db_id db' i) < CAMEX_CLIENT_ID_LEN"
      using ok i w by (auto simp: ids db_ids_ok_def)
    show "(slotidx_hash_nocase (db_id db' i), i) \<in> slotidx_entries (db_by_id db')"
      using ok i E(2) c(1) by (cases "i = ?n") (auto simp: nth_append db' db_ids_ok_def)
  next
    fix i j assume "i < j \<and> j < length (db_clients db')"
    then have ij: "i < j" "j < Suc ?n" by (simp_all add: db')
    then show "\<not> strcaseeq (db_id db' i) (db_id db' j)"
      using ok new by (auto simp: ids db_ids_ok_def)
  qed
qed

lemma if_same3: "a \<or> b \<or> c \<Longrightarrow> (if a then x else if b then x else if c then x else y) = x"
  by auto

lemma new_client_cases:
  assumes "config_db_new_client env w db = (db', r)"
  obtains (none) "r = None" "db_by_id db' = db_by_id db" "db_clients db' = db_clients db"
      "db_by_ip db' = db_by_ip db" "db_defaults db' = db_defaults db" "db_globals db' = db_globals db"
  | (new) x c where "r = Some (length (db_clients db))" "length w < CAMEX_CLIENT_ID_LEN"
      "length (db_clients db) < CAMEX_MAX_CLIENTS_LIMIT"
      "slotidx_enter (ce_mem env) (db_by_id db) (slotidx_hash_nocase w) (length (db_clients db)) = (True, x)"
      "db_by_id db' = x" "db_clients db' = db_clients db @ [c]"
      "c = \<lparr>sp_client_id = w, sp_profile = config_profile_reset, sp_name = [], sp_active = True, sp_has_ip = False, sp_ip_be = 0\<rparr>"
      "db_by_ip db' = db_by_ip db" "db_defaults db' = db_defaults db" "db_globals db' = db_globals db"
proof -
  let ?en = "slotidx_enter (ce_mem env) (db_by_id db) (slotidx_hash_nocase w) (length (db_clients db))"
  let ?cap = "if db_cap db \<noteq> 0 then db_cap db * 2 else 16"
  obtain ok x where en: "?en = (ok, x)" by fastforce
  show thesis
  proof (cases "length w \<ge> CAMEX_CLIENT_ID_LEN \<or> length (db_clients db) \<ge> CAMEX_MAX_CLIENTS_LIMIT
      \<or> (length (db_clients db) = db_cap db \<and> \<not> ce_grow env ?cap)")
    case True
    then have "config_db_new_client env w db = (db, None)"
      unfolding config_db_new_client_def Let_def by (rule if_same3)
    then show thesis using none assms by simp
  next
    case False
    let ?db1 = "if length (db_clients db) = db_cap db then db\<lparr>db_cap := ?cap\<rparr> else db"
    have eq: "(db', r) = (if \<not> ok then (?db1\<lparr>db_by_id := x\<rparr>, None)
        else (?db1\<lparr>db_by_id := x, db_clients := db_clients db @
           [\<lparr>sp_client_id = w, sp_profile = config_profile_reset, sp_name = [], sp_active = True, sp_has_ip = False, sp_ip_be = 0\<rparr>]\<rparr>,
           Some (length (db_clients db))))"
      using assms False unfolding config_db_new_client_def Let_def en prod.case by (simp only: if_False de_Morgan_disj simp_thms)
    show thesis
    proof (cases ok)
      case True
      then show thesis using eq False en by (intro new) (simp_all add: not_le)
    next
      case nok: False
      then have "x = db_by_id db" using en slotidx_enter_fail by simp
      then show thesis using eq nok by (intro none) simp_all
    qed
  qed
qed

lemma get_client_slot_ok:
  assumes ok: "db_ids_ok db" and r: "config_db_get_client_slot env w db = (db', r)"
  shows "db_ids_ok db' \<and> (\<forall>i. r = Some i \<longrightarrow> i < length (db_clients db') \<and> strcaseeq (db_id db' i) w) \<and>
    (\<exists>cs. db_clients db' = db_clients db @ cs \<and>
      (\<forall>c\<in>set cs. sp_profile c = config_profile_reset \<and> sp_name c = [] \<and> \<not> sp_has_ip c)) \<and>
    db_by_ip db' = db_by_ip db \<and> db_defaults db' = db_defaults db \<and> db_globals db' = db_globals db"
proof -
  consider (same) "db' = db" "r = None \<or> r = config_db_find_client db w"
    | (new) "w \<noteq> []" "config_db_find_client db w = None" "config_db_new_client env w db = (db', r)"
    using r by (auto simp: config_db_get_client_slot_def split: if_splits option.splits)
  then show ?thesis
  proof cases
    case same
    then show ?thesis using ok find_client_Some [OF ok, of w] by auto
  next
    case new
    from new(3) show ?thesis
    proof (cases rule: new_client_cases)
      case none
      then have "db_ids_ok db'" using db_ids_ok_same [OF ok] by simp
      then show ?thesis using none by simp
    next
      case (new x c)
      then have "db_ids_ok db'"
        using db_ids_ok_add [OF ok \<open>w \<noteq> []\<close> _ _ \<open>config_db_find_client db w = None\<close>, of "ce_mem env" x c db'] by simp
      then show ?thesis using new by simp
    qed
  qed
qed

subsection \<open>What a configuration file can leave behind\<close>

definition profile_wf :: "camex_profile \<Rightarrow> bool" where
  "profile_wf p \<longleftrightarrow> length (p_local_cidr p) < 32 \<and> length (p_gateway_ip p) < 16 \<and>
     length (p_route_cidrs p) \<le> CAMEX_MAX_ROUTES \<and>
     (\<forall>r\<in>set (p_route_cidrs p). r \<noteq> [] \<and> length r < 32 \<and> validate_route_cidr r) \<and>
     (p_mtu p = 0 \<or> 576 \<le> p_mtu p \<and> p_mtu p \<le> 9000) \<and> - 1 \<le> p_peer_port p \<and> p_peer_port p \<le> 65535 \<and>
     length (p_psk p) < 128"

definition pool_wf :: "u32 \<Rightarrow> nat \<Rightarrow> bool" where
  "pool_wf net prefix \<longleftrightarrow> CAMEX_AUTO_POOL_MIN_PREFIX \<le> prefix \<and> prefix \<le> CAMEX_AUTO_POOL_MAX_PREFIX \<and>
     net AND NOT (push_bit (32 - prefix) 0xFFFFFFFF) = 0"

definition globals_wf :: "server_globals \<Rightarrow> bool" where
  "globals_wf g \<longleftrightarrow> pool_wf (g_pool_net g) (g_pool_prefix g) \<and> 0 \<le> g_port g \<and> g_port g \<le> 65535 \<and>
     (g_mtu g = 0 \<or> 576 \<le> g_mtu g \<and> g_mtu g \<le> 9000) \<and> g_max_clients g \<le> CAMEX_MAX_CLIENTS_LIMIT \<and>
     (g_client_timeout g = 0 \<or> CAMEX_CLIENT_TIMEOUT_MIN \<le> g_client_timeout g \<and> g_client_timeout g \<le> CAMEX_CLIENT_TIMEOUT) \<and>
     (g_domain g = [] \<or> camex_domain_valid (g_domain g))"

definition client_wf :: "server_profile \<Rightarrow> bool" where
  "client_wf c \<longleftrightarrow> profile_wf (sp_profile c) \<and> (sp_name c = [] \<or> camex_name_valid (sp_name c))"

definition db_wf :: "server_db \<Rightarrow> bool" where
  "db_wf db \<longleftrightarrow> db_ids_ok db \<and> profile_wf (db_defaults db) \<and> globals_wf (db_globals db) \<and>
     (\<forall>c\<in>set (db_clients db). client_wf c)"

definition parse_ok :: "server_db \<times> cfg_section \<Rightarrow> bool" where
  "parse_ok st \<longleftrightarrow> db_wf (fst st) \<and> (\<forall>c\<in>set (db_clients (fst st)). \<not> sp_has_ip c) \<and>
     db_by_ip (fst st) = slotidx_free \<and>
     (case snd st of SECTION_CLIENT i \<Rightarrow> i < length (db_clients (fst st)) | _ \<Rightarrow> True)"

lemma profile_wf_reset: "profile_wf config_profile_reset"
  by (simp add: profile_wf_def config_profile_reset_def)

lemma append_route_wf:
  assumes p: "profile_wf p" and "config_profile_append_route p v = Some q"
  shows "profile_wf q"
proof -
  obtain rs where rs: "append_route_option (p_route_cidrs p) v = Some rs" and q: "q = p\<lparr>p_route_cidrs := rs\<rparr>"
    using assms(2) by (auto simp: config_profile_append_route_def)
  show ?thesis
    using p append_route_Some [OF rs] unfolding q profile_wf_def by auto
qed

lemma parse_peer_port_range: "parse_peer_port v = Some n \<Longrightarrow> - 1 \<le> n \<and> n \<le> 65535 \<and> n \<noteq> 0"
  by (auto simp: parse_peer_port_def split: if_splits prod.splits)

definition opt_wf :: "camex_profile option \<Rightarrow> bool" where
  "opt_wf r \<longleftrightarrow> (\<forall>q. r = Some q \<longrightarrow> profile_wf q)"

lemma opt_wf_if: "opt_wf a \<Longrightarrow> opt_wf b \<Longrightarrow> opt_wf (if c then a else b)"
  by simp

lemma opt_wf_map: "(\<And>v. r = Some v \<Longrightarrow> profile_wf (u v)) \<Longrightarrow> opt_wf (map_option u r)"
  by (auto simp: opt_wf_def)

lemma profile_wf_update:
  assumes "profile_wf p"
  shows "length a < 32 \<Longrightarrow> profile_wf (p\<lparr>p_local_cidr := a\<rparr>)" "length a < 16 \<Longrightarrow> profile_wf (p\<lparr>p_gateway_ip := a\<rparr>)"
    "length a < 128 \<Longrightarrow> profile_wf (p\<lparr>p_psk := a\<rparr>)" "576 \<le> i \<Longrightarrow> i \<le> 9000 \<Longrightarrow> profile_wf (p\<lparr>p_mtu := i\<rparr>)"
    "- 1 \<le> i \<Longrightarrow> i \<le> 65535 \<Longrightarrow> profile_wf (p\<lparr>p_peer_port := i\<rparr>)"
  using assms by (simp_all add: profile_wf_def)

lemma apply_kv_opt: "profile_wf p \<Longrightarrow> opt_wf (config_db_apply_kv p k v)"
  unfolding config_db_apply_kv_def
  apply (intro opt_wf_if opt_wf_map)
        apply (simp add: copy_option_Some_iff profile_wf_update)
       apply (simp add: copy_option_Some_iff profile_wf_update)
      apply (auto simp: opt_wf_def dest: append_route_wf) [1]
     apply (simp add: parse_mtu_def, drule parse_ranged_bounds, simp add: profile_wf_update)
    apply (simp add: copy_option_Some_iff profile_wf_update)
   apply (drule parse_peer_port_range, simp add: profile_wf_update)
  apply (simp add: opt_wf_def)
  done

lemma apply_kv_wf: "profile_wf p \<Longrightarrow> config_db_apply_kv p k v = Some q \<Longrightarrow> profile_wf q"
  using apply_kv_opt unfolding opt_wf_def by blast

lemma config_parse_pool_wf:
  assumes "config_parse_pool v = Some (net, p)"
  shows "pool_wf net p"
proof -
  obtain addr rest where c: "cut_at (CHR ''/'') v = Some (addr, rest)"
    using assms by (auto simp: config_parse_pool_def split: option.splits)
  obtain q en er where s: "strtoul rest = (q, en, er)" using prod_cases3 by blast
  have len: "length addr < 16"
    using assms by (auto simp: config_parse_pool_def c not_le split: if_splits)
  obtain a where a: "inet_pton addr = Some a"
    using assms len by (auto simp: config_parse_pool_def c split: option.splits)
  show ?thesis
    using assms len unfolding config_parse_pool_def pool_wf_def Let_def
    by (simp add: c s a split: if_splits)
qed

lemma parse_bounded_range: "parse_bounded_uint lo hi v = Some n \<Longrightarrow> lo \<le> n \<and> n \<le> hi"
  by (auto simp: parse_bounded_uint_def not_less split: if_splits prod.splits)

lemma stored_wf:
  assumes "globals_wf g" "\<And>v. r = Some v \<Longrightarrow> globals_wf (u v)"
  shows "globals_wf (fst (stored g u r))"
  using assms by (cases r) (auto simp: stored_def)

lemma globals_wf_plain:
  assumes "globals_wf g"
  shows "globals_wf (g\<lparr>g_bind_ip := a\<rparr>)" "globals_wf (g\<lparr>g_local_cidr := a\<rparr>)" "globals_wf (g\<lparr>g_tun_dev := a\<rparr>)"
    "globals_wf (g\<lparr>g_bind_dev := a\<rparr>)" "globals_wf (g\<lparr>g_pid_file := a\<rparr>)" "globals_wf (g\<lparr>g_control_socket := a\<rparr>)"
    "globals_wf (g\<lparr>g_psk := a\<rparr>)" "globals_wf (g\<lparr>g_server_key := a\<rparr>)" "globals_wf (g\<lparr>g_encrypt_set := b\<rparr>)"
    "globals_wf (g\<lparr>g_encrypt_set := b, g_encrypt := b'\<rparr>)"
    "globals_wf (g\<lparr>g_deny_unknown_clients := b\<rparr>)" "globals_wf (g\<lparr>g_client_isolation := b\<rparr>)"
    "globals_wf (g\<lparr>g_pool_set := b\<rparr>)"
    "pool_wf n p \<Longrightarrow> globals_wf (g\<lparr>g_pool_net := n, g_pool_prefix := p, g_pool_set := b\<rparr>)"
    "0 \<le> i \<Longrightarrow> i \<le> 65535 \<Longrightarrow> globals_wf (g\<lparr>g_port := i\<rparr>)"
    "576 \<le> i \<Longrightarrow> i \<le> 9000 \<Longrightarrow> globals_wf (g\<lparr>g_mtu := i\<rparr>)"
    "m \<le> CAMEX_MAX_CLIENTS_LIMIT \<Longrightarrow> globals_wf (g\<lparr>g_max_clients := m\<rparr>)"
    "CAMEX_CLIENT_TIMEOUT_MIN \<le> m \<Longrightarrow> m \<le> CAMEX_CLIENT_TIMEOUT \<Longrightarrow> globals_wf (g\<lparr>g_client_timeout := m\<rparr>)"
    "camex_domain_valid a \<Longrightarrow> globals_wf (g\<lparr>g_domain := a\<rparr>)"
  using assms by (simp_all add: globals_wf_def)

lemma wf_fst_if: "globals_wf (fst a) \<Longrightarrow> globals_wf (fst b) \<Longrightarrow> globals_wf (fst (if c then a else b))"
  by simp

lemma server_kv_wf:
  assumes g: "globals_wf g"
  shows "globals_wf (fst (config_server_kv k v g))"
  unfolding config_server_kv_def Let_def
  by (intro wf_fst_if stored_wf;
      (simp add: g globals_wf_plain copy_option_Some_iff parse_port_def parse_mtu_def
         parse_max_clients_def parse_client_timeout_def)?;
      (drule parse_ranged_bounds parse_bounded_range, simp add: g globals_wf_plain)?;
      (auto simp: g globals_wf_plain config_parse_pool_wf copy_option_Some_iff split: option.split if_splits)?)

lemma parse_ok_reset: "parse_ok (config_server_db_reset, SECTION_NONE)"
proof -
  have "globals_wf (db_globals config_server_db_reset)"
    by (simp add: config_server_db_reset_def globals_wf_def globals_zero_def pool_wf_def
        CAMEX_AUTO_POOL_DEFAULT_NET_def CAMEX_AUTO_POOL_DEFAULT_PREFIX_def CAMEX_AUTO_POOL_MIN_PREFIX_def
        CAMEX_AUTO_POOL_MAX_PREFIX_def)
  moreover have "db_clients config_server_db_reset = []" "db_defaults config_server_db_reset = config_profile_reset"
    "db_by_ip config_server_db_reset = slotidx_free"
    by (simp_all add: config_server_db_reset_def db_zero_def)
  ultimately show ?thesis
    using db_ids_ok_reset by (simp add: parse_ok_def db_wf_def profile_wf_reset)
qed

lemma section_line_ok:
  assumes "parse_ok st"
  shows "parse_ok (fst (config_section_line env line st))"
proof -
  obtain db sec where st: "st = (db, sec)" by fastforce
  let ?id = "trim_whitespace (drop 6 (trim_whitespace (tl (butlast line))))"
  have plain: "parse_ok (db, SECTION_SERVER)" "parse_ok (db, SECTION_DEFAULTS)"
    using assms by (simp_all add: st parse_ok_def)
  obtain db1 r where g: "config_db_get_client_slot env ?id db = (db1, r)" by fastforce
  have "db_ids_ok db" using assms by (simp add: st parse_ok_def db_wf_def)
  note G = get_client_slot_ok [OF this g]
  then obtain cs where cs: "db_clients db1 = db_clients db @ cs"
    "\<forall>c\<in>set cs. sp_profile c = config_profile_reset \<and> sp_name c = [] \<and> \<not> sp_has_ip c" by blast
  have wf: "db_wf db1" "\<forall>c\<in>set (db_clients db1). \<not> sp_has_ip c" "db_by_ip db1 = slotidx_free"
    using assms G cs by (auto simp: st parse_ok_def db_wf_def client_wf_def profile_wf_reset)
  have "parse_ok (db1, sec)" "\<And>i. r = Some i \<Longrightarrow> parse_ok (db1, SECTION_CLIENT i)"
    using wf assms G cs by (auto simp: st parse_ok_def split: cfg_section.splits)
  then show ?thesis
    using plain assms unfolding config_section_line_def Let_def
    by (simp add: st g split: option.split)
qed

lemma db_wf_client:
  assumes wf: "db_wf db" and i: "i < length (db_clients db)" and c: "client_wf c"
    and "sp_client_id c = db_id db i" "sp_active c = sp_active (db_clients db ! i)"
  shows "db_wf (db\<lparr>db_clients := (db_clients db)[i := c]\<rparr>)"
proof -
  let ?db' = "db\<lparr>db_clients := (db_clients db)[i := c]\<rparr>"
  have "db_ids_ok ?db'"
  proof (rule db_ids_ok_same)
    show "db_ids_ok db" using wf by (simp add: db_wf_def)
    show "map (\<lambda>c. (sp_client_id c, sp_active c)) (db_clients ?db') = map (\<lambda>c. (sp_client_id c, sp_active c)) (db_clients db)"
    proof -
      have e: "db_clients ?db' = (db_clients db)[i := c]" by simp
      show ?thesis unfolding e by (rule map_update_same [OF i]) (simp add: assms(4,5))
    qed
  qed simp
  moreover have "client_wf d" if "d \<in> set ((db_clients db)[i := c])" for d
    using set_update_cases [OF that] wf c unfolding db_wf_def by blast
  ultimately show ?thesis
    using wf by (simp add: db_wf_def)
qed

lemma db_ids_ok_globals: "db_ids_ok (db\<lparr>db_globals := g\<rparr>) = db_ids_ok db"
  "db_ids_ok (db\<lparr>db_defaults := p\<rparr>) = db_ids_ok db"
  by (simp_all add: db_ids_ok_def)

lemma parse_ok_globals: "parse_ok (db, sec) \<Longrightarrow> globals_wf g \<Longrightarrow> parse_ok (db\<lparr>db_globals := g\<rparr>, sec)"
  by (cases sec) (simp_all add: parse_ok_def db_wf_def db_ids_ok_globals)

lemma parse_ok_defaults: "parse_ok (db, sec) \<Longrightarrow> profile_wf p \<Longrightarrow> parse_ok (db\<lparr>db_defaults := p\<rparr>, sec)"
  by (cases sec) (simp_all add: parse_ok_def db_wf_def db_ids_ok_globals)

lemma parse_ok_client:
  assumes ok: "parse_ok (db, SECTION_CLIENT i)" and c: "client_wf c"
    "sp_client_id c = db_id db i" "sp_active c = sp_active (db_clients db ! i)" "sp_has_ip c = sp_has_ip (db_clients db ! i)"
  shows "parse_ok (db\<lparr>db_clients := (db_clients db)[i := c]\<rparr>, SECTION_CLIENT i)"
proof -
  have i: "i < length (db_clients db)" and wf: "db_wf db" and bip: "db_by_ip db = slotidx_free"
    and noip: "\<forall>c\<in>set (db_clients db). \<not> sp_has_ip c"
    using ok by (simp_all add: parse_ok_def)
  have "\<not> sp_has_ip d" if d: "d \<in> set ((db_clients db)[i := c])" for d
    using set_update_cases [OF d] noip i c(4) nth_mem by metis
  then show ?thesis
    using db_wf_client [OF wf i c(1-3)] bip i by (simp add: parse_ok_def)
qed

lemma value_line_ok:
  assumes ok: "parse_ok st"
  shows "parse_ok (fst (config_value_line k v st))"
proof -
  obtain db sec where st: "st = (db, sec)" by fastforce
  note ok = ok [unfolded st]
  have wf: "db_wf db" using ok by (simp add: parse_ok_def)
  show ?thesis
  proof (cases sec)
    case SECTION_NONE
    then show ?thesis using ok unfolding config_value_line_def st by simp
  next
    case SECTION_SERVER
    have "globals_wf (fst (config_server_kv k v (db_globals db)))"
      using wf server_kv_wf by (simp add: db_wf_def)
    then have "parse_ok (db\<lparr>db_globals := fst (config_server_kv k v (db_globals db))\<rparr>, sec)"
      by (rule parse_ok_globals [OF ok])
    then show ?thesis
      unfolding config_value_line_def st SECTION_SERVER
      by (cases "config_server_kv k v (db_globals db)") simp
  next
    case SECTION_DEFAULTS
    have "profile_wf (db_defaults db)" using wf by (simp add: db_wf_def)
    then have "parse_ok (db\<lparr>db_defaults := p\<rparr>, sec)" if "config_db_apply_kv (db_defaults db) k v = Some p" for p
      using parse_ok_defaults [OF ok] apply_kv_wf that by blast
    then show ?thesis
      using ok unfolding config_value_line_def st SECTION_DEFAULTS by (simp split: option.split)
  next
    case (SECTION_CLIENT i)
    let ?c = "db_clients db ! i"
    note ok = ok [unfolded SECTION_CLIENT]
    have i: "i < length (db_clients db)" using ok by (simp add: parse_ok_def)
    have cwf: "client_wf ?c" using wf i by (simp add: db_wf_def)
    have "client_wf (?c\<lparr>sp_name := fit (CAMEX_NAME_MAX + 1) v\<rparr>)" if "camex_name_valid v"
      using cwf that by (simp add: client_wf_def fit_def camex_name_valid_def)
    then have n: "parse_ok (db\<lparr>db_clients := (db_clients db)[i := ?c\<lparr>sp_name := fit (CAMEX_NAME_MAX + 1) v\<rparr>]\<rparr>, SECTION_CLIENT i)"
      if "camex_name_valid v" using that by (intro parse_ok_client [OF ok]) simp_all
    have "client_wf (?c\<lparr>sp_profile := q\<rparr>)" if "config_db_apply_kv (sp_profile ?c) k v = Some q" for q
      using cwf apply_kv_wf [OF _ that] by (simp add: client_wf_def)
    then have p: "parse_ok (db\<lparr>db_clients := (db_clients db)[i := ?c\<lparr>sp_profile := q\<rparr>]\<rparr>, SECTION_CLIENT i)"
      if "config_db_apply_kv (sp_profile ?c) k v = Some q" for q
      using that by (intro parse_ok_client [OF ok]) simp_all
    show ?thesis
      using ok n p unfolding config_value_line_def st SECTION_CLIENT by (simp add: Let_def split: option.split)
  qed
qed

lemma config_line_ok: "parse_ok st \<Longrightarrow> parse_ok (fst (config_line env raw st))"
  unfolding config_line_def Let_def
  by (simp add: section_line_ok value_line_ok split: option.split prod.split)

lemma config_lines_ok: "parse_ok st \<Longrightarrow> parse_ok (fst (config_lines env ls st))"
proof (induction ls arbitrary: st)
  case (Cons l ls)
  obtain st1 ok where l: "config_line env l st = (st1, ok)" by fastforce
  then have "parse_ok st1" using config_line_ok [OF Cons.prems, of env l] by simp
  then show ?case using Cons.IH l by (cases ok) simp_all
qed simp

text \<open>Indexing the addresses.\<close>

definition ip_entry_ok :: "slotidx \<Rightarrow> nat \<Rightarrow> server_profile \<Rightarrow> nat \<Rightarrow> bool" where
  "ip_entry_ok x n c i \<longleftrightarrow>
     (if i < n
      then (case profile_addr c of
              None \<Rightarrow> \<not> sp_has_ip c
            | Some a \<Rightarrow> sp_has_ip c \<and> sp_ip_be c = a \<and> (slotidx_hash_u32 a, i) \<in> slotidx_entries x)
      else \<not> sp_has_ip c)"

definition ips_ok :: "server_db \<Rightarrow> nat \<Rightarrow> bool" where
  "ips_ok db n \<longleftrightarrow> slotidx_inv (db_by_ip db) \<and> unat (sx_used (db_by_ip db)) \<le> n \<and>
     (\<forall>i<length (db_clients db). ip_entry_ok (db_by_ip db) n (db_clients db ! i) i)"

lemma ip_entry_mono:
  "ip_entry_ok x m c i \<Longrightarrow> i \<noteq> m \<Longrightarrow> slotidx_entries x \<subseteq> slotidx_entries y \<Longrightarrow> ip_entry_ok y (Suc m) c i"
  by (auto simp: ip_entry_ok_def split: option.splits if_splits)

lemma profile_addr_same: "profile_addr (c\<lparr>sp_has_ip := b, sp_ip_be := a\<rparr>) = profile_addr c"
  by (simp add: profile_addr_def)

lemma client_wf_same: "client_wf (c\<lparr>sp_has_ip := b, sp_ip_be := a\<rparr>) = client_wf c"
  by (simp add: client_wf_def)

lemma db_wf_by_ip: "db_wf (db\<lparr>db_by_ip := x\<rparr>) = db_wf db"
  by (simp add: db_wf_def db_ids_ok_def)

lemma index_ips_step:
  assumes ips: "ips_ok db m" and m: "m < length (db_clients db)" "length (db_clients db) \<le> CAMEX_MAX_CLIENTS_LIMIT"
    and a: "profile_addr (db_clients db ! m) = Some a"
    and en: "slotidx_enter mem (db_by_ip db) (slotidx_hash_u32 a) m = (True, x)"
  shows "ips_ok (db\<lparr>db_clients := (db_clients db)[m := (db_clients db ! m)\<lparr>sp_has_ip := True, sp_ip_be := a\<rparr>],
     db_by_ip := x\<rparr>) (Suc m)"
proof -
  have pre: "slotidx_inv (db_by_ip db)" "unat (sx_used (db_by_ip db)) < SLOTIDX_ROOM" "m < 2 ^ 32 - 1"
    using ips m by (auto simp: ips_ok_def SLOTIDX_ROOM_def CAMEX_MAX_CLIENTS_LIMIT_def)
  note E = slotidx_enter_ok [OF pre en]
  let ?c = "(db_clients db ! m)\<lparr>sp_has_ip := True, sp_ip_be := a\<rparr>"
  have sub: "slotidx_entries (db_by_ip db) \<subseteq> slotidx_entries x" using E(2) by auto
  have "ip_entry_ok x (Suc m) ((db_clients db)[m := ?c] ! i) i" if i: "i < length (db_clients db)" for i
  proof (cases "i = m")
    case True
    then show ?thesis using i a E(2) by (simp add: ip_entry_ok_def profile_addr_same)
  next
    case False
    have "ip_entry_ok (db_by_ip db) m (db_clients db ! i) i" using ips i by (simp add: ips_ok_def)
    then show ?thesis using False ip_entry_mono sub by (metis nth_list_update_neq)
  qed
  moreover have "slotidx_inv x" "unat (sx_used x) \<le> Suc m"
    using E(1,3) ips by (auto simp: ips_ok_def)
  ultimately show ?thesis
    by (simp add: ips_ok_def)
qed

lemma ips_ok_skip:
  assumes "ips_ok db m" "m < length (db_clients db)" "profile_addr (db_clients db ! m) = None"
  shows "ips_ok db (Suc m)"
proof -
  have "ip_entry_ok (db_by_ip db) (Suc m) (db_clients db ! i) i" if "i < length (db_clients db)" for i
  proof (cases "i = m")
    case True
    have "\<not> sp_has_ip (db_clients db ! m)" using assms(1,2) by (auto simp: ips_ok_def ip_entry_ok_def)
    then show ?thesis using True assms(3) by (simp add: ip_entry_ok_def)
  next
    case False
    then show ?thesis using ip_entry_mono assms(1) that unfolding ips_ok_def by blast
  qed
  then show ?thesis using assms(1) by (simp add: ips_ok_def)
qed

lemma index_ips_loop_ok:
  assumes "ips_ok db m" "m \<le> length (db_clients db)" "length (db_clients db) \<le> CAMEX_MAX_CLIENTS_LIMIT" "db_wf db"
    and "index_ips_loop env [m..<length (db_clients db)] db = (db', ok)"
  shows "db_wf db' \<and> (ok \<longrightarrow> ips_ok db' (length (db_clients db')))"
  using assms
proof (induction "length (db_clients db) - m" arbitrary: m db)
  case 0
  then show ?case by simp
next
  case (Suc d)
  then have m: "m < length (db_clients db)" by simp
  then have up: "[m..<length (db_clients db)] = m # [Suc m..<length (db_clients db)]" by (rule upt_conv_Cons)
  show ?case
  proof (cases "profile_addr (db_clients db ! m)")
    case None
    have "ips_ok db (Suc m)"
      by (rule ips_ok_skip [OF Suc.prems(1) m None])
    then show ?thesis
      using Suc.hyps(1) [of db "Suc m"] Suc.hyps(2) Suc.prems m None by (simp add: up)
  next
    case (Some a)
    let ?c = "(db_clients db ! m)\<lparr>sp_has_ip := True, sp_ip_be := a\<rparr>"
    let ?db1 = "db\<lparr>db_clients := (db_clients db)[m := ?c]\<rparr>"
    have wf1: "db_wf ?db1"
      using Suc.prems(4) m by (intro db_wf_client) (auto simp: db_wf_def client_wf_same)
    obtain ok1 x where en: "slotidx_enter (ce_mem env) (db_by_ip db) (slotidx_hash_u32 a) m = (ok1, x)" by fastforce
    show ?thesis
    proof (cases ok1)
      case True
      have "ips_ok (?db1\<lparr>db_by_ip := x\<rparr>) (Suc m)"
        using index_ips_step [OF Suc.prems(1) m Suc.prems(3) Some] en True by simp
      then show ?thesis
        using Suc.hyps(1) [of "?db1\<lparr>db_by_ip := x\<rparr>" "Suc m"] Suc.hyps(2) Suc.prems m Some en True wf1
        by (simp add: up Let_def db_wf_by_ip)
    next
      case False
      then show ?thesis
        using Suc.prems(5) Some en wf1 by (auto simp: up Let_def db_wf_by_ip)
    qed
  qed
qed

definition loaded_ok :: "server_db \<Rightarrow> bool" where
  "loaded_ok db \<longleftrightarrow> db_wf db \<and> ips_ok db (length (db_clients db))"

lemma config_index_ips_ok:
  assumes "parse_ok (db, sec)" "config_db_index_ips env db = (db', ok)"
  shows "db_wf db' \<and> (ok \<longrightarrow> loaded_ok db')"
proof -
  have wf: "db_wf db" and noip: "\<forall>c\<in>set (db_clients db). \<not> sp_has_ip c" and free: "db_by_ip db = slotidx_free"
    using assms(1) by (simp_all add: parse_ok_def)
  obtain r x where re: "slotidx_reset (ce_mem env) (db_by_ip db) (length (db_clients db)) = (r, x)" by fastforce
  have x: "slotidx_inv x \<and> slotidx_entries x = {} \<and> unat (sx_used x) = 0"
    using slotidx_reset_correct [OF _ re] slotidx_free_ok free by simp
  show ?thesis
  proof (cases r)
    case False
    then show ?thesis using assms(2) re wf by (auto simp: config_db_index_ips_def db_wf_by_ip)
  next
    case True
    have "ips_ok (db\<lparr>db_by_ip := x\<rparr>) 0" using x noip by (auto simp: ips_ok_def ip_entry_ok_def)
    moreover have "length (db_clients db) \<le> CAMEX_MAX_CLIENTS_LIMIT" using wf by (simp add: db_wf_def db_ids_ok_def)
    ultimately have "db_wf db' \<and> (ok \<longrightarrow> ips_ok db' (length (db_clients db')))"
      using index_ips_loop_ok [of "db\<lparr>db_by_ip := x\<rparr>" 0 env db' ok] wf assms(2) re True
      by (simp add: config_db_index_ips_def db_wf_by_ip)
    then show ?thesis by (simp add: loaded_ok_def)
  qed
qed


lemma db_reset_ok: "db_wf config_server_db_reset" "loaded_ok config_server_db_reset"
  using parse_ok_reset
  by (auto simp: parse_ok_def loaded_ok_def ips_ok_def config_server_db_reset_def db_zero_def slotidx_free_ok)

lemma config_load_ok:
  assumes "config_db_load_file env file = (db, ok)"
  shows "db_wf db \<and> (ok \<longrightarrow> loaded_ok db)"
proof -
  note start = db_reset_ok
  show ?thesis
  proof (cases "\<exists>content. file = Some (Inr content)")
    case False
    then consider "file = None" | u where "file = Some (Inl u)"
      by (metis not_None_eq sum.exhaust)
    then have "db = config_server_db_reset"
      using assms by cases (auto simp: config_db_load_file_def)
    then show ?thesis using start by simp
  next
    case True
    then obtain content where fl: "file = Some (Inr content)" by blast
    obtain db0 sec ok0 where l: "config_lines env (fgets_chunks 511 content) (config_server_db_reset, SECTION_NONE) = ((db0, sec), ok0)"
      using prod_cases3 by (metis surj_pair)
    have pok: "parse_ok (db0, sec)"
      using config_lines_ok [OF parse_ok_reset, of env "fgets_chunks 511 content"] l by simp
    then have wf0: "db_wf db0" by (simp add: parse_ok_def)
    obtain db1 ok1 where x: "config_db_index_ips env db0 = (db1, ok1)" by fastforce
    note I = config_index_ips_ok [OF pok x]
    have flag: "db_wf (db1\<lparr>db_loaded := True\<rparr>) = db_wf db1" "loaded_ok (db1\<lparr>db_loaded := True\<rparr>) = loaded_ok db1"
      by (simp_all add: db_wf_def db_ids_ok_def loaded_ok_def ips_ok_def)
    show ?thesis
      using assms wf0 I unfolding config_db_load_file_def fl
      by (cases ok0; cases ok1) (auto simp: l x flag)
  qed
qed

lemma find_profile_by_ip_scan:
  assumes "loaded_ok db"
  shows "config_db_find_profile_by_ip db a
    = scan_first (length (db_clients db)) (\<lambda>i. profile_addr (db_clients db ! i) = Some a)"
proof -
  have ips: "ips_ok db (length (db_clients db))" and wf: "db_wf db"
    using assms by (simp_all add: loaded_ok_def)
  have entry: "ip_entry_ok (db_by_ip db) (length (db_clients db)) (db_clients db ! i) i" if "i < length (db_clients db)" for i
    using ips that by (simp add: ips_ok_def)
  have iff: "profile_ip_match db a i \<longleftrightarrow> profile_addr (db_clients db ! i) = Some a" if "i < length (db_clients db)" for i
    using entry [OF that] that wf
    by (auto simp: profile_ip_match_def ip_entry_ok_def db_wf_def db_ids_ok_def split: option.splits)
  have "config_db_find_profile_by_ip db a = scan_first (length (db_clients db)) (profile_ip_match db a)"
    unfolding config_db_find_profile_by_ip_def
  proof (rule slotidx_lookup_scan)
    show "slotidx_inv (db_by_ip db)" using ips by (simp add: ips_ok_def)
    show lt: "profile_ip_match db a i \<Longrightarrow> i < length (db_clients db)" for i
      by (simp add: profile_ip_match_def)
    show "(slotidx_hash_u32 a, i) \<in> slotidx_entries (db_by_ip db)" if m: "profile_ip_match db a i" for i
      using entry [OF lt [OF m]] iff [OF lt [OF m]] m lt [OF m] by (simp add: ip_entry_ok_def)
  qed
  also have "\<dots> = scan_first (length (db_clients db)) (\<lambda>i. profile_addr (db_clients db ! i) = Some a)"
    by (rule scan_first_cong) (rule iff)
  finally show ?thesis .
qed

subsection \<open>Properties\<close>

text \<open>C25: whatever a configuration file holds, reading it, to the end or to its first error,
  leaves well-formed data only: client IDs unique up to case and all indexed, at most 65534
  clients, valid routes, MTUs, ports, names and domain, and an auto pool without host bits;
  after success the addresses are indexed too.\<close>

theorem config_load_well_formed:
  assumes "config_db_load_file env file = (db, ok)"
  shows "db_wf db \<and> (ok \<longrightarrow> loaded_ok db)"
  by (rule config_load_ok [OF assms])

text \<open>Looking a client up by its ID, or a profile by its address, gives what a scan of the
  table gives: the one entry with that ID, in any case, and the first with that address.\<close>

lemma config_lookups_scan:
  assumes "loaded_ok db" "w \<noteq> []"
  shows "config_db_find_client db w = scan_first (length (db_clients db)) (\<lambda>i. strcaseeq (db_id db i) w) \<and>
     config_db_find_profile_by_ip db a
       = scan_first (length (db_clients db)) (\<lambda>i. profile_addr (db_clients db ! i) = Some a)"
  using assms find_client_scan find_profile_by_ip_scan by (simp add: loaded_ok_def db_wf_def)

text \<open>An accepted \<open>auto_pool=\<close> is a network address without host bits and a prefix of
  8 to 30, and each such network, written in decimal, is accepted.\<close>

lemma config_parse_pool_exact:
  "(config_parse_pool s = Some (net, p) \<longrightarrow> pool_wf net p) \<and>
   (pool_wf net p \<longrightarrow> config_parse_pool (inet_ntop (htonl net) @ ''/'' @ dec p) = Some (net, p))"
proof (intro conjI impI)
  assume "config_parse_pool s = Some (net, p)"
  then show "pool_wf net p" by (rule config_parse_pool_wf)
next
  assume wf: "pool_wf net p"
  have "CHR ''/'' \<notin> set (inet_ntop (htonl net))"
    using inet_ntop_chars digit_not_special(5) by blast
  then have cut: "cut_at (CHR ''/'') (inet_ntop (htonl net) @ CHR ''/'' # dec p) = Some (inet_ntop (htonl net), dec p)"
    by (simp add: cut_at_parts)
  have "p < 2 ^ 64" using wf by (simp add: pool_wf_def CAMEX_AUTO_POOL_MAX_PREFIX_def)
  then have s: "strtoul (dec p) = (p, [], False)" by (rule strtoul_dec)
  have len: "\<not> 16 \<le> length (inet_ntop (htonl net))"
    using length_inet_ntop [of "htonl net"] by simp
  show "config_parse_pool (inet_ntop (htonl net) @ ''/'' @ dec p) = Some (net, p)"
    using wf len unfolding config_parse_pool_def pool_wf_def
    by (simp add: cut s Let_def not_less)
qed


text \<open>A small configuration, to evaluate the above on.\<close>

definition cfg_env_ok :: cfg_env where
  "cfg_env_ok = \<lparr>ce_grow = (\<lambda>n. True), ce_mem = (\<lambda>n. True)\<rparr>"

theorem config_load_well_formed_witness:
  "db_wf (fst (config_db_load_file cfg_env_ok (Some (Inr (''[server]'' @ [CHR 0x0A] @ ''port = 7000'')))))"
proof -
  obtain db ok where
    r: "config_db_load_file cfg_env_ok (Some (Inr (''[server]'' @ [CHR 0x0A] @ ''port = 7000''))) = (db, ok)"
    by fastforce
  from config_load_well_formed [OF r] show ?thesis unfolding r by simp
qed


end
