(* ===== verification/Keystore.thy ===== *)
theory Keystore
  imports Config
begin

text \<open>
  The keystore of \<open>src/config.c\<close>: the global key and one entry per profile with its own
  \<open>psk=\<close>, indexed by owner and by key.  The queries are shown to be scans of the entries,
  which is how the server decides which key may register as which client.
\<close>

subsection \<open>Model\<close>

record ks_entry =
  kse_psk_key :: bytes
  kse_owner :: string
  kse_locked :: bool

text \<open>\<open>ks_entries\<close> is \<open>entries[0..count)\<close>.\<close>

record keystore =
  ks_entries :: "ks_entry list"
  ks_by_owner :: slotidx
  ks_by_key :: slotidx

definition ks_zero :: keystore where
  "ks_zero = \<lparr>ks_entries = [], ks_by_owner = slotidx_free, ks_by_key = slotidx_free\<rparr>"

definition config_keystore_free :: "keystore \<Rightarrow> keystore" where
  "config_keystore_free ks = ks_zero"

definition memeq32 :: "bytes \<Rightarrow> bytes \<Rightarrow> bool" where
  "memeq32 a b \<longleftrightarrow> take 32 a = take 32 b"

text \<open>The query: a key, an owner or any (\<open>None\<close>), and only entries below a number.\<close>

definition ks_key_match :: "keystore \<Rightarrow> bytes \<Rightarrow> string option \<Rightarrow> nat option \<Rightarrow> nat \<Rightarrow> bool" where
  "ks_key_match ks key owner below slot \<longleftrightarrow>
     slot < length (ks_entries ks) \<and> (case below of None \<Rightarrow> True | Some b \<Rightarrow> slot < b) \<and>
     \<not> kse_locked (ks_entries ks ! slot) \<and> memeq32 (kse_psk_key (ks_entries ks ! slot)) key \<and>
     (case owner of None \<Rightarrow> True | Some w \<Rightarrow> strcaseeq (kse_owner (ks_entries ks ! slot)) w)"

definition ks_owner_match :: "keystore \<Rightarrow> bytes option \<Rightarrow> string \<Rightarrow> nat \<Rightarrow> bool" where
  "ks_owner_match ks key owner slot \<longleftrightarrow>
     slot < length (ks_entries ks) \<and> kse_owner (ks_entries ks ! slot) \<noteq> [] \<and>
     strcaseeq (kse_owner (ks_entries ks ! slot)) owner \<and>
     (case key of None \<Rightarrow> True
      | Some k \<Rightarrow> \<not> kse_locked (ks_entries ks ! slot) \<and> memeq32 (kse_psk_key (ks_entries ks ! slot)) k)"

definition ks_find_key :: "keystore \<Rightarrow> bytes \<Rightarrow> string option \<Rightarrow> nat option \<Rightarrow> nat option" where
  "ks_find_key ks key owner below =
     slotidx_lookup (ks_by_key ks) (slotidx_hash_bytes (take 32 key)) (ks_key_match ks key owner below)"

definition config_ks_owner :: "keystore \<Rightarrow> bytes \<Rightarrow> string" where
  "config_ks_owner ks key =
     (case ks_find_key ks key None None of Some i \<Rightarrow> kse_owner (ks_entries ks ! i) | None \<Rightarrow> [])"

definition config_ks_has_owner :: "keystore \<Rightarrow> string \<Rightarrow> bool" where
  "config_ks_has_owner ks client_id \<longleftrightarrow> client_id \<noteq> [] \<and>
     slotidx_lookup (ks_by_owner ks) (slotidx_hash_nocase client_id) (ks_owner_match ks None client_id) \<noteq> None"

definition config_ks_key_owned_by :: "keystore \<Rightarrow> bytes \<Rightarrow> string \<Rightarrow> bool" where
  "config_ks_key_owned_by ks key client_id \<longleftrightarrow> client_id \<noteq> [] \<and>
     slotidx_lookup (ks_by_owner ks) (slotidx_hash_nocase client_id) (ks_owner_match ks (Some key) client_id) \<noteq> None"

definition config_ks_contains :: "keystore \<Rightarrow> bytes \<Rightarrow> bool" where
  "config_ks_contains ks key \<longleftrightarrow> ks_find_key ks key None None \<noteq> None"

definition config_ks_is_global :: "keystore \<Rightarrow> bytes \<Rightarrow> bool" where
  "config_ks_is_global ks key \<longleftrightarrow> ks_find_key ks key (Some []) None \<noteq> None"

definition config_ks_find :: "keystore \<Rightarrow> bytes \<Rightarrow> nat option" where
  "config_ks_find ks key = ks_find_key ks key None None"

definition wipe_profile_psks :: "server_db \<Rightarrow> server_db" where
  "wipe_profile_psks db =
     db\<lparr>db_clients := map (\<lambda>c. c\<lparr>sp_profile := (sp_profile c)\<lparr>p_psk := []\<rparr>\<rparr>) (db_clients db),
        db_defaults := (db_defaults db)\<lparr>p_psk := []\<rparr>\<rparr>"

datatype ks_result = KS_OK | KS_NO_KEY | KS_NOMEM

text \<open>
  The entries of the profiles; \<open>None\<close> when memory ran out in a derivation.  \<open>kenv\<close> is
  the environment of the derivation of each profile.
\<close>

fun keystore_entries ::
  "monocypher \<Rightarrow> (nat \<Rightarrow> key_env \<times> bytes option) \<Rightarrow> nat \<Rightarrow> server_profile list \<Rightarrow> key_state
     \<Rightarrow> key_state \<times> ks_entry list option" where
  "keystore_entries mc kenv i [] st = (st, Some [])"
| "keystore_entries mc kenv i (c # cs) st =
     (if \<not> sp_active c \<or> p_psk (sp_profile c) = [] then keystore_entries mc kenv (Suc i) cs st
      else case derive_psk_key mc (fst (kenv i)) (snd (kenv i)) (p_psk (sp_profile c)) st of
             (st1, Inl KEY_ERR_NOMEM) \<Rightarrow> (st1, None)
           | (st1, r) \<Rightarrow>
               (let e = \<lparr>kse_psk_key = (case r of Inr k \<Rightarrow> k | Inl _ \<Rightarrow> replicate 32 0),
                         kse_owner = fit CAMEX_CLIENT_ID_LEN (sp_client_id c),
                         kse_locked = (case r of Inr _ \<Rightarrow> False | Inl _ \<Rightarrow> True)\<rparr>
                in case keystore_entries mc kenv (Suc i) cs st1 of
                     (st2, None) \<Rightarrow> (st2, None)
                   | (st2, Some es) \<Rightarrow> (st2, Some (e # es))))"

text \<open>One turn of the indexing loop: its condition's two halves, by key and by owner.\<close>

definition keystore_index_key :: "(u32 \<Rightarrow> bool) \<Rightarrow> keystore \<Rightarrow> nat \<Rightarrow> keystore \<times> bool" where
  "keystore_index_key mem ks i =
     (if \<not> kse_locked (ks_entries ks ! i)
         \<and> ks_find_key ks (kse_psk_key (ks_entries ks ! i)) None (Some i) = None
      then (case slotidx_enter mem (ks_by_key ks)
                   (slotidx_hash_bytes (take 32 (kse_psk_key (ks_entries ks ! i)))) i of
              (ok, x) \<Rightarrow> (ks\<lparr>ks_by_key := x\<rparr>, ok))
      else (ks, True))"

definition keystore_index_owner :: "(u32 \<Rightarrow> bool) \<Rightarrow> keystore \<Rightarrow> nat \<Rightarrow> keystore \<times> bool" where
  "keystore_index_owner mem ks i =
     (if kse_owner (ks_entries ks ! i) \<noteq> []
      then (case slotidx_enter mem (ks_by_owner ks) (slotidx_hash_nocase (kse_owner (ks_entries ks ! i))) i of
              (ok, x) \<Rightarrow> (ks\<lparr>ks_by_owner := x\<rparr>, ok))
      else (ks, True))"

definition keystore_index_one :: "(u32 \<Rightarrow> bool) \<Rightarrow> keystore \<Rightarrow> nat \<Rightarrow> keystore \<times> bool" where
  "keystore_index_one mem ks i =
     (case keystore_index_key mem ks i of
        (ks1, False) \<Rightarrow> (ks1, False)
      | (ks1, True) \<Rightarrow> keystore_index_owner mem ks1 i)"

fun keystore_index :: "(u32 \<Rightarrow> bool) \<Rightarrow> nat list \<Rightarrow> keystore \<Rightarrow> keystore \<times> bool" where
  "keystore_index mem [] ks = (ks, True)"
| "keystore_index mem (i # is) ks =
     (case keystore_index_one mem ks i of
        (ks1, False) \<Rightarrow> (ks1, False)
      | (ks1, True) \<Rightarrow> keystore_index mem is ks1)"

text \<open>
  The keystore, the profiles with their \<open>psk=\<close> texts wiped, and the key cache.
  \<open>alloc n\<close>: the array of \<open>n\<close> entries can be allocated.
\<close>

definition config_build_keystore ::
  "monocypher \<Rightarrow> (nat \<Rightarrow> bool) \<Rightarrow> (u32 \<Rightarrow> bool) \<Rightarrow> (nat \<Rightarrow> key_env \<times> bytes option) \<Rightarrow> camex_crypto
     \<Rightarrow> server_db \<Rightarrow> key_state \<Rightarrow> keystore \<times> server_db \<times> key_state \<times> ks_result" where
  "config_build_keystore mc alloc mem kenv ctx db st =
     (let cap = length (db_clients db) + 1; wiped = wipe_profile_psks db
      in if \<not> cc_ready ctx then (ks_zero, wiped, st, KS_OK)
         else if \<not> alloc cap then (ks_zero, wiped, st, KS_NOMEM)
         else case (slotidx_reset mem slotidx_free cap, slotidx_reset mem slotidx_free cap) of
                ((True, by_key), (True, by_owner)) \<Rightarrow>
                  (let glob = (if cc_has_global ctx
                               then [\<lparr>kse_psk_key = cc_psk_key ctx, kse_owner = [], kse_locked = False\<rparr>]
                               else [])
                   in case keystore_entries mc kenv 0 (db_clients db) st of
                        (st1, None) \<Rightarrow> (ks_zero, wiped, st1, KS_NOMEM)
                      | (st1, Some es) \<Rightarrow>
                          (case keystore_index mem [0..<length (glob @ es)]
                                  \<lparr>ks_entries = glob @ es, ks_by_owner = by_owner, ks_by_key = by_key\<rparr> of
                             (ks, False) \<Rightarrow> (ks_zero, wiped, st1, KS_NOMEM)
                           | (ks, True) \<Rightarrow>
                               (if list_all kse_locked (ks_entries ks) then (ks, wiped, st1, KS_NO_KEY)
                                else (ks, wiped, st1, KS_OK))))
              | _ \<Rightarrow> (ks_zero, wiped, st, KS_NOMEM))"

subsection \<open>The indexes hold every entry\<close>

definition ks_keys_indexed :: "keystore \<Rightarrow> nat \<Rightarrow> bool" where
  "ks_keys_indexed ks n \<longleftrightarrow> slotidx_inv (ks_by_key ks) \<and> unat (sx_used (ks_by_key ks)) \<le> n \<and>
     (\<forall>i<n. \<not> kse_locked (ks_entries ks ! i) \<longrightarrow>
        (\<exists>j\<le>i. \<not> kse_locked (ks_entries ks ! j) \<and> memeq32 (kse_psk_key (ks_entries ks ! j)) (kse_psk_key (ks_entries ks ! i)) \<and>
           (slotidx_hash_bytes (take 32 (kse_psk_key (ks_entries ks ! j))), j) \<in> slotidx_entries (ks_by_key ks)))"

definition ks_owners_indexed :: "keystore \<Rightarrow> nat \<Rightarrow> bool" where
  "ks_owners_indexed ks n \<longleftrightarrow> slotidx_inv (ks_by_owner ks) \<and> unat (sx_used (ks_by_owner ks)) \<le> n \<and>
     (\<forall>i<n. kse_owner (ks_entries ks ! i) \<noteq> [] \<longrightarrow>
        (slotidx_hash_nocase (kse_owner (ks_entries ks ! i)), i) \<in> slotidx_entries (ks_by_owner ks))"

definition ks_ok :: "keystore \<Rightarrow> bool" where
  "ks_ok ks \<longleftrightarrow> ks_keys_indexed ks (length (ks_entries ks)) \<and> ks_owners_indexed ks (length (ks_entries ks))"

lemma ks_zero_ok: "ks_ok ks_zero"
  by (simp add: ks_ok_def ks_keys_indexed_def ks_owners_indexed_def ks_zero_def slotidx_free_ok)

lemma memeq32_hash: "memeq32 a b \<Longrightarrow> slotidx_hash_bytes (take 32 a) = slotidx_hash_bytes (take 32 b)"
  by (simp add: memeq32_def)

lemma ks_index_owner_ok:
  assumes w: "ks_owners_indexed ks i" and i: "i < SLOTIDX_ROOM"
    and r: "keystore_index_owner mem ks i = (ks', True)"
  shows "ks_owners_indexed ks' (Suc i) \<and> ks_entries ks' = ks_entries ks \<and> ks_by_key ks' = ks_by_key ks"
proof (cases "kse_owner (ks_entries ks ! i) = []")
  case True
  then show ?thesis
    using r w by (auto simp: keystore_index_owner_def ks_owners_indexed_def less_Suc_eq)
next
  case False
  then obtain x where en: "slotidx_enter mem (ks_by_owner ks) (slotidx_hash_nocase (kse_owner (ks_entries ks ! i))) i = (True, x)"
    and x: "ks' = ks\<lparr>ks_by_owner := x\<rparr>"
    using r by (auto simp: keystore_index_owner_def split: prod.splits)
  have bound: "i < 2 ^ 32 - 1" using i by (simp add: SLOTIDX_ROOM_def)
  have inv: "slotidx_inv (ks_by_owner ks)" "unat (sx_used (ks_by_owner ks)) < SLOTIDX_ROOM"
    using w i by (auto simp: ks_owners_indexed_def)
  show ?thesis
    using w slotidx_enter_ok [OF inv bound en] unfolding x ks_owners_indexed_def
    by (auto simp: less_Suc_eq)
qed

lemma ks_index_key_ok:
  assumes k: "ks_keys_indexed ks i" and i: "i < SLOTIDX_ROOM"
    and r: "keystore_index_key mem ks i = (ks', True)"
  shows "ks_keys_indexed ks' (Suc i) \<and> ks_entries ks' = ks_entries ks \<and> ks_by_owner ks' = ks_by_owner ks"
proof -
  let ?e = "ks_entries ks ! i"
  let ?in = "\<lambda>j x. (slotidx_hash_bytes (take 32 (kse_psk_key (ks_entries ks ! j))), j) \<in> slotidx_entries x"
  have bound: "i < 2 ^ 32 - 1" using i by (simp add: SLOTIDX_ROOM_def)
  have inv: "slotidx_inv (ks_by_key ks)" "unat (sx_used (ks_by_key ks)) < SLOTIDX_ROOM"
    using k i by (auto simp: ks_keys_indexed_def)
  show ?thesis
  proof (cases "\<not> kse_locked ?e \<and> ks_find_key ks (kse_psk_key ?e) None (Some i) = None")
    case True
    then obtain x where en: "slotidx_enter mem (ks_by_key ks) (slotidx_hash_bytes (take 32 (kse_psk_key ?e))) i = (True, x)"
      and x: "ks' = ks\<lparr>ks_by_key := x\<rparr>"
      using r by (auto simp: keystore_index_key_def split: prod.splits)
    note E = slotidx_enter_ok [OF inv bound en]
    have "?in i x" "\<And>j. ?in j (ks_by_key ks) \<Longrightarrow> ?in j x" using E(2) by simp_all
    then have "\<exists>j\<le>m. \<not> kse_locked (ks_entries ks ! j) \<and>
        memeq32 (kse_psk_key (ks_entries ks ! j)) (kse_psk_key (ks_entries ks ! m)) \<and> ?in j x"
      if "m < Suc i" "\<not> kse_locked (ks_entries ks ! m)" for m
      using that k True unfolding ks_keys_indexed_def less_Suc_eq memeq32_def by blast
    then show ?thesis
      using k E(1,3) unfolding x ks_keys_indexed_def by auto
  next
    case False
    then have ks': "ks' = ks"
      using r unfolding keystore_index_key_def by (simp only: if_False prod.inject simp_thms)
    have "\<exists>j\<le>i. \<not> kse_locked (ks_entries ks ! j) \<and> memeq32 (kse_psk_key (ks_entries ks ! j)) (kse_psk_key ?e)
        \<and> ?in j (ks_by_key ks)" if nl: "\<not> kse_locked ?e"
    proof -
      obtain j where "ks_find_key ks (kse_psk_key ?e) None (Some i) = Some j"
        using False nl by auto
      from slotidx_lookup_Some [OF inv(1) this [unfolded ks_find_key_def]] show ?thesis
        by (auto simp: ks_key_match_def memeq32_def intro!: exI [of _ j])
    qed
    then show ?thesis
      using k unfolding ks' ks_keys_indexed_def less_Suc_eq by auto
  qed
qed

lemma ks_index_one_ok:
  assumes "ks_keys_indexed ks i" "ks_owners_indexed ks i" "i < SLOTIDX_ROOM"
    and "keystore_index_one mem ks i = (ks', True)"
  shows "ks_keys_indexed ks' (Suc i)" "ks_owners_indexed ks' (Suc i)" "ks_entries ks' = ks_entries ks"
proof -
  obtain ks1 where k1: "keystore_index_key mem ks i = (ks1, True)" "keystore_index_owner mem ks1 i = (ks', True)"
    using assms(4) by (auto simp: keystore_index_one_def split: prod.splits bool.splits)
  note K = ks_index_key_ok [OF assms(1,3) k1(1)]
  have "ks_owners_indexed ks1 i" using assms(2) K by (simp add: ks_owners_indexed_def)
  note W = ks_index_owner_ok [OF this assms(3) k1(2)]
  show "ks_keys_indexed ks' (Suc i)" "ks_owners_indexed ks' (Suc i)" "ks_entries ks' = ks_entries ks"
    using K W unfolding ks_keys_indexed_def by auto
qed

lemma ks_index_ok:
  assumes "ks_keys_indexed ks m" "ks_owners_indexed ks m" "n \<le> SLOTIDX_ROOM"
    and "keystore_index mem [m..<n] ks = (ks', True)" "m \<le> n"
  shows "ks_keys_indexed ks' n \<and> ks_owners_indexed ks' n \<and> ks_entries ks' = ks_entries ks"
  using assms
proof (induction "n - m" arbitrary: m ks)
  case 0
  then show ?case by simp
next
  case (Suc d)
  then have m: "m < n" by simp
  then obtain ks1 where one: "keystore_index_one mem ks m = (ks1, True)"
    and rest: "keystore_index mem [Suc m..<n] ks1 = (ks', True)"
    using Suc.prems(4) by (auto simp: upt_conv_Cons split: prod.splits bool.splits)
  have "m < SLOTIDX_ROOM" using m Suc.prems(3) by simp
  from ks_index_one_ok [OF Suc.prems(1,2) this one] Suc.hyps(1) [of "Suc m" ks1] Suc.hyps(2) Suc.prems(3) rest m
  show ?case by simp
qed

subsection \<open>The queries are scans of the entries\<close>

lemma slotidx_lookup_least:
  assumes "slotidx_inv x" "(h, i) \<in> slotidx_entries x" "P i" "\<And>t. P t \<Longrightarrow> i \<le> t"
  shows "slotidx_lookup x h P = Some i"
  using idx.find_some [OF assms(1), of h P i] assms(2-4) by (auto simp: slotidx_lookup_def)

lemma slotidx_lookup_no:
  assumes "slotidx_inv x" "\<And>t. \<not> P t"
  shows "slotidx_lookup x h P = None"
  using slotidx_lookup_Some [OF assms(1), of h P] assms(2) by (cases "slotidx_lookup x h P") auto

lemma ks_find_key_scan:
  assumes ok: "ks_keys_indexed ks (length (ks_entries ks))"
  shows "ks_find_key ks key None None = scan_first (length (ks_entries ks)) (ks_key_match ks key None None)"
proof (cases "scan_first (length (ks_entries ks)) (ks_key_match ks key None None)")
  case None
  then have "\<not> ks_key_match ks key None None t" for t
    by (auto simp: scan_first_None_iff ks_key_match_def)
  then show ?thesis
    using ok None slotidx_lookup_no by (auto simp: ks_find_key_def ks_keys_indexed_def)
next
  case (Some i)
  then have i: "i < length (ks_entries ks)" "ks_key_match ks key None None i"
    and least: "\<And>t. ks_key_match ks key None None t \<Longrightarrow> i \<le> t"
    by (auto simp: scan_first_Some_iff not_le [symmetric])
  then have "\<not> kse_locked (ks_entries ks ! i)" by (simp add: ks_key_match_def)
  then obtain j where j: "j \<le> i" "\<not> kse_locked (ks_entries ks ! j)"
    "memeq32 (kse_psk_key (ks_entries ks ! j)) (kse_psk_key (ks_entries ks ! i))"
    "(slotidx_hash_bytes (take 32 (kse_psk_key (ks_entries ks ! j))), j) \<in> slotidx_entries (ks_by_key ks)"
    using ok i(1) unfolding ks_keys_indexed_def by blast
  have "ks_key_match ks key None None j"
    using i j by (simp add: ks_key_match_def memeq32_def)
  then have "j = i" using least j(1) by (simp add: le_antisym)
  moreover have "slotidx_hash_bytes (take 32 (kse_psk_key (ks_entries ks ! i))) = slotidx_hash_bytes (take 32 key)"
    using i(2) memeq32_hash by (simp add: ks_key_match_def)
  ultimately show ?thesis
    using ok j(4) i(2) least slotidx_lookup_least
    unfolding ks_find_key_def ks_keys_indexed_def Some by metis
qed

lemma ks_owner_lookup:
  assumes ok: "ks_owners_indexed ks (length (ks_entries ks))"
  shows "slotidx_lookup (ks_by_owner ks) (slotidx_hash_nocase w) (ks_owner_match ks k w) \<noteq> None
    \<longleftrightarrow> (\<exists>i. ks_owner_match ks k w i)"
proof
  assume "slotidx_lookup (ks_by_owner ks) (slotidx_hash_nocase w) (ks_owner_match ks k w) \<noteq> None"
  then show "\<exists>i. ks_owner_match ks k w i"
    using slotidx_lookup_Some ok unfolding ks_owners_indexed_def by blast
next
  assume "\<exists>i. ks_owner_match ks k w i"
  then obtain i where i: "ks_owner_match ks k w i" by blast
  then have "(slotidx_hash_nocase w, i) \<in> slotidx_entries (ks_by_owner ks)"
    using ok slotidx_hash_nocase_eq by (fastforce simp: ks_owners_indexed_def ks_owner_match_def)
  then show "slotidx_lookup (ks_by_owner ks) (slotidx_hash_nocase w) (ks_owner_match ks k w) \<noteq> None"
    using slotidx_lookup_None i ok unfolding ks_owners_indexed_def by blast
qed

lemma ks_queries:
  assumes "ks_ok ks"
  shows "config_ks_has_owner ks w \<longleftrightarrow> w \<noteq> [] \<and> (\<exists>e\<in>set (ks_entries ks). strcaseeq (kse_owner e) w)"
    and "config_ks_key_owned_by ks k w \<longleftrightarrow> w \<noteq> [] \<and>
      (\<exists>e\<in>set (ks_entries ks). strcaseeq (kse_owner e) w \<and> \<not> kse_locked e \<and> memeq32 (kse_psk_key e) k)"
    and "config_ks_contains ks k \<longleftrightarrow> (\<exists>e\<in>set (ks_entries ks). \<not> kse_locked e \<and> memeq32 (kse_psk_key e) k)"
proof -
  have own: "ks_owners_indexed ks (length (ks_entries ks))" and keys: "ks_keys_indexed ks (length (ks_entries ks))"
    using assms by (simp_all add: ks_ok_def)
  show "config_ks_has_owner ks w \<longleftrightarrow> w \<noteq> [] \<and> (\<exists>e\<in>set (ks_entries ks). strcaseeq (kse_owner e) w)"
    unfolding config_ks_has_owner_def ks_owner_lookup [OF own]
    by (fastforce simp: ks_owner_match_def in_set_conv_nth)
  show "config_ks_key_owned_by ks k w \<longleftrightarrow> w \<noteq> [] \<and>
      (\<exists>e\<in>set (ks_entries ks). strcaseeq (kse_owner e) w \<and> \<not> kse_locked e \<and> memeq32 (kse_psk_key e) k)"
    unfolding config_ks_key_owned_by_def ks_owner_lookup [OF own]
    by (fastforce simp: ks_owner_match_def in_set_conv_nth)
  show "config_ks_contains ks k \<longleftrightarrow> (\<exists>e\<in>set (ks_entries ks). \<not> kse_locked e \<and> memeq32 (kse_psk_key e) k)"
    unfolding config_ks_contains_def ks_find_key_scan [OF keys]
    unfolding scan_first_None_iff not_all not_imp not_not
    by (fastforce simp: ks_key_match_def in_set_conv_nth)
qed

text \<open>The global key, when there is one, is entry 0, and the only one without an owner.\<close>

definition ks_global_first :: "keystore \<Rightarrow> bool" where
  "ks_global_first ks \<longleftrightarrow> (\<forall>i<length (ks_entries ks). 0 < i \<longrightarrow> kse_owner (ks_entries ks ! i) \<noteq> [])"

lemma ks_is_global_iff:
  assumes ok: "ks_keys_indexed ks (length (ks_entries ks))" and first: "ks_global_first ks"
  shows "config_ks_is_global ks k \<longleftrightarrow> ks_entries ks \<noteq> [] \<and> kse_owner (hd (ks_entries ks)) = [] \<and>
     \<not> kse_locked (hd (ks_entries ks)) \<and> memeq32 (kse_psk_key (hd (ks_entries ks))) k"
proof -
  have m: "ks_key_match ks k (Some []) None i \<longleftrightarrow> i = 0 \<and> ks_entries ks \<noteq> [] \<and> kse_owner (hd (ks_entries ks)) = []
      \<and> \<not> kse_locked (hd (ks_entries ks)) \<and> memeq32 (kse_psk_key (hd (ks_entries ks))) k" for i
    using first by (cases "i = 0") (auto simp: ks_key_match_def ks_global_first_def hd_conv_nth)
  show ?thesis
  proof (cases "ks_key_match ks k (Some []) None 0")
    case True
    then have nl: "\<not> kse_locked (ks_entries ks ! 0)" and ne: "0 < length (ks_entries ks)"
      and h: "slotidx_hash_bytes (take 32 (kse_psk_key (ks_entries ks ! 0))) = slotidx_hash_bytes (take 32 k)"
      using memeq32_hash by (auto simp: ks_key_match_def)
    have "(slotidx_hash_bytes (take 32 k), 0) \<in> slotidx_entries (ks_by_key ks)"
      using ok nl ne h unfolding ks_keys_indexed_def by fastforce
    then have "ks_find_key ks k (Some []) None = Some 0"
      unfolding ks_find_key_def using ok m True
      by (intro slotidx_lookup_least) (auto simp: ks_keys_indexed_def)
    then show ?thesis using True m [of 0] by (simp add: config_ks_is_global_def)
  next
    case False
    then have "\<And>i. \<not> ks_key_match ks k (Some []) None i" using m by blast
    then have "ks_find_key ks k (Some []) None = None"
      unfolding ks_find_key_def using ok by (intro slotidx_lookup_no) (auto simp: ks_keys_indexed_def)
    then show ?thesis using False m [of 0] by (simp add: config_ks_is_global_def)
  qed
qed

subsection \<open>What is built\<close>

lemma keystore_entries_sound:
  assumes "keystore_entries mc kenv i cs st = (st', Some es)" "e \<in> set es"
  shows "\<exists>c\<in>set cs. sp_active c \<and> p_psk (sp_profile c) \<noteq> [] \<and> kse_owner e = fit CAMEX_CLIENT_ID_LEN (sp_client_id c)"
  using assms
proof (induction cs arbitrary: i st es)
  case (Cons c cs)
  show ?case
  proof (cases "\<not> sp_active c \<or> p_psk (sp_profile c) = []")
    case True
    then show ?thesis using Cons by (auto split: if_splits)
  next
    case False
    then obtain st1 es1 e1 where "keystore_entries mc kenv (Suc i) cs st1 = (st', Some es1)" "es = e1 # es1"
        "kse_owner e1 = fit CAMEX_CLIENT_ID_LEN (sp_client_id c)"
      using Cons.prems(1) by (auto simp: Let_def split: prod.splits sum.splits key_err.splits option.splits)
    then show ?thesis using Cons.IH Cons.prems(2) False by fastforce
  qed
qed simp

text \<open>Every profile with a \<open>psk=\<close> has its entry, with a locked one for a key that is no good.\<close>

lemma keystore_entries_complete:
  assumes "keystore_entries mc kenv i cs st = (st', Some es)" "c \<in> set cs" "sp_active c" "p_psk (sp_profile c) \<noteq> []"
  shows "\<exists>e\<in>set es. kse_owner e = fit CAMEX_CLIENT_ID_LEN (sp_client_id c)"
  using assms
proof (induction cs arbitrary: i st es)
  case (Cons d cs)
  show ?case
  proof (cases "\<not> sp_active d \<or> p_psk (sp_profile d) = []")
    case True
    then show ?thesis using Cons by (auto split: if_splits)
  next
    case False
    then obtain st1 es1 e1 where "keystore_entries mc kenv (Suc i) cs st1 = (st', Some es1)" "es = e1 # es1"
        "kse_owner e1 = fit CAMEX_CLIENT_ID_LEN (sp_client_id d)"
      using Cons.prems(1) by (auto simp: Let_def split: prod.splits sum.splits key_err.splits option.splits)
    then show ?thesis using Cons.IH Cons.prems by fastforce
  qed
qed simp

lemma keystore_entries_length:
  "keystore_entries mc kenv i cs st = (st', Some es) \<Longrightarrow> length es \<le> length cs"
proof (induction cs arbitrary: i st es)
  case (Cons c cs)
  then show ?case
    by (fastforce simp: Let_def split: prod.splits sum.splits key_err.splits option.splits if_splits)
qed simp

text \<open>The global key's entry, when there is one.\<close>

definition global_entries :: "camex_crypto \<Rightarrow> ks_entry list" where
  "global_entries ctx = (if cc_has_global ctx
     then [\<lparr>kse_psk_key = cc_psk_key ctx, kse_owner = [], kse_locked = False\<rparr>] else [])"

lemma build_keystore_shape:
  assumes "config_build_keystore mc alloc mem kenv ctx db st = (ks, db', st', r)"
    and "cc_ready ctx" "r \<noteq> KS_NOMEM"
  shows "\<exists>es by_key by_owner. slotidx_reset mem slotidx_free (length (db_clients db) + 1) = (True, by_key)
    \<and> slotidx_reset mem slotidx_free (length (db_clients db) + 1) = (True, by_owner)
    \<and> keystore_entries mc kenv 0 (db_clients db) st = (st', Some es)
    \<and> keystore_index mem [0..<length (global_entries ctx @ es)]
        \<lparr>ks_entries = global_entries ctx @ es, ks_by_owner = by_owner, ks_by_key = by_key\<rparr> = (ks, True)"
  using assms unfolding config_build_keystore_def Let_def global_entries_def [symmetric]
  by (auto split: if_splits prod.splits bool.splits option.splits)

lemma build_keystore_ok:
  assumes wf: "db_wf db" and b: "config_build_keystore mc alloc mem kenv ctx db st = (ks, db', st', r)"
    and "cc_ready ctx" "r \<noteq> KS_NOMEM"
  shows "\<exists>es. ks_entries ks = global_entries ctx @ es \<and> ks_ok ks \<and> ks_global_first ks \<and>
     keystore_entries mc kenv 0 (db_clients db) st = (st', Some es)"
proof -
  obtain es by_key by_owner where re: "slotidx_reset mem slotidx_free (length (db_clients db) + 1) = (True, by_key)"
    "slotidx_reset mem slotidx_free (length (db_clients db) + 1) = (True, by_owner)"
    and es: "keystore_entries mc kenv 0 (db_clients db) st = (st', Some es)"
    and ix: "keystore_index mem [0..<length (global_entries ctx @ es)]
        \<lparr>ks_entries = global_entries ctx @ es, ks_by_owner = by_owner, ks_by_key = by_key\<rparr> = (ks, True)"
    using build_keystore_shape [OF b assms(3,4)] by blast
  let ?ks0 = "\<lparr>ks_entries = global_entries ctx @ es, ks_by_owner = by_owner, ks_by_key = by_key\<rparr>"
  have x: "slotidx_inv by_key \<and> unat (sx_used by_key) = 0" "slotidx_inv by_owner \<and> unat (sx_used by_owner) = 0"
    using slotidx_reset_correct [OF slotidx_free_ok(1) re(1)] slotidx_reset_correct [OF slotidx_free_ok(1) re(2)] by simp_all
  have start: "ks_keys_indexed ?ks0 0" "ks_owners_indexed ?ks0 0"
    using x by (simp_all add: ks_keys_indexed_def ks_owners_indexed_def)
  have "length (global_entries ctx @ es) \<le> SLOTIDX_ROOM"
    using keystore_entries_length [OF es] wf
    by (auto simp: db_wf_def db_ids_ok_def CAMEX_MAX_CLIENTS_LIMIT_def SLOTIDX_ROOM_def global_entries_def)
  from ks_index_ok [OF start this ix] have ok: "ks_keys_indexed ks (length (ks_entries ks))"
    "ks_owners_indexed ks (length (ks_entries ks))" "ks_entries ks = global_entries ctx @ es" by auto
  have owner: "kse_owner e \<noteq> []" if e: "e \<in> set es" for e
  proof -
    obtain c where c: "c \<in> set (db_clients db)" "kse_owner e = fit CAMEX_CLIENT_ID_LEN (sp_client_id c)"
      using keystore_entries_sound [OF es e] by blast
    then have "sp_client_id c \<noteq> []" using wf by (auto simp: db_wf_def db_ids_ok_def in_set_conv_nth)
    then show ?thesis using c(2) by (simp add: fit_def CAMEX_CLIENT_ID_LEN_def)
  qed
  have "ks_global_first ks"
    unfolding ks_global_first_def ok(3)
    using owner by (auto simp: nth_append global_entries_def split: if_splits)
  then show ?thesis using ok es by (auto simp: ks_ok_def)
qed

lemma owner_is_id:
  assumes "db_wf db" "c \<in> set (db_clients db)"
  shows "fit CAMEX_CLIENT_ID_LEN (sp_client_id c) = sp_client_id c"
  using assms by (intro fit_id) (auto simp: db_wf_def db_ids_ok_def in_set_conv_nth)

text \<open>A raw key that does not parse locks its client's entry.\<close>

lemma keystore_entries_locked:
  assumes "keystore_entries mc kenv i cs st = (st', Some es)" "e \<in> set es"
  shows "\<exists>c\<in>set cs. kse_owner e = fit CAMEX_CLIENT_ID_LEN (sp_client_id c) \<and>
     (\<exists>env seed s s'. key_from_psk mc env seed (p_psk (sp_profile c)) s
        = (s', if kse_locked e then Inl KEY_ERR_BAD else Inr (kse_psk_key e)))"
  using assms
proof (induction cs arbitrary: i st es)
  case (Cons c cs)
  show ?case
  proof (cases "\<not> sp_active c \<or> p_psk (sp_profile c) = []")
    case True
    then show ?thesis using Cons by (auto split: if_splits)
  next
    case False
    obtain st1 r where d: "key_from_psk mc (fst (kenv i)) (snd (kenv i)) (p_psk (sp_profile c)) st = (st1, r)" by fastforce
    then obtain es1 e1 where es1: "keystore_entries mc kenv (Suc i) cs st1 = (st', Some es1)" "es = e1 # es1"
        "kse_owner e1 = fit CAMEX_CLIENT_ID_LEN (sp_client_id c)"
        "r = (if kse_locked e1 then Inl KEY_ERR_BAD else Inr (kse_psk_key e1))"
      using Cons.prems(1) False
      by (auto simp: derive_psk_key_def Let_def split: prod.splits sum.splits key_err.splits option.splits)
    then show ?thesis
    proof (cases "e = e1")
      case True
      then show ?thesis using d es1(3,4) by auto
    next
      case False
      then show ?thesis using Cons.IH [OF es1(1)] Cons.prems(2) es1(2) by fastforce
    qed
  qed
qed simp

subsection \<open>Properties\<close>


text \<open>An instance: one global key, no profiles.\<close>

definition global_ctx :: camex_crypto where
  "global_ctx = crypto_zero\<lparr>cc_ready := True, cc_has_global := True, cc_psk_key := replicate 32 7\<rparr>"


end
