(* ===== verification/Noise.thy ===== *)
theory Noise
  imports Monocypher
begin

text \<open>
  \<open>src/noise.c\<close>: the handshake pattern NKpsk0 over BLAKE2b, X25519 and
  ChaCha20-Poly1305, and the transport encryption.  A function that returns a length or 0
  gives the state it leaves behind and the message, \<open>None\<close> for 0.
\<close>

subsection \<open>Model\<close>

definition NOISE_DHLEN :: nat where "NOISE_DHLEN = 32"
definition NOISE_HASHLEN :: nat where "NOISE_HASHLEN = 64"
definition NOISE_KEYLEN :: nat where "NOISE_KEYLEN = 32"
definition NOISE_TAGLEN :: nat where "NOISE_TAGLEN = 16"
definition NOISE_BLOCKLEN :: nat where "NOISE_BLOCKLEN = 128"
definition NOISE_MSG_OVERHEAD :: nat where "NOISE_MSG_OVERHEAD = NOISE_DHLEN + NOISE_TAGLEN"

text \<open>The ASCII bytes of \<open>Noise_NKpsk0_25519_ChaChaPoly_BLAKE2b\<close>.\<close>

definition NOISE_PROTOCOL :: bytes where
  "NOISE_PROTOCOL = map (\<lambda>c. of_nat (of_char c)) ''Noise_NKpsk0_25519_ChaChaPoly_BLAKE2b''"

record noise_hs =
  cs_k :: bytes
  cs_n :: u64
  cs_has_key :: bool
  hs_ck :: bytes
  hs_h :: bytes
  hs_s_priv :: bytes
  hs_s_pub :: bytes
  hs_e_priv :: bytes
  hs_e_pub :: bytes
  hs_re :: bytes
  hs_initiator :: bool

definition noise_zero :: noise_hs where
  "noise_zero = \<lparr>cs_k = replicate 32 0, cs_n = 0, cs_has_key = False, hs_ck = replicate 64 0,
     hs_h = replicate 64 0, hs_s_priv = replicate 32 0, hs_s_pub = replicate 32 0,
     hs_e_priv = replicate 32 0, hs_e_pub = replicate 32 0, hs_re = replicate 32 0,
     hs_initiator = False\<rparr>"

text \<open>\<open>noise_wipe\<close>: \<open>crypto_wipe\<close> of the whole structure.\<close>

definition noise_wipe :: "noise_hs \<Rightarrow> noise_hs" where
  "noise_wipe hs = noise_zero"

definition noise_hmac :: "monocypher \<Rightarrow> bytes \<Rightarrow> bytes \<Rightarrow> bytes" where
  "noise_hmac mc key data =
     (let k0 = (if length key > NOISE_BLOCKLEN then mc_blake2b mc NOISE_HASHLEN key else key);
          k = k0 @ replicate (NOISE_BLOCKLEN - length k0) 0;
          inner = mc_blake2b mc NOISE_HASHLEN (map (\<lambda>b. b XOR 0x36) k @ data)
      in mc_blake2b mc NOISE_HASHLEN (map (\<lambda>b. b XOR 0x5c) k @ inner))"

text \<open>\<open>out1\<close>, \<open>out2\<close>, \<open>out3\<close> (the third is computed on request in the code).\<close>

definition hkdf :: "monocypher \<Rightarrow> bytes \<Rightarrow> bytes \<Rightarrow> bytes \<times> bytes \<times> bytes" where
  "hkdf mc ck ikm =
     (let temp_key = noise_hmac mc ck ikm;
          out1 = noise_hmac mc temp_key [1];
          out2 = noise_hmac mc temp_key (out1 @ [2]);
          out3 = noise_hmac mc temp_key (out2 @ [3])
      in (out1, out2, out3))"

definition make_nonce :: "u64 \<Rightarrow> bytes" where
  "make_nonce n = replicate 4 0 @ le_bytes 8 n"

definition noise_encrypt :: "monocypher \<Rightarrow> bytes \<Rightarrow> u64 \<Rightarrow> bytes \<Rightarrow> bytes \<Rightarrow> bytes" where
  "noise_encrypt mc key n ad plain =
     (case mc_aead_write mc key (make_nonce n) ad plain of (c, tag) \<Rightarrow> c @ tag)"

definition noise_decrypt :: "monocypher \<Rightarrow> bytes \<Rightarrow> u64 \<Rightarrow> bytes \<Rightarrow> bytes \<Rightarrow> bytes option" where
  "noise_decrypt mc key n ad inp =
     (if length inp < NOISE_TAGLEN then None
      else mc_aead_read mc key (make_nonce n) ad
             (take (length inp - NOISE_TAGLEN) inp) (drop (length inp - NOISE_TAGLEN) inp))"

definition mix_hash :: "monocypher \<Rightarrow> noise_hs \<Rightarrow> bytes \<Rightarrow> noise_hs" where
  "mix_hash mc hs data = hs\<lparr>hs_h := mc_blake2b mc NOISE_HASHLEN (hs_h hs @ data)\<rparr>"

definition mix_key :: "monocypher \<Rightarrow> noise_hs \<Rightarrow> bytes \<Rightarrow> noise_hs" where
  "mix_key mc hs ikm =
     (case hkdf mc (hs_ck hs) ikm of (ck, temp_k, _) \<Rightarrow>
        hs\<lparr>hs_ck := ck, cs_k := take NOISE_KEYLEN temp_k, cs_n := 0, cs_has_key := True\<rparr>)"

definition mix_key_and_hash :: "monocypher \<Rightarrow> noise_hs \<Rightarrow> bytes \<Rightarrow> noise_hs" where
  "mix_key_and_hash mc hs ikm =
     (case hkdf mc (hs_ck hs) ikm of (ck, temp_h, temp_k) \<Rightarrow>
        (mix_hash mc (hs\<lparr>hs_ck := ck\<rparr>) temp_h)
          \<lparr>cs_k := take NOISE_KEYLEN temp_k, cs_n := 0, cs_has_key := True\<rparr>)"

definition encrypt_and_hash :: "monocypher \<Rightarrow> noise_hs \<Rightarrow> bytes \<Rightarrow> noise_hs \<times> bytes" where
  "encrypt_and_hash mc hs plain =
     (let out = noise_encrypt mc (cs_k hs) (cs_n hs) (hs_h hs) plain
      in (mix_hash mc (hs\<lparr>cs_n := cs_n hs + 1\<rparr>) out, out))"

definition decrypt_and_hash :: "monocypher \<Rightarrow> noise_hs \<Rightarrow> bytes \<Rightarrow> (noise_hs \<times> bytes) option" where
  "decrypt_and_hash mc hs inp =
     (let next_h = mc_blake2b mc NOISE_HASHLEN (hs_h hs @ inp)
      in case noise_decrypt mc (cs_k hs) (cs_n hs) (hs_h hs) inp of
           None \<Rightarrow> None
         | Some plain \<Rightarrow> Some (hs\<lparr>cs_n := cs_n hs + 1, hs_h := next_h\<rparr>, plain))"

text \<open>DH that rejects an all-zero shared secret.\<close>

definition dh :: "monocypher \<Rightarrow> bytes \<Rightarrow> bytes \<Rightarrow> bytes option" where
  "dh mc priv pub =
     (let out = mc_x25519 mc priv pub
      in if crypto_verify 32 out (replicate NOISE_DHLEN 0) then None else Some out)"

definition noise_keypair :: "monocypher \<Rightarrow> bytes \<Rightarrow> bytes \<times> bytes" where
  "noise_keypair mc seed = (take NOISE_DHLEN seed, mc_x25519_public_key mc (take NOISE_DHLEN seed))"

definition init_common :: "monocypher \<Rightarrow> bytes \<Rightarrow> bytes \<Rightarrow> noise_hs" where
  "init_common mc prologue server_pub =
     (let h0 = NOISE_PROTOCOL @ replicate (NOISE_HASHLEN - length NOISE_PROTOCOL) 0;
          hs0 = noise_zero\<lparr>hs_h := h0, hs_ck := h0\<rparr>
      in mix_hash mc (mix_hash mc hs0 prologue) server_pub)"

definition noise_init_initiator :: "monocypher \<Rightarrow> bytes \<Rightarrow> bytes \<Rightarrow> noise_hs" where
  "noise_init_initiator mc prologue server_pub =
     (init_common mc prologue server_pub)\<lparr>hs_s_pub := server_pub, hs_initiator := True\<rparr>"

definition noise_init_responder :: "monocypher \<Rightarrow> bytes \<Rightarrow> bytes \<Rightarrow> bytes \<Rightarrow> noise_hs" where
  "noise_init_responder mc prologue s_priv s_pub =
     (init_common mc prologue s_pub)
       \<lparr>hs_s_priv := s_priv, hs_s_pub := s_pub, hs_initiator := False\<rparr>"

definition noise_write_msg1 ::
  "monocypher \<Rightarrow> noise_hs \<Rightarrow> bytes \<Rightarrow> bytes \<Rightarrow> bytes \<Rightarrow> nat \<Rightarrow> noise_hs \<times> bytes option" where
  "noise_write_msg1 mc hs psk e_seed payload out_size =
     (if \<not> hs_initiator hs \<or> out_size < NOISE_MSG_OVERHEAD
         \<or> length payload > out_size - NOISE_MSG_OVERHEAD
      then (hs, None)
      else let hs1 = mix_key_and_hash mc hs psk;
               (e_priv, e_pub) = noise_keypair mc e_seed;
               hs2 = mix_hash mc (hs1\<lparr>hs_e_priv := e_priv, hs_e_pub := e_pub\<rparr>) e_pub;
               hs3 = mix_key mc hs2 e_pub
           in case dh mc e_priv (hs_s_pub hs3) of
                None \<Rightarrow> (hs3, None)
              | Some shared \<Rightarrow>
                  (case encrypt_and_hash mc (mix_key mc hs3 shared) payload of
                     (hs5, c) \<Rightarrow> (hs5, Some (e_pub @ c))))"

definition noise_msg1_es :: "monocypher \<Rightarrow> noise_hs \<Rightarrow> bytes \<Rightarrow> bytes option" where
  "noise_msg1_es mc hs msg =
     (if hs_initiator hs \<or> length msg < NOISE_MSG_OVERHEAD then None
      else dh mc (hs_s_priv hs) (take NOISE_DHLEN msg))"

definition read_msg1 ::
  "monocypher \<Rightarrow> noise_hs \<Rightarrow> bytes \<Rightarrow> bytes \<Rightarrow> bytes \<Rightarrow> nat \<Rightarrow> (noise_hs \<times> bytes) option" where
  "read_msg1 mc hs psk es msg payload_size =
     (if hs_initiator hs \<or> length msg < NOISE_MSG_OVERHEAD then None
      else if payload_size < length msg - NOISE_MSG_OVERHEAD then None
      else let hs1 = mix_key_and_hash mc hs psk;
               hs2 = mix_hash mc (hs1\<lparr>hs_re := take NOISE_DHLEN msg\<rparr>) (take NOISE_DHLEN msg);
               hs3 = mix_key mc hs2 (hs_re hs2);
               hs4 = mix_key mc hs3 es
           in decrypt_and_hash mc hs4 (drop NOISE_DHLEN msg))"

definition noise_write_msg2 ::
  "monocypher \<Rightarrow> noise_hs \<Rightarrow> bytes \<Rightarrow> bytes \<Rightarrow> nat \<Rightarrow> noise_hs \<times> bytes option" where
  "noise_write_msg2 mc hs e_seed payload out_size =
     (if hs_initiator hs \<or> out_size < NOISE_MSG_OVERHEAD
         \<or> length payload > out_size - NOISE_MSG_OVERHEAD
      then (hs, None)
      else let (e_priv, e_pub) = noise_keypair mc e_seed;
               hs1 = mix_hash mc (hs\<lparr>hs_e_priv := e_priv, hs_e_pub := e_pub\<rparr>) e_pub;
               hs2 = mix_key mc hs1 e_pub
           in case dh mc e_priv (hs_re hs2) of
                None \<Rightarrow> (hs2, None)
              | Some shared \<Rightarrow>
                  (case encrypt_and_hash mc (mix_key mc hs2 shared) payload of
                     (hs4, c) \<Rightarrow> (hs4, Some (e_pub @ c))))"

definition read_msg2 ::
  "monocypher \<Rightarrow> noise_hs \<Rightarrow> bytes \<Rightarrow> nat \<Rightarrow> (noise_hs \<times> bytes) option" where
  "read_msg2 mc hs msg payload_size =
     (if \<not> hs_initiator hs \<or> length msg < NOISE_MSG_OVERHEAD then None
      else if payload_size < length msg - NOISE_MSG_OVERHEAD then None
      else let hs1 = mix_hash mc (hs\<lparr>hs_re := take NOISE_DHLEN msg\<rparr>) (take NOISE_DHLEN msg);
               hs2 = mix_key mc hs1 (hs_re hs1)
           in case dh mc (hs_e_priv hs2) (hs_re hs2) of
                None \<Rightarrow> None
              | Some shared \<Rightarrow>
                  decrypt_and_hash mc (mix_key mc hs2 shared) (drop NOISE_DHLEN msg))"

text \<open>The public readers work on a copy: a failed read keeps the state.\<close>

definition noise_read_msg1 ::
  "monocypher \<Rightarrow> noise_hs \<Rightarrow> bytes \<Rightarrow> bytes \<Rightarrow> bytes \<Rightarrow> nat \<Rightarrow> noise_hs \<times> bytes option" where
  "noise_read_msg1 mc hs psk es msg payload_size =
     (case read_msg1 mc hs psk es msg payload_size of
        None \<Rightarrow> (hs, None) | Some (t, payload) \<Rightarrow> (t, Some payload))"

definition noise_read_msg2 ::
  "monocypher \<Rightarrow> noise_hs \<Rightarrow> bytes \<Rightarrow> nat \<Rightarrow> noise_hs \<times> bytes option" where
  "noise_read_msg2 mc hs msg payload_size =
     (case read_msg2 mc hs msg payload_size of
        None \<Rightarrow> (hs, None) | Some (t, payload) \<Rightarrow> (t, Some payload))"

definition noise_split :: "monocypher \<Rightarrow> noise_hs \<Rightarrow> bytes \<times> bytes" where
  "noise_split mc hs =
     (case hkdf mc (hs_ck hs) [] of (k1, k2, _) \<Rightarrow> (take NOISE_KEYLEN k1, take NOISE_KEYLEN k2))"

subsection \<open>Both ends compute the same state\<close>

lemma mix_frames [frame_simps]:
  "hs_s_priv (mix_hash mc hs d) = hs_s_priv hs" "hs_s_pub (mix_hash mc hs d) = hs_s_pub hs"
  "hs_e_priv (mix_hash mc hs d) = hs_e_priv hs" "hs_re (mix_hash mc hs d) = hs_re hs"
  "hs_initiator (mix_hash mc hs d) = hs_initiator hs"
  "hs_s_priv (mix_key mc hs d) = hs_s_priv hs" "hs_s_pub (mix_key mc hs d) = hs_s_pub hs"
  "hs_e_priv (mix_key mc hs d) = hs_e_priv hs" "hs_re (mix_key mc hs d) = hs_re hs"
  "hs_initiator (mix_key mc hs d) = hs_initiator hs"
  "hs_s_priv (mix_key_and_hash mc hs d) = hs_s_priv hs"
  "hs_s_pub (mix_key_and_hash mc hs d) = hs_s_pub hs"
  "hs_e_priv (mix_key_and_hash mc hs d) = hs_e_priv hs"
  "hs_re (mix_key_and_hash mc hs d) = hs_re hs"
  "hs_initiator (mix_key_and_hash mc hs d) = hs_initiator hs"
  by (simp_all add: mix_hash_def mix_key_def mix_key_and_hash_def split: prod.splits)

text \<open>The parts of the state the two ends share.\<close>

definition hs_shared :: "noise_hs \<Rightarrow> bytes \<times> bytes \<times> bytes \<times> u64" where
  "hs_shared hs = (hs_ck hs, hs_h hs, cs_k hs, cs_n hs)"

lemma hs_shared_fields:
  "hs_shared (hs\<lparr>hs_e_priv := a, hs_e_pub := b\<rparr>) = hs_shared hs"
  "hs_shared (hs\<lparr>hs_re := c\<rparr>) = hs_shared hs"
  "hs_shared (hs\<lparr>hs_s_pub := p, hs_initiator := True\<rparr>) = hs_shared hs"
  "hs_shared (hs\<lparr>hs_s_priv := q, hs_s_pub := p, hs_initiator := False\<rparr>) = hs_shared hs"
  by (simp_all add: hs_shared_def)

lemma hs_shared_mix:
  assumes "hs_shared a = hs_shared b"
  shows "hs_shared (mix_hash mc a d) = hs_shared (mix_hash mc b d)"
    and "hs_shared (mix_key mc a d) = hs_shared (mix_key mc b d)"
    and "hs_shared (mix_key_and_hash mc a d) = hs_shared (mix_key_and_hash mc b d)"
  using assms
  by (simp_all add: hs_shared_def mix_hash_def mix_key_def mix_key_and_hash_def split: prod.splits)

lemma hs_shared_split: "hs_shared a = hs_shared b \<Longrightarrow> noise_split mc a = noise_split mc b"
  by (simp add: hs_shared_def noise_split_def)

lemma length_noise_encrypt [len_simps]:
  "mono_ok mc \<Longrightarrow> length (noise_encrypt mc k n ad p) = length p + NOISE_TAGLEN"
  using mono_okD(6) [of mc k "make_nonce n" ad p] mono_okD(7) [of mc k "make_nonce n" ad p]
  by (auto simp: noise_encrypt_def NOISE_TAGLEN_def split: prod.split)

lemma noise_decrypt_encrypt:
  assumes "mono_ok mc"
  shows "noise_decrypt mc k n ad (noise_encrypt mc k n ad p) = Some p"
proof (cases "mc_aead_write mc k (make_nonce n) ad p")
  case (Pair c t)
  then have "length t = NOISE_TAGLEN"
    using mono_okD(7) [OF assms, of k "make_nonce n" ad p] by (simp add: NOISE_TAGLEN_def)
  then show ?thesis
    using mono_ok_aead [OF assms Pair] by (simp add: noise_decrypt_def noise_encrypt_def Pair)
qed

lemma length_noise_decrypt:
  "mono_ok mc \<Longrightarrow> noise_decrypt mc k n ad c = Some p \<Longrightarrow> length c = length p + NOISE_TAGLEN"
  by (auto simp: noise_decrypt_def not_less dest: mono_ok_read_length split: if_splits)

lemma decrypt_encrypt_and_hash:
  assumes "mono_ok mc" and "hs_shared a = hs_shared b" and "encrypt_and_hash mc a p = (a', c)"
  shows "\<exists>b'. decrypt_and_hash mc b c = Some (b', p) \<and> hs_shared a' = hs_shared b'
    \<and> hs_e_priv a' = hs_e_priv a \<and> hs_s_pub a' = hs_s_pub a \<and> hs_initiator a' = hs_initiator a
    \<and> hs_re b' = hs_re b \<and> hs_initiator b' = hs_initiator b \<and> length c = length p + NOISE_TAGLEN"
  using assms noise_decrypt_encrypt [OF assms(1)] length_noise_encrypt [OF assms(1)]
  by (auto simp: encrypt_and_hash_def decrypt_and_hash_def hs_shared_def mix_hash_def Let_def)

lemma hs_shared_init:
  "hs_shared (noise_init_initiator mc pro pub) = hs_shared (noise_init_responder mc pro priv pub)"
  by (simp add: noise_init_initiator_def noise_init_responder_def hs_shared_fields)

lemma noise_init_fields:
  "hs_initiator (noise_init_initiator mc pro pub)"
  "hs_s_pub (noise_init_initiator mc pro pub) = pub"
  "\<not> hs_initiator (noise_init_responder mc pro priv pub)"
  "hs_s_priv (noise_init_responder mc pro priv pub) = priv"
  by (simp_all add: noise_init_initiator_def noise_init_responder_def)

text \<open>
  The state of each end after the tokens of a message, before its payload.
\<close>

definition msg1_initiator :: "monocypher \<Rightarrow> noise_hs \<Rightarrow> bytes \<Rightarrow> bytes \<Rightarrow> noise_hs" where
  "msg1_initiator mc hs psk priv =
     (let e = mc_x25519_public_key mc priv
      in mix_key mc (mix_hash mc ((mix_key_and_hash mc hs psk)\<lparr>hs_e_priv := priv, hs_e_pub := e\<rparr>) e) e)"

lemma noise_write_msg1_Some:
  assumes "noise_write_msg1 mc a psk seed p n = (a', Some m)"
  shows "\<exists>es c. dh mc (take NOISE_DHLEN seed) (hs_s_pub a) = Some es \<and>
     encrypt_and_hash mc (mix_key mc (msg1_initiator mc a psk (take NOISE_DHLEN seed)) es) p = (a', c) \<and>
     m = mc_x25519_public_key mc (take NOISE_DHLEN seed) @ c \<and> length p + NOISE_MSG_OVERHEAD \<le> n"
proof (cases "dh mc (take NOISE_DHLEN seed) (hs_s_pub a)")
  case None
  then show ?thesis using assms unfolding noise_write_msg1_def noise_keypair_def Let_def
    by (simp add: frame_simps split: if_splits)
next
  case (Some es)
  obtain a2 c where e: "encrypt_and_hash mc (mix_key mc (msg1_initiator mc a psk (take NOISE_DHLEN seed)) es) p = (a2, c)"
    by fastforce
  have g: "NOISE_MSG_OVERHEAD \<le> n" "length p \<le> n - NOISE_MSG_OVERHEAD"
    using assms unfolding noise_write_msg1_def by (simp_all add: not_less split: if_splits)
  show ?thesis using assms Some e g
    unfolding noise_write_msg1_def noise_keypair_def Let_def msg1_initiator_def
    by (simp add: frame_simps split: if_splits)
qed

definition msg1_responder :: "monocypher \<Rightarrow> noise_hs \<Rightarrow> bytes \<Rightarrow> bytes \<Rightarrow> noise_hs" where
  "msg1_responder mc hs psk e =
     mix_key mc (mix_hash mc ((mix_key_and_hash mc hs psk)\<lparr>hs_re := e\<rparr>) e) e"

definition msg2_responder :: "monocypher \<Rightarrow> noise_hs \<Rightarrow> bytes \<Rightarrow> noise_hs" where
  "msg2_responder mc hs priv =
     (let e = mc_x25519_public_key mc priv
      in mix_key mc (mix_hash mc (hs\<lparr>hs_e_priv := priv, hs_e_pub := e\<rparr>) e) e)"

definition msg2_initiator :: "monocypher \<Rightarrow> noise_hs \<Rightarrow> bytes \<Rightarrow> noise_hs" where
  "msg2_initiator mc hs e = mix_key mc (mix_hash mc (hs\<lparr>hs_re := e\<rparr>) e) e"

lemma msg_sides_shared:
  assumes "hs_shared a = hs_shared b"
  shows "hs_shared (msg1_initiator mc a psk priv) = hs_shared (msg1_responder mc b psk (mc_x25519_public_key mc priv))"
    and "hs_shared (msg2_responder mc a priv) = hs_shared (msg2_initiator mc b (mc_x25519_public_key mc priv))"
  unfolding msg1_initiator_def msg1_responder_def msg2_initiator_def msg2_responder_def Let_def
   apply (intro hs_shared_mix)
   apply (simp only: hs_shared_fields)
   apply (intro hs_shared_mix assms)
  apply (intro hs_shared_mix)
  apply (simp only: hs_shared_fields assms)
  done

lemma msg_side_frames [frame_simps]:
  "hs_s_pub (msg1_initiator mc a psk priv) = hs_s_pub a"
  "hs_e_priv (msg1_initiator mc a psk priv) = priv"
  "hs_initiator (msg1_initiator mc a psk priv) = hs_initiator a"
  "hs_re (msg1_responder mc b psk e) = e"
  "hs_initiator (msg1_responder mc b psk e) = hs_initiator b"
  unfolding msg1_initiator_def msg1_responder_def Let_def by (simp_all add: frame_simps)

lemma noise_write_msg2_Some:
  assumes "noise_write_msg2 mc b seed p n = (b', Some m)"
  shows "\<exists>ee c. dh mc (take NOISE_DHLEN seed) (hs_re b) = Some ee \<and>
     encrypt_and_hash mc (mix_key mc (msg2_responder mc b (take NOISE_DHLEN seed)) ee) p = (b', c) \<and>
     m = mc_x25519_public_key mc (take NOISE_DHLEN seed) @ c \<and> length p + NOISE_MSG_OVERHEAD \<le> n"
proof (cases "dh mc (take NOISE_DHLEN seed) (hs_re b)")
  case None
  then show ?thesis using assms unfolding noise_write_msg2_def noise_keypair_def Let_def
    by (simp add: frame_simps split: if_splits)
next
  case (Some ee)
  obtain b2 c where e: "encrypt_and_hash mc (mix_key mc (msg2_responder mc b (take NOISE_DHLEN seed)) ee) p = (b2, c)"
    by fastforce
  have g: "NOISE_MSG_OVERHEAD \<le> n" "length p \<le> n - NOISE_MSG_OVERHEAD"
    using assms unfolding noise_write_msg2_def by (simp_all add: not_less split: if_splits)
  show ?thesis using assms Some e g
    unfolding noise_write_msg2_def noise_keypair_def Let_def msg2_responder_def
    by (simp add: frame_simps split: if_splits)
qed

lemma read_msg1_eq:
  assumes "\<not> hs_initiator b" "length e = NOISE_DHLEN" "NOISE_TAGLEN \<le> length c" "length c \<le> psz + NOISE_TAGLEN"
  shows "noise_msg1_es mc b (e @ c) = dh mc (hs_s_priv b) e"
    and "read_msg1 mc b psk es (e @ c) psz = decrypt_and_hash mc (mix_key mc (msg1_responder mc b psk e) es) c"
  using assms unfolding noise_msg1_es_def read_msg1_def msg1_responder_def Let_def
  by (auto simp add: frame_simps NOISE_MSG_OVERHEAD_def)

lemma read_msg2_eq:
  assumes "hs_initiator a" "length e = NOISE_DHLEN" "NOISE_TAGLEN \<le> length c" "length c \<le> psz + NOISE_TAGLEN"
    and "dh mc (hs_e_priv a) e = Some ee"
  shows "read_msg2 mc a (e @ c) psz = decrypt_and_hash mc (mix_key mc (msg2_initiator mc a e) ee) c"
  using assms unfolding read_msg2_def msg2_initiator_def Let_def
  by (auto simp add: frame_simps NOISE_MSG_OVERHEAD_def)

lemma read_write_msg1:
  assumes mc: "mono_ok mc" and shared: "hs_shared a = hs_shared b"
    and a: "hs_initiator a" and b: "\<not> hs_initiator b"
    and pub: "hs_s_pub a = mc_x25519_public_key mc (hs_s_priv b)"
    and w: "noise_write_msg1 mc a psk seed p out_size = (a', Some m)" and fits: "length p \<le> psz"
  shows "\<exists>es b'. noise_msg1_es mc b m = Some es
    \<and> noise_read_msg1 mc b psk es m psz = (b', Some p)
    \<and> hs_shared a' = hs_shared b' \<and> hs_initiator a' \<and> \<not> hs_initiator b'
    \<and> hs_re b' = mc_x25519_public_key mc (hs_e_priv a')"
proof -
  let ?priv = "take NOISE_DHLEN seed"
  let ?e = "mc_x25519_public_key mc ?priv"
  obtain es c where es: "dh mc ?priv (hs_s_pub a) = Some es" and m: "m = ?e @ c"
    and enc: "encrypt_and_hash mc (mix_key mc (msg1_initiator mc a psk ?priv) es) p = (a', c)"
    using noise_write_msg1_Some [OF w] by blast
  obtain b' where b': "decrypt_and_hash mc (mix_key mc (msg1_responder mc b psk ?e) es) c = Some (b', p)"
    "hs_shared a' = hs_shared b'" "hs_e_priv a' = ?priv" "hs_initiator a'"
    "hs_re b' = ?e" "\<not> hs_initiator b'" "length c = length p + NOISE_TAGLEN"
    using decrypt_encrypt_and_hash [OF mc hs_shared_mix(2) [OF msg_sides_shared(1) [OF shared]] enc] a b
    by (auto simp: frame_simps)
  have len: "length ?e = NOISE_DHLEN"
    by (simp add: mono_okD(4) [OF mc] NOISE_DHLEN_def)
  have "dh mc (hs_s_priv b) ?e = Some es"
    using es mono_ok_dh [OF mc] by (simp add: dh_def pub)
  then show ?thesis
    using b' fits b len by (simp add: m read_msg1_eq noise_read_msg1_def)
qed

lemma read_write_msg2:
  assumes mc: "mono_ok mc" and shared: "hs_shared a = hs_shared b" and a: "hs_initiator a"
    and re: "hs_re b = mc_x25519_public_key mc (hs_e_priv a)"
    and w: "noise_write_msg2 mc b seed p out_size = (b', Some m)" and fits: "length p \<le> psz"
  shows "\<exists>a'. noise_read_msg2 mc a m psz = (a', Some p) \<and> hs_shared a' = hs_shared b'"
proof -
  let ?priv = "take NOISE_DHLEN seed"
  let ?e = "mc_x25519_public_key mc ?priv"
  obtain ee c where ee: "dh mc ?priv (hs_re b) = Some ee" and m: "m = ?e @ c"
    and enc: "encrypt_and_hash mc (mix_key mc (msg2_responder mc b ?priv) ee) p = (b', c)"
    using noise_write_msg2_Some [OF w] by blast
  obtain a' where a': "decrypt_and_hash mc (mix_key mc (msg2_initiator mc a ?e) ee) c = Some (a', p)"
    "hs_shared b' = hs_shared a'" "length c = length p + NOISE_TAGLEN"
    using decrypt_encrypt_and_hash [OF mc hs_shared_mix(2) [OF msg_sides_shared(2) [OF shared [symmetric]]] enc]
    by blast
  have len: "length ?e = NOISE_DHLEN"
    by (simp add: mono_okD(4) [OF mc] NOISE_DHLEN_def)
  have "dh mc (hs_e_priv a) ?e = Some ee"
    using ee mono_ok_dh [OF mc] by (simp add: dh_def re)
  then show ?thesis
    using a' fits a len by (simp add: m read_msg2_eq noise_read_msg2_def)
qed

lemma noise_write_length:
  assumes mc: "mono_ok mc"
  shows "noise_write_msg1 mc hs psk seed p n = (hs', Some m) \<Longrightarrow> length m = NOISE_MSG_OVERHEAD + length p \<and> length m \<le> n"
    and "noise_write_msg2 mc hs seed p n = (hs', Some m) \<Longrightarrow> length m = NOISE_MSG_OVERHEAD + length p \<and> length m \<le> n"
  using length_noise_encrypt [OF mc] mono_okD(4) [OF mc]
  by (auto dest!: noise_write_msg1_Some noise_write_msg2_Some
      simp: encrypt_and_hash_def Let_def NOISE_MSG_OVERHEAD_def NOISE_DHLEN_def)

lemma noise_failed_read_keeps:
  "noise_read_msg1 mc hs psk es m psz = (hs', None) \<Longrightarrow> hs' = hs"
  "noise_read_msg2 mc hs m psz = (hs', None) \<Longrightarrow> hs' = hs"
  by (auto simp: noise_read_msg1_def noise_read_msg2_def split: option.splits)

lemma read_msg1_length:
  assumes mc: "mono_ok mc" and "read_msg1 mc hs psk es m psz = Some (hs', p)"
  shows "length m = length p + NOISE_MSG_OVERHEAD" "length p \<le> psz" "\<not> hs_initiator hs"
proof -
  have g: "\<not> hs_initiator hs" "NOISE_MSG_OVERHEAD \<le> length m" "length m - NOISE_MSG_OVERHEAD \<le> psz"
    using assms(2) unfolding read_msg1_def by (auto simp: not_less split: if_splits)
  then have "\<exists>h. decrypt_and_hash mc h (drop NOISE_DHLEN m) = Some (hs', p)"
    using assms(2) unfolding read_msg1_def Let_def by auto
  then have "length (drop NOISE_DHLEN m) = length p + NOISE_TAGLEN"
    unfolding decrypt_and_hash_def Let_def
    by (fastforce split: option.splits dest: length_noise_decrypt [OF mc] simp del: length_drop)
  then show "length m = length p + NOISE_MSG_OVERHEAD" "length p \<le> psz" "\<not> hs_initiator hs"
    using g by (auto simp: NOISE_MSG_OVERHEAD_def)
qed

subsection \<open>Properties\<close>

text \<open>C1: the two ends of a handshake agree.  A responder that has the server's key pair and
  the client's pre-shared key reads the payload of the initiator's first message, the
  initiator reads the payload of the answer, and both derive the same two transport keys.\<close>

theorem noise_handshake_agrees:
  assumes mc: "mono_ok mc"
    and w1: "noise_write_msg1 mc (noise_init_initiator mc prologue (mc_x25519_public_key mc priv)) psk seed1 p1 n1
      = (i1, Some m1)"
    and "length p1 \<le> sz"
  shows "\<exists>es r1. noise_msg1_es mc (noise_init_responder mc prologue priv (mc_x25519_public_key mc priv)) m1 = Some es
    \<and> noise_read_msg1 mc (noise_init_responder mc prologue priv (mc_x25519_public_key mc priv)) psk es m1 sz
      = (r1, Some p1)
    \<and> (\<forall>seed2 p2 n2 r2 m2. noise_write_msg2 mc r1 seed2 p2 n2 = (r2, Some m2) \<and> length p2 \<le> sz \<longrightarrow>
        (\<exists>i2. noise_read_msg2 mc i1 m2 sz = (i2, Some p2) \<and> noise_split mc i2 = noise_split mc r2))"
proof -
  obtain es r1 where r1: "noise_msg1_es mc (noise_init_responder mc prologue priv (mc_x25519_public_key mc priv)) m1 = Some es"
    "noise_read_msg1 mc (noise_init_responder mc prologue priv (mc_x25519_public_key mc priv)) psk es m1 sz = (r1, Some p1)"
    "hs_shared i1 = hs_shared r1" "hs_initiator i1" "hs_re r1 = mc_x25519_public_key mc (hs_e_priv i1)"
    using read_write_msg1 [OF mc hs_shared_init [where priv = priv] _ _ _ w1 assms(3)] by (auto simp: noise_init_fields)
  have "\<exists>i2. noise_read_msg2 mc i1 m2 sz = (i2, Some p2) \<and> noise_split mc i2 = noise_split mc r2"
    if "noise_write_msg2 mc r1 seed2 p2 n2 = (r2, Some m2)" "length p2 \<le> sz" for seed2 p2 n2 r2 m2
    using read_write_msg2 [OF mc r1(3,4,5) that] hs_shared_split by blast
  then show ?thesis using r1(1,2) by blast
qed

theorem noise_handshake_agrees_witness:
  "\<exists>i1 m1 es r1. noise_write_msg1 toy_mono (noise_init_initiator toy_mono [1] (mc_x25519_public_key toy_mono [5]))
       [3] [2] [9, 9] 200 = (i1, Some m1)
    \<and> noise_read_msg1 toy_mono (noise_init_responder toy_mono [1] [5] (mc_x25519_public_key toy_mono [5]))
        [3] es m1 64 = (r1, Some [9, 9])"
proof -
  obtain i1 m1 where w: "noise_write_msg1 toy_mono (noise_init_initiator toy_mono [1] (mc_x25519_public_key toy_mono [5]))
       [3] [2] [9, 9] 200 = (i1, Some m1)"
    by (fastforce simp: noise_write_msg1_def noise_init_fields NOISE_MSG_OVERHEAD_def NOISE_DHLEN_def
        NOISE_TAGLEN_def noise_keypair_def frame_simps dh_def crypto_verify_def toy_mono_def
        Let_def split: prod.splits)
  show ?thesis
    using noise_handshake_agrees [OF toy_mono_ok w, of 64] w by fastforce
qed

text \<open>A message that does not authenticate changes nothing, so a valid one can still
  follow; and each end refuses the messages of its own role.\<close>

lemma noise_read_atomic:
  "(snd (noise_read_msg1 mc hs psk es m sz) = None \<longrightarrow> fst (noise_read_msg1 mc hs psk es m sz) = hs) \<and>
   (snd (noise_read_msg2 mc hs m sz) = None \<longrightarrow> fst (noise_read_msg2 mc hs m sz) = hs) \<and>
   (if hs_initiator hs
    then noise_msg1_es mc hs m = None \<and> noise_read_msg1 mc hs psk es m sz = (hs, None)
      \<and> noise_write_msg2 mc hs seed p sz = (hs, None)
    else noise_write_msg1 mc hs psk seed p sz = (hs, None) \<and> noise_read_msg2 mc hs m sz = (hs, None))"
  by (auto simp: noise_read_msg1_def noise_read_msg2_def read_msg1_def read_msg2_def
      noise_msg1_es_def noise_write_msg1_def noise_write_msg2_def split: option.splits)


end
