(* ===== verification/Session.thy ===== *)
theory Session
  imports Noise Cstring
begin

text \<open>
  \<open>src/session.c\<close>: the wire format of protocol v2, the replay window and the transport
  sessions.  The replay window is refined to the set of counters received so far; sealing
  and opening are shown inverse, never twice for one counter.
\<close>

subsection \<open>Model\<close>

definition v2_read_u32 :: "bytes \<Rightarrow> u32" where
  "v2_read_u32 p = push_bit 24 (ucast (p ! 0)) OR push_bit 16 (ucast (p ! 1))
     OR push_bit 8 (ucast (p ! 2)) OR ucast (p ! 3)"

definition v2_write_u32 :: "u32 \<Rightarrow> bytes" where
  "v2_write_u32 v = [ucast (drop_bit 24 v), ucast (drop_bit 16 v), ucast (drop_bit 8 v), ucast v]"

definition read_le64 :: "bytes \<Rightarrow> u64" where
  "read_le64 p = foldl (\<lambda>v i. push_bit 8 v OR ucast (p ! i)) 0 (rev [0..<8])"

definition write_le64 :: "u64 \<Rightarrow> bytes" where
  "write_le64 v = le_bytes 8 v"

definition CAMEX_MAGIC :: bytes where "CAMEX_MAGIC = [0x43, 0x58, 0x76, 0x32]"
definition CAMEX_NOISE_PROLOGUE :: bytes where
  "CAMEX_NOISE_PROLOGUE = [0x63, 0x61, 0x6d, 0x65, 0x78, 0x20, 0x76, 0x32]"
definition V2_TYPE_INIT :: u8 where "V2_TYPE_INIT = 1"
definition V2_TYPE_RESP :: u8 where "V2_TYPE_RESP = 2"
definition V2_TYPE_DATA :: u8 where "V2_TYPE_DATA = 3"
definition V2_INIT_HDR :: nat where "V2_INIT_HDR = 9"
definition V2_MAC_LEN :: nat where "V2_MAC_LEN = 16"
definition V2_RESP_HDR :: nat where "V2_RESP_HDR = 13"
definition V2_DATA_HDR :: nat where "V2_DATA_HDR = 17"
definition V2_OVERHEAD :: nat where "V2_OVERHEAD = V2_DATA_HDR + NOISE_TAGLEN"
definition V2_TIMESTAMP_LEN :: nat where "V2_TIMESTAMP_LEN = 12"
definition V2_REPLAY_WINDOW :: u64 where "V2_REPLAY_WINDOW = 2048"
definition V2_REKEY_AFTER_TIME :: int where "V2_REKEY_AFTER_TIME = 600"
definition V2_REKEY_AFTER_MSGS :: u64 where "V2_REKEY_AFTER_MSGS = push_bit 32 1"
definition V2_REJECT_AFTER_MSGS :: u64 where "V2_REJECT_AFTER_MSGS = push_bit 60 1"
definition V2_PREV_SESSION_GRACE :: int where "V2_PREV_SESSION_GRACE = 30"
definition V2_HANDSHAKE_RETRY :: int where "V2_HANDSHAKE_RETRY = 5"
definition V2_REKEY_TIMEOUT :: int where "V2_REKEY_TIMEOUT = 90"

definition v2_packet_type :: "bytes \<Rightarrow> u8" where
  "v2_packet_type pkt =
     (if length pkt < 5 \<or> take 4 pkt \<noteq> CAMEX_MAGIC then 0
      else if pkt ! 4 = V2_TYPE_INIT then
        (if length pkt \<ge> V2_INIT_HDR + NOISE_MSG_OVERHEAD + V2_TIMESTAMP_LEN + V2_MAC_LEN
         then V2_TYPE_INIT else 0)
      else if pkt ! 4 = V2_TYPE_RESP then
        (if length pkt \<ge> V2_RESP_HDR + NOISE_MSG_OVERHEAD then V2_TYPE_RESP else 0)
      else if pkt ! 4 = V2_TYPE_DATA then
        (if length pkt \<ge> V2_OVERHEAD then V2_TYPE_DATA else 0)
      else 0)"

definition v2_data_receiver :: "bytes \<Rightarrow> u32" where
  "v2_data_receiver pkt = v2_read_u32 (drop 5 pkt)"

record replay_window =
  r_max :: u64
  r_bits :: "u64 list"
  r_any :: bool

definition replay_zero :: replay_window where
  "replay_zero = \<lparr>r_max = 0, r_bits = replicate 32 0, r_any = False\<rparr>"

text \<open>\<open>True\<close> is the return value 0: new, and inside the window.\<close>

definition replay_check :: "replay_window \<Rightarrow> u64 \<Rightarrow> bool" where
  "replay_check r n =
     (if n \<ge> V2_REJECT_AFTER_MSGS then False
      else if \<not> r_any r \<or> n > r_max r then True
      else if r_max r div 64 - n div 64 \<ge> V2_REPLAY_WINDOW div 64 then False
      else \<not> bit (r_bits r ! unat ((n div 64) mod (V2_REPLAY_WINDOW div 64))) (unat (n mod 64)))"

text \<open>The words the window moves over, \<open>w\<close> from \<open>cur + 1\<close> up to that of the new counter.\<close>

definition clear_words :: "u64 list \<Rightarrow> nat \<Rightarrow> nat \<Rightarrow> u64 list" where
  "clear_words bits cur last_word =
     foldl (\<lambda>b w. b[w mod unat (V2_REPLAY_WINDOW div 64) := 0]) bits [cur + 1..<last_word + 1]"

definition replay_advance :: "replay_window \<Rightarrow> u64 \<Rightarrow> replay_window" where
  "replay_advance r n =
     (if \<not> r_any r then \<lparr>r_max = n, r_bits = replicate 32 0, r_any = True\<rparr>
      else if n > r_max r then
        (let cur = r_max r div 64; tp = n div 64
         in r\<lparr>r_bits := (if tp - cur \<ge> V2_REPLAY_WINDOW div 64 then replicate 32 0
                         else clear_words (r_bits r) (unat cur) (unat tp)),
              r_max := n\<rparr>)
      else r)"

text \<open>\<open>replay_advance\<close> is the first part of \<open>replay_record\<close>, before the bit is set.\<close>

definition replay_record :: "replay_window \<Rightarrow> u64 \<Rightarrow> replay_window" where
  "replay_record r n =
     (let r1 = replay_advance r n;
          i = unat ((n div 64) mod (V2_REPLAY_WINDOW div 64))
      in r1\<lparr>r_bits := (r_bits r1)[i := (r_bits r1 ! i) OR push_bit (unat (n mod 64)) 1]\<rparr>)"

record session =
  s_local_index :: u32
  s_remote_index :: u32
  s_k_send :: bytes
  s_k_recv :: bytes
  s_send_n :: u64
  s_replay :: replay_window
  s_created :: int
  s_valid :: bool

definition session_zero :: session where
  "session_zero = \<lparr>s_local_index = 0, s_remote_index = 0, s_k_send = replicate 32 0,
     s_k_recv = replicate 32 0, s_send_n = 0, s_replay = replay_zero, s_created = 0,
     s_valid = False\<rparr>"

definition session_init :: "u32 \<Rightarrow> u32 \<Rightarrow> bytes \<Rightarrow> bytes \<Rightarrow> int \<Rightarrow> session" where
  "session_init local_index remote_index k_send k_recv now =
     session_zero\<lparr>s_local_index := local_index, s_remote_index := remote_index,
       s_k_send := k_send, s_k_recv := k_recv, s_created := now, s_valid := True\<rparr>"

definition session_wipe :: "session \<Rightarrow> session" where
  "session_wipe s = session_zero"

definition session_seal :: "monocypher \<Rightarrow> session \<Rightarrow> bytes \<Rightarrow> nat \<Rightarrow> session \<times> bytes option" where
  "session_seal mc s plain out_size =
     (if \<not> s_valid s \<or> s_send_n s \<ge> V2_REJECT_AFTER_MSGS \<or> out_size < V2_OVERHEAD + length plain
      then (s, None)
      else let hdr = CAMEX_MAGIC @ [V2_TYPE_DATA] @ v2_write_u32 (s_remote_index s)
                       @ write_le64 (s_send_n s)
           in (s\<lparr>s_send_n := s_send_n s + 1\<rparr>,
               Some (hdr @ noise_encrypt mc (s_k_send s) (s_send_n s) hdr plain)))"

definition session_open :: "monocypher \<Rightarrow> session \<Rightarrow> bytes \<Rightarrow> nat \<Rightarrow> session \<times> bytes option" where
  "session_open mc s pkt plain_size =
     (if \<not> s_valid s \<or> v2_packet_type pkt \<noteq> V2_TYPE_DATA
         \<or> v2_data_receiver pkt \<noteq> s_local_index s \<or> plain_size < length pkt - V2_OVERHEAD
      then (s, None)
      else let n = read_le64 (drop 9 pkt)
           in if \<not> replay_check (s_replay s) n then (s, None)
              else case noise_decrypt mc (s_k_recv s) n (take V2_DATA_HDR pkt) (drop V2_DATA_HDR pkt) of
                     None \<Rightarrow> (s, None)
                   | Some plain \<Rightarrow> (s\<lparr>s_replay := replay_record (s_replay s) n\<rparr>, Some plain))"

text \<open>\<open>gettimeofday\<close> gives seconds and microseconds; the label is TAI64N.\<close>

definition TAI64 :: u64 where "TAI64 = 0x400000000000000a"

definition v2_timestamp :: "u64 \<Rightarrow> u32 \<Rightarrow> bytes" where
  "v2_timestamp tv_sec tv_usec =
     (let sec = tv_sec + TAI64; nsec = tv_usec * 1000
      in v2_write_u32 (ucast (drop_bit 32 sec)) @ v2_write_u32 (ucast sec) @ v2_write_u32 nsec)"

definition v2_timestamp_seconds :: "bytes \<Rightarrow> u64" where
  "v2_timestamp_seconds ts =
     (let sec = push_bit 32 (ucast (v2_read_u32 ts)) OR ucast (v2_read_u32 (drop 4 ts))
      in if sec \<ge> TAI64 then sec - TAI64 else 0)"

text \<open>\<open>memcmp\<close>: only the sign of the result is used.\<close>

fun memcmp :: "bytes \<Rightarrow> bytes \<Rightarrow> int" where
  "memcmp (a # as) (b # bs) = (if a < b then - 1 else if b < a then 1 else memcmp as bs)"
| "memcmp _ _ = 0"

definition v2_timestamp_cmp :: "bytes \<Rightarrow> bytes \<Rightarrow> int" where
  "v2_timestamp_cmp a b = memcmp (take V2_TIMESTAMP_LEN a) (take V2_TIMESTAMP_LEN b)"

text \<open>The random source: what each successive draw gives, \<open>None\<close> when it fails.\<close>

fun new_index_loop :: "(nat \<Rightarrow> bytes option) \<Rightarrow> nat \<Rightarrow> nat \<Rightarrow> u32" where
  "new_index_loop rnd tries 0 = 0"
| "new_index_loop rnd tries (Suc left) =
     (case rnd tries of
        None \<Rightarrow> 0
      | Some b \<Rightarrow> (let v = v2_read_u32 b
                   in if v = 0 then new_index_loop rnd (Suc tries) left else v))"

definition v2_new_index :: "(nat \<Rightarrow> bytes option) \<Rightarrow> u32" where
  "v2_new_index rnd = new_index_loop rnd 0 8"

definition v2_mac1 :: "monocypher \<Rightarrow> bytes \<Rightarrow> bytes \<Rightarrow> bytes" where
  "v2_mac1 mc server_pub pkt =
     (let key = mc_blake2b mc 32 ([0x6d, 0x61, 0x63, 0x31, 0x2d, 0x2d, 0x2d, 0x2d] @ server_pub)
      in mc_blake2b_keyed mc V2_MAC_LEN key pkt)"

subsection \<open>Wire integers\<close>

lemma length_v2_write_u32 [simp, len_simps]: "length (v2_write_u32 v) = 4"
  by (simp add: v2_write_u32_def)

lemma v2_write_u32_rev: "v2_write_u32 v = rev (le_bytes 4 v)"
  by (simp add: v2_write_u32_def le_bytes_def upt_rec)

lemma v2_read_u32_value: "v2_read_u32 (a # b # c # d # rest) = le_value [d, c, b, a]"
proof -
  have "(a # b # c # d # rest) ! 0 = a" "(a # b # c # d # rest) ! 1 = b"
    "(a # b # c # d # rest) ! 2 = c" "(a # b # c # d # rest) ! 3 = d"
    by simp_all
  then show ?thesis
    unfolding v2_read_u32_def le_value_Cons le_value_Nil by (simp only: shifted_or4)
qed

lemma v2_read_write_u32 [simp]: "v2_read_u32 (v2_write_u32 v @ rest) = v"
proof -
  have "v2_read_u32 (v2_write_u32 v @ rest) = le_value (le_bytes 4 v)"
    by (simp add: v2_write_u32_def v2_read_u32_value le_bytes_def upt_rec del: push_bit_numeral)
  also have "\<dots> = v"
    unfolding le_value_bytes by (rule bit_word_eqI) (simp add: bit_simps)
  finally show ?thesis .
qed

interpretation be32: codec v2_write_u32 v2_read_u32 4
  by unfold_locales simp_all

lemma read_le64_value: "8 \<le> length p \<Longrightarrow> read_le64 p = le_value (take 8 p)"
proof -
  assume "8 \<le> length p"
  then obtain a b c d e f g h rest where p: "p = a # b # c # d # e # f # g # h # rest"
    by (auto simp: numeral_eq_Suc Suc_le_length_iff)
  show ?thesis
    unfolding p read_le64_def le_value_def by (simp add: upt_rec del: push_bit_numeral)
qed

interpretation le64: codec write_le64 read_le64 8
proof unfold_locales
  fix v rest
  have "read_le64 (write_le64 v @ rest) = le_value (le_bytes 8 v)"
    by (simp add: read_le64_value write_le64_def)
  also have "\<dots> = v"
    unfolding le_value_bytes by (rule bit_word_eqI) (simp add: bit_simps)
  finally show "read_le64 (write_le64 v @ rest) = v" .
qed (simp add: write_le64_def)

subsection \<open>The replay window holds the set of received counters\<close>

text \<open>
  \<open>window_bits bits m S\<close>: the ring of 32 words, newest word \<open>m\<close>, has the bit of every
  counter of its 32 words set exactly when the counter is in \<open>S\<close>.
\<close>

definition window_bits :: "u64 list \<Rightarrow> nat \<Rightarrow> nat set \<Rightarrow> bool" where
  "window_bits bits m S \<longleftrightarrow> length bits = 32 \<and>
     (\<forall>k. k div 64 \<le> m \<and> m < k div 64 + 32 \<longrightarrow>
        (bit (bits ! (k div 64 mod 32)) (k mod 64) \<longleftrightarrow> k \<in> S))"

definition replay_rel :: "replay_window \<Rightarrow> nat set \<Rightarrow> bool" where
  "replay_rel r S \<longleftrightarrow> finite S \<and> (r_any r \<longleftrightarrow> S \<noteq> {}) \<and>
     (S \<noteq> {} \<longrightarrow> unat (r_max r) = Max S \<and> window_bits (r_bits r) (Max S div 64) S)"

text \<open>What the window promises: new, and not older than the ring reaches.\<close>

definition replay_fresh :: "nat set \<Rightarrow> nat \<Rightarrow> bool" where
  "replay_fresh S k \<longleftrightarrow> k < 2 ^ 60 \<and> k \<notin> S \<and> (S \<noteq> {} \<longrightarrow> Max S div 64 < k div 64 + 32)"

lemma ring_index_inj:
  fixes a b :: nat
  assumes "a \<le> m" "m < a + 32" "b \<le> m" "m < b + 32" "a mod 32 = b mod 32"
  shows "a = b"
proof -
  have step: "x = y" if "x \<le> y" "y < x + 32" "x mod 32 = y mod 32" for x y :: nat
  proof -
    have "32 dvd y - x" using that mod_eq_dvd_iff_nat [of x y 32] by simp
    then show ?thesis using that nat_dvd_not_less [of "y - x" 32] by (cases "x < y") auto
  qed
  show ?thesis
    using assms step [of a b] step [of b a] by (cases "a \<le> b") auto
qed

lemma window_bits_set:
  assumes w: "window_bits bits m S" and n: "n div 64 \<le> m" "m < n div 64 + 32"
  shows "window_bits (bits[n div 64 mod 32 := bits ! (n div 64 mod 32) OR push_bit (n mod 64) 1]) m (insert n S)"
  unfolding window_bits_def
proof (intro conjI allI impI)
  show "length (bits[n div 64 mod 32 := bits ! (n div 64 mod 32) OR push_bit (n mod 64) 1]) = 32"
    using w by (simp add: window_bits_def)
next
  fix k assume k: "k div 64 \<le> m \<and> m < k div 64 + 32"
  then have old: "bit (bits ! (k div 64 mod 32)) (k mod 64) \<longleftrightarrow> k \<in> S" and len: "length bits = 32"
    using w by (auto simp: window_bits_def)
  show "bit (bits[n div 64 mod 32 := bits ! (n div 64 mod 32) OR push_bit (n mod 64) 1]
      ! (k div 64 mod 32)) (k mod 64) \<longleftrightarrow> k \<in> insert n S"
  proof (cases "k div 64 mod 32 = n div 64 mod 32")
    case True
    then have "k div 64 = n div 64" using ring_index_inj [of "k div 64" m "n div 64"] k n by blast
    then have "k = n \<longleftrightarrow> k mod 64 = n mod 64" by (metis div_mult_mod_eq)
    moreover have "bit (push_bit (n mod 64) 1 :: u64) (k mod 64) \<longleftrightarrow> k mod 64 = n mod 64"
      by (auto simp: bit_simps)
    ultimately show ?thesis using True old len by (auto simp: bit_or_iff)
  next
    case False
    then have "k \<noteq> n" by auto
    then show ?thesis using False old by simp
  qed
qed

lemma V2_REPLAY_WINDOW_div: "V2_REPLAY_WINDOW div 64 = 32" "unat (32 :: u64) = 32"
  by (simp_all add: V2_REPLAY_WINDOW_def)

lemma clear_words_nth:
  assumes "i < 32" "length bits = 32"
  shows "clear_words bits c t ! i = (if \<exists>w. c < w \<and> w \<le> t \<and> w mod 32 = i then 0 else bits ! i)"
    and "length (clear_words bits c t) = 32"
proof -
  have "length (foldl (\<lambda>b w. b[w mod 32 := 0]) bits ws) = 32 \<and>
    foldl (\<lambda>b w. b[w mod 32 := 0]) bits ws ! i = (if \<exists>w\<in>set ws. w mod 32 = i then 0 else bits ! i)" for ws
    using assms by (induction ws arbitrary: bits) (auto simp: nth_list_update)
  moreover have "(\<exists>w\<in>set [c + 1..<t + 1]. w mod 32 = i) \<longleftrightarrow> (\<exists>w. c < w \<and> w \<le> t \<and> w mod 32 = i)"
    by (auto simp: Suc_le_eq less_Suc_eq_le)
  ultimately show "clear_words bits c t ! i = (if \<exists>w. c < w \<and> w \<le> t \<and> w mod 32 = i then 0 else bits ! i)"
    and "length (clear_words bits c t) = 32"
    unfolding clear_words_def V2_REPLAY_WINDOW_div by auto
qed

lemma window_bits_move:
  assumes w: "window_bits bits c S" and S: "\<And>k. k \<in> S \<Longrightarrow> k div 64 \<le> c" and "c \<le> N" "N < c + 32"
  shows "window_bits (clear_words bits c N) N S"
proof -
  have len: "length bits = 32" using w by (simp add: window_bits_def)
  have "bit (clear_words bits c N ! (k div 64 mod 32)) (k mod 64) \<longleftrightarrow> k \<in> S"
    if k: "k div 64 \<le> N" "N < k div 64 + 32" for k
  proof (cases "k div 64 \<le> c")
    case True
    have nc: "\<not> (\<exists>w. c < w \<and> w \<le> N \<and> w mod 32 = k div 64 mod 32)"
      using ring_index_inj [of "k div 64" N] k True \<open>N < c + 32\<close> by fastforce
    have "clear_words bits c N ! (k div 64 mod 32) = bits ! (k div 64 mod 32)"
      by (subst clear_words_nth(1)) (use len nc in auto)
    then show ?thesis
      using w k True \<open>c \<le> N\<close> by (simp add: window_bits_def)
  next
    case False
    then have "\<exists>w. c < w \<and> w \<le> N \<and> w mod 32 = k div 64 mod 32"
      using k by (intro exI [of _ "k div 64"]) auto
    then show ?thesis
      using S [of k] False by (auto simp: clear_words_nth len)
  qed
  then show ?thesis using clear_words_nth(2) [of 0 bits c N] len by (simp add: window_bits_def)
qed

lemma window_bits_empty:
  assumes "\<And>k. k \<in> S \<Longrightarrow> k div 64 + 32 \<le> N"
  shows "window_bits (replicate 32 0) N S"
  using assms by (auto simp: window_bits_def dest!: assms)

lemma replay_rel_zero: "replay_rel replay_zero {}"
  by (simp add: replay_rel_def replay_zero_def)

lemma unat_div64: "unat (n div 64 :: u64) = unat n div 64" "unat (n mod 64 :: u64) = unat n mod 64"
  "unat ((n div 64) mod 32 :: u64) = unat n div 64 mod 32"
  by (simp_all add: unat_div_distrib unat_mod_distrib)

lemma V2_REJECT_nat: "V2_REJECT_AFTER_MSGS \<le> n \<longleftrightarrow> 2 ^ 60 \<le> unat n"
  by (simp add: V2_REJECT_AFTER_MSGS_def word_le_nat_alt)

lemma replay_check_iff:
  assumes rel: "replay_rel r S"
  shows "replay_check r n \<longleftrightarrow> replay_fresh S (unat n)"
proof (cases "S = {} \<or> unat n > Max S \<or> 2 ^ 60 \<le> unat n")
  case True
  moreover have "unat n \<notin> S" if "unat n > Max S"
    using Max_ge [of S "unat n"] rel that by (fastforce simp: replay_rel_def)
  moreover have "Max S div 64 < unat n div 64 + 32" if "unat n > Max S"
    using that div_le_mono [of "Max S" "unat n" 64] by simp
  ultimately show ?thesis
    using rel by (auto simp: replay_check_def replay_fresh_def V2_REJECT_nat replay_rel_def word_less_nat_alt)
next
  case False
  then have S: "S \<noteq> {}" "unat n \<le> Max S" "unat n < 2 ^ 60" and m: "unat (r_max r) = Max S"
    and w: "window_bits (r_bits r) (Max S div 64) S" and any: "r_any r"
    using rel by (auto simp: replay_rel_def)
  have le: "n div 64 \<le> r_max r div 64"
    using S(2) m by (simp add: word_le_nat_alt unat_div64 div_le_mono)
  have stale: "r_max r div 64 - n div 64 \<ge> 32 \<longleftrightarrow> \<not> Max S div 64 < unat n div 64 + 32"
    using unat_sub [OF le] m by (simp add: word_le_nat_alt unat_div64) arith
  have "bit (r_bits r ! (unat n div 64 mod 32)) (unat n mod 64) \<longleftrightarrow> unat n \<in> S"
    if "Max S div 64 < unat n div 64 + 32"
    using w that S(2) by (simp add: window_bits_def div_le_mono)
  then show ?thesis
    using S m any stale
    by (auto simp: replay_check_def replay_fresh_def V2_REJECT_nat V2_REPLAY_WINDOW_def
        word_less_nat_alt unat_div64)
qed

lemma replay_window_frames:
  "r_bits (r\<lparr>r_bits := b\<rparr>) = b" "r_any (r\<lparr>r_bits := b\<rparr>) = r_any r"
  "r_max (r\<lparr>r_bits := b\<rparr>) = r_max r"
  by simp_all

lemma replay_record_rel:
  assumes rel: "replay_rel r S" and fresh: "replay_fresh S (unat n)"
  shows "replay_rel (replay_record r n) (insert (unat n) S)"
proof -
  let ?N = "unat n div 64"
  have fin: "finite S" using rel by (simp add: replay_rel_def)
  define r1 where "r1 = replay_advance r n"
  have eq: "replay_record r n = r1\<lparr>r_bits := (r_bits r1)[?N mod 32 :=
      (r_bits r1 ! (?N mod 32)) OR push_bit (unat n mod 64) 1]\<rparr>"
    by (simp only: replay_record_def Let_def r1_def V2_REPLAY_WINDOW_div unat_div64)
  note r1_def = r1_def [unfolded replay_advance_def V2_REPLAY_WINDOW_div Let_def]
  have mx: "Max (insert (unat n) S) = (if S = {} then unat n else max (unat n) (Max S))"
    using fin by simp
  have "r_any r1 \<and> unat (r_max r1) = Max (insert (unat n) S) \<and>
    window_bits (r_bits r1) (Max (insert (unat n) S) div 64) S"
  proof (cases "S = {}")
    case True
    then show ?thesis
      using rel by (auto simp: r1_def replay_rel_def intro: window_bits_empty)
  next
    case ne: False
    then have m: "unat (r_max r) = Max S" and w: "window_bits (r_bits r) (Max S div 64) S" and any: "r_any r"
      using rel by (auto simp: replay_rel_def)
    have below: "k div 64 \<le> Max S div 64" if "k \<in> S" for k
      using that fin by (simp add: div_le_mono)
    show ?thesis
    proof (cases "n > r_max r")
      case False
      then show ?thesis
        using any m w mx ne by (simp add: r1_def word_less_nat_alt max_absorb2)
    next
      case True
      then have big: "Max (insert (unat n) S) = unat n" and lt: "Max S < unat n"
        using m mx by (auto simp: word_less_nat_alt)
      have le: "r_max r div 64 \<le> n div 64"
        using lt m by (simp add: word_le_nat_alt unat_div64 div_le_mono)
      then have far: "n div 64 - r_max r div 64 \<ge> 32 \<longleftrightarrow> Max S div 64 + 32 \<le> ?N"
        using unat_sub [OF le] le m by (simp add: word_le_nat_alt unat_div64) arith
      show ?thesis
      proof (cases "Max S div 64 + 32 \<le> ?N")
        case True
        then have "window_bits (replicate 32 0) ?N S"
          using below by (intro window_bits_empty) (metis add_le_mono1 le_trans)
        then show ?thesis
          using any \<open>n > r_max r\<close> far True by (simp add: r1_def big)
      next
        case False
        then have "window_bits (clear_words (r_bits r) (Max S div 64) ?N) ?N S"
          using w below lt by (intro window_bits_move) (auto simp: div_le_mono)
        then show ?thesis
          using any \<open>n > r_max r\<close> far False m by (simp add: r1_def big unat_div64)
      qed
    qed
  qed
  moreover have "?N \<le> Max (insert (unat n) S) div 64"
    using fin by (simp add: div_le_mono)
  moreover have "Max (insert (unat n) S) div 64 < ?N + 32"
    using fresh unfolding replay_fresh_def mx by (auto simp: max_def)
  ultimately have "window_bits (r_bits (replay_record r n)) (Max (insert (unat n) S) div 64) (insert (unat n) S)"
    "r_any (replay_record r n)" "unat (r_max (replay_record r n)) = Max (insert (unat n) S)"
    unfolding eq replay_window_frames by (blast intro: window_bits_set)+
  then show ?thesis
    using fin unfolding replay_rel_def by blast
qed

subsection \<open>Sealing and opening\<close>

definition session_rel :: "session \<Rightarrow> nat set \<Rightarrow> bool" where
  "session_rel s S \<longleftrightarrow> replay_rel (s_replay s) S"

abbreviation packet_counter :: "bytes \<Rightarrow> nat" where
  "packet_counter pkt \<equiv> unat (read_le64 (drop 9 pkt))"

lemma session_rel_init: "session_rel (session_init li ri ks kr now) {}"
  by (simp add: session_rel_def session_init_def session_zero_def replay_rel_zero)

lemma session_open_SomeD:
  assumes "session_open mc s pkt sz = (s', Some p)"
  shows "s_valid s" "v2_packet_type pkt = V2_TYPE_DATA" "v2_data_receiver pkt = s_local_index s"
    and "replay_check (s_replay s) (read_le64 (drop 9 pkt))"
    and "noise_decrypt mc (s_k_recv s) (read_le64 (drop 9 pkt)) (take V2_DATA_HDR pkt) (drop V2_DATA_HDR pkt) = Some p"
    and "s' = s\<lparr>s_replay := replay_record (s_replay s) (read_le64 (drop 9 pkt))\<rparr>"
    and "length pkt - V2_OVERHEAD \<le> sz"
  using assms unfolding session_open_def Let_def by (auto split: if_splits option.splits)

lemma session_open_None: "session_open mc s pkt sz = (s', None) \<Longrightarrow> s' = s"
  unfolding session_open_def Let_def by (auto split: if_splits option.splits)

lemma session_open_rel:
  assumes "session_rel s S" "session_open mc s pkt sz = (s', Some p)"
  shows "replay_fresh S (packet_counter pkt)" "session_rel s' (insert (packet_counter pkt) S)"
proof -
  show f: "replay_fresh S (packet_counter pkt)"
    using assms session_open_SomeD(4) [OF assms(2)] by (simp add: session_rel_def replay_check_iff)
  show "session_rel s' (insert (packet_counter pkt) S)"
    using assms(1) replay_record_rel f session_open_SomeD(6) [OF assms(2)] by (simp add: session_rel_def)
qed

lemma session_open_fields:
  assumes "session_open mc s pkt sz = (s', r)"
  shows "s_valid s' = s_valid s" "s_k_recv s' = s_k_recv s" "s_local_index s' = s_local_index s"
    "s_k_send s' = s_k_send s" "s_send_n s' = s_send_n s" "s_remote_index s' = s_remote_index s"
    "s_created s' = s_created s"
  using assms by (cases r; auto dest: session_open_SomeD(6) session_open_None)+

text \<open>The payloads a session delivers from a sequence of packets, with their counters.\<close>

fun session_deliver :: "monocypher \<Rightarrow> nat \<Rightarrow> session \<Rightarrow> bytes list \<Rightarrow> (nat \<times> bytes) list" where
  "session_deliver mc sz s [] = []"
| "session_deliver mc sz s (pkt # pkts) =
     (case session_open mc s pkt sz of
        (s', None) \<Rightarrow> session_deliver mc sz s' pkts
      | (s', Some p) \<Rightarrow> (packet_counter pkt, p) # session_deliver mc sz s' pkts)"

lemma session_deliver_distinct:
  "session_rel s S \<Longrightarrow> distinct (map fst (session_deliver mc sz s pkts)) \<and>
     (\<forall>k\<in>set (map fst (session_deliver mc sz s pkts)). k \<notin> S \<and> k < 2 ^ 60)"
proof (induction pkts arbitrary: s S)
  case (Cons pkt pkts)
  show ?case
  proof (cases "session_open mc s pkt sz")
    case (Pair s' r)
    show ?thesis
    proof (cases r)
      case None
      then show ?thesis using Pair Cons session_open_None by fastforce
    next
      case (Some p)
      note o = session_open_rel [OF Cons.prems, of mc pkt sz s' p]
      then show ?thesis
        using Pair Some Cons.IH [of s' "insert (packet_counter pkt) S"]
        by (auto simp: replay_fresh_def)
    qed
  qed
qed simp

lemma session_seal_SomeD:
  assumes "session_seal mc s p n = (s', Some pkt)"
  defines "hdr \<equiv> CAMEX_MAGIC @ [V2_TYPE_DATA] @ v2_write_u32 (s_remote_index s) @ write_le64 (s_send_n s)"
  shows "pkt = hdr @ noise_encrypt mc (s_k_send s) (s_send_n s) hdr p" "s' = s\<lparr>s_send_n := s_send_n s + 1\<rparr>"
    "s_valid s" "unat (s_send_n s) < 2 ^ 60" "V2_OVERHEAD + length p \<le> n"
  using assms V2_REJECT_nat [of "s_send_n s"] unfolding session_seal_def Let_def
  by (auto split: if_splits)

lemma session_seal_None: "session_seal mc s p n = (s', None) \<Longrightarrow> s' = s"
  unfolding session_seal_def Let_def by (auto split: if_splits)

lemma data_header:
  assumes "pkt = (CAMEX_MAGIC @ [V2_TYPE_DATA] @ v2_write_u32 i @ write_le64 c) @ rest" "NOISE_TAGLEN \<le> length rest"
  shows "v2_packet_type pkt = V2_TYPE_DATA" "v2_data_receiver pkt = i" "read_le64 (drop 9 pkt) = c"
    "take V2_DATA_HDR pkt = CAMEX_MAGIC @ [V2_TYPE_DATA] @ v2_write_u32 i @ write_le64 c"
    "drop V2_DATA_HDR pkt = rest"
proof -
  have len: "length (CAMEX_MAGIC @ [V2_TYPE_DATA] @ v2_write_u32 i @ write_le64 c) = V2_DATA_HDR"
    by (simp add: CAMEX_MAGIC_def write_le64_def V2_DATA_HDR_def)
  then show "take V2_DATA_HDR pkt = CAMEX_MAGIC @ [V2_TYPE_DATA] @ v2_write_u32 i @ write_le64 c"
    "drop V2_DATA_HDR pkt = rest"
    using assms(1) by (metis append_eq_conv_conj)+
  show "v2_packet_type pkt = V2_TYPE_DATA"
    using assms len by (simp add: v2_packet_type_def CAMEX_MAGIC_def V2_TYPE_DATA_def V2_TYPE_INIT_def
      V2_TYPE_RESP_def V2_OVERHEAD_def)
  have "drop 5 pkt = v2_write_u32 i @ write_le64 c @ rest" "drop 9 pkt = write_le64 c @ rest"
    using assms(1) by (simp_all add: CAMEX_MAGIC_def)
  then show "v2_data_receiver pkt = i" "read_le64 (drop 9 pkt) = c"
    by (simp_all add: v2_data_receiver_def le64.dec_enc)
qed

lemma session_seal_packet:
  assumes mc: "mono_ok mc" and "session_seal mc s p n = (s', Some pkt)"
  shows "v2_packet_type pkt = V2_TYPE_DATA" "v2_data_receiver pkt = s_remote_index s"
    "packet_counter pkt = unat (s_send_n s)" "length pkt = V2_OVERHEAD + length p"
  using data_header [OF session_seal_SomeD(1) [OF assms(2)]] length_noise_encrypt [OF mc]
    session_seal_SomeD(1) [OF assms(2)]
  by (simp_all add: V2_OVERHEAD_def V2_DATA_HDR_def CAMEX_MAGIC_def write_le64_def)

text \<open>Two ends of one direction: what one seals, the other may open.\<close>

definition session_peer :: "session \<Rightarrow> session \<Rightarrow> bool" where
  "session_peer a b \<longleftrightarrow> s_valid a \<and> s_valid b \<and> s_k_send a = s_k_recv b \<and> s_remote_index a = s_local_index b"

lemma session_open_sealed:
  assumes mc: "mono_ok mc" and peer: "session_peer a b" and seal: "session_seal mc a p n = (a', Some pkt)"
    and rel: "session_rel b S" and fresh: "replay_fresh S (unat (s_send_n a))" and fits: "length p \<le> sz"
  shows "session_open mc b pkt sz = (b\<lparr>s_replay := replay_record (s_replay b) (s_send_n a)\<rparr>, Some p)"
proof -
  note s = session_seal_SomeD [OF seal]
  note h = data_header [OF s(1)]
  have tag: "NOISE_TAGLEN \<le> length (noise_encrypt mc k c ad p)" for k c ad
    by (simp add: length_noise_encrypt [OF mc])
  have "replay_check (s_replay b) (s_send_n a)"
    using rel fresh by (simp add: session_rel_def replay_check_iff)
  moreover have "length pkt = V2_OVERHEAD + length p"
    by (rule session_seal_packet(4) [OF mc seal])
  ultimately show ?thesis
    using peer fits unfolding session_open_def session_peer_def Let_def
    by (simp add: h [OF tag] noise_decrypt_encrypt [OF mc])
qed

lemma session_peer_step:
  assumes "session_peer a b"
  shows "session_peer (a\<lparr>s_send_n := x\<rparr>) b" "session_peer a (b\<lparr>s_replay := y\<rparr>)"
  using assms by (simp_all add: session_peer_def)

text \<open>Sealing a list of payloads, as the sender does one after the other.\<close>

fun session_seal_all :: "monocypher \<Rightarrow> nat \<Rightarrow> session \<Rightarrow> bytes list \<Rightarrow> bytes option list" where
  "session_seal_all mc n s [] = []"
| "session_seal_all mc n s (p # ps) =
     (case session_seal mc s p n of (s', r) \<Rightarrow> r # session_seal_all mc n s' ps)"

lemma session_seal_Some_iff:
  "(\<exists>s' pkt. session_seal mc s p n = (s', Some pkt)) \<longleftrightarrow>
     s_valid s \<and> unat (s_send_n s) < 2 ^ 60 \<and> V2_OVERHEAD + length p \<le> n"
  using V2_REJECT_nat [of "s_send_n s"] unfolding session_seal_def Let_def by auto


lemma fresh_above:
  assumes "finite S" "\<forall>k\<in>S. k < n" "n < 2 ^ 60"
  shows "replay_fresh S n"
proof -
  have "Max S div 64 < n div 64 + 32" if "S \<noteq> {}"
    using that assms Max_in [of S] div_le_mono [of "Max S" n 64] by fastforce
  then show ?thesis using assms by (auto simp: replay_fresh_def)
qed

lemma session_channel_from:
  assumes mc: "mono_ok mc"
  shows "session_peer a b \<Longrightarrow> session_rel b S \<Longrightarrow> \<forall>k\<in>S. k < unat (s_send_n a) \<Longrightarrow>
    unat (s_send_n a) + length ps \<le> 2 ^ 60 \<Longrightarrow>
    \<forall>p\<in>set ps. V2_OVERHEAD + length p \<le> n \<and> length p \<le> sz \<Longrightarrow>
    \<exists>pkts. session_seal_all mc n a ps = map Some pkts \<and>
      map snd (session_deliver mc sz b pkts) = ps"
proof (induction ps arbitrary: a b S)
  case (Cons p ps)
  let ?k = "unat (s_send_n a)"
  have k: "?k < 2 ^ 60" and v: "s_valid a"
    using Cons.prems by (auto simp: session_peer_def)
  then obtain a' pkt where seal: "session_seal mc a p n = (a', Some pkt)"
    using session_seal_Some_iff [of mc a p n] Cons.prems(5) by auto
  have fresh: "replay_fresh S ?k"
    using Cons.prems(2,3) k by (intro fresh_above) (auto simp: session_rel_def replay_rel_def)
  let ?b = "b\<lparr>s_replay := replay_record (s_replay b) (s_send_n a)\<rparr>"
  have open_ok: "session_open mc b pkt sz = (?b, Some p)"
    using session_open_sealed [OF mc Cons.prems(1) seal Cons.prems(2) fresh] Cons.prems(5) by simp
  have a': "a' = a\<lparr>s_send_n := s_send_n a + 1\<rparr>"
    by (rule session_seal_SomeD(2) [OF seal])
  have Suc: "unat (s_send_n a + 1) = Suc ?k"
    using k by (intro unat_Suc_small) simp
  have "session_rel ?b (insert ?k S)"
    using Cons.prems(2) replay_record_rel fresh by (simp add: session_rel_def)
  then have "\<exists>pkts. session_seal_all mc n a' ps = map Some pkts \<and>
      map snd (session_deliver mc sz ?b pkts) = ps"
    using Cons.prems Suc
    by (intro Cons.IH [of a' ?b "insert ?k S"]) (auto simp: a' session_peer_step less_Suc_eq)
  then obtain pkts where "session_seal_all mc n a' ps = map Some pkts"
      "map snd (session_deliver mc sz ?b pkts) = ps" by blast
  then show ?case
    using seal open_ok by (intro exI [of _ "pkt # pkts"]) simp
qed simp

text \<open>The counters one session seals with are its own, in order, each used once.\<close>

lemma session_seal_counters:
  assumes mc: "mono_ok mc"
  shows "\<exists>m \<le> length ps. unat (s_send_n s) + m \<le> max (2 ^ 60) (unat (s_send_n s)) \<and>
     map packet_counter (List.map_filter id (session_seal_all mc n s ps)) = [unat (s_send_n s)..<unat (s_send_n s) + m]"
proof (induction ps arbitrary: s)
  case (Cons p ps)
  show ?case
  proof (cases "session_seal mc s p n")
    case (Pair s' r)
    show ?thesis
    proof (cases r)
      case None
      then have "s' = s" using Pair session_seal_None by auto
      then show ?thesis
        using Cons.IH [of s] Pair None by (auto simp: map_filter_simps intro: le_SucI)
    next
      case (Some pkt)
      note seal = Pair [unfolded Some]
      have k: "unat (s_send_n s) < 2 ^ 60" and s': "s' = s\<lparr>s_send_n := s_send_n s + 1\<rparr>"
        using session_seal_SomeD [OF seal] by auto
      have Suc: "unat (s_send_n s') = Suc (unat (s_send_n s))"
        using k by (simp add: s', intro unat_Suc_small) simp
      have mx: "max (2 ^ 60) (unat (s_send_n s')) = 2 ^ 60"
        using k unfolding Suc by (intro max_absorb1) simp
      obtain m where "m \<le> length ps" "unat (s_send_n s') + m \<le> 2 ^ 60"
        "map packet_counter (List.map_filter id (session_seal_all mc n s' ps)) = [unat (s_send_n s')..<unat (s_send_n s') + m]"
        using Cons.IH [of s'] unfolding mx by blast
      then show ?thesis
        using Pair Some session_seal_packet(3) [OF mc seal] k Suc
        by (intro exI [of _ "Suc m"]) (simp add: map_filter_simps upt_conv_Cons id_def del: upt_Suc)
    qed
  qed
qed (simp add: map_filter_simps)

subsection \<open>Handshake timestamps\<close>

definition be_value :: "bytes \<Rightarrow> nat" where
  "be_value bs = foldl (\<lambda>v b. v * 256 + unat b) 0 bs"

lemma be_value_snoc: "be_value (bs @ [b]) = be_value bs * 256 + unat b"
  by (simp add: be_value_def)

lemma be_value_append: "be_value (a @ b) = be_value a * 256 ^ length b + be_value b"
  by (induction b rule: rev_induct) (simp_all add: be_value_snoc be_value_def algebra_simps)

lemma be_value_bound: "be_value bs < 256 ^ length bs"
proof (induction bs rule: rev_induct)
  case (snoc b bs)
  have "be_value bs * 256 + unat b < (be_value bs + 1) * 256" by simp
  also have "\<dots> \<le> 256 ^ length bs * 256" using snoc by (intro mult_le_mono1) simp
  finally show ?case by (simp add: be_value_snoc mult.commute)
qed (simp add: be_value_def)

lemma be_value_Cons: "be_value (b # bs) = unat b * 256 ^ length bs + be_value bs"
  using be_value_append [of "[b]" bs] by (simp add: be_value_def)

lemma be_value_less:
  assumes "x < y" "length xs = length ys"
  shows "be_value (x # xs) < be_value (y # ys)"
proof -
  have "be_value (x # xs) < (unat x + 1) * 256 ^ length ys"
    using be_value_bound [of xs] assms(2) by (simp add: be_value_Cons)
  also have "\<dots> \<le> unat y * 256 ^ length ys"
    using assms(1) by (intro mult_le_mono1) (simp add: word_less_nat_alt)
  finally show ?thesis by (simp add: be_value_Cons)
qed

lemma memcmp_be_value:
  "length a = length b \<Longrightarrow> memcmp a b = sgn (int (be_value a) - int (be_value b))"
proof (induction a b rule: list_induct2)
  case (Cons x xs y ys)
  consider "x < y" | "y < x" | "x = y" by fastforce
  then show ?case
  proof cases
    case 3
    then show ?thesis using Cons by (simp add: be_value_Cons)
  qed (use be_value_less [of x y xs ys] be_value_less [of y x ys xs] Cons(1) in auto)
qed (simp add: be_value_def)

lemma div_step_256: "x div (m * 256) * 256 + x div m mod 256 = x div (m :: nat)"
  by (simp add: div_mult2_eq div_mult_mod_eq)

lemma be_value_u32: "be_value (v2_write_u32 v) = unat v"
proof -
  let ?n = "unat v"
  have b: "unat (ucast (drop_bit k v) :: u8) = ?n div 2 ^ k mod 256" if "k < 32" for k
    unfolding unsigned_ucast_eq unsigned_drop_bit_eq using unat_less_2_32 [of v]
    by (simp add: take_bit_eq_mod drop_bit_eq_div)
  have top: "?n div 2 ^ 24 mod 256 = ?n div 2 ^ 24"
    using unat_less_2_32 [of v] by simp
  have "be_value (v2_write_u32 v) = ((?n div 2 ^ 24 mod 256 * 256 + ?n div 2 ^ 16 mod 256) * 256
      + ?n div 2 ^ 8 mod 256) * 256 + ?n div 2 ^ 0 mod 256"
    using b [of 24] b [of 16] b [of 8] b [of 0] unfolding be_value_def v2_write_u32_def by simp
  also have "\<dots> = ?n"
    using div_step_256 [of ?n "2 ^ 16"] div_step_256 [of ?n "2 ^ 8"] div_step_256 [of ?n 1]
    unfolding top by simp
  finally show ?thesis .
qed

lemma v2_timestamp_value:
  assumes "unat sec < 2 ^ 62" "unat usec < 1000000"
  shows "length (v2_timestamp sec usec) = V2_TIMESTAMP_LEN"
    and "be_value (v2_timestamp sec usec) = (unat sec + unat TAI64) * 2 ^ 32 + unat usec * 1000"
    and "v2_timestamp_seconds (v2_timestamp sec usec) = sec"
proof -
  have tai: "unat TAI64 = 4611686018427387914" by (simp add: TAI64_def)
  have s: "unat (sec + TAI64) = unat sec + unat TAI64"
    using assms(1) unat_add_lem [of sec TAI64] by (simp add: tai)
  have u: "unat (usec * 1000) = unat usec * 1000"
    using assms(2) unat_mult_lem [of usec 1000] by simp
  have hi: "unat (ucast (drop_bit 32 (sec + TAI64)) :: u32) = unat (sec + TAI64) div 2 ^ 32"
    using unat_less_2_64 [of "sec + TAI64"]
    by (simp add: unsigned_ucast_eq take_bit_eq_mod drop_bit_eq_div unat_div_distrib)
  have lo: "unat (ucast (sec + TAI64) :: u32) = unat (sec + TAI64) mod 2 ^ 32"
    by (simp add: unsigned_ucast_eq take_bit_eq_mod)
  show "length (v2_timestamp sec usec) = V2_TIMESTAMP_LEN"
    by (simp add: v2_timestamp_def V2_TIMESTAMP_LEN_def Let_def)
  have "be_value (v2_timestamp sec usec) =
      (unat (sec + TAI64) div 2 ^ 32 * 2 ^ 32 + unat (sec + TAI64) mod 2 ^ 32) * 2 ^ 32 + unat usec * 1000"
    unfolding v2_timestamp_def Let_def be_value_append be_value_u32 hi lo u length_append
      length_v2_write_u32 by (simp only: distrib_right) simp
  then show "be_value (v2_timestamp sec usec) = (unat sec + unat TAI64) * 2 ^ 32 + unat usec * 1000"
    by (simp only: div_mult_mod_eq s)
  have "push_bit 32 (ucast (ucast (drop_bit 32 x) :: u32)) OR ucast (ucast x :: u32) = x" for x :: u64
    by (rule bit_word_eqI) (auto simp: bit_simps)
  moreover have "TAI64 \<le> sec + TAI64"
    by (simp add: word_le_nat_alt s)
  ultimately show "v2_timestamp_seconds (v2_timestamp sec usec) = sec"
    unfolding v2_timestamp_seconds_def v2_timestamp_def Let_def
    by (simp only: append.assoc v2_read_write_u32 be32.dec_at append_eq_conv_conj if_True
        length_v2_write_u32 drop_append drop_all [OF order_refl] diff_self_eq_0 drop_0 append_Nil)
       (simp add: be32.dec_enc_exact)
qed

lemma v2_timestamp_order:
  assumes "unat s1 < 2 ^ 62" "unat u1 < 1000000" "unat s2 < 2 ^ 62" "unat u2 < 1000000"
  shows "v2_timestamp_cmp (v2_timestamp s1 u1) (v2_timestamp s2 u2) \<le> 0 \<longleftrightarrow>
     s1 < s2 \<or> s1 = s2 \<and> u1 \<le> u2"
proof -
  note l = v2_timestamp_value(1) [OF assms(1,2)] v2_timestamp_value(1) [OF assms(3,4)]
  note v = v2_timestamp_value(2) [OF assms(1,2)] v2_timestamp_value(2) [OF assms(3,4)]
  have "v2_timestamp_cmp (v2_timestamp s1 u1) (v2_timestamp s2 u2) =
      sgn (int (be_value (v2_timestamp s1 u1)) - int (be_value (v2_timestamp s2 u2)))"
    unfolding v2_timestamp_cmp_def by (simp add: l memcmp_be_value)
  then have "v2_timestamp_cmp (v2_timestamp s1 u1) (v2_timestamp s2 u2) \<le> 0 \<longleftrightarrow>
      be_value (v2_timestamp s1 u1) \<le> be_value (v2_timestamp s2 u2)"
    by (auto simp: sgn_if)
  also have "\<dots> \<longleftrightarrow> unat s1 < unat s2 \<or> unat s1 = unat s2 \<and> unat u1 \<le> unat u2"
    using assms unfolding v by auto
  also have "\<dots> \<longleftrightarrow> s1 < s2 \<or> s1 = s2 \<and> u1 \<le> u2"
    by (simp add: word_less_nat_alt word_le_nat_alt word_unat_eq_iff)
  finally show ?thesis .
qed

subsection \<open>Properties\<close>

text \<open>C22: the replay window accepts a counter exactly when it is below the limit, was not
  received before and lies in the ring of 32 words, and recording an accepted counter adds
  it to the set the window stands for.\<close>

theorem replay_window_refines:
  assumes "replay_rel r S"
  shows "(replay_check r n \<longleftrightarrow> replay_fresh S (unat n)) \<and>
     (replay_check r n \<longrightarrow> replay_rel (replay_record r n) (insert (unat n) S))"
  using replay_check_iff [OF assms] replay_record_rel [OF assms] by blast

theorem replay_window_refines_witness:
  "replay_check replay_zero 5 \<and> replay_rel (replay_record replay_zero 5) {5} \<and>
   \<not> replay_check (replay_record replay_zero 5) 5"
proof -
  have c: "replay_check replay_zero 5"
    by (simp add: replay_check_def replay_zero_def V2_REJECT_AFTER_MSGS_def)
  then have r: "replay_rel (replay_record replay_zero 5) {5}"
    using replay_window_refines [OF replay_rel_zero, of 5] by simp
  then show ?thesis
    using c replay_window_refines [OF r, of 5] by (simp add: replay_fresh_def)
qed

text \<open>The window reaches back 1984 counters at least and 2047 at most: a new counter that
  close to the newest is accepted, one 2048 or more behind is refused.\<close>

lemma replay_window_reach:
  assumes "replay_rel r S" "S \<noteq> {}" "unat n < 2 ^ 60" "unat n \<notin> S"
  shows "(Max S \<le> unat n + 1984 \<longrightarrow> replay_check r n) \<and> (unat n + 2048 \<le> Max S \<longrightarrow> \<not> replay_check r n)"
proof -
  have "Max S div 64 \<le> (unat n + 1984) div 64" if "Max S \<le> unat n + 1984"
    using that by (rule div_le_mono)
  moreover have "(unat n + 2048) div 64 \<le> Max S div 64" if "unat n + 2048 \<le> Max S"
    using that by (rule div_le_mono)
  ultimately show ?thesis
    using assms unfolding replay_check_iff [OF assms(1)] replay_fresh_def by auto
qed


text \<open>C19: whatever packets reach a session, forged, replayed or reordered, it delivers at
  most one payload per packet counter.\<close>

theorem session_delivers_once:
  "distinct (map fst (session_deliver mc sz (session_init li ri ks kr now) pkts))"
  using session_deliver_distinct [OF session_rel_init] by blast

text \<open>C20: what one end seals the other opens: with paired sessions every payload sealed, in
  the order sent, is delivered unchanged.\<close>

theorem session_channel:
  assumes "mono_ok mc" and "length ps \<le> 2 ^ 60"
    and "\<forall>p\<in>set ps. V2_OVERHEAD + length p \<le> n \<and> length p \<le> sz"
  shows "\<exists>pkts. session_seal_all mc n (session_init i j k k' t) ps = map Some pkts \<and>
     map snd (session_deliver mc sz (session_init j i k' k t') pkts) = ps"
  using assms(2,3)
  by (intro session_channel_from [OF assms(1), where S = "{}"])
     (simp_all add: session_rel_init, simp_all add: session_peer_def session_init_def session_zero_def)

theorem session_channel_witness:
  "\<exists>pkts. session_seal_all toy_mono 64 (session_init 7 9 [1] [2] 0) [[1, 2, 3], []] = map Some pkts \<and>
     map snd (session_deliver toy_mono 16 (session_init 9 7 [2] [1] 0) pkts) = [[1, 2, 3], []]"
  by (rule session_channel [OF toy_mono_ok]) (simp_all add: V2_OVERHEAD_def V2_DATA_HDR_def NOISE_TAGLEN_def)

text \<open>C21: a session never encrypts twice under one nonce: the packets it seals carry the
  counters 0, 1, 2, ... and there are never more than \<open>2 ^ 60\<close> of them.\<close>

theorem session_nonces_distinct:
  assumes "mono_ok mc"
  shows "\<exists>m. m \<le> 2 ^ 60 \<and>
     map packet_counter (List.map_filter id (session_seal_all mc n (session_init i j k k' t) ps)) = [0..<m]"
  using session_seal_counters [OF assms, of ps "session_init i j k k' t" n]
  by (auto simp: session_init_def session_zero_def)

theorem session_nonces_distinct_witness:
  "\<exists>m. m \<le> 2 ^ 60 \<and> map packet_counter
     (List.map_filter id (session_seal_all toy_mono 64 (session_init 7 9 [1] [2] 0) [[1], [2], [3]])) = [0..<m]"
  by (rule session_nonces_distinct [OF toy_mono_ok])

text \<open>Comparing two handshake timestamps as bytes compares the times, and the seconds are
  read back as they were written.\<close>

lemma v2_timestamp_monotone:
  assumes "unat s1 < 2 ^ 62" "unat u1 < 1000000" "unat s2 < 2 ^ 62" "unat u2 < 1000000"
  shows "(v2_timestamp_cmp (v2_timestamp s1 u1) (v2_timestamp s2 u2) \<le> 0 \<longleftrightarrow>
       s1 < s2 \<or> s1 = s2 \<and> u1 \<le> u2) \<and> v2_timestamp_seconds (v2_timestamp s1 u1) = s1"
  using v2_timestamp_order [OF assms] v2_timestamp_value(3) [OF assms(1,2)] by blast


end
