(* ===== verification/Net.thy ===== *)
theory Net
  imports Session
begin

text \<open>
  \<open>src/net.c\<close>: socket addresses, the send side of the TCP framing (one pending slot per
  descriptor), the receive side with its partial-read state, and the wait for a TCP connection.
  What the kernel answers is an argument: the results of the \<open>send\<close> calls, the data
  \<open>read\<close> finds, the results of \<open>select\<close>.  A send returns, beside its C result, the
  bytes it gave to the socket.
\<close>

subsection \<open>Socket addresses\<close>

record sockaddr_in =
  sin_family :: u16
  sin_port :: u16
  sin_addr :: u32

definition ntohs :: "u16 \<Rightarrow> nat" where
  "ntohs v = unat (v AND 0xff) * 256 + unat (drop_bit 8 v)"

definition net_sockaddr_equal :: "sockaddr_in \<Rightarrow> sockaddr_in \<Rightarrow> bool" where
  "net_sockaddr_equal lhs rhs \<longleftrightarrow>
     sin_family lhs = sin_family rhs \<and> sin_port lhs = sin_port rhs \<and> sin_addr lhs = sin_addr rhs"

definition net_sockaddr_to_string :: "sockaddr_in \<Rightarrow> nat \<Rightarrow> string" where
  "net_sockaddr_to_string addr n = fit n (inet_ntop (sin_addr addr) @ '':'' @ dec (ntohs (sin_port addr)))"

subsection \<open>Pending sends\<close>

definition TUN_PACKET_MAX :: nat where "TUN_PACKET_MAX = 9216"
definition TCP_SEND_BUF_SIZE :: nat where "TCP_SEND_BUF_SIZE = 2 + V2_OVERHEAD + TUN_PACKET_MAX"
definition FD_SETSIZE :: nat where "FD_SETSIZE = 1024"
definition TCP_PENDING_SLOTS :: nat where "TCP_PENDING_SLOTS = FD_SETSIZE + 1"

text \<open>\<open>tp_fd = -1\<close>: the slot is free; \<open>tp_buf = None\<close>: no buffer yet.\<close>

record tcp_pending =
  tp_fd :: int
  tp_buf :: "bytes option"
  tp_len :: nat
  tp_offset :: nat

definition pending_free :: tcp_pending where
  "pending_free = \<lparr>tp_fd = - 1, tp_buf = None, tp_len = 0, tp_offset = 0\<rparr>"

definition tcp_pending_init :: "tcp_pending list" where
  "tcp_pending_init = replicate TCP_PENDING_SLOTS pending_free"

definition tcp_pending_find :: "tcp_pending list \<Rightarrow> int \<Rightarrow> nat option" where
  "tcp_pending_find ps fd = scan_first (length ps) (\<lambda>i. tp_fd (ps ! i) = fd)"

text \<open>The walk of \<open>tcp_pending_acquire\<close>: the slot kept so far, from slot \<open>i\<close> on.\<close>

fun acquire_scan :: "nat \<Rightarrow> tcp_pending list \<Rightarrow> nat option \<Rightarrow> nat option" where
  "acquire_scan i [] slot = slot"
| "acquire_scan i (p # ps) slot =
     (if tp_fd p \<noteq> - 1 then acquire_scan (Suc i) ps slot
      else if tp_buf p \<noteq> None then Some i
      else acquire_scan (Suc i) ps (if slot = None then Some i else slot))"

text \<open>\<open>mem\<close>: \<open>key_locked_calloc\<close> can give a send buffer.\<close>

definition tcp_pending_acquire :: "bool \<Rightarrow> tcp_pending list \<Rightarrow> int \<Rightarrow> (nat \<times> tcp_pending list) option" where
  "tcp_pending_acquire mem ps fd =
     (case acquire_scan 0 ps None of
        None \<Rightarrow> None
      | Some i \<Rightarrow>
          (if tp_buf (ps ! i) = None \<and> \<not> mem then None
           else Some (i, ps[i := \<lparr>tp_fd = fd,
                  tp_buf = (if tp_buf (ps ! i) = None then Some (replicate TCP_SEND_BUF_SIZE 0)
                            else tp_buf (ps ! i)),
                  tp_len = 0, tp_offset = 0\<rparr>])))"

definition tcp_pending_release :: "tcp_pending \<Rightarrow> tcp_pending" where
  "tcp_pending_release p = p\<lparr>tp_fd := - 1, tp_len := 0, tp_offset := 0\<rparr>"

text \<open>
  What the successive \<open>send\<close> calls return: \<open>Sent n\<close> at most the bytes offered; when the list
  ends the next call would block.
\<close>

datatype send_result = Sent nat | Again | Hard_error

definition buf_of :: "tcp_pending \<Rightarrow> bytes" where
  "buf_of p = (case tp_buf p of None \<Rightarrow> [] | Some b \<Rightarrow> b)"

fun flush_loop :: "send_result list \<Rightarrow> tcp_pending \<Rightarrow> bytes \<Rightarrow> int \<times> tcp_pending \<times> bytes" where
  "flush_loop rs p out =
     (if tp_offset p < tp_len p then
        (case rs of
           Sent n # rs' \<Rightarrow>
             (let n' = min n (tp_len p - tp_offset p)
              in flush_loop rs' (p\<lparr>tp_offset := tp_offset p + n'\<rparr>)
                   (out @ take n' (drop (tp_offset p) (buf_of p))))
         | Hard_error # _ \<Rightarrow> (- 1, tcp_pending_release p, out)
         | _ \<Rightarrow> (1, p, out))
      else (0, tcp_pending_release p, out))"

declare flush_loop.simps [simp del]

definition tcp_send_flush_pending ::
  "send_result list \<Rightarrow> int \<Rightarrow> tcp_pending list \<Rightarrow> int \<times> tcp_pending list \<times> bytes" where
  "tcp_send_flush_pending rs fd ps =
     (case tcp_pending_find ps fd of
        None \<Rightarrow> (0, ps, [])
      | Some i \<Rightarrow>
          (if fd < 0 then (0, ps, [])
           else case flush_loop rs (ps ! i) [] of (rc, p, out) \<Rightarrow> (rc, ps[i := p], out)))"

definition has_pending :: "tcp_pending \<Rightarrow> bool" where
  "has_pending p \<longleftrightarrow> tp_fd p \<ge> 0 \<and> tp_offset p < tp_len p"

definition net_tcp_get_pending_fd :: "tcp_pending list \<Rightarrow> int" where
  "net_tcp_get_pending_fd ps =
     (case scan_first (length ps) (\<lambda>i. has_pending (ps ! i)) of None \<Rightarrow> - 1 | Some i \<Rightarrow> tp_fd (ps ! i))"

definition net_tcp_pending_fdset :: "tcp_pending list \<Rightarrow> int set \<Rightarrow> int \<Rightarrow> int set \<times> int" where
  "net_tcp_pending_fdset ps set0 maxfd =
     foldl (\<lambda>(s, m) p. if has_pending p then (insert (tp_fd p) s, max m (tp_fd p)) else (s, m)) (set0, maxfd) ps"

text \<open>\<open>rs fd\<close>: the results of the sends on \<open>fd\<close>; the walk is over the slot numbers.\<close>

fun flush_writable_loop ::
  "(int \<Rightarrow> send_result list) \<Rightarrow> int set \<Rightarrow> nat list \<Rightarrow> tcp_pending list \<Rightarrow> (int \<times> bytes) list \<Rightarrow>
   tcp_pending list \<times> (int \<times> bytes) list" where
  "flush_writable_loop rs s [] ps out = (ps, out)"
| "flush_writable_loop rs s (i # is) ps out =
     (let fd = tp_fd (ps ! i)
      in if fd \<ge> 0 \<and> fd \<in> s
         then (case tcp_send_flush_pending (rs fd) fd ps of
                 (_, ps', bs) \<Rightarrow> flush_writable_loop rs s is ps' (out @ [(fd, bs)]))
         else flush_writable_loop rs s is ps out)"

definition net_tcp_flush_writable ::
  "(int \<Rightarrow> send_result list) \<Rightarrow> int set \<Rightarrow> tcp_pending list \<Rightarrow> tcp_pending list \<times> (int \<times> bytes) list" where
  "net_tcp_flush_writable rs s ps = flush_writable_loop rs s [0..<length ps] ps []"

text \<open>What \<open>net_tcp_close\<close> does to the slots before it closes the descriptor.\<close>

definition net_tcp_close :: "int \<Rightarrow> tcp_pending list \<Rightarrow> tcp_pending list" where
  "net_tcp_close fd ps =
     (if fd < 0 then ps
      else case tcp_pending_find ps fd of
             None \<Rightarrow> ps
           | Some i \<Rightarrow> ps[i := tcp_pending_release (ps ! i)])"

text \<open>The length prefix: \<open>htons((uint16_t)len)\<close> copied to two bytes.\<close>

definition frame_header :: "nat \<Rightarrow> bytes" where
  "frame_header len = [of_nat (len mod 2 ^ 16 div 256), of_nat (len mod 2 ^ 16)]"

definition overwrite :: "bytes \<Rightarrow> bytes \<Rightarrow> bytes" where
  "overwrite new b = new @ drop (length new) b"

text \<open>
  \<open>net_tcp_send_frame_ex\<close>: result, \<open>*accepted\<close>, slots, bytes given to the socket.  \<open>rs1\<close>
  answers the flush of older data, \<open>rs2\<close> the sends of this frame.
\<close>

definition net_tcp_send_frame_ex ::
  "bool \<Rightarrow> send_result list \<Rightarrow> send_result list \<Rightarrow> int \<Rightarrow> bytes \<Rightarrow> tcp_pending list \<Rightarrow>
   int \<times> bool \<times> tcp_pending list \<times> bytes" where
  "net_tcp_send_frame_ex mem rs1 rs2 fd data ps =
     (if fd < 0 \<or> length data > TCP_SEND_BUF_SIZE - 2 then (- 1, False, ps, [])
      else case tcp_send_flush_pending rs1 fd ps of (ret, ps1, out1) \<Rightarrow>
        (if ret \<noteq> 0 then (ret, False, ps1, out1)
         else case tcp_pending_acquire mem ps1 fd of
                None \<Rightarrow> (- 1, False, ps1, out1)
              | Some (i, ps2) \<Rightarrow>
                  (let slot = ps2 ! i;
                       slot' = slot\<lparr>tp_buf := Some (overwrite (frame_header (length data) @ data) (buf_of slot)),
                                    tp_len := 2 + length data, tp_offset := 0\<rparr>
                   in case tcp_send_flush_pending rs2 fd (ps2[i := slot']) of (rc, ps3, out2) \<Rightarrow>
                        (rc, \<not> rc < 0, ps3, out1 @ out2))))"

subsection \<open>Receiving frames\<close>

record tcp_recv_state =
  rs_header :: bytes
  rs_have :: nat
  rs_done :: bool
  rs_body_len :: nat
  rs_body_have :: nat

definition recv_zero :: tcp_recv_state where
  "recv_zero = \<lparr>rs_header = [0, 0], rs_have = 0, rs_done = False, rs_body_len = 0, rs_body_have = 0\<rparr>"

text \<open>
  What \<open>read\<close> finds on the socket: data in the pieces it arrives in, moments with nothing to
  read, the end of the connection, an error.  A read takes at most \<open>n\<close> bytes of one piece.
\<close>

datatype arrival = Data bytes | Nothing_yet | Closed | Read_error

fun sock_read :: "nat \<Rightarrow> arrival list \<Rightarrow> arrival \<times> arrival list" where
  "sock_read n [] = (Nothing_yet, [])"
| "sock_read n (Data bs # sock) =
     (if length bs \<le> n then (Data bs, sock) else (Data (take n bs), Data (drop n bs) # sock))"
| "sock_read n (a # sock) = (a, sock)"

text \<open>Writing \<open>bs\<close> at offset \<open>k\<close> of a buffer.\<close>

definition write_at :: "nat \<Rightarrow> bytes \<Rightarrow> bytes \<Rightarrow> bytes" where
  "write_at k bs b = take k b @ bs @ drop (k + length bs) b"

datatype recv_status = Filled | Waiting | Broken

text \<open>
  The two read loops: \<open>have\<close> of \<open>n\<close> bytes are in the buffer.  An empty read ends the
  connection, so each pass adds bytes and \<open>n - have\<close> bounds the passes.
\<close>

function fill_loop :: "nat \<Rightarrow> nat \<Rightarrow> bytes \<Rightarrow> arrival list \<Rightarrow> recv_status \<times> nat \<times> bytes \<times> arrival list" where
  "fill_loop n have b sock =
     (if have < n then
        (case sock_read (n - have) sock of
           (Data bs, sock') \<Rightarrow>
             (if bs = [] then (Broken, have, b, sock')
              else fill_loop n (have + length bs) (write_at have bs b) sock')
         | (Nothing_yet, sock') \<Rightarrow> (Waiting, have, b, sock')
         | (Closed, sock') \<Rightarrow> (Broken, have, b, sock')
         | (Read_error, sock') \<Rightarrow> (Broken, have, b, sock'))
      else (Filled, have, b, sock))"
  by pat_completeness auto
termination
  by (relation "measure (\<lambda>(n, have, b, sock). n - have)") (auto simp: length_greater_0_conv [symmetric] simp del: length_greater_0_conv)

declare fill_loop.simps [simp del]

definition header_len :: "bytes \<Rightarrow> nat" where
  "header_len h = unat (h ! 0) * 256 + unat (h ! 1)"

text \<open>The header phase: true when the body can be read.\<close>

definition recv_header ::
  "nat \<Rightarrow> tcp_recv_state \<Rightarrow> arrival list \<Rightarrow> recv_status \<times> tcp_recv_state \<times> arrival list" where
  "recv_header n st sock =
     (if rs_done st then (Filled, st, sock)
      else case fill_loop 2 (rs_have st) (rs_header st) sock of
        (status, have, h, sock') \<Rightarrow>
          (let st1 = st\<lparr>rs_have := have, rs_header := h\<rparr>
           in if status \<noteq> Filled then (status, st1, sock')
              else (let st2 = st1\<lparr>rs_body_len := header_len h\<rparr>
                    in if header_len h = 0 \<or> header_len h > n then (Broken, st2, sock')
                       else (Filled, st2\<lparr>rs_done := True, rs_body_have := 0\<rparr>, sock'))))"

text \<open>Result (0, 1, -1), frame length, the caller's buffer, the state, what is left to read.\<close>

definition net_tcp_recv_frame ::
  "nat \<Rightarrow> bytes \<Rightarrow> tcp_recv_state \<Rightarrow> arrival list \<Rightarrow> recv_status \<times> nat \<times> bytes \<times> tcp_recv_state \<times> arrival list" where
  "net_tcp_recv_frame n buffer st sock =
     (case recv_header n st sock of
        (status, st1, sock1) \<Rightarrow>
          (if status \<noteq> Filled then (status, 0, buffer, st1, sock1)
           else case fill_loop (rs_body_len st1) (rs_body_have st1) buffer sock1 of
                  (status2, have, buffer', sock2) \<Rightarrow>
                    (let st2 = st1\<lparr>rs_body_have := have\<rparr>
                     in if status2 \<noteq> Filled then (status2, 0, buffer', st2, sock2)
                        else (Filled, rs_body_len st1, buffer',
                              st2\<lparr>rs_have := 0, rs_done := False, rs_body_len := 0, rs_body_have := 0\<rparr>, sock2))))"

subsection \<open>Waiting for a connection\<close>

datatype select_result = Sel_ready | Sel_timeout | Sel_interrupted | Sel_error

definition CAMEX_TCP_CONNECT_TIMEOUT :: nat where "CAMEX_TCP_CONNECT_TIMEOUT = 5"

text \<open>The \<open>do ... while\<close>: result of the last \<open>select\<close>, whether still running, steps made.\<close>

function connect_wait :: "(nat \<Rightarrow> select_result \<times> bool) \<Rightarrow> nat \<Rightarrow> select_result \<times> bool \<times> nat" where
  "connect_wait env steps =
     (case env steps of (ready, running) \<Rightarrow>
        if (ready = Sel_timeout \<or> ready = Sel_interrupted) \<and> running
           \<and> steps + 1 < CAMEX_TCP_CONNECT_TIMEOUT
        then connect_wait env (steps + 1) else (ready, running, steps + 1))"
  by pat_completeness auto
termination
  by (relation "measure (\<lambda>(env, steps). CAMEX_TCP_CONNECT_TIMEOUT - steps)") auto

declare connect_wait.simps [simp del]

datatype connect_start = Connected | In_progress | Connect_error

text \<open>Whether \<open>net_tcp_connect\<close> returns a descriptor; \<open>soerr\<close>: \<open>SO_ERROR\<close> reads as 0.\<close>

definition net_tcp_connect ::
  "bool \<Rightarrow> bool \<Rightarrow> bool \<Rightarrow> connect_start \<Rightarrow> (nat \<Rightarrow> select_result \<times> bool) \<Rightarrow> bool \<Rightarrow> bool" where
  "net_tcp_connect resolved socket_ok nonblocking start env soerr =
     (if \<not> resolved \<or> \<not> socket_ok \<or> \<not> nonblocking then False
      else case start of
             Connected \<Rightarrow> True
           | Connect_error \<Rightarrow> False
           | In_progress \<Rightarrow>
               (case connect_wait env 0 of (ready, running, steps) \<Rightarrow>
                  if ready \<noteq> Sel_ready then False else soerr))"

lemma connect_wait_steps:
  "steps < CAMEX_TCP_CONNECT_TIMEOUT \<Longrightarrow> connect_wait env steps = (r, run, n) \<Longrightarrow>
   steps < n \<and> n \<le> CAMEX_TCP_CONNECT_TIMEOUT \<and> env (n - 1) = (r, run)"
proof (induction env steps rule: connect_wait.induct)
  case (1 env steps)
  show ?case
    using "1.prems" "1.IH" by (subst (asm) connect_wait.simps) (force split: prod.splits if_splits)
qed

subsection \<open>The receive side\<close>

definition frame :: "bytes \<Rightarrow> bytes" where
  "frame d = frame_header (length d) @ d"

text \<open>What a socket will still give, up to the end of the connection.\<close>

fun sock_bytes :: "arrival list \<Rightarrow> bytes" where
  "sock_bytes [] = []"
| "sock_bytes (Data bs # s) = bs @ sock_bytes s"
| "sock_bytes (Nothing_yet # s) = sock_bytes s"
| "sock_bytes (_ # s) = []"

text \<open>A connection that stays up: every piece has data.\<close>

definition sock_up :: "arrival list \<Rightarrow> bool" where
  "sock_up s \<longleftrightarrow> Closed \<notin> set s \<and> Read_error \<notin> set s \<and> Data [] \<notin> set s"

definition pauses :: "arrival list \<Rightarrow> nat" where
  "pauses s = length (filter (\<lambda>a. a = Nothing_yet) s)"

lemma frame_header_len: "n < 65536 \<Longrightarrow> header_len (frame_header n @ r) = n"
proof -
  assume n: "n < 65536"
  then have "n div 256 < 256"
    by (simp add: less_mult_imp_div_less)
  then show ?thesis
    using n by (simp add: header_len_def frame_header_def unat_of_nat)
qed

lemma length_frame_header [simp, len_simps]: "length (frame_header n) = 2"
  by (simp add: frame_header_def)

lemma header_bytes:
  assumes "length h = 2"
  shows "frame_header (header_len h) = h" and "header_len h < 65536"
proof -
  obtain a b where h: "h = [a, b]"
    using assms by (auto simp: length_Suc_conv numeral_2_eq_2)
  let ?n = "unat a * 256 + unat b"
  have n: "?n < 65536"
    using unat_less_256 [of a] unat_less_256 [of b] by linarith
  then show "header_len h < 65536"
    by (simp add: header_len_def h)
  have "?n div 256 = unat a"
    using unat_less_256 [of b] by simp
  moreover have "(of_nat ?n :: u8) = b"
    by (rule word_unat_eq_iff [THEN iffD2]) (simp only: unat_of_nat, simp)
  ultimately show "frame_header (header_len h) = h"
    using n by (simp add: frame_header_def header_len_def h)
qed

lemma write_at_props:
  assumes "k + length bs \<le> length b"
  shows "length (write_at k bs b) = length b" and "take (k + length bs) (write_at k bs b) = take k b @ bs"
    and "j \<le> k \<Longrightarrow> take j (write_at k bs b) = take j b"
  using assms by (simp_all add: write_at_def)

lemma sock_read_data:
  assumes "sock_read m s = (Data bs, s')"
  shows "sock_bytes s = bs @ sock_bytes s'" and "length bs \<le> m" and "pauses s' = pauses s"
    and "sock_up s \<Longrightarrow> 0 < m \<Longrightarrow> bs \<noteq> [] \<and> sock_up s'"
proof -
  obtain d r where s: "s = Data d # r"
    using assms by (cases "(m, s)" rule: sock_read.cases) auto
  show "sock_bytes s = bs @ sock_bytes s'"
    using assms by (auto simp: s split: if_splits)
  show "length bs \<le> m" and "pauses s' = pauses s"
    using assms by (auto simp: s pauses_def split: if_splits)
  show "sock_up s \<Longrightarrow> 0 < m \<Longrightarrow> bs \<noteq> [] \<and> sock_up s'"
    using assms by (auto simp: s sock_up_def split: if_splits)
qed

lemma sock_read_wait:
  assumes "sock_read m s = (Nothing_yet, s')"
  shows "sock_bytes s' = sock_bytes s" and "sock_up s \<Longrightarrow> sock_up s'"
    and "s = [] \<and> s' = [] \<or> Suc (pauses s') = pauses s"
  using assms by (cases "(m, s)" rule: sock_read.cases; auto simp: sock_up_def pauses_def split: if_splits)+

lemma sock_read_up: "sock_up s \<Longrightarrow> sock_read m s = (a, s') \<Longrightarrow> a = Nothing_yet \<or> (\<exists>bs. a = Data bs)"
  by (cases "(m, s)" rule: sock_read.cases) (auto simp: sock_up_def split: if_splits)

lemma fill_loop_props:
  assumes "fill_loop n have b s = (status, have', b', s')" and "have \<le> n" and "n \<le> length b"
  shows "length b' = length b \<and> have \<le> have' \<and> have' \<le> n \<and> take have b' = take have b \<and>
    (status = Filled \<longleftrightarrow> have' = n) \<and>
    (status \<noteq> Broken \<longrightarrow> take have b @ sock_bytes s = take have' b' @ sock_bytes s') \<and>
    (sock_up s \<longrightarrow> status \<noteq> Broken \<and> sock_up s' \<and>
       (if status = Filled then pauses s' = pauses s else s' = [] \<or> Suc (pauses s') = pauses s))"
  using assms
proof (induction n "have" b s rule: fill_loop.induct)
  case (1 n h b s)
  show ?case
  proof (cases "h < n")
    case False
    then show ?thesis
      using "1.prems" by (subst (asm) fill_loop.simps) (auto simp: fill_loop.simps)
  next
    case True
    obtain a s1 where r: "sock_read (n - h) s = (a, s1)"
      by fastforce
    show ?thesis
    proof (cases a)
      case (Data bs)
      note read = sock_read_data [OF r [unfolded Data]]
      show ?thesis
      proof (cases "bs = []")
        case True
        then have "status = Broken" "have' = h" "b' = b"
          using "1.prems"(1) \<open>h < n\<close> r Data by (simp_all add: fill_loop.simps [of n h b s])
        then show ?thesis
          using "1.prems" read(4) True \<open>h < n\<close> by auto
      next
        case ne: False
        have run: "fill_loop n (h + length bs) (write_at h bs b) s1 = (status, have', b', s')"
          using "1.prems"(1) True ne r Data by (simp add: fill_loop.simps [of n h b s])
        have le: "h + length bs \<le> n"
          using read(2) True by simp
        note w = write_at_props [of h bs b]
        have room: "h + length bs \<le> length b"
          using le "1.prems"(3) by simp
        have IH: "length b' = length b \<and> h + length bs \<le> have' \<and> have' \<le> n \<and>
            take (h + length bs) b' = take h b @ bs \<and> (status = Filled \<longleftrightarrow> have' = n) \<and>
            (status \<noteq> Broken \<longrightarrow> take h b @ bs @ sock_bytes s1 = take have' b' @ sock_bytes s') \<and>
            (sock_up s1 \<longrightarrow> status \<noteq> Broken \<and> sock_up s' \<and>
               (if status = Filled then pauses s' = pauses s1 else s' = [] \<or> Suc (pauses s') = pauses s1))"
          using "1.IH" [OF True r [symmetric] Data ne run le] w(1,2) [OF room] "1.prems"(3) room by simp
        have "take h b' = take h (take (h + length bs) b')"
          by simp
        also have "\<dots> = take h b"
          using IH room by simp
        finally have "take h b' = take h b" .
        then show ?thesis
          using IH read True by auto
      qed
    next
      case Nothing_yet
      then have "status = Waiting" "have' = h" "b' = b" "s' = s1"
        using "1.prems"(1) True r by (simp_all add: fill_loop.simps [of n h b s])
      then show ?thesis
        using sock_read_wait [OF r [unfolded Nothing_yet]] True "1.prems"(3) by auto
    next
      case Closed
      then have "status = Broken" "have' = h" "b' = b" "s' = s1" "\<not> sock_up s"
        using "1.prems"(1) True r sock_read_up [OF _ r] by (auto simp: fill_loop.simps [of n h b s])
      then show ?thesis
        using True by simp
    next
      case Read_error
      then have "status = Broken" "have' = h" "b' = b" "s' = s1" "\<not> sock_up s"
        using "1.prems"(1) True r sock_read_up [OF _ r] by (auto simp: fill_loop.simps [of n h b s])
      then show ?thesis
        using True by simp
    qed
  qed
qed

text \<open>The bytes of the current frame that are already in the state and the buffer.\<close>

definition held :: "tcp_recv_state \<Rightarrow> bytes \<Rightarrow> bytes" where
  "held st b = (if rs_done st then rs_header st @ take (rs_body_have st) b else take (rs_have st) (rs_header st))"

definition recv_ok :: "nat \<Rightarrow> tcp_recv_state \<Rightarrow> bool" where
  "recv_ok n st \<longleftrightarrow> length (rs_header st) = 2 \<and>
     (if rs_done st then rs_body_len st = header_len (rs_header st) \<and> 0 < rs_body_len st \<and> rs_body_len st \<le> n
        \<and> rs_body_have st < rs_body_len st
      else rs_have st < 2)"

lemma recv_ok_zero: "recv_ok n recv_zero" "held recv_zero b = []"
  by (simp_all add: recv_ok_def recv_zero_def held_def)

text \<open>
  The header phase on a connection that stays up.  \<open>bad\<close>: a length of 0 or beyond the buffer.
\<close>

definition header_ready :: "nat \<Rightarrow> tcp_recv_state \<Rightarrow> bool" where
  "header_ready n st \<longleftrightarrow> length (rs_header st) = 2 \<and> rs_done st \<and> rs_body_len st = header_len (rs_header st) \<and>
     0 < rs_body_len st \<and> rs_body_len st \<le> n \<and> rs_body_have st < rs_body_len st"

lemma recv_header_props:
  assumes "recv_header n st s = (status, st1, s1)" and ok: "recv_ok n st"
  shows "(status = Filled \<longrightarrow> header_ready n st1 \<and> held st b @ sock_bytes s = held st1 b @ sock_bytes s1) \<and>
    (status = Waiting \<longrightarrow> recv_ok n st1 \<and> held st b @ sock_bytes s = held st1 b @ sock_bytes s1) \<and>
    (sock_up s \<longrightarrow> sock_up s1 \<and>
      (status = Filled \<longrightarrow> pauses s1 = pauses s) \<and> (status = Waiting \<longrightarrow> s1 = [] \<or> Suc (pauses s1) = pauses s) \<and>
      (status = Broken \<longrightarrow> (\<exists>h. length h = 2 \<and> held st b @ sock_bytes s = h @ sock_bytes s1 \<and>
         (header_len h = 0 \<or> n < header_len h))))"
proof (cases "rs_done st")
  case True
  then have "status = Filled" "st1 = st" "s1 = s"
    using assms(1) by (simp_all add: recv_header_def)
  then show ?thesis
    using ok True by (simp add: recv_ok_def header_ready_def)
next
  case False
  obtain f k h s' where fill: "fill_loop 2 (rs_have st) (rs_header st) s = (f, k, h, s')"
    by (metis surj_pair)
  have len: "rs_have st \<le> 2" "2 \<le> length (rs_header st)" "length (rs_header st) = 2" "rs_have st < 2"
    using ok False by (simp_all add: recv_ok_def)
  have full: "length h = length (rs_header st) \<and> rs_have st \<le> k \<and> k \<le> 2 \<and>
      take (rs_have st) h = take (rs_have st) (rs_header st) \<and> (f = Filled \<longleftrightarrow> k = 2) \<and>
      (f \<noteq> Broken \<longrightarrow> take (rs_have st) (rs_header st) @ sock_bytes s = take k h @ sock_bytes s') \<and>
      (sock_up s \<longrightarrow> f \<noteq> Broken \<and> sock_up s' \<and>
         (if f = Filled then pauses s' = pauses s else s' = [] \<or> Suc (pauses s') = pauses s))"
    by (rule fill_loop_props [OF fill len(1,2)])
  have s1: "s1 = s'"
    using assms(1) False fill by (auto simp: recv_header_def Let_def split: if_splits)
  show ?thesis
  proof (cases f)
    case Filled
    then have h: "length h = 2" "k = 2" "take k h = h"
      using full len by simp_all
    let ?bad = "header_len h = 0 \<or> n < header_len h"
    have stat: "status = (if ?bad then Broken else Filled)"
      and st1: "\<not> ?bad \<Longrightarrow> st1 = st\<lparr>rs_have := k, rs_header := h, rs_body_len := header_len h, rs_done := True, rs_body_have := 0\<rparr>"
      using assms(1) False fill Filled by (auto simp: recv_header_def Let_def split: if_splits)
    show ?thesis
    proof (cases ?bad)
      case True
      then show ?thesis
        using stat full Filled h False s1 by (auto simp: held_def)
    next
      case good: False
      then show ?thesis
        using stat st1 full Filled h False s1 by (auto simp: held_def header_ready_def)
    qed
  next
    case Waiting
    then have "status = Waiting" "st1 = st\<lparr>rs_have := k, rs_header := h\<rparr>"
      using assms(1) False fill by (simp_all add: recv_header_def)
    then show ?thesis
      using full Waiting len False s1 by (auto simp: held_def recv_ok_def)
  next
    case Broken
    then have "status = Broken"
      using assms(1) False fill by (simp add: recv_header_def)
    then show ?thesis
      using full Broken by simp
  qed
qed

lemma recv_frame_props:
  assumes run: "net_tcp_recv_frame n b st s = (status, len, b', st', s')" and ok: "recv_ok n st" and b: "length b = n"
  shows "(status = Filled \<longrightarrow> 0 < len \<and> len \<le> n \<and> recv_ok n st' \<and> held st' b' = [] \<and> length b' = n \<and>
      held st b @ sock_bytes s = frame (take len b') @ sock_bytes s') \<and>
    (status = Waiting \<longrightarrow> recv_ok n st' \<and> length b' = n \<and> held st b @ sock_bytes s = held st' b' @ sock_bytes s') \<and>
    (sock_up s \<longrightarrow> sock_up s' \<and>
      (status = Filled \<longrightarrow> pauses s' = pauses s) \<and> (status = Waiting \<longrightarrow> s' = [] \<or> Suc (pauses s') = pauses s) \<and>
      (status = Broken \<longrightarrow> (\<exists>h. length h = 2 \<and> held st b @ sock_bytes s = h @ sock_bytes s' \<and>
         (header_len h = 0 \<or> n < header_len h))))"
proof -
  obtain f st1 s1 where hdr: "recv_header n st s = (f, st1, s1)"
    by (metis surj_pair)
  note H = recv_header_props [OF hdr ok, of b]
  show ?thesis
  proof (cases "f = Filled")
    case False
    then have "status = f" "b' = b" "st' = st1" "s' = s1"
      using run hdr by (simp_all add: net_tcp_recv_frame_def)
    then show ?thesis
      using H False b by simp
  next
    case True
    obtain f2 k b2 s2 where fill: "fill_loop (rs_body_len st1) (rs_body_have st1) b s1 = (f2, k, b2, s2)"
      by (metis surj_pair)
    have ready: "header_ready n st1" and bytes: "held st b @ sock_bytes s = held st1 b @ sock_bytes s1"
      using H True by simp_all
    have len: "rs_body_have st1 \<le> rs_body_len st1" "rs_body_len st1 \<le> length b"
      using ready b by (simp_all add: header_ready_def)
    have full: "length b2 = length b \<and> rs_body_have st1 \<le> k \<and> k \<le> rs_body_len st1 \<and>
        take (rs_body_have st1) b2 = take (rs_body_have st1) b \<and> (f2 = Filled \<longleftrightarrow> k = rs_body_len st1) \<and>
        (f2 \<noteq> Broken \<longrightarrow> take (rs_body_have st1) b @ sock_bytes s1 = take k b2 @ sock_bytes s2) \<and>
        (sock_up s1 \<longrightarrow> f2 \<noteq> Broken \<and> sock_up s2 \<and>
           (if f2 = Filled then pauses s2 = pauses s1 else s2 = [] \<or> Suc (pauses s2) = pauses s1))"
      by (rule fill_loop_props [OF fill len])
    have st: "held st1 b = rs_header st1 @ take (rs_body_have st1) b"
      using ready by (simp add: header_ready_def held_def)
    show ?thesis
    proof (cases "f2 = Filled")
      case True
      then have out: "status = Filled" "len = rs_body_len st1" "b' = b2" "s' = s2"
        "st' = st1\<lparr>rs_body_have := k, rs_have := 0, rs_done := False, rs_body_len := 0, rs_body_have := 0\<rparr>"
        using run hdr fill \<open>f = Filled\<close> by (simp_all add: net_tcp_recv_frame_def)
      have "frame (take len b') = rs_header st1 @ take k b2"
        using ready full True header_bytes(1) [of "rs_header st1"] b
        by (simp add: frame_def out header_ready_def min_absorb2)
      then have "held st b @ sock_bytes s = frame (take len b') @ sock_bytes s'"
        using bytes st full True out by simp
      then show ?thesis
        using H full True out ready b \<open>f = Filled\<close>
        by (simp add: recv_ok_def held_def header_ready_def)
    next
      case False
      then have out: "status = f2" "b' = b2" "s' = s2" "st' = st1\<lparr>rs_body_have := k\<rparr>"
        using run hdr fill \<open>f = Filled\<close> by (simp_all add: net_tcp_recv_frame_def)
      have "k < rs_body_len st1"
        using full False by (meson le_neq_implies_less)
      then have "recv_ok n st'" "held st' b' = rs_header st1 @ take k b2"
        using ready by (simp_all add: out recv_ok_def held_def header_ready_def)
      then show ?thesis
        using H full False out bytes st b \<open>f = Filled\<close> by auto
    qed
  qed
qed

lemma frame_prefix:
  assumes eq: "frame d1 @ r1 = frame d2 @ r2" and "length d1 < 65536" "length d2 < 65536"
  shows "d1 = d2" and "r1 = r2"
proof -
  have "frame_header (length d1) = frame_header (length d2)"
    using eq by (simp add: frame_def frame_header_def)
  then have "length d1 = length d2"
    using frame_header_len [of "length d1" "[]"] frame_header_len [of "length d2" "[]"] assms(2,3) by simp
  then show "d1 = d2" and "r1 = r2"
    using eq by (simp_all add: frame_def)
qed

lemma held_short:
  assumes "recv_ok n st" and "held st b = frame d @ r" and "length d < 65536" and "n \<le> length b"
  shows False
proof (cases "rs_done st")
  case False
  then have "length (held st b) < 2"
    using assms(1) by (simp add: held_def recv_ok_def)
  then show ?thesis
    using assms(2) by (simp add: frame_def)
next
  case True
  then have h: "length (rs_header st) = 2" "rs_body_have st < header_len (rs_header st)"
    "rs_header st @ take (rs_body_have st) b = frame_header (length d) @ d @ r"
    using assms(1,2) by (simp_all add: held_def recv_ok_def frame_def)
  then have "rs_header st = frame_header (length d)" "take (rs_body_have st) b = d @ r"
    by simp_all
  then have "length d \<le> rs_body_have st"
    by (metis le_add1 length_append length_take min.bounded_iff)
  then show ?thesis
    using h(2) frame_header_len [of "length d" "[]"] assms(3) \<open>rs_header st = _\<close> by simp
qed

text \<open>
  The event loop's calls on one connection, the same buffer passed each time: the frames handed
  out by at most \<open>k\<close> calls.
\<close>

fun recv_run :: "nat \<Rightarrow> nat \<Rightarrow> bytes \<Rightarrow> tcp_recv_state \<Rightarrow> arrival list \<Rightarrow> bytes list" where
  "recv_run 0 n b st s = []"
| "recv_run (Suc k) n b st s =
     (case net_tcp_recv_frame n b st s of
        (Filled, len, b', st', s') \<Rightarrow> take len b' # recv_run k n b' st' s'
      | (Waiting, _, b', st', s') \<Rightarrow> recv_run k n b' st' s'
      | (Broken, _, _, _, _) \<Rightarrow> [])"

lemma recv_run_frames:
  assumes "recv_ok n st" and "length b = n" and "n < 65536" and "sock_up s"
    and "held st b @ sock_bytes s = concat (map frame ds)"
    and "\<forall>d\<in>set ds. 0 < length d \<and> length d \<le> n" and "length ds + pauses s \<le> k"
  shows "recv_run k n b st s = ds"
  using assms
proof (induction k arbitrary: b st s ds)
  case 0
  then show ?case by simp
next
  case (Suc k)
  obtain status len b' st' s' where call: "net_tcp_recv_frame n b st s = (status, len, b', st', s')"
    by (metis surj_pair)
  note C = recv_frame_props [OF call Suc.prems(1,2)]
  have up: "sock_up s'"
    using C Suc.prems(4) by blast
  show ?case
  proof (cases status)
    case Filled
    have F: "0 < len" "len \<le> n" "recv_ok n st'" "held st' b' = []" "length b' = n" "pauses s' = pauses s"
      "concat (map frame ds) = frame (take len b') @ sock_bytes s'"
      using C Filled Suc.prems(4,5) by simp_all
    obtain d ds' where ds: "ds = d # ds'"
      using F(7) by (cases ds) (auto simp: frame_def frame_header_def)
    have "frame d @ concat (map frame ds') = frame (take len b') @ sock_bytes s'"
      using F(7) ds by simp
    from frame_prefix [OF this] have d: "take len b' = d" "sock_bytes s' = concat (map frame ds')"
      using Suc.prems(3,6) F(2) ds by auto
    have "recv_run k n b' st' s' = ds'"
      using Suc.IH [OF F(3,5) Suc.prems(3) up] F(4,6) d(2) Suc.prems(6,7) ds by simp
    then show ?thesis
      using call Filled d(1) ds by simp
  next
    case Waiting
    have W: "recv_ok n st'" "length b' = n" "held st' b' @ sock_bytes s' = concat (map frame ds)"
      "s' = [] \<or> Suc (pauses s') = pauses s"
      using C Waiting Suc.prems(4,5) by simp_all
    have "ds = []" if "s' = []"
      using held_short [OF W(1), of b'] W(2,3) that Suc.prems(3,6) by (cases ds) fastforce+
    then have "length ds + pauses s' \<le> k"
      using W(4) Suc.prems(7) by (auto simp: pauses_def)
    then have "recv_run k n b' st' s' = ds"
      using Suc.IH [OF W(1,2) Suc.prems(3) up W(3) Suc.prems(6)] by simp
    then show ?thesis
      using call Waiting by simp
  next
    case Broken
    then obtain h where h: "length h = 2" "concat (map frame ds) = h @ sock_bytes s'"
      "header_len h = 0 \<or> n < header_len h"
      using C Suc.prems(4,5) by auto
    obtain d ds' where ds: "ds = d # ds'"
      using h(1,2) by (cases ds) auto
    then have "h = frame_header (length d)"
      using h(1,2) by (simp add: frame_def)
    then show ?thesis
      using h(3) frame_header_len [of "length d" "[]"] Suc.prems(3,6) ds by auto
  qed
qed

text \<open>
  \<open>drain_tcp_client_read\<close> and \<open>drain_udp_packets\<close> of \<open>src/camex.c\<close> pass a buffer of their own
  stack frame: only the state survives between two calls.  \<open>stack\<close> is what the frame holds at
  the call.
\<close>

definition recv_on_stack ::
  "bytes \<Rightarrow> tcp_recv_state \<Rightarrow> arrival list \<Rightarrow> recv_status \<times> bytes \<times> tcp_recv_state \<times> arrival list" where
  "recv_on_stack stack st s =
     (case net_tcp_recv_frame (length stack) stack st s of
        (status, len, b, st', s') \<Rightarrow> (status, take len b, st', s'))"

lemma fill_loop_full: "fill_loop n n b s = (Filled, n, b, s)"
  by (simp add: fill_loop.simps)

lemma fill_loop_piece:
  "h < n \<Longrightarrow> h + length bs \<le> n \<Longrightarrow> bs \<noteq> [] \<Longrightarrow>
   fill_loop n h b (Data bs # s) = fill_loop n (h + length bs) (write_at h bs b) s"
  using le_diff_conv2 [of h n "length bs"] by (simp add: fill_loop.simps [of n h b "Data bs # s"] add.commute)

lemma fill_loop_wait: "h < n \<Longrightarrow> fill_loop n h b [] = (Waiting, h, b, [])"
  by (simp add: fill_loop.simps)

text \<open>C37: read with a buffer of the caller's stack frame, a frame whose body arrives over two calls comes
  out with its first part replaced by whatever the second frame held: the part read by the first call
  is lost.\<close>

theorem stack_buffer_loses_body:
  assumes d: "length d \<le> length stack1" "length stack2 = length stack1" "length stack1 < 65536"
    and j: "0 < j" "j < length d"
    and first: "recv_on_stack stack1 recv_zero [Data (frame_header (length d)), Data (take j d)] = (r1, out1, st, s1)"
    and second: "recv_on_stack stack2 st [Data (drop j d)] = (r2, out2, st2, s2)"
  shows "r1 = Waiting \<and> r2 = Filled \<and> out2 = take j stack2 @ drop j d"
proof -
  let ?h = "frame_header (length d)"
  have len: "header_len ?h = length d"
    using frame_header_len [of "length d" "[]"] d by simp
  let ?st = "\<lparr>rs_header = ?h, rs_have = 2, rs_done = True, rs_body_len = length d, rs_body_have = 0\<rparr>"
  have "write_at 0 ?h [0, 0] = ?h"
    by (simp add: write_at_def)
  then have w: "fill_loop 2 0 [0, 0] (Data ?h # s) = (Filled, 2, ?h, s)" for s
    using fill_loop_piece [of 0 2 ?h "[0, 0]" s] fill_loop_full [of 2 ?h s]
      length_greater_0_conv [of ?h] by (simp add: numeral_2_eq_2)
  have "recv_header (length stack1) recv_zero [Data ?h, Data (take j d)] = (Filled, ?st, [Data (take j d)])"
    using d j by (auto simp: recv_header_def recv_zero_def w len Let_def)
  moreover have "take j d \<noteq> []" "length (take j d) = j"
    using j by auto
  ultimately have one: "recv_on_stack stack1 recv_zero [Data ?h, Data (take j d)]
      = (Waiting, [], ?st\<lparr>rs_body_have := j\<rparr>, [])"
    using j by (simp add: recv_on_stack_def net_tcp_recv_frame_def fill_loop_piece fill_loop_wait)
  then have r1: "r1 = Waiting" and st: "st = ?st\<lparr>rs_body_have := j\<rparr>"
    using first by simp_all
  have "recv_on_stack stack2 st [Data (drop j d)]
     = (Filled, take (length d) (write_at j (drop j d) stack2),
        ?st\<lparr>rs_have := 0, rs_done := False, rs_body_len := 0, rs_body_have := 0\<rparr>, [])"
    using j by (simp add: recv_on_stack_def net_tcp_recv_frame_def recv_header_def st fill_loop_piece fill_loop_full)
  moreover have "take (length d) (write_at j (drop j d) stack2) = take j stack2 @ drop j d"
    using write_at_props(2) [of j "drop j d" stack2] d j by simp
  ultimately show ?thesis
    using second r1 by simp
qed

theorem stack_buffer_loses_body_witness:
  "\<exists>st s1 out1 st2 s2. recv_on_stack [0, 0, 0] recv_zero [Data (frame_header 3), Data [7]] = (Waiting, out1, st, s1) \<and>
     recv_on_stack [9, 9, 9] st [Data [8, 9]] = (Filled, [9, 8, 9], st2, s2)"
proof -
  obtain r1 out1 st s1 where a: "recv_on_stack [0, 0, 0] recv_zero [Data (frame_header 3), Data [7]] = (r1, out1, st, s1)"
    by (metis prod_cases4)
  obtain r2 out2 st2 s2 where b: "recv_on_stack [9, 9, 9] st [Data [8, 9]] = (r2, out2, st2, s2)"
    by (metis prod_cases4)
  have "r1 = Waiting \<and> r2 = Filled \<and> out2 = take 1 [9, 9, 9] @ drop 1 [7, 8, 9]"
    by (rule stack_buffer_loses_body [of "[7, 8, 9]" "[0, 0, 0]" "[9, 9, 9]" 1 r1 out1 st s1 r2 out2 st2 s2])
      (use a b in \<open>simp_all add: numeral_3_eq_3\<close>)
  then show ?thesis
    using a b by auto
qed

subsection \<open>The send side\<close>

definition rest_of :: "tcp_pending \<Rightarrow> bytes" where
  "rest_of p = drop (tp_offset p) (take (tp_len p) (buf_of p))"

definition slot_wf :: "tcp_pending \<Rightarrow> bool" where
  "slot_wf p \<longleftrightarrow> - 1 \<le> tp_fd p \<and> tp_offset p \<le> tp_len p \<and> tp_len p \<le> length (buf_of p) \<and>
     (case tp_buf p of None \<Rightarrow> True | Some b \<Rightarrow> length b = TCP_SEND_BUF_SIZE)"

text \<open>Every slot is sound, and no descriptor has two.\<close>

definition pending_wf :: "tcp_pending list \<Rightarrow> bool" where
  "pending_wf ps \<longleftrightarrow> (\<forall>i<length ps. slot_wf (ps ! i)) \<and>
     (\<forall>i<length ps. \<forall>j<length ps. 0 \<le> tp_fd (ps ! i) \<and> tp_fd (ps ! i) = tp_fd (ps ! j) \<longrightarrow> i = j)"

text \<open>What is still to be sent on a descriptor.\<close>

definition pend :: "tcp_pending list \<Rightarrow> int \<Rightarrow> bytes" where
  "pend ps fd = (case tcp_pending_find ps fd of None \<Rightarrow> [] | Some i \<Rightarrow> rest_of (ps ! i))"

lemma find_SomeD:
  assumes "tcp_pending_find ps fd = Some i"
  shows "i < length ps" and "tp_fd (ps ! i) = fd"
  using assms by (simp_all add: tcp_pending_find_def scan_first_Some_iff)

lemma pending_find_None: "tcp_pending_find ps fd = None \<longleftrightarrow> (\<forall>i<length ps. tp_fd (ps ! i) \<noteq> fd)"
  by (simp add: tcp_pending_find_def scan_first_None_iff)

lemma find_unique:
  assumes "pending_wf ps" and i: "i < length ps" "tp_fd (ps ! i) = fd" "0 \<le> fd"
  shows "tcp_pending_find ps fd = Some i" and "pend ps fd = rest_of (ps ! i)"
proof -
  obtain j where j: "tcp_pending_find ps fd = Some j"
    using pending_find_None [of ps fd] i by blast
  then have "j = i"
    using find_SomeD [OF j] assms unfolding pending_wf_def by metis
  then show "tcp_pending_find ps fd = Some i" and "pend ps fd = rest_of (ps ! i)"
    using j by (simp_all add: pend_def)
qed

lemma pend_other:
  assumes "i < length ps" and "tp_fd (ps ! i) \<noteq> fd" and "tp_fd p \<noteq> fd"
  shows "pend (ps[i := p]) fd = pend ps fd"
proof -
  have "tcp_pending_find (ps[i := p]) fd = tcp_pending_find ps fd"
    unfolding tcp_pending_find_def length_list_update
    by (rule scan_first_cong) (use assms in \<open>auto simp: nth_list_update\<close>)
  then show ?thesis
    using assms find_SomeD(2) [of ps fd] by (auto simp: pend_def nth_list_update split: option.splits)
qed

lemma wf_update:
  assumes wf: "pending_wf ps" and "slot_wf p"
    and "tp_fd p = - 1 \<or> tp_fd p = tp_fd (ps ! i) \<or> (\<forall>j<length ps. tp_fd (ps ! j) \<noteq> tp_fd p)"
  shows "pending_wf (ps[i := p])"
proof (cases "i < length ps")
  case False
  then show ?thesis using wf by (simp add: not_less list_update_beyond)
next
  case True
  have "slot_wf ((ps[i := p]) ! k)" if "k < length ps" for k
    using wf assms(2) that True by (simp add: pending_wf_def nth_list_update)
  moreover have "j = k" if jk: "j < length ps" "k < length ps" "0 \<le> tp_fd ((ps[i := p]) ! j)"
      "tp_fd ((ps[i := p]) ! j) = tp_fd ((ps[i := p]) ! k)" for j k
  proof -
    have un: "a = b" if "0 \<le> tp_fd (ps ! a)" "tp_fd (ps ! a) = tp_fd (ps ! b)" "a < length ps" "b < length ps" for a b
      using wf that unfolding pending_wf_def by blast
    have mine: "b = i" if "tp_fd p = tp_fd (ps ! b)" "0 \<le> tp_fd p" "b < length ps" for b
    proof -
      have "tp_fd p \<noteq> - 1"
        using that(2) by linarith
      then have "tp_fd p = tp_fd (ps ! i)"
        using assms(3) that(1,3) by metis
      then show ?thesis
        using un [of b i] that True by simp
    qed
    consider "j = i" "k = i" | "j = i" "k \<noteq> i" | "j \<noteq> i" "k = i" | "j \<noteq> i" "k \<noteq> i"
      by blast
    then show ?thesis
    proof cases
      case 1
      then show ?thesis by simp
    next
      case 2
      then have "tp_fd p = tp_fd (ps ! k)" "0 \<le> tp_fd p"
        using jk True by simp_all
      then show ?thesis
        using mine jk(2) 2 by blast
    next
      case 3
      then have "tp_fd p = tp_fd (ps ! j)" "0 \<le> tp_fd p"
        using jk True by simp_all
      then show ?thesis
        using mine jk(1) 3 by blast
    next
      case 4
      then have "tp_fd (ps ! j) = tp_fd (ps ! k)" "0 \<le> tp_fd (ps ! j)"
        using jk by simp_all
      then show ?thesis
        using un jk(1,2) by blast
    qed
  qed
  ultimately show ?thesis
    unfolding pending_wf_def by simp
qed

lemma release_facts [simp]:
  "tp_fd (tcp_pending_release p) = - 1" "slot_wf p \<Longrightarrow> slot_wf (tcp_pending_release p)"
  "rest_of (tcp_pending_release p) = []"
  by (auto simp: tcp_pending_release_def slot_wf_def rest_of_def buf_of_def split: option.splits)

lemma flush_loop_eqs:
  "\<not> tp_offset p < tp_len p \<Longrightarrow> flush_loop rs p out = (0, tcp_pending_release p, out)"
  "tp_offset p < tp_len p \<Longrightarrow> flush_loop (Sent n # rs) p out =
     flush_loop rs (p\<lparr>tp_offset := tp_offset p + min n (tp_len p - tp_offset p)\<rparr>)
       (out @ take (min n (tp_len p - tp_offset p)) (drop (tp_offset p) (buf_of p)))"
  "tp_offset p < tp_len p \<Longrightarrow> flush_loop (Hard_error # rs) p out = (- 1, tcp_pending_release p, out)"
  "tp_offset p < tp_len p \<Longrightarrow> flush_loop (Again # rs) p out = (1, p, out)"
  "tp_offset p < tp_len p \<Longrightarrow> flush_loop [] p out = (1, p, out)"
  by (subst flush_loop.simps, simp add: Let_def)+

lemma flush_loop_props:
  assumes "flush_loop rs p out = (rc, p', out')" and "slot_wf p" and "0 \<le> tp_fd p"
  shows "slot_wf p' \<and> (rc = 0 \<or> rc = 1 \<or> rc = - 1 \<and> Hard_error \<in> set rs) \<and>
    (tp_fd p' = (if rc = 1 then tp_fd p else - 1)) \<and>
    (rc = 0 \<longrightarrow> out' = out @ rest_of p) \<and> (rc = 1 \<longrightarrow> out @ rest_of p = out' @ rest_of p')"
  using assms
proof (induction rs p out rule: flush_loop.induct)
  case (1 rs p out)
  show ?case
  proof (cases "tp_offset p < tp_len p")
    case False
    then have "rest_of p = []"
      using "1.prems"(2) by (simp add: rest_of_def)
    then show ?thesis
      using "1.prems" False by (auto simp: flush_loop_eqs)
  next
    case True
    consider n rs' where "rs = Sent n # rs'" | rs' where "rs = Hard_error # rs'" | "rs = [] \<or> (\<exists>rs'. rs = Again # rs')"
      by (metis list.exhaust send_result.exhaust)
    then show ?thesis
    proof cases
      case 1
      let ?k = "min n (tp_len p - tp_offset p)"
      let ?q = "p\<lparr>tp_offset := tp_offset p + ?k\<rparr>"
      let ?w = "take ?k (drop (tp_offset p) (buf_of p))"
      have run: "flush_loop rs' ?q (out @ ?w) = (rc, p', out')"
        using "1.prems"(1) True 1 by (simp add: flush_loop_eqs)
      have q: "slot_wf ?q" "0 \<le> tp_fd ?q" "buf_of ?q = buf_of p"
        using "1.prems"(2,3) by (auto simp: slot_wf_def buf_of_def)
      have "rest_of p = ?w @ rest_of ?q"
      proof -
        have "rest_of p = take (tp_len p - tp_offset p) (drop (tp_offset p) (buf_of p))"
          by (simp add: rest_of_def drop_take)
        moreover have "rest_of ?q = take (tp_len p - (tp_offset p + ?k)) (drop ?k (drop (tp_offset p) (buf_of p)))"
          by (simp add: rest_of_def drop_take q(3) add.commute)
        ultimately show ?thesis
          by (metis diff_diff_left le_add_diff_inverse min.cobounded2 take_add)
      qed
      then show ?thesis
        using "1.IH" [OF True 1 refl refl run q(1,2)] 1 by auto
    next
      case 2
      then show ?thesis
        using "1.prems" True by (auto simp: flush_loop_eqs)
    next
      case 3
      then have "rc = 1" "p' = p" "out' = out"
        using "1.prems"(1) True by (auto simp: flush_loop_eqs)
      then show ?thesis
        using "1.prems" by simp
    qed
  qed
qed

lemma flush_props:
  assumes run: "tcp_send_flush_pending rs fd ps = (rc, ps', out)" and wf: "pending_wf ps" and fd: "0 \<le> fd"
  shows "pending_wf ps' \<and> length ps' = length ps \<and> (rc = 0 \<or> rc = 1 \<or> rc = - 1 \<and> Hard_error \<in> set rs) \<and>
    (\<forall>g. g \<noteq> fd \<longrightarrow> 0 \<le> g \<longrightarrow> pend ps' g = pend ps g) \<and>
    (rc \<noteq> 1 \<longrightarrow> tcp_pending_find ps' fd = None) \<and> (rc \<noteq> - 1 \<longrightarrow> pend ps fd = out @ pend ps' fd)"
proof (cases "tcp_pending_find ps fd")
  case None
  then show ?thesis
    using run wf by (auto simp: tcp_send_flush_pending_def pend_def)
next
  case (Some i)
  obtain p where loop: "flush_loop rs (ps ! i) [] = (rc, p, out)" and ps': "ps' = ps[i := p]"
    using run Some fd by (auto simp: tcp_send_flush_pending_def split: prod.splits)
  have i: "i < length ps" "tp_fd (ps ! i) = fd"
    using find_SomeD [OF Some] by simp_all
  have slot: "slot_wf (ps ! i)"
    using wf i by (simp add: pending_wf_def)
  note L = flush_loop_props [OF loop slot, unfolded i(2), OF fd]
  have wf': "pending_wf ps'"
    unfolding ps' by (rule wf_update [OF wf]) (use L i in auto)
  have others: "pend ps' g = pend ps g" if "g \<noteq> fd" "0 \<le> g" for g
    unfolding ps' by (rule pend_other) (use i L that in auto)
  have gone: "tcp_pending_find ps' fd = None" if "rc \<noteq> 1"
    unfolding pending_find_None ps' using that L fd i wf unfolding pending_wf_def
    by (metis (no_types, opaque_lifting) length_list_update neg_0_le_iff_le not_one_le_zero nth_list_update_eq nth_list_update_neq)
  have here: "pend ps fd = rest_of (ps ! i)"
    by (rule find_unique(2) [OF wf i fd])
  have keep: "pend ps' fd = rest_of p" if "rc = 1"
    using find_unique(2) [OF wf', of i fd] that L i fd by (simp add: ps')
  show ?thesis
    using wf' others gone L here keep by (auto simp: ps' pend_def)
qed

lemma acquire_scan_Some:
  "acquire_scan k ps s = Some j \<Longrightarrow> s = Some j \<or> k \<le> j \<and> j < k + length ps \<and> tp_fd (ps ! (j - k)) = - 1"
proof (induction ps arbitrary: k s)
  case (Cons p ps)
  show ?case
  proof (cases "tp_fd p = - 1 \<and> tp_buf p \<noteq> None")
    case True
    then show ?thesis using Cons.prems by auto
  next
    case False
    let ?s = "if tp_fd p = - 1 \<and> s = None then Some k else s"
    have "acquire_scan (Suc k) ps ?s = Some j"
      using Cons.prems False by (auto split: if_splits)
    from Cons.IH [OF this] show ?thesis
      by (auto simp: nth_Cons' split: if_splits)
  qed
qed simp

lemma acquire_props:
  assumes acq: "tcp_pending_acquire mem ps fd = Some (i, ps')" and wf: "pending_wf ps"
    and none: "tcp_pending_find ps fd = None" and fd: "0 \<le> fd"
  shows "i < length ps \<and> tp_fd (ps ! i) = - 1 \<and>
    (\<exists>b. length b = TCP_SEND_BUF_SIZE \<and> ps' = ps[i := \<lparr>tp_fd = fd, tp_buf = Some b, tp_len = 0, tp_offset = 0\<rparr>])"
proof -
  have scan: "acquire_scan 0 ps None = Some i"
    using acq by (auto simp: tcp_pending_acquire_def split: option.splits if_splits)
  have i: "i < length ps" "tp_fd (ps ! i) = - 1"
    using acquire_scan_Some [OF scan] by simp_all
  then have "slot_wf (ps ! i)"
    using wf by (simp add: pending_wf_def)
  then show ?thesis
    using acq scan i
    by (intro conjI exI [of _ "case tp_buf (ps ! i) of None \<Rightarrow> replicate TCP_SEND_BUF_SIZE 0 | Some b \<Rightarrow> b"])
      (auto simp: tcp_pending_acquire_def slot_wf_def split: option.splits if_splits)
qed

lemma find_update_none:
  assumes "tcp_pending_find ps fd = None" and "i < length ps" and "tp_fd p = fd"
  shows "tcp_pending_find (ps[i := p]) fd = Some i"
proof -
  have "\<forall>j<length ps. tp_fd (ps ! j) \<noteq> fd"
    using assms(1) by (simp add: pending_find_None)
  then show ?thesis
    using assms(2,3) by (auto simp: tcp_pending_find_def scan_first_Some_iff)
qed

lemma send_frame_props:
  assumes run: "net_tcp_send_frame_ex mem rs1 rs2 fd data ps = (rc, acc, ps', out)"
    and wf: "pending_wf ps" and fd: "0 \<le> fd"
  shows "pending_wf ps' \<and> length ps' = length ps \<and> (\<forall>g. g \<noteq> fd \<longrightarrow> 0 \<le> g \<longrightarrow> pend ps' g = pend ps g) \<and>
    (Hard_error \<notin> set rs1 \<union> set rs2 \<longrightarrow>
       pend ps fd @ (if acc then frame data else []) = out @ pend ps' fd) \<and> (acc \<longrightarrow> 0 \<le> rc)"
proof (cases "length data > TCP_SEND_BUF_SIZE - 2")
  case True
  then show ?thesis
    using run wf by (auto simp: net_tcp_send_frame_ex_def)
next
  case False
  obtain ret ps1 out1 where f1: "tcp_send_flush_pending rs1 fd ps = (ret, ps1, out1)"
    by (metis surj_pair)
  note F1 = flush_props [OF f1 wf fd]
  show ?thesis
  proof (cases "ret \<noteq> 0 \<or> tcp_pending_acquire mem ps1 fd = None")
    case True
    then have "ps' = ps1" "out = out1" "\<not> acc"
      using run False fd f1 by (auto simp: net_tcp_send_frame_ex_def split: if_splits)
    then show ?thesis
      using F1 by auto
  next
    case go: False
    then obtain i ps2 where acq: "tcp_pending_acquire mem ps1 fd = Some (i, ps2)" and ret: "ret = 0"
      by auto
    have wf1: "pending_wf ps1" and gone: "tcp_pending_find ps1 fd = None" and none: "pend ps1 fd = []"
      using F1 ret by (simp_all add: pend_def)
    obtain b where i: "i < length ps1" "tp_fd (ps1 ! i) = - 1" and b: "length b = TCP_SEND_BUF_SIZE"
      and ps2: "ps2 = ps1[i := \<lparr>tp_fd = fd, tp_buf = Some b, tp_len = 0, tp_offset = 0\<rparr>]"
      using acquire_props [OF acq wf1 gone fd] by blast
    let ?slot = "\<lparr>tp_fd = fd, tp_buf = Some (overwrite (frame_header (length data) @ data) b),
       tp_len = 2 + length data, tp_offset = 0\<rparr>"
    let ?ps3 = "ps1[i := ?slot]"
    obtain rc2 ps4 out2 where f2: "tcp_send_flush_pending rs2 fd ?ps3 = (rc2, ps4, out2)"
      by (metis surj_pair)
    have res: "rc = rc2" "acc = (\<not> rc2 < 0)" "ps' = ps4" "out = out1 @ out2"
      using run False fd f1 ret acq f2 i by (auto simp add: net_tcp_send_frame_ex_def ps2 Let_def buf_of_def)
    have len: "length (overwrite (frame_header (length data) @ data) b) = TCP_SEND_BUF_SIZE"
      using False b by (simp add: overwrite_def TCP_SEND_BUF_SIZE_def)
    then have slot: "slot_wf ?slot"
      using False fd by (simp add: slot_wf_def buf_of_def TCP_SEND_BUF_SIZE_def)
    have wf3: "pending_wf ?ps3"
      by (rule wf_update [OF wf1 slot]) (use gone in \<open>simp add: pending_find_None\<close>)
    have "pend ?ps3 fd = frame data"
      using find_update_none [OF gone i(1), of ?slot] i(1)
      by (simp add: pend_def rest_of_def buf_of_def overwrite_def frame_def)
    moreover have "pend ?ps3 g = pend ps1 g" if "g \<noteq> fd" "0 \<le> g" for g
      by (rule pend_other) (use i that in auto)
    ultimately show ?thesis
      using F1 flush_props [OF f2 wf3 fd] ret none by (auto simp: res)
  qed
qed

lemma close_props:
  assumes wf: "pending_wf ps"
  shows "pending_wf (net_tcp_close fd ps) \<and> length (net_tcp_close fd ps) = length ps \<and>
    (\<forall>g. g \<noteq> fd \<longrightarrow> 0 \<le> g \<longrightarrow> pend (net_tcp_close fd ps) g = pend ps g) \<and>
    (0 \<le> fd \<longrightarrow> tcp_pending_find (net_tcp_close fd ps) fd = None)"
proof (cases "0 \<le> fd \<and> tcp_pending_find ps fd \<noteq> None")
  case False
  then show ?thesis
    using wf by (auto simp: net_tcp_close_def)
next
  case True
  then obtain i where i: "tcp_pending_find ps fd = Some i" and fd: "0 \<le> fd"
    by blast
  let ?p = "tcp_pending_release (ps ! i)"
  have close: "net_tcp_close fd ps = ps[i := ?p]"
    using i fd by (simp add: net_tcp_close_def)
  note at = find_SomeD [OF i]
  have slot: "slot_wf (ps ! i)"
    using wf at by (simp add: pending_wf_def)
  have "pending_wf (ps[i := ?p])"
    by (rule wf_update [OF wf release_facts(2) [OF slot]]) simp
  moreover have "pend (ps[i := ?p]) g = pend ps g" if "g \<noteq> fd" "0 \<le> g" for g
    by (rule pend_other) (use at that in auto)
  moreover have "tcp_pending_find (ps[i := ?p]) fd = None"
    unfolding pending_find_None length_list_update
  proof (intro allI impI)
    fix j assume j: "j < length ps"
    show "tp_fd (ps[i := ?p] ! j) \<noteq> fd"
      using find_unique(1) [OF wf j _ fd] i at(1) fd j by (cases "j = i") auto
  qed
  ultimately show ?thesis
    by (simp add: close)
qed

subsection \<open>Histories of sends\<close>

text \<open>
  The socket's side: bytes written, frames accepted, and whether a send failed, since the
  descriptor was opened.
\<close>

record send_world =
  w_ps :: "tcp_pending list"
  w_out :: "int \<Rightarrow> bytes"
  w_acc :: "int \<Rightarrow> bytes list"
  w_failed :: "int \<Rightarrow> bool"

datatype net_event =
    Send_frame bool "send_result list" "send_result list" int bytes
  | Flush "send_result list" int
  | Close int

fun net_step :: "send_world \<Rightarrow> net_event \<Rightarrow> send_world" where
  "net_step w (Send_frame mem rs1 rs2 fd data) =
     (case net_tcp_send_frame_ex mem rs1 rs2 fd data (w_ps w) of (rc, acc, ps, out) \<Rightarrow>
        w\<lparr>w_ps := ps, w_out := (w_out w)(fd := w_out w fd @ out),
          w_acc := (w_acc w)(fd := w_acc w fd @ (if acc then [data] else [])),
          w_failed := (w_failed w)(fd := w_failed w fd \<or> Hard_error \<in> set rs1 \<union> set rs2)\<rparr>)"
| "net_step w (Flush rs fd) =
     (case tcp_send_flush_pending rs fd (w_ps w) of (rc, ps, out) \<Rightarrow>
        w\<lparr>w_ps := ps, w_out := (w_out w)(fd := w_out w fd @ out),
          w_failed := (w_failed w)(fd := w_failed w fd \<or> Hard_error \<in> set rs)\<rparr>)"
| "net_step w (Close fd) =
     w\<lparr>w_ps := net_tcp_close fd (w_ps w), w_out := (w_out w)(fd := []), w_acc := (w_acc w)(fd := []),
       w_failed := (w_failed w)(fd := False)\<rparr>"

definition net_start :: send_world where
  "net_start = \<lparr>w_ps = tcp_pending_init, w_out = (\<lambda>_. []), w_acc = (\<lambda>_. []), w_failed = (\<lambda>_. False)\<rparr>"

definition stream_inv :: "send_world \<Rightarrow> bool" where
  "stream_inv w \<longleftrightarrow> pending_wf (w_ps w) \<and> length (w_ps w) = TCP_PENDING_SLOTS \<and>
     (\<forall>fd\<ge>0. \<not> w_failed w fd \<longrightarrow> concat (map frame (w_acc w fd)) = w_out w fd @ pend (w_ps w) fd)"

lemma stream_inv_start: "stream_inv net_start"
proof -
  have "pend (replicate n pending_free) fd = []" if "0 \<le> fd" for n fd
    using that by (auto simp: pend_def rest_of_def pending_free_def dest: find_SomeD split: option.splits)
  then show ?thesis
    by (auto simp: stream_inv_def net_start_def tcp_pending_init_def pending_wf_def pending_free_def
        slot_wf_def buf_of_def)
qed

lemma net_negative: "fd < 0 \<Longrightarrow> net_tcp_send_frame_ex mem rs1 rs2 fd data ps = (- 1, False, ps, [])"
  "fd < 0 \<Longrightarrow> tcp_send_flush_pending rs fd ps = (0, ps, [])"
  "fd < 0 \<Longrightarrow> net_tcp_close fd ps = ps"
  by (simp_all add: net_tcp_send_frame_ex_def tcp_send_flush_pending_def net_tcp_close_def split: option.splits)

lemma stream_inv_step:
  assumes inv: "stream_inv w"
  shows "stream_inv (net_step w e)"
proof -
  have wf: "pending_wf (w_ps w)" and len: "length (w_ps w) = TCP_PENDING_SLOTS"
    and st: "\<And>fd. 0 \<le> fd \<Longrightarrow> \<not> w_failed w fd \<Longrightarrow> concat (map frame (w_acc w fd)) = w_out w fd @ pend (w_ps w) fd"
    using inv by (simp_all add: stream_inv_def)
  show ?thesis
  proof (cases e)
    case (Send_frame mem rs1 rs2 fd data)
    obtain rc acc ps out where run: "net_tcp_send_frame_ex mem rs1 rs2 fd data (w_ps w) = (rc, acc, ps, out)"
      by (metis surj_pair)
    show ?thesis
    proof (cases "0 \<le> fd")
      case True
      note S = send_frame_props [OF run wf True]
      have "concat (map frame (w_acc w fd)) @ (if acc then frame data else []) = (w_out w fd @ out) @ pend ps fd"
        if "\<not> w_failed w fd" "Hard_error \<notin> set rs1 \<union> set rs2"
        using S st [OF True that(1)] that(2) by simp
      then show ?thesis
        using S st len run Send_frame by (auto simp: stream_inv_def)
    next
      case False
      then show ?thesis
        using run wf len st Send_frame net_negative(1) [of fd mem rs1 rs2 data "w_ps w"] by (auto simp: stream_inv_def)
    qed
  next
    case (Flush rs fd)
    obtain rc ps out where run: "tcp_send_flush_pending rs fd (w_ps w) = (rc, ps, out)"
      by (metis surj_pair)
    show ?thesis
    proof (cases "0 \<le> fd")
      case True
      note S = flush_props [OF run wf True]
      have "concat (map frame (w_acc w fd)) = (w_out w fd @ out) @ pend ps fd"
        if "\<not> w_failed w fd" "Hard_error \<notin> set rs"
        using S st [OF True that(1)] that(2) by auto
      then show ?thesis
        using S st len run Flush by (auto simp: stream_inv_def)
    next
      case False
      then show ?thesis
        using run wf len st Flush net_negative(2) [of fd rs "w_ps w"] by (auto simp: stream_inv_def)
    qed
  next
    case (Close fd)
    then show ?thesis
      using close_props [OF wf, of fd] st len by (auto simp: stream_inv_def pend_def)
  qed
qed

interpretation sends: stepper net_step stream_inv
  by unfold_locales (rule stream_inv_step)

lemma has_pending_iff: "slot_wf p \<Longrightarrow> has_pending p \<longleftrightarrow> 0 \<le> tp_fd p \<and> rest_of p \<noteq> []"
  by (auto simp: has_pending_def slot_wf_def rest_of_def)

lemma fdset_fold:
  "foldl (\<lambda>(s, m) p. if has_pending p then (insert (tp_fd p) s, max m (tp_fd p)) else (s, m)) (s0, m0) ps
   = (s0 \<union> {tp_fd p |p. p \<in> set ps \<and> has_pending p}, foldl max m0 (map tp_fd (filter has_pending ps)))"
  by (induction ps arbitrary: s0 m0) auto

lemma pending_fds:
  assumes "pending_wf ps"
  shows "{tp_fd p |p. p \<in> set ps \<and> has_pending p} = {fd. 0 \<le> fd \<and> pend ps fd \<noteq> []}"
proof (intro set_eqI iffI)
  fix fd assume "fd \<in> {tp_fd p |p. p \<in> set ps \<and> has_pending p}"
  then obtain i where i: "i < length ps" "has_pending (ps ! i)" "fd = tp_fd (ps ! i)"
    by (auto simp: in_set_conv_nth)
  moreover have "slot_wf (ps ! i)"
    using assms i(1) by (simp add: pending_wf_def)
  ultimately show "fd \<in> {fd. 0 \<le> fd \<and> pend ps fd \<noteq> []}"
    using find_unique(2) [OF assms i(1)] by (simp add: has_pending_iff)
next
  fix fd assume "fd \<in> {fd. 0 \<le> fd \<and> pend ps fd \<noteq> []}"
  then obtain i where i: "tcp_pending_find ps fd = Some i" "0 \<le> fd" "rest_of (ps ! i) \<noteq> []"
    by (auto simp: pend_def split: option.splits)
  note at = find_SomeD [OF i(1)]
  have "slot_wf (ps ! i)"
    using assms at(1) by (simp add: pending_wf_def)
  then have "has_pending (ps ! i)"
    using i at by (simp add: has_pending_iff)
  then show "fd \<in> {tp_fd p |p. p \<in> set ps \<and> has_pending p}"
    using at by (force simp: in_set_conv_nth)
qed

lemma foldl_max: "(m0 :: int) \<le> foldl max m0 xs \<and> (\<forall>x\<in>set xs. x \<le> foldl max m0 xs)"
proof (induction xs arbitrary: m0)
  case (Cons x xs)
  from Cons [of "max m0 x"] show ?case
    by (simp add: le_max_iff_disj)
qed simp

subsection \<open>Properties\<close>

text \<open>Whatever frames are sent, flushed and closed in whatever order, and however many bytes
  each send takes, what went out on a descriptor and what is still pending on it are together
  exactly the accepted frames, whole and in order, as long as no send on it failed.\<close>

lemma tcp_stream_frames:
  assumes "w = foldl net_step net_start es" and "0 \<le> fd" and "\<not> w_failed w fd"
  shows "w_out w fd @ pend (w_ps w) fd = concat (map frame (w_acc w fd))"
  using sends.inv_run [OF stream_inv_start, of es] assms by (auto simp: stream_inv_def)


text \<open>However the bytes of a stream of frames arrive, split or joined anywhere and with any
  pauses, the reader's calls hand out exactly those frames, in order, when each call is given
  the buffer the one before it left.\<close>

lemma tcp_frames_delivered:
  assumes "length b < 65536" and "sock_up s" and "sock_bytes s = concat (map frame ds)"
    and "\<forall>d\<in>set ds. 0 < length d \<and> length d \<le> length b" and "length ds + pauses s \<le> k"
  shows "recv_run k (length b) b recv_zero s = ds"
  using assms by (intro recv_run_frames) (simp_all add: recv_ok_zero)



lemma send_buf_room: "9216 \<le> TCP_SEND_BUF_SIZE"
  by (simp add: TCP_SEND_BUF_SIZE_def TUN_PACKET_MAX_def)

lemma first_send:
  "net_tcp_send_frame_ex True [] [Sent 5] 5 [7, 8, 9] tcp_pending_init =
     (0, True, tcp_pending_init[0 := \<lparr>tp_fd = - 1,
        tp_buf = Some (overwrite (frame [7, 8, 9]) (replicate TCP_SEND_BUF_SIZE 0)), tp_len = 0, tp_offset = 0\<rparr>],
      frame [7, 8, 9])"
proof -
  have scan: "acquire_scan k (replicate n pending_free) (Some j) = Some j" for k n j
    by (induction n arbitrary: k) (simp_all add: pending_free_def)
  have cons: "tcp_pending_init = pending_free # replicate FD_SETSIZE pending_free"
    by (simp add: tcp_pending_init_def TCP_PENDING_SLOTS_def)
  have free: "tcp_pending_init ! i = pending_free" if "i < length tcp_pending_init" for i
    using that by (simp add: tcp_pending_init_def)
  have none: "tcp_pending_find tcp_pending_init 5 = None"
    unfolding pending_find_None using free by (simp add: pending_free_def)
  have len: "0 < length tcp_pending_init"
    by (simp add: cons)
  have acq: "tcp_pending_acquire True tcp_pending_init 5 = Some (0, tcp_pending_init[0 :=
      \<lparr>tp_fd = 5, tp_buf = Some (replicate TCP_SEND_BUF_SIZE 0), tp_len = 0, tp_offset = 0\<rparr>])"
    by (simp add: tcp_pending_acquire_def cons scan) (simp add: pending_free_def)
  let ?slot = "\<lparr>tp_fd = 5, tp_buf = Some (overwrite (frame [7, 8, 9]) (replicate TCP_SEND_BUF_SIZE 0)),
     tp_len = 5, tp_offset = 0\<rparr>"
  have "tcp_pending_find (tcp_pending_init[0 := ?slot]) 5 = Some 0"
    by (rule find_update_none [OF none len]) simp
  then have "tcp_send_flush_pending [Sent 5] 5 (tcp_pending_init[0 := ?slot]) =
      (0, tcp_pending_init[0 := tcp_pending_release (?slot\<lparr>tp_offset := 5\<rparr>)], frame [7, 8, 9])"
    using len by (simp add: tcp_send_flush_pending_def flush_loop_eqs buf_of_def overwrite_def frame_def)
  then show ?thesis
    using len none send_buf_room by (simp add: net_tcp_send_frame_ex_def acq
        tcp_send_flush_pending_def [of "[]"] frame_def buf_of_def tcp_pending_release_def)
qed


text \<open>The write set given to \<open>select\<close> is exactly the descriptors with unsent data (beside the
  ones already in it), and the highest descriptor returned covers them all.\<close>

lemma net_fdset_exact:
  assumes "pending_wf ps" and "net_tcp_pending_fdset ps s0 m0 = (s, m)"
  shows "s = s0 \<union> {fd. 0 \<le> fd \<and> pend ps fd \<noteq> []} \<and> m0 \<le> m \<and> (\<forall>fd. 0 \<le> fd \<and> pend ps fd \<noteq> [] \<longrightarrow> fd \<le> m)"
proof -
  have s: "s = s0 \<union> {tp_fd p |p. p \<in> set ps \<and> has_pending p}" and m: "m = foldl max m0 (map tp_fd (filter has_pending ps))"
    using assms(2) by (simp_all add: net_tcp_pending_fdset_def fdset_fold)
  have "fd \<le> m" if "0 \<le> fd \<and> pend ps fd \<noteq> []" for fd
  proof -
    have "fd \<in> {tp_fd p |p. p \<in> set ps \<and> has_pending p}"
      unfolding pending_fds [OF assms(1)] using that by simp
    then show ?thesis
      using foldl_max [of m0 "map tp_fd (filter has_pending ps)"] by (auto simp: m)
  qed
  then show ?thesis
    using foldl_max [of m0] s pending_fds [OF assms(1)] by (simp add: m)
qed

definition one_pending :: "tcp_pending list" where
  "one_pending = [\<lparr>tp_fd = 4, tp_buf = Some (replicate TCP_SEND_BUF_SIZE 0), tp_len = 7, tp_offset = 3\<rparr>]"


text \<open>The wait for a TCP connection ends after at most five \<open>select\<close> calls of a second, and a
  connection counts as made only when the last of them said so.\<close>

lemma connect_wait_bounded:
  assumes "connect_wait env 0 = (r, run, n)"
  shows "0 < n \<and> n \<le> CAMEX_TCP_CONNECT_TIMEOUT \<and> env (n - 1) = (r, run)"
  using connect_wait_steps [OF _ assms] by (simp add: CAMEX_TCP_CONNECT_TIMEOUT_def)


end
