(* ===== verification/Packet.thy ===== *)
theory Packet
  imports Net
begin

text \<open>
  \<open>src/packet.c\<close>: the packet backend behind the event loop.  The backends themselves (the TUN
  device of \<open>src/tun.c\<close>, a host application's) are known by a number; what they answer is an
  argument, and the calls made to them are recorded in the order they are made.
\<close>

subsection \<open>Model\<close>

datatype backend_call =
    Call_open nat bool
  | Call_fd nat
  | Call_read nat
  | Call_write nat
  | Call_close nat

record packet_state =
  pk_backend :: nat
  pk_open :: bool
  pk_calls :: "backend_call list"

definition CAMEX_TUN_BACKEND :: nat where "CAMEX_TUN_BACKEND = 0"

definition packet_start :: packet_state where
  "packet_start = \<lparr>pk_backend = CAMEX_TUN_BACKEND, pk_open = False, pk_calls = []\<rparr>"

definition pk_call :: "backend_call \<Rightarrow> packet_state \<Rightarrow> packet_state" where
  "pk_call c s = s\<lparr>pk_calls := pk_calls s @ [c]\<rparr>"

text \<open>\<open>provided\<close>, \<open>accepted\<close>: descriptors of the provider and of \<open>CAMEX_TUN_FD\<close>; \<open>created\<close>: result
  of creating the device.\<close>

definition tun_backend_open :: "bool \<Rightarrow> int \<Rightarrow> int \<Rightarrow> int \<Rightarrow> int" where
  "tun_backend_open use_provider provided accepted created =
     (if use_provider \<and> provided \<ge> 0 then 0 else if accepted \<ge> 0 then 0 else created)"

definition packet_backend_set :: "nat option \<Rightarrow> packet_state \<Rightarrow> int \<times> packet_state" where
  "packet_backend_set b s =
     (if pk_open s then (- 1, s)
      else (0, s\<lparr>pk_backend := (case b of None \<Rightarrow> CAMEX_TUN_BACKEND | Some n \<Rightarrow> n)\<rparr>))"

text \<open>\<open>rc\<close>: what the backend's \<open>open\<close> returns; \<open>fd\<close>: its descriptor.\<close>

definition packet_open :: "int \<Rightarrow> int \<Rightarrow> packet_state \<Rightarrow> int \<times> packet_state" where
  "packet_open rc fd s =
     (if pk_open s then (- 1, s)
      else (let s1 = pk_call (Call_open (pk_backend s) (rc = 0)) s
            in if rc \<noteq> 0 then (rc, s1)
               else (let s2 = pk_call (Call_fd (pk_backend s)) s1
                     in if fd \<ge> int FD_SETSIZE then (- 1, pk_call (Call_close (pk_backend s)) s2)
                        else (0, s2\<lparr>pk_open := True\<rparr>))))"

definition packet_read :: "int \<Rightarrow> packet_state \<Rightarrow> int \<times> packet_state" where
  "packet_read r s = (if pk_open s then (r, pk_call (Call_read (pk_backend s)) s) else (- 1, s))"

definition packet_write :: "int \<Rightarrow> packet_state \<Rightarrow> int \<times> packet_state" where
  "packet_write r s = (if pk_open s then (r, pk_call (Call_write (pk_backend s)) s) else (- 1, s))"

definition packet_fd :: "int \<Rightarrow> packet_state \<Rightarrow> int \<times> packet_state" where
  "packet_fd r s = (if pk_open s then (r, pk_call (Call_fd (pk_backend s)) s) else (- 1, s))"

definition packet_close :: "packet_state \<Rightarrow> packet_state" where
  "packet_close s = (if \<not> pk_open s then s else (pk_call (Call_close (pk_backend s)) s)\<lparr>pk_open := False\<rparr>)"

text \<open>Any caller, any answers of the backends.\<close>

inductive pk_step :: "packet_state \<Rightarrow> packet_state \<Rightarrow> bool" where
  pk_set: "packet_backend_set b s = (r, t) \<Longrightarrow> pk_step s t"
| pk_opened: "packet_open rc fd s = (r, t) \<Longrightarrow> pk_step s t"
| pk_read: "packet_read n s = (r, t) \<Longrightarrow> pk_step s t"
| pk_write: "packet_write n s = (r, t) \<Longrightarrow> pk_step s t"
| pk_fd: "packet_fd n s = (r, t) \<Longrightarrow> pk_step s t"
| pk_close: "t = packet_close s \<Longrightarrow> pk_step s t"

inductive pk_reach :: "packet_state \<Rightarrow> bool" where
  pk_start: "pk_reach packet_start"
| pk_more: "pk_reach s \<Longrightarrow> pk_step s t \<Longrightarrow> pk_reach t"

subsection \<open>The contract of a backend\<close>

text \<open>
  What a backend may rely on: opened when nothing is open, used only while it is the open one,
  closed once.  The state is the open backend, \<open>None\<close> in \<open>Some None\<close> when there is none.
\<close>

fun backend_step :: "nat option \<Rightarrow> backend_call \<Rightarrow> nat option option" where
  "backend_step None (Call_open b ok) = Some (if ok then Some b else None)"
| "backend_step (Some b) (Call_fd c) = (if b = c then Some (Some b) else None)"
| "backend_step (Some b) (Call_read c) = (if b = c then Some (Some b) else None)"
| "backend_step (Some b) (Call_write c) = (if b = c then Some (Some b) else None)"
| "backend_step (Some b) (Call_close c) = (if b = c then Some None else None)"
| "backend_step _ _ = None"

fun backend_run :: "nat option \<Rightarrow> backend_call list \<Rightarrow> nat option option" where
  "backend_run st [] = Some st"
| "backend_run st (c # cs) = (case backend_step st c of None \<Rightarrow> None | Some st' \<Rightarrow> backend_run st' cs)"

lemma backend_run_append:
  "backend_run st (a @ b) = (case backend_run st a of None \<Rightarrow> None | Some st' \<Rightarrow> backend_run st' b)"
  by (induction a arbitrary: st) (simp_all split: option.splits)

definition pk_inv :: "packet_state \<Rightarrow> bool" where
  "pk_inv s \<longleftrightarrow> backend_run None (pk_calls s) = Some (if pk_open s then Some (pk_backend s) else None)"

lemmas pk_ops = packet_backend_set_def packet_open_def packet_read_def packet_write_def packet_fd_def
  packet_close_def pk_call_def

lemma pk_inv_step: "pk_step s t \<Longrightarrow> pk_inv s \<Longrightarrow> pk_inv t"
  by (induction rule: pk_step.induct) (auto simp: pk_ops pk_inv_def backend_run_append Let_def split: if_splits)

text \<open>Whatever the caller does and the backends answer, the calls a backend sees keep its contract:
  it is opened only when none is open, read, written and asked for its descriptor only while it
  is the open one, and closed exactly once; the module knows at every moment which one is open.\<close>

lemma packet_backend_contract:
  assumes "pk_reach s"
  shows "backend_run None (pk_calls s) = Some (if pk_open s then Some (pk_backend s) else None)"
  using assms
proof (induction rule: pk_reach.induct)
  case pk_start
  then show ?case by (simp add: packet_start_def)
next
  case (pk_more s t)
  then show ?case
    using pk_inv_step by (simp add: pk_inv_def)
qed


end
