(* ===== verification/Leases.thy ===== *)
theory Leases
  imports Slotidx
begin

text \<open>
  The address leases of \<open>src/server.c\<close>: an auto client that ends keeps its tunnel address under
  its ID.  A slot table with two indexes, by address and by client ID.
\<close>

subsection \<open>Model\<close>

record lease =
  l_id :: string
  l_ip :: u32
  l_since :: int
  l_prev :: bool

definition lease_zero :: lease where
  "lease_zero = \<lparr>l_id = [], l_ip = 0, l_since = 0, l_prev = False\<rparr>"

text \<open>\<open>lt_leases\<close> is \<open>server_leases[0..server_lease_cap)\<close>.\<close>

record lease_table =
  lt_leases :: "lease list"
  lt_idx_ip :: slotidx
  lt_idx_id :: slotidx
  lt_ok :: bool
  lt_used :: nat
  lt_next :: nat

definition SERVER_LEASE_MAX :: nat where "SERVER_LEASE_MAX = 2 ^ 20"

definition match_lease_ip :: "lease_table \<Rightarrow> u32 \<Rightarrow> nat \<Rightarrow> bool" where
  "match_lease_ip t ip slot \<longleftrightarrow> ip \<noteq> 0 \<and> slot < length (lt_leases t) \<and> l_ip (lt_leases t ! slot) = ip"

definition match_lease_id :: "lease_table \<Rightarrow> string \<Rightarrow> nat \<Rightarrow> bool" where
  "match_lease_id t key slot \<longleftrightarrow> slot < length (lt_leases t) \<and> l_ip (lt_leases t ! slot) \<noteq> 0
     \<and> \<not> l_prev (lt_leases t ! slot) \<and> strcaseeq (l_id (lt_leases t ! slot)) key"

text \<open>The two insertions of one lease: \<open>lt_ok\<close> falls when one fails.\<close>

definition lease_enter :: "(u32 \<Rightarrow> bool) \<Rightarrow> nat \<Rightarrow> lease_table \<Rightarrow> lease_table" where
  "lease_enter mem i t =
     (let l = lt_leases t ! i
      in case slotidx_enter mem (lt_idx_ip t) (slotidx_hash_u32 (l_ip l)) i of
           (False, x) \<Rightarrow> t\<lparr>lt_idx_ip := x, lt_ok := False\<rparr>
         | (True, x) \<Rightarrow>
             (case slotidx_enter mem (lt_idx_id t) (slotidx_hash_nocase (l_id l)) i of
                (ok, y) \<Rightarrow> t\<lparr>lt_idx_ip := x, lt_idx_id := y, lt_ok := ok\<rparr>))"

fun lease_index_loop :: "(u32 \<Rightarrow> bool) \<Rightarrow> nat list \<Rightarrow> lease_table \<Rightarrow> lease_table" where
  "lease_index_loop mem [] t = t"
| "lease_index_loop mem (i # is) t =
     (if \<not> lt_ok t then t
      else lease_index_loop mem is (if l_ip (lt_leases t ! i) \<noteq> 0 then lease_enter mem i t else t))"

definition server_lease_index_rebuild :: "(u32 \<Rightarrow> bool) \<Rightarrow> lease_table \<Rightarrow> lease_table" where
  "server_lease_index_rebuild mem t =
     (let n = length (lt_leases t)
      in case slotidx_reset mem (lt_idx_ip t) n of
           (False, x) \<Rightarrow> t\<lparr>lt_idx_ip := x, lt_ok := False\<rparr>
         | (True, x) \<Rightarrow>
             (case slotidx_reset mem (lt_idx_id t) n of
                (ok, y) \<Rightarrow> lease_index_loop mem [0..<n] (t\<lparr>lt_idx_ip := x, lt_idx_id := y, lt_ok := ok\<rparr>)))"

definition server_lease_by_ip :: "lease_table \<Rightarrow> u32 \<Rightarrow> nat option" where
  "server_lease_by_ip t ip =
     (if ip = 0 then None
      else if lt_ok t then slotidx_lookup (lt_idx_ip t) (slotidx_hash_u32 ip) (match_lease_ip t ip)
      else scan_first (length (lt_leases t)) (match_lease_ip t ip))"

definition server_lease_by_id :: "lease_table \<Rightarrow> string \<Rightarrow> nat option" where
  "server_lease_by_id t client_id =
     (if client_id = [] then None
      else if lt_ok t then slotidx_lookup (lt_idx_id t) (slotidx_hash_nocase client_id) (match_lease_id t client_id)
      else scan_first (length (lt_leases t)) (match_lease_id t client_id))"

definition server_lease_drop :: "nat option \<Rightarrow> lease_table \<Rightarrow> lease_table" where
  "server_lease_drop k t =
     (case k of
        None \<Rightarrow> t
      | Some i \<Rightarrow>
          (if l_ip (lt_leases t ! i) \<noteq> 0
           then t\<lparr>lt_leases := (lt_leases t)[i := lease_zero], lt_used := lt_used t - 1\<rparr> else t))"

definition server_lease_allows :: "lease_table \<Rightarrow> u32 \<Rightarrow> string \<Rightarrow> bool" where
  "server_lease_allows t ip client_id =
     (case server_lease_by_ip t ip of
        None \<Rightarrow> True
      | Some i \<Rightarrow> strcaseeq (l_id (lt_leases t ! i)) client_id)"

text \<open>The free slot from the cursor, and the oldest lease (the first of the oldest).\<close>

definition lease_free_slot :: "lease_table \<Rightarrow> nat option" where
  "lease_free_slot t =
     (let cap = length (lt_leases t)
      in List.find (\<lambda>k. l_ip (lt_leases t ! k) = 0) (map (\<lambda>i. (lt_next t + i) mod cap) [0..<cap]))"

definition lease_oldest :: "lease_table \<Rightarrow> nat option" where
  "lease_oldest t =
     foldl (\<lambda>b i. case b of None \<Rightarrow> Some i
            | Some j \<Rightarrow> (if l_since (lt_leases t ! i) < l_since (lt_leases t ! j) then Some i else Some j))
       None [0..<length (lt_leases t)]"

text \<open>The slot a new lease goes to: a free one, the oldest, or the first of a grown table.\<close>

definition lease_pick :: "lease_table \<Rightarrow> lease_table \<times> nat" where
  "lease_pick t =
     (let cap = length (lt_leases t)
      in case (if lt_used t < cap then lease_free_slot t else None) of
           Some k \<Rightarrow> (t\<lparr>lt_next := (k + 1) mod cap\<rparr>, k)
         | None \<Rightarrow> (t, the (lease_oldest t)))"

definition lease_grow_cap :: "nat \<Rightarrow> nat \<Rightarrow> nat" where
  "lease_grow_cap pool cap =
     (let limit = (if pool > SERVER_LEASE_MAX then SERVER_LEASE_MAX else pool)
      in if cap * 2 > limit then limit else cap * 2)"

text \<open>\<open>grow n\<close>: \<open>realloc\<close> gives a table of \<open>n\<close> leases.\<close>

definition lease_grow ::
  "(nat \<Rightarrow> bool) \<Rightarrow> nat \<Rightarrow> int \<Rightarrow> int \<Rightarrow> lease_table \<times> nat \<Rightarrow> lease_table \<times> nat" where
  "lease_grow grow pool lease_min now tk =
     (case tk of (t, k) \<Rightarrow>
        (let cap = length (lt_leases t); cap' = lease_grow_cap pool cap; l = lt_leases t ! k
         in if l_ip l \<noteq> 0 \<and> now - l_since l < lease_min \<and> cap' > cap \<and> grow cap'
            then (t\<lparr>lt_leases := lt_leases t @ replicate (cap' - cap) lease_zero,
                    lt_next := cap + 1, lt_ok := False\<rparr>, cap)
            else (t, k)))"

definition lease_index_new :: "(u32 \<Rightarrow> bool) \<Rightarrow> nat \<Rightarrow> lease_table \<Rightarrow> lease_table" where
  "lease_index_new mem k t =
     (let n = length (lt_leases t)
      in if \<not> lt_ok t \<or> slotidx_crowded (lt_idx_ip t) n \<or> slotidx_crowded (lt_idx_id t) n
         then server_lease_index_rebuild mem t
         else (let t1 = lease_enter mem k t
               in if lt_ok t1 then t1 else server_lease_index_rebuild mem t1))"

definition lease_store :: "string \<Rightarrow> u32 \<Rightarrow> int \<Rightarrow> bool \<Rightarrow> lease_table \<times> nat \<Rightarrow> lease_table" where
  "lease_store client_id ip since prev tk =
     (case tk of (t, k) \<Rightarrow>
        t\<lparr>lt_leases := (lt_leases t)[k := \<lparr>l_id = fit 32 client_id, l_ip = ip, l_since = since, l_prev = prev\<rparr>],
          lt_used := (if l_ip (lt_leases t ! k) = 0 then lt_used t + 1 else lt_used t)\<rparr>)"

text \<open>
  \<open>server_lease_add\<close>: \<open>pool\<close> is the pool's size, \<open>lease_min\<close> \<open>SERVER_LEASE_MIN\<close>, \<open>since\<close> the time
  to store (\<open>g_now\<close>, or the clock before the first tick).
\<close>

definition server_lease_add ::
  "(u32 \<Rightarrow> bool) \<Rightarrow> (nat \<Rightarrow> bool) \<Rightarrow> nat \<Rightarrow> int \<Rightarrow> int \<Rightarrow> int \<Rightarrow> string \<Rightarrow> u32 \<Rightarrow> bool \<Rightarrow> lease_table \<Rightarrow> lease_table" where
  "server_lease_add mem grow pool lease_min now since client_id ip prev t =
     (if lt_leases t = [] \<or> ip = 0 \<or> client_id = [] then t
      else let t1 = (if prev then t else server_lease_drop (server_lease_by_id t client_id) t);
               t2 = server_lease_drop (server_lease_by_ip t1 ip) t1;
               (t3, k) = lease_grow grow pool lease_min now (lease_pick t2)
           in lease_index_new mem k (lease_store client_id ip since prev (t3, k)))"

subsection \<open>Entries that an index must hold\<close>

definition indexed :: "slotidx \<Rightarrow> (u32 \<times> nat) set \<Rightarrow> bool" where
  "indexed x K \<longleftrightarrow> slotidx_inv x \<and> K \<subseteq> slotidx_entries x"

abbreviation room_used :: "slotidx \<Rightarrow> nat" where
  "room_used x \<equiv> unat (sx_used x)"

lemma indexed_enter:
  assumes "indexed x K" and "room_used x < SLOTIDX_ROOM" and "s < 2 ^ 32 - 1"
    and "slotidx_enter mem x h s = (ok, y)"
  shows "indexed y K \<and> (ok \<longrightarrow> indexed y (insert (h, s) K)) \<and> room_used y \<le> Suc (room_used x)"
  using slotidx_enter_ok [OF _ assms(2-4)] assms(1) by (auto simp: indexed_def)

lemma indexed_reset:
  assumes "slotidx_inv x" and "slotidx_reset mem x n = (ok, y)"
  shows "indexed y {}" and "room_used y = 0"
  using idx.reset_inv [OF assms] by (simp_all add: indexed_def)

lemma indexed_subset: "indexed x K \<Longrightarrow> K' \<subseteq> K \<Longrightarrow> indexed x K'"
  by (auto simp: indexed_def)

lemma indexed_scan:
  assumes "indexed x K" and "\<And>i. P i \<Longrightarrow> i < n" and "\<And>i. P i \<Longrightarrow> (h, i) \<in> K"
  shows "slotidx_lookup x h P = scan_first n P"
  using assms by (intro slotidx_lookup_scan) (auto simp: indexed_def)

lemma not_crowded: "\<not> slotidx_crowded x n \<Longrightarrow> room_used x \<le> 2 * n + 16"
  by (simp add: slotidx_crowded_def SLOTIDX_MIN_BUCKETS_def)

subsection \<open>The indexes hold every lease\<close>

definition ip_key :: "lease \<Rightarrow> nat \<Rightarrow> u32 \<times> nat" where
  "ip_key l i = (slotidx_hash_u32 (l_ip l), i)"

definition id_key :: "lease \<Rightarrow> nat \<Rightarrow> u32 \<times> nat" where
  "id_key l i = (slotidx_hash_nocase (l_id l), i)"

text \<open>The keys of the leases in the slots \<open>I\<close>.\<close>

definition lease_keys :: "(lease \<Rightarrow> nat \<Rightarrow> u32 \<times> nat) \<Rightarrow> lease list \<Rightarrow> nat set \<Rightarrow> (u32 \<times> nat) set" where
  "lease_keys key ls I = {key (ls ! i) i |i. i \<in> I \<and> i < length ls \<and> l_ip (ls ! i) \<noteq> 0}"

definition lease_indexed :: "lease_table \<Rightarrow> nat set \<Rightarrow> bool" where
  "lease_indexed t I \<longleftrightarrow> indexed (lt_idx_ip t) (lease_keys ip_key (lt_leases t) I) \<and>
     indexed (lt_idx_id t) (lease_keys id_key (lt_leases t) I)"

definition lease_idx_inv :: "lease_table \<Rightarrow> bool" where
  "lease_idx_inv t \<longleftrightarrow> slotidx_inv (lt_idx_ip t) \<and> slotidx_inv (lt_idx_id t) \<and>
     length (lt_leases t) \<le> SERVER_LEASE_MAX \<and> (lt_ok t \<longrightarrow> lease_indexed t UNIV)"

lemma lease_keys_insert:
  "lease_keys key ls (insert i I) =
     (if i < length ls \<and> l_ip (ls ! i) \<noteq> 0 then insert (key (ls ! i) i) (lease_keys key ls I) else lease_keys key ls I)"
  by (auto simp: lease_keys_def)

lemma lease_keys_bound: "\<forall>i<length ls. i \<in> I \<or> l_ip (ls ! i) = 0 \<Longrightarrow> lease_keys key ls UNIV = lease_keys key ls I"
  by (auto simp: lease_keys_def)

lemma lease_enter_props:
  assumes t: "lease_indexed t I" and i: "i < length (lt_leases t)" "l_ip (lt_leases t ! i) \<noteq> 0"
    and len: "length (lt_leases t) \<le> SERVER_LEASE_MAX"
    and room: "room_used (lt_idx_ip t) < SLOTIDX_ROOM" "room_used (lt_idx_id t) < SLOTIDX_ROOM"
  shows "lt_leases (lease_enter mem i t) = lt_leases t \<and> lt_used (lease_enter mem i t) = lt_used t \<and>
    lt_next (lease_enter mem i t) = lt_next t \<and>
    slotidx_inv (lt_idx_ip (lease_enter mem i t)) \<and> slotidx_inv (lt_idx_id (lease_enter mem i t)) \<and>
    room_used (lt_idx_ip (lease_enter mem i t)) \<le> Suc (room_used (lt_idx_ip t)) \<and>
    room_used (lt_idx_id (lease_enter mem i t)) \<le> Suc (room_used (lt_idx_id t)) \<and>
    (lt_ok (lease_enter mem i t) \<longrightarrow> lease_indexed (lease_enter mem i t) (insert i I))"
proof -
  let ?l = "lt_leases t ! i"
  have s: "i < 2 ^ 32 - 1"
    using i(1) len by (simp add: SERVER_LEASE_MAX_def)
  obtain ok1 x where e1: "slotidx_enter mem (lt_idx_ip t) (slotidx_hash_u32 (l_ip ?l)) i = (ok1, x)"
    by fastforce
  obtain ok2 y where e2: "slotidx_enter mem (lt_idx_id t) (slotidx_hash_nocase (l_id ?l)) i = (ok2, y)"
    by fastforce
  have t1: "indexed (lt_idx_ip t) (lease_keys ip_key (lt_leases t) I)" "indexed (lt_idx_id t) (lease_keys id_key (lt_leases t) I)"
    using t by (simp_all add: lease_indexed_def)
  note x = indexed_enter [OF t1(1) room(1) s e1] and y = indexed_enter [OF t1(2) room(2) s e2]
  have xi: "slotidx_inv x" "slotidx_inv y" "slotidx_inv (lt_idx_id t)"
    using x y t1 by (simp_all add: indexed_def)
  show ?thesis
  proof (cases ok1)
    case False
    then have "lease_enter mem i t = t\<lparr>lt_idx_ip := x, lt_ok := False\<rparr>"
      using e1 by (simp add: lease_enter_def Let_def)
    then show ?thesis
      using x xi by simp
  next
    case True
    then have e: "lease_enter mem i t = t\<lparr>lt_idx_ip := x, lt_idx_id := y, lt_ok := ok2\<rparr>"
      using e1 e2 by (simp add: lease_enter_def Let_def)
    show ?thesis
      unfolding e using x y xi True i
      by (simp add: lease_indexed_def lease_keys_insert ip_key_def id_key_def)
  qed
qed

lemma lease_index_loop_props:
  assumes "lt_ok t \<longrightarrow> lease_indexed t {..<k}" and "slotidx_inv (lt_idx_ip t)" "slotidx_inv (lt_idx_id t)"
    and "room_used (lt_idx_ip t) \<le> k" "room_used (lt_idx_id t) \<le> k" and "k + m = length (lt_leases t)"
    and "length (lt_leases t) \<le> SERVER_LEASE_MAX" and "t' = lease_index_loop mem [k..<k + m] t"
  shows "lease_idx_inv t' \<and> lt_leases t' = lt_leases t \<and> lt_used t' = lt_used t \<and> lt_next t' = lt_next t"
  using assms
proof (induction m arbitrary: k t)
  case 0
  have "lease_keys key (lt_leases t) UNIV = lease_keys key (lt_leases t) {..<k}" for key
    by (rule lease_keys_bound) (use 0 in auto)
  then show ?case
    using 0 by (simp add: lease_idx_inv_def lease_indexed_def)
next
  case (Suc m)
  let ?t = "if l_ip (lt_leases t ! k) \<noteq> 0 then lease_enter mem k t else t"
  have upt: "[k..<k + Suc m] = k # [Suc k..<Suc k + m]"
    by (simp add: upt_conv_Cons del: upt_Suc)
  show ?case
  proof (cases "lt_ok t")
    case False
    then have "t' = t"
      using Suc.prems(8) unfolding upt by simp
    then show ?thesis
      using Suc.prems(2,3,7) False by (simp add: lease_idx_inv_def)
  next
    case True
    have t': "t' = lease_index_loop mem [Suc k..<Suc k + m] ?t"
      using Suc.prems(8) True unfolding upt by simp
    have room: "room_used (lt_idx_ip t) < SLOTIDX_ROOM" "room_used (lt_idx_id t) < SLOTIDX_ROOM"
      using Suc.prems(4-7) by (simp_all add: SLOTIDX_ROOM_def SERVER_LEASE_MAX_def)
    have k: "k < length (lt_leases t)"
      using Suc.prems(6) by simp
    have "lt_leases ?t = lt_leases t \<and> lt_used ?t = lt_used t \<and> lt_next ?t = lt_next t \<and>
        slotidx_inv (lt_idx_ip ?t) \<and> slotidx_inv (lt_idx_id ?t) \<and>
        room_used (lt_idx_ip ?t) \<le> Suc k \<and> room_used (lt_idx_id ?t) \<le> Suc k \<and>
        (lt_ok ?t \<longrightarrow> lease_indexed ?t {..<Suc k})"
    proof (cases "l_ip (lt_leases t ! k) = 0")
      case zero: True
      then have "lease_indexed t {..<Suc k} = lease_indexed t {..<k}"
        by (simp add: lease_indexed_def lessThan_Suc lease_keys_insert)
      then show ?thesis
        using zero Suc.prems by simp
    next
      case False
      have "lease_indexed t {..<k}"
        using True Suc.prems(1) by blast
      from lease_enter_props [OF this k False Suc.prems(7) room, of mem] show ?thesis
        using False Suc.prems(4,5) by (simp add: lessThan_Suc)
    qed
    then show ?thesis
      using Suc.IH [of ?t "Suc k"] Suc.prems(6,7) t' by (simp del: upt_Suc)
  qed
qed

lemma lease_rebuild_props:
  assumes inv: "slotidx_inv (lt_idx_ip t)" "slotidx_inv (lt_idx_id t)" and len: "length (lt_leases t) \<le> SERVER_LEASE_MAX"
    and r: "t' = server_lease_index_rebuild mem t"
  shows "lease_idx_inv t' \<and> lt_leases t' = lt_leases t \<and> lt_used t' = lt_used t \<and> lt_next t' = lt_next t"
proof -
  let ?n = "length (lt_leases t)"
  obtain ok1 x where e1: "slotidx_reset mem (lt_idx_ip t) ?n = (ok1, x)"
    by fastforce
  obtain ok2 y where e2: "slotidx_reset mem (lt_idx_id t) ?n = (ok2, y)"
    by fastforce
  note x = indexed_reset [OF inv(1) e1] and y = indexed_reset [OF inv(2) e2]
  show ?thesis
  proof (cases ok1)
    case False
    then have "t' = t\<lparr>lt_idx_ip := x, lt_ok := False\<rparr>"
      using r e1 by (simp add: server_lease_index_rebuild_def)
    then show ?thesis
      using x inv len by (simp add: lease_idx_inv_def indexed_def)
  next
    case True
    let ?t = "t\<lparr>lt_idx_ip := x, lt_idx_id := y, lt_ok := ok2\<rparr>"
    have "t' = lease_index_loop mem [0..<0 + ?n] ?t"
      using r e1 e2 True by (simp add: server_lease_index_rebuild_def)
    moreover have "lease_indexed ?t {..<0}"
      using x y by (simp add: lease_indexed_def lease_keys_def)
    ultimately show ?thesis
      using lease_index_loop_props [of ?t 0 ?n t' mem] x y len by (cases ok2) (simp_all add: indexed_def)
  qed
qed

lemma lease_lookup:
  assumes "lease_idx_inv t"
  shows "server_lease_by_ip t ip = scan_first (length (lt_leases t)) (match_lease_ip t ip)"
    and "client_id \<noteq> [] \<Longrightarrow>
      server_lease_by_id t client_id = scan_first (length (lt_leases t)) (match_lease_id t client_id)"
proof -
  let ?n = "length (lt_leases t)"
  have zero: "scan_first ?n (match_lease_ip t 0) = None"
    by (simp add: scan_first_None_iff match_lease_ip_def)
  have "slotidx_lookup (lt_idx_ip t) (slotidx_hash_u32 ip) (match_lease_ip t ip) = scan_first ?n (match_lease_ip t ip)"
    if "lt_ok t"
  proof (rule indexed_scan)
    show "indexed (lt_idx_ip t) (lease_keys ip_key (lt_leases t) UNIV)"
      using assms that by (simp add: lease_idx_inv_def lease_indexed_def)
  qed (auto simp: match_lease_ip_def lease_keys_def ip_key_def)
  then show "server_lease_by_ip t ip = scan_first ?n (match_lease_ip t ip)"
    using zero by (auto simp: server_lease_by_ip_def)
  assume "client_id \<noteq> []"
  moreover have "slotidx_lookup (lt_idx_id t) (slotidx_hash_nocase client_id) (match_lease_id t client_id)
      = scan_first ?n (match_lease_id t client_id)" if "lt_ok t"
  proof (rule indexed_scan)
    show "indexed (lt_idx_id t) (lease_keys id_key (lt_leases t) UNIV)"
      using assms that by (simp add: lease_idx_inv_def lease_indexed_def)
  qed (auto simp: match_lease_id_def lease_keys_def id_key_def slotidx_hash_nocase_eq)
  ultimately show "server_lease_by_id t client_id = scan_first ?n (match_lease_id t client_id)"
    by (simp add: server_lease_by_id_def)
qed

subsection \<open>The table\<close>

abbreviation held_lease :: "lease \<Rightarrow> bool" where
  "held_lease l \<equiv> l_ip l \<noteq> 0"

definition lease_ok :: "lease_table \<Rightarrow> bool" where
  "lease_ok t \<longleftrightarrow> lease_idx_inv t \<and> lt_used t = length (filter held_lease (lt_leases t)) \<and>
     (\<forall>i<length (lt_leases t). held_lease (lt_leases t ! i) \<longrightarrow> l_id (lt_leases t ! i) \<noteq> []) \<and>
     (\<forall>i<length (lt_leases t). \<forall>j<length (lt_leases t).
        held_lease (lt_leases t ! i) \<and> l_ip (lt_leases t ! i) = l_ip (lt_leases t ! j) \<longrightarrow> i = j) \<and>
     (\<forall>i<length (lt_leases t). \<forall>j<length (lt_leases t).
        held_lease (lt_leases t ! i) \<and> held_lease (lt_leases t ! j) \<and> \<not> l_prev (lt_leases t ! i) \<and>
        \<not> l_prev (lt_leases t ! j) \<and> strcaseeq (l_id (lt_leases t ! i)) (l_id (lt_leases t ! j)) \<longrightarrow> i = j)"

lemma length_filter_update:
  "i < length xs \<Longrightarrow> length (filter P (xs[i := y])) + (if P (xs ! i) then 1 else 0)
     = length (filter P xs) + (if P y then 1 else 0)"
proof (induction xs arbitrary: i)
  case (Cons x xs)
  then show ?case
    by (cases i) auto
qed simp

lemma lease_okD:
  assumes "lease_ok t"
  shows "lease_idx_inv t" and "lt_used t = length (filter held_lease (lt_leases t))"
    and "i < length (lt_leases t) \<Longrightarrow> held_lease (lt_leases t ! i) \<Longrightarrow> l_id (lt_leases t ! i) \<noteq> []"
    and "i < length (lt_leases t) \<Longrightarrow> j < length (lt_leases t) \<Longrightarrow> held_lease (lt_leases t ! i) \<Longrightarrow>
      l_ip (lt_leases t ! i) = l_ip (lt_leases t ! j) \<Longrightarrow> i = j"
    and "i < length (lt_leases t) \<Longrightarrow> j < length (lt_leases t) \<Longrightarrow> held_lease (lt_leases t ! i) \<Longrightarrow>
      held_lease (lt_leases t ! j) \<Longrightarrow> \<not> l_prev (lt_leases t ! i) \<Longrightarrow> \<not> l_prev (lt_leases t ! j) \<Longrightarrow>
      strcaseeq (l_id (lt_leases t ! i)) (l_id (lt_leases t ! j)) \<Longrightarrow> i = j"
  using assms unfolding lease_ok_def by blast+

lemma lease_zero_ip [simp]: "l_ip lease_zero = 0"
  by (simp add: lease_zero_def)

text \<open>Changing one slot, when the indexes are as they were or down.\<close>

lemma lease_ok_clear:
  assumes ok: "lease_ok t" and i: "i < length (lt_leases t)" "held_lease (lt_leases t ! i)"
  shows "lease_ok (t\<lparr>lt_leases := (lt_leases t)[i := lease_zero], lt_used := lt_used t - 1\<rparr>)"
proof -
  let ?ls = "(lt_leases t)[i := lease_zero]"
  note D = lease_okD [OF ok]
  have at: "?ls ! j = (if j = i then lease_zero else lt_leases t ! j)" if "j < length (lt_leases t)" for j
    using that by simp
  have keys: "lease_keys key ?ls UNIV \<subseteq> lease_keys key (lt_leases t) UNIV" for key
    by (auto simp: lease_keys_def at split: if_splits)
  have idx: "lease_idx_inv (t\<lparr>lt_leases := ?ls, lt_used := lt_used t - 1\<rparr>)"
    using D(1) keys indexed_subset by (auto simp: lease_idx_inv_def lease_indexed_def)
  have count: "lt_used t - 1 = length (filter held_lease ?ls)"
    using length_filter_update [OF i(1), of held_lease lease_zero] i(2) D(2) by simp
  show ?thesis
    unfolding lease_ok_def using idx count D(3,4,5) by (auto simp: at split: if_splits)
qed

lemma server_lease_drop_ok:
  assumes "lease_ok t" and "\<And>i. k = Some i \<Longrightarrow> i < length (lt_leases t)"
  shows "lease_ok (server_lease_drop k t)"
  using assms lease_ok_clear [OF assms(1)] by (auto simp: server_lease_drop_def split: option.splits)

lemma server_lease_drop_nth:
  "lt_leases (server_lease_drop k t) ! j =
     (if k = Some j \<and> j < length (lt_leases t) \<and> held_lease (lt_leases t ! j) then lease_zero else lt_leases t ! j)"
  "length (lt_leases (server_lease_drop k t)) = length (lt_leases t)"
  by (auto simp: server_lease_drop_def nth_update split: option.splits)

lemma by_ip_Some_iff:
  assumes "lease_ok t"
  shows "server_lease_by_ip t ip = Some i \<longleftrightarrow> i < length (lt_leases t) \<and> ip \<noteq> 0 \<and> l_ip (lt_leases t ! i) = ip"
proof -
  have "server_lease_by_ip t ip = scan_first (length (lt_leases t)) (match_lease_ip t ip)"
    using lease_lookup(1) lease_okD(1) [OF assms] by blast
  then show ?thesis
    using lease_okD(4) [OF assms] by (auto simp: scan_first_Some_iff match_lease_ip_def)
qed

lemma by_id_Some_iff:
  assumes "lease_ok t" and "w \<noteq> []"
  shows "server_lease_by_id t w = Some i \<longleftrightarrow>
    i < length (lt_leases t) \<and> held_lease (lt_leases t ! i) \<and> \<not> l_prev (lt_leases t ! i) \<and> strcaseeq (l_id (lt_leases t ! i)) w"
proof -
  have eq: "server_lease_by_id t w = scan_first (length (lt_leases t)) (match_lease_id t w)"
    using lease_lookup(2) lease_okD(1) [OF assms(1)] assms(2) by blast
  have un: "j = i" if "match_lease_id t w i" "match_lease_id t w j" for i j
    using lease_okD(5) [OF assms(1), of i j] that strcaseeq_sym strcaseeq_trans unfolding match_lease_id_def by metis
  show ?thesis
    unfolding eq scan_first_Some_iff using un by (auto simp: match_lease_id_def)
qed

lemma lease_free_slot_Some:
  "lease_free_slot t = Some k \<Longrightarrow> k < length (lt_leases t) \<and> l_ip (lt_leases t ! k) = 0"
proof -
  assume "lease_free_slot t = Some k"
  then obtain i where "i < length (lt_leases t)" "k = (lt_next t + i) mod length (lt_leases t)" "l_ip (lt_leases t ! k) = 0"
    by (auto simp: lease_free_slot_def Let_def find_Some_iff)
  moreover from this(1) have "0 < length (lt_leases t)"
    by linarith
  ultimately show ?thesis
    by simp
qed

lemma lease_free_slot_None:
  assumes "lease_free_slot t = None" and "k < length (lt_leases t)"
  shows "held_lease (lt_leases t ! k)"
proof -
  let ?c = "length (lt_leases t)"
  have "\<exists>i<?c. (lt_next t + i) mod ?c = k"
  proof (intro exI conjI)
    let ?i = "(k + (?c - lt_next t mod ?c)) mod ?c"
    show "?i < ?c"
      by (rule mod_less_divisor) (use assms(2) in linarith)
    have "(lt_next t + ?i) mod ?c = (lt_next t mod ?c + (k + (?c - lt_next t mod ?c))) mod ?c"
      by (simp add: mod_simps)
    also have "lt_next t mod ?c + (k + (?c - lt_next t mod ?c)) = k + ?c"
      using mod_less_divisor [of ?c "lt_next t"] le_less_trans [OF le0 assms(2)] by linarith
    finally show "(lt_next t + ?i) mod ?c = k"
      using assms(2) by simp
  qed
  then show ?thesis
    using assms(1) by (auto simp: lease_free_slot_def Let_def find_None_iff)
qed

lemma oldest_fold:
  assumes "f = (\<lambda>b i. case b of None \<Rightarrow> Some i | Some j \<Rightarrow> (if (g i :: int) < g j then Some i else Some j))"
  shows "\<exists>k. foldl f (Some b) is = Some k \<and> (k = b \<or> k \<in> set is) \<and> g k \<le> g b \<and> (\<forall>i\<in>set is. g k \<le> g i)"
proof (induction "is" arbitrary: b)
  case (Cons i js)
  let ?b = "if g i < g b then i else b"
  obtain k where k: "foldl f (Some ?b) js = Some k" "k = ?b \<or> k \<in> set js" "g k \<le> g ?b" "\<forall>j\<in>set js. g k \<le> g j"
    using Cons [of ?b] by blast
  have "foldl f (Some b) (i # js) = Some k"
    using k(1) unfolding assms by (cases "g i < g b") simp_all
  moreover have "k = b \<or> k \<in> set (i # js)" "g k \<le> g b" "\<forall>j\<in>set (i # js). g k \<le> g j"
    using k(2-4) by (auto split: if_splits)
  ultimately show ?case
    by blast
qed simp

lemma lease_oldest_Some:
  assumes "lt_leases t \<noteq> []"
  shows "\<exists>k. lease_oldest t = Some k \<and> k < length (lt_leases t) \<and>
    (\<forall>i<length (lt_leases t). l_since (lt_leases t ! k) \<le> l_since (lt_leases t ! i))"
proof -
  let ?f = "\<lambda>b i. case b of None \<Rightarrow> Some i
            | Some j \<Rightarrow> (if l_since (lt_leases t ! i) < l_since (lt_leases t ! j) then Some i else Some j)"
  obtain n where n: "length (lt_leases t) = Suc n"
    using assms by (cases "lt_leases t") auto
  have "lease_oldest t = foldl ?f (Some 0) [1..<Suc n]"
    unfolding lease_oldest_def n by (subst upt_conv_Cons) simp_all
  moreover obtain k where k: "foldl ?f (Some 0) [1..<Suc n] = Some k" "k = 0 \<or> k \<in> set [1..<Suc n]"
      "l_since (lt_leases t ! k) \<le> l_since (lt_leases t ! 0)"
      "\<forall>i\<in>set [1..<Suc n]. l_since (lt_leases t ! k) \<le> l_since (lt_leases t ! i)"
    using oldest_fold [of ?f "\<lambda>i. l_since (lt_leases t ! i)" 0 "[1..<Suc n]"] by blast
  have "l_since (lt_leases t ! k) \<le> l_since (lt_leases t ! i)" if "i < length (lt_leases t)" for i
    using k(3) bspec [OF k(4), of i] that n by (cases "i = 0") (auto simp: less_Suc_eq)
  ultimately show ?thesis
    using k(1,2) n by auto
qed

subsection \<open>Adding a lease\<close>

lemma lease_pick_props:
  assumes ok: "lease_ok t" and ne: "lt_leases t \<noteq> []" and pick: "lease_pick t = (t', k)"
  shows "\<exists>n. t' = t\<lparr>lt_next := n\<rparr>" and "k < length (lt_leases t)"
    and "l_ip (lt_leases t ! k) = 0 \<or>
      (\<forall>i<length (lt_leases t). held_lease (lt_leases t ! i) \<and> l_since (lt_leases t ! k) \<le> l_since (lt_leases t ! i))"
proof -
  let ?n = "length (lt_leases t)"
  obtain o1 where o1: "lease_oldest t = Some o1" "o1 < ?n" "\<forall>i<?n. l_since (lt_leases t ! o1) \<le> l_since (lt_leases t ! i)"
    using lease_oldest_Some [OF ne] by blast
  have full: "held_lease (lt_leases t ! i)" if "\<not> lt_used t < ?n" "i < ?n" for i
    using that lease_okD(2) [OF ok] length_filter_less [of "lt_leases t ! i" "lt_leases t" held_lease] nth_mem [OF that(2)]
    by (metis)
  have "(\<exists>n. t' = t\<lparr>lt_next := n\<rparr>) \<and> k < ?n \<and> (l_ip (lt_leases t ! k) = 0 \<or>
      (\<forall>i<?n. held_lease (lt_leases t ! i) \<and> l_since (lt_leases t ! k) \<le> l_since (lt_leases t ! i)))"
  proof (cases "if lt_used t < ?n then lease_free_slot t else None")
    case None
    then have "t' = t" "k = o1"
      using pick o1 by (simp_all add: lease_pick_def Let_def)
    moreover have "held_lease (lt_leases t ! i)" if "i < ?n" for i
      using full that None lease_free_slot_None [of t i] by (cases "lt_used t < ?n") simp_all
    moreover have "\<exists>n. t = t\<lparr>lt_next := n\<rparr>"
      by (rule exI [of _ "lt_next t"]) simp
    ultimately show ?thesis
      using o1 by blast
  next
    case (Some j)
    then have "lease_free_slot t = Some j"
      by (simp split: if_splits)
    moreover have "t' = t\<lparr>lt_next := (j + 1) mod ?n\<rparr>" "k = j"
      using pick Some by (auto simp: lease_pick_def Let_def)
    ultimately show ?thesis
      using lease_free_slot_Some by blast
  qed
  then show "\<exists>n. t' = t\<lparr>lt_next := n\<rparr>" and "k < ?n" and "l_ip (lt_leases t ! k) = 0 \<or>
      (\<forall>i<?n. held_lease (lt_leases t ! i) \<and> l_since (lt_leases t ! k) \<le> l_since (lt_leases t ! i))"
    by blast+
qed

lemma lease_grow_cap_max: "lease_grow_cap pool cap \<le> SERVER_LEASE_MAX"
  by (simp add: lease_grow_cap_def Let_def)

definition growable :: "(nat \<Rightarrow> bool) \<Rightarrow> nat \<Rightarrow> nat \<Rightarrow> bool" where
  "growable grow pool cap \<longleftrightarrow> lease_grow_cap pool cap > cap \<and> grow (lease_grow_cap pool cap)"

lemma lease_grow_cases:
  assumes "lease_grow grow pool lease_min now (t, k) = (t', k')"
  obtains (kept) "t' = t" "k' = k"
      "l_ip (lt_leases t ! k) = 0 \<or> lease_min \<le> now - l_since (lt_leases t ! k) \<or> \<not> growable grow pool (length (lt_leases t))"
  | (grown) m where "0 < m" "k' = length (lt_leases t)" "length (lt_leases t) + m \<le> SERVER_LEASE_MAX"
      "t' = t\<lparr>lt_leases := lt_leases t @ replicate m lease_zero, lt_next := length (lt_leases t) + 1, lt_ok := False\<rparr>"
proof (cases "l_ip (lt_leases t ! k) \<noteq> 0 \<and> now - l_since (lt_leases t ! k) < lease_min \<and> growable grow pool (length (lt_leases t))")
  case True
  let ?m = "lease_grow_cap pool (length (lt_leases t)) - length (lt_leases t)"
  show thesis
    by (rule grown [of ?m]) (use assms True lease_grow_cap_max [of pool "length (lt_leases t)"] in
        \<open>auto simp: lease_grow_def growable_def Let_def\<close>)
next
  case False
  then show thesis
    by (intro kept) (use assms in \<open>auto simp: lease_grow_def growable_def Let_def\<close>)
qed

lemma lease_index_new_props:
  assumes "slotidx_inv (lt_idx_ip t)" "slotidx_inv (lt_idx_id t)" "length (lt_leases t) \<le> SERVER_LEASE_MAX"
    and idx: "lt_ok t \<longrightarrow> lease_indexed t (UNIV - {k})" and k: "k < length (lt_leases t)" "held_lease (lt_leases t ! k)"
    and t': "t' = lease_index_new mem k t"
  shows "lease_idx_inv t' \<and> lt_leases t' = lt_leases t \<and> lt_used t' = lt_used t"
proof (cases "\<not> lt_ok t \<or> slotidx_crowded (lt_idx_ip t) (length (lt_leases t)) \<or> slotidx_crowded (lt_idx_id t) (length (lt_leases t))")
  case True
  then have "t' = server_lease_index_rebuild mem t"
    by (simp add: t' lease_index_new_def Let_def)
  then show ?thesis
    using lease_rebuild_props [OF assms(1-3)] by blast
next
  case False
  let ?t1 = "lease_enter mem k t"
  have room: "room_used (lt_idx_ip t) < SLOTIDX_ROOM" "room_used (lt_idx_id t) < SLOTIDX_ROOM"
    using False not_crowded [of "lt_idx_ip t"] not_crowded [of "lt_idx_id t"] assms(3)
    by (auto simp: SLOTIDX_ROOM_def SERVER_LEASE_MAX_def dest!: not_crowded)
  have E: "lt_leases ?t1 = lt_leases t \<and> lt_used ?t1 = lt_used t \<and> lt_next ?t1 = lt_next t \<and>
      slotidx_inv (lt_idx_ip ?t1) \<and> slotidx_inv (lt_idx_id ?t1) \<and>
      room_used (lt_idx_ip ?t1) \<le> Suc (room_used (lt_idx_ip t)) \<and>
      room_used (lt_idx_id ?t1) \<le> Suc (room_used (lt_idx_id t)) \<and>
      (lt_ok ?t1 \<longrightarrow> lease_indexed ?t1 (insert k (UNIV - {k})))"
    by (rule lease_enter_props) (use False idx k assms(3) room in auto)
  have full: "insert k (UNIV - {k}) = UNIV"
    by auto
  show ?thesis
  proof (cases "lt_ok ?t1")
    case True
    then have "t' = ?t1"
      using False by (simp add: t' lease_index_new_def Let_def)
    then show ?thesis
      using E True assms(3) full by (simp add: lease_idx_inv_def)
  next
    case no: False
    then have "t' = server_lease_index_rebuild mem ?t1"
      using False by (simp add: t' lease_index_new_def Let_def)
    then show ?thesis
      using lease_rebuild_props [of ?t1 t' mem] E assms(3) by simp
  qed
qed

text \<open>The table a new lease is put into: the leases that make way are gone.\<close>

definition lease_cleared :: "string \<Rightarrow> u32 \<Rightarrow> bool \<Rightarrow> lease_table \<Rightarrow> lease_table" where
  "lease_cleared w ip prev t =
     (let t1 = (if prev then t else server_lease_drop (server_lease_by_id t w) t)
      in server_lease_drop (server_lease_by_ip t1 ip) t1)"

lemma lease_cleared_props:
  assumes ok: "lease_ok t" and w: "w \<noteq> []"
  shows "lease_ok (lease_cleared w ip prev t)" and "length (lt_leases (lease_cleared w ip prev t)) = length (lt_leases t)"
    and "j < length (lt_leases t) \<Longrightarrow> lt_leases (lease_cleared w ip prev t) ! j =
      (if held_lease (lt_leases t ! j) \<and> (l_ip (lt_leases t ! j) = ip \<or>
            \<not> prev \<and> \<not> l_prev (lt_leases t ! j) \<and> strcaseeq (l_id (lt_leases t ! j)) w)
       then lease_zero else lt_leases t ! j)"
proof -
  let ?t1 = "if prev then t else server_lease_drop (server_lease_by_id t w) t"
  have ok1: "lease_ok ?t1"
    using server_lease_drop_ok [OF ok, of "server_lease_by_id t w"] by_id_Some_iff [OF ok w] ok by auto
  have len1: "length (lt_leases ?t1) = length (lt_leases t)"
    by (simp add: server_lease_drop_nth(2))
  have nth1: "lt_leases ?t1 ! j = (if \<not> prev \<and> held_lease (lt_leases t ! j) \<and> \<not> l_prev (lt_leases t ! j) \<and>
      strcaseeq (l_id (lt_leases t ! j)) w then lease_zero else lt_leases t ! j)" if "j < length (lt_leases t)" for j
    using that by (simp add: server_lease_drop_nth(1) by_id_Some_iff [OF ok w])
  have c: "lease_cleared w ip prev t = server_lease_drop (server_lease_by_ip ?t1 ip) ?t1"
    by (simp add: lease_cleared_def Let_def)
  show "lease_ok (lease_cleared w ip prev t)"
    unfolding c using server_lease_drop_ok [OF ok1] by_ip_Some_iff [OF ok1] by blast
  show "length (lt_leases (lease_cleared w ip prev t)) = length (lt_leases t)"
    unfolding c by (simp only: server_lease_drop_nth(2) len1)
  show "lt_leases (lease_cleared w ip prev t) ! j =
      (if held_lease (lt_leases t ! j) \<and> (l_ip (lt_leases t ! j) = ip \<or>
            \<not> prev \<and> \<not> l_prev (lt_leases t ! j) \<and> strcaseeq (l_id (lt_leases t ! j)) w)
       then lease_zero else lt_leases t ! j)" if j: "j < length (lt_leases t)"
    unfolding c server_lease_drop_nth(1) by_ip_Some_iff [OF ok1] len1 nth1 [OF j] using j by auto
qed

lemma lease_ok_store:
  assumes ok: "lease_ok t" and n: "lt_leases t' = (lt_leases t @ replicate m lease_zero)[k := l]"
    and k: "k < length (lt_leases t) + m" and l: "l_ip l \<noteq> 0" "l_id l \<noteq> []"
    and free_ip: "\<forall>i<length (lt_leases t). l_ip (lt_leases t ! i) \<noteq> l_ip l"
    and free_id: "\<not> l_prev l \<Longrightarrow> \<forall>i<length (lt_leases t). held_lease (lt_leases t ! i) \<and> \<not> l_prev (lt_leases t ! i) \<longrightarrow>
      \<not> strcaseeq (l_id (lt_leases t ! i)) (l_id l)"
    and used: "lt_used t' = (if l_ip ((lt_leases t @ replicate m lease_zero) ! k) = 0 then lt_used t + 1 else lt_used t)"
    and idx: "lease_idx_inv t'"
  shows "lease_ok t'"
proof -
  let ?ls = "lt_leases t @ replicate m lease_zero"
  note D = lease_okD [OF ok]
  have old: "held_lease (?ls ! i) \<Longrightarrow> i < length (lt_leases t) \<and> ?ls ! i = lt_leases t ! i" if "i < length ?ls" for i
    using that by (auto simp: nth_append split: if_splits)
  have at: "lt_leases t' ! i = (if i = k then l else ?ls ! i)" if "i < length ?ls" for i
    using that k by (simp add: n nth_update)
  have len: "length (lt_leases t') = length ?ls"
    by (simp add: n)
  have count: "lt_used t' = length (filter held_lease (lt_leases t'))"
    using length_filter_update [of k ?ls held_lease l] k l(1) D(2) used by (auto simp: n split: if_splits)
  have ids: "l_id (lt_leases t' ! i) \<noteq> []" if "i < length ?ls" "held_lease (lt_leases t' ! i)" for i
    using that l(2) D(3) [of i] old [OF that(1)] by (auto simp: at [OF that(1)] split: if_splits)
  have ips: "i = j" if ij: "i < length ?ls" "j < length ?ls" "held_lease (lt_leases t' ! i)"
      "l_ip (lt_leases t' ! i) = l_ip (lt_leases t' ! j)" for i j
    using ij D(4) [of i j] old [OF ij(1)] old [OF ij(2)] free_ip l(1)
    by (auto simp: at [OF ij(1)] at [OF ij(2)] split: if_splits)
  have uids: "i = j" if ij: "i < length ?ls" "j < length ?ls" "held_lease (lt_leases t' ! i)" "held_lease (lt_leases t' ! j)"
      "\<not> l_prev (lt_leases t' ! i)" "\<not> l_prev (lt_leases t' ! j)"
      "strcaseeq (l_id (lt_leases t' ! i)) (l_id (lt_leases t' ! j))" for i j
    using ij D(5) [of i j] old [OF ij(1)] old [OF ij(2)] free_id strcaseeq_sym
    by (auto simp: at [OF ij(1)] at [OF ij(2)] split: if_splits)
  show ?thesis
    unfolding lease_ok_def len using idx count ids ips uids by blast
qed

lemma lease_add_eq:
  "lt_leases t \<noteq> [] \<Longrightarrow> ip \<noteq> 0 \<Longrightarrow> w \<noteq> [] \<Longrightarrow>
   server_lease_add mem grow pool lease_min now since w ip prev t =
     (case lease_grow grow pool lease_min now (lease_pick (lease_cleared w ip prev t)) of
        (t3, k) \<Rightarrow> lease_index_new mem k (lease_store w ip since prev (t3, k)))"
  by (simp add: server_lease_add_def lease_cleared_def Let_def)

lemma lease_add_props:
  assumes ok: "lease_ok t" and ne: "lt_leases t \<noteq> []" "ip \<noteq> 0" "w \<noteq> []" and w: "length w < 32"
    and t': "t' = server_lease_add mem grow pool lease_min now since w ip prev t"
  shows "lease_ok t' \<and> (\<exists>k<length (lt_leases t'). lt_leases t' ! k = \<lparr>l_id = w, l_ip = ip, l_since = since, l_prev = prev\<rparr> \<and>
    length (lt_leases t) \<le> length (lt_leases t') \<and>
    (\<forall>j<length (lt_leases t). j \<noteq> k \<longrightarrow> lt_leases t' ! j = lt_leases (lease_cleared w ip prev t) ! j) \<and>
    (k < length (lt_leases t) \<longrightarrow> l_ip (lt_leases (lease_cleared w ip prev t) ! k) = 0 \<or>
       (\<forall>i<length (lt_leases t). held_lease (lt_leases (lease_cleared w ip prev t) ! i) \<and>
          l_since (lt_leases (lease_cleared w ip prev t) ! k) \<le> l_since (lt_leases (lease_cleared w ip prev t) ! i)) \<and>
       (lease_min \<le> now - l_since (lt_leases (lease_cleared w ip prev t) ! k) \<or>
          \<not> growable grow pool (length (lt_leases t)))))"
proof -
  let ?c = "lease_cleared w ip prev t"
  let ?l = "\<lparr>l_id = w, l_ip = ip, l_since = since, l_prev = prev\<rparr>"
  note C = lease_cleared_props [OF ok ne(3), where ip = ip and prev = prev]
  have cne: "lt_leases ?c \<noteq> []"
    using C(2) ne(1) by (metis length_0_conv)
  obtain t2 k2 where pick: "lease_pick ?c = (t2, k2)"
    by fastforce
  note P = lease_pick_props [OF C(1) cne pick]
  obtain n where t2: "t2 = ?c\<lparr>lt_next := n\<rparr>"
    using P(1) by blast
  obtain t3 k where grow: "lease_grow grow pool lease_min now (t2, k2) = (t3, k)"
    by fastforce
  let ?s = "lease_store w ip since prev (t3, k)"
  have t'_eq: "t' = lease_index_new mem k ?s"
    using t' lease_add_eq [OF ne] pick grow by simp
  have fit: "fit 32 w = w"
    using w by (simp add: fit_def)
  have idx: "lease_idx_inv ?c"
    by (rule lease_okD(1) [OF C(1)])
  obtain m where m: "lt_leases t3 = lt_leases ?c @ replicate m lease_zero" "k < length (lt_leases ?c) + m"
      "length (lt_leases ?c) + m \<le> SERVER_LEASE_MAX" "lt_used t3 = lt_used ?c" "lt_idx_ip t3 = lt_idx_ip ?c"
      "lt_idx_id t3 = lt_idx_id ?c" "lt_ok t3 \<Longrightarrow> m = 0 \<and> lt_ok ?c"
      "k < length (lt_leases ?c) \<longrightarrow> k = k2 \<and> (l_ip (lt_leases ?c ! k) = 0 \<or>
         lease_min \<le> now - l_since (lt_leases ?c ! k) \<or> \<not> growable grow pool (length (lt_leases ?c)))"
    using grow
  proof (cases rule: lease_grow_cases)
    case kept
    then show thesis
      by (intro that [of 0]) (use P(2) idx in \<open>simp_all add: t2 lease_idx_inv_def\<close>)
  next
    case (grown m)
    then show thesis
      by (intro that [of m]) (simp_all add: t2)
  qed
  have store: "lt_leases ?s = (lt_leases ?c @ replicate m lease_zero)[k := ?l]"
      "lt_used ?s = (if l_ip ((lt_leases ?c @ replicate m lease_zero) ! k) = 0 then lt_used ?c + 1 else lt_used ?c)"
      "lt_ok ?s = lt_ok t3" "lt_idx_ip ?s = lt_idx_ip ?c" "lt_idx_id ?s = lt_idx_id ?c"
    by (simp_all add: lease_store_def fit m(1,4,5,6))
  have keys: "lease_keys key ((lt_leases ?c)[k := ?l]) (UNIV - {k}) \<subseteq> lease_keys key (lt_leases ?c) UNIV" for key
    by (auto simp: lease_keys_def nth_update)
  have "lt_ok ?s \<longrightarrow> lease_indexed ?s (UNIV - {k})"
    using idx m(7) keys indexed_subset by (auto simp: lease_indexed_def store lease_idx_inv_def)
  moreover have sk: "lt_leases ?s ! k = ?l" "length (lt_leases ?s) = length (lt_leases ?c) + m"
    using m(2) by (simp_all add: store)
  ultimately have I: "lease_idx_inv t' \<and> lt_leases t' = lt_leases ?s \<and> lt_used t' = lt_used ?s"
    using lease_index_new_props [of ?s k t' mem] idx m(2,3) ne(2) t'_eq
    by (simp add: store lease_idx_inv_def)
  have "lease_ok t'"
  proof (rule lease_ok_store [OF C(1)])
    show "lt_leases t' = (lt_leases ?c @ replicate m lease_zero)[k := ?l]"
      using I store by simp
    show "lt_used t' = (if l_ip ((lt_leases ?c @ replicate m lease_zero) ! k) = 0 then lt_used ?c + 1 else lt_used ?c)"
      using I store by simp
    show "\<forall>i<length (lt_leases ?c). l_ip (lt_leases ?c ! i) \<noteq> l_ip ?l"
      using ne(2) by (auto simp: C(2,3))
    show "\<forall>i<length (lt_leases ?c). held_lease (lt_leases ?c ! i) \<and> \<not> l_prev (lt_leases ?c ! i) \<longrightarrow>
        \<not> strcaseeq (l_id (lt_leases ?c ! i)) (l_id ?l)" if np: "\<not> l_prev ?l"
    proof (intro allI impI)
      fix i assume i: "i < length (lt_leases ?c)" "held_lease (lt_leases ?c ! i) \<and> \<not> l_prev (lt_leases ?c ! i)"
      then show "\<not> strcaseeq (l_id (lt_leases ?c ! i)) (l_id ?l)"
        using C(3) [of i] np C(2) by (simp split: if_splits)
    qed
  qed (use I m(2) ne in simp_all)
  moreover have "lt_leases t' ! j = lt_leases ?c ! j" if "j < length (lt_leases t)" "j \<noteq> k" for j
    using I store that C(2) by (simp add: nth_append)
  moreover have "k < length (lt_leases t')" "lt_leases t' ! k = ?l" "length (lt_leases t) \<le> length (lt_leases t')"
    using I sk m(2) C(2) by simp_all
  moreover have "l_ip (lt_leases ?c ! k) = 0 \<or>
       (\<forall>i<length (lt_leases t). held_lease (lt_leases ?c ! i) \<and> l_since (lt_leases ?c ! k) \<le> l_since (lt_leases ?c ! i)) \<and>
       (lease_min \<le> now - l_since (lt_leases ?c ! k) \<or> \<not> growable grow pool (length (lt_leases t)))"
    if "k < length (lt_leases t)"
    using m(8) P(3) that unfolding C(2) by metis
  ultimately show ?thesis
    by blast
qed

text \<open>The table as \<open>server_clients_init\<close> makes it: \<open>alloc\<close>, the array can be allocated.\<close>

definition leases_init :: "(u32 \<Rightarrow> bool) \<Rightarrow> bool \<Rightarrow> nat \<Rightarrow> lease_table" where
  "leases_init mem alloc count =
     server_lease_index_rebuild mem
       \<lparr>lt_leases = (if alloc then replicate count lease_zero else []), lt_idx_ip = slotidx_free,
        lt_idx_id = slotidx_free, lt_ok = False, lt_used = 0, lt_next = 0\<rparr>"

lemma leases_init_ok:
  assumes "count \<le> SERVER_LEASE_MAX"
  shows "lease_ok (leases_init mem alloc count)"
    and "lt_leases (leases_init mem alloc count) = (if alloc then replicate count lease_zero else [])"
proof -
  let ?t = "\<lparr>lt_leases = (if alloc then replicate count lease_zero else []), lt_idx_ip = slotidx_free,
        lt_idx_id = slotidx_free, lt_ok = False, lt_used = 0, lt_next = 0\<rparr>"
  have "lease_idx_inv (leases_init mem alloc count) \<and> lt_leases (leases_init mem alloc count) = lt_leases ?t \<and>
      lt_used (leases_init mem alloc count) = 0"
    using lease_rebuild_props [of ?t "leases_init mem alloc count" mem] assms slotidx_free_ok(1)
    by (simp add: leases_init_def)
  then show "lease_ok (leases_init mem alloc count)"
    and "lt_leases (leases_init mem alloc count) = (if alloc then replicate count lease_zero else [])"
    by (simp_all add: lease_ok_def)
qed

lemma lease_add_ok:
  "lease_ok t \<Longrightarrow> length w < 32 \<Longrightarrow> lease_ok (server_lease_add mem grow pool lease_min now since w ip prev t)"
  using lease_add_props [OF _ _ _ _ _ refl, of t ip w] by (cases "lt_leases t = [] \<or> ip = 0 \<or> w = []")
    (auto simp: server_lease_add_def)

subsection \<open>Properties\<close>

text \<open>Adding a lease leaves a sound table in which the address is leased to that client, and to
  no other.\<close>

lemma lease_add_result:
  assumes "lease_ok t" and "lt_leases t \<noteq> []" and "ip \<noteq> 0" and "w \<noteq> []" and "length w < 32"
    and "t' = server_lease_add mem grow pool lease_min now since w ip prev t"
  shows "lease_ok t' \<and> (\<exists>k. server_lease_by_ip t' ip = Some k \<and>
     lt_leases t' ! k = \<lparr>l_id = w, l_ip = ip, l_since = since, l_prev = prev\<rparr>) \<and>
     (server_lease_allows t' ip v \<longleftrightarrow> strcaseeq w v)"
proof -
  obtain k where k: "lease_ok t'" "k < length (lt_leases t')"
      "lt_leases t' ! k = \<lparr>l_id = w, l_ip = ip, l_since = since, l_prev = prev\<rparr>"
    using lease_add_props [OF assms] by blast
  then have "server_lease_by_ip t' ip = Some k"
    using by_ip_Some_iff [OF k(1)] assms(3) by simp
  then show ?thesis
    using k by (auto simp: server_lease_allows_def)
qed

definition two_leases :: lease_table where
  "two_leases = leases_init (\<lambda>_. True) True 2"

lemma two_leases_ok: "lease_ok two_leases" "lt_leases two_leases = [lease_zero, lease_zero]"
proof -
  have "(2 :: nat) \<le> SERVER_LEASE_MAX"
    by (simp add: SERVER_LEASE_MAX_def)
  from leases_init_ok [OF this, of "\<lambda>_. True" True] show "lease_ok two_leases" "lt_leases two_leases = [lease_zero, lease_zero]"
    by (simp_all add: two_leases_def numeral_2_eq_2)
qed


text \<open>A lease never goes silently: adding one for another address removes a lease of another
  client only when every slot is taken, only the oldest one, and only if it is old enough or
  the table cannot grow.\<close>

lemma lease_kept:
  assumes ok: "lease_ok t" and ne: "lt_leases t \<noteq> []" "ip \<noteq> 0" "w \<noteq> []" and w: "length w < 32"
    and t': "t' = server_lease_add mem grow pool lease_min now since w ip prev t"
    and j: "server_lease_by_ip t a = Some j" and other: "a \<noteq> ip" "\<not> strcaseeq (l_id (lt_leases t ! j)) w"
  shows "server_lease_by_ip t' a = Some j \<and> lt_leases t' ! j = lt_leases t ! j \<or>
    (\<forall>i<length (lt_leases t). held_lease (lt_leases t ! i) \<and> l_since (lt_leases t ! j) \<le> l_since (lt_leases t ! i)) \<and>
    (lease_min \<le> now - l_since (lt_leases t ! j) \<or> \<not> growable grow pool (length (lt_leases t)))"
proof -
  let ?c = "lease_cleared w ip prev t"
  note C = lease_cleared_props [OF ok ne(3), where ip = ip and prev = prev]
  have j': "j < length (lt_leases t)" "l_ip (lt_leases t ! j) = a" "a \<noteq> 0"
    using j by (simp_all add: by_ip_Some_iff [OF ok])
  have cj: "lt_leases ?c ! j = lt_leases t ! j"
    using C(3) [OF j'(1)] j' other by simp
  obtain k where ok': "lease_ok t'" and len: "length (lt_leases t) \<le> length (lt_leases t')"
    and same: "\<forall>i<length (lt_leases t). i \<noteq> k \<longrightarrow> lt_leases t' ! i = lt_leases ?c ! i"
    and victim: "k < length (lt_leases t) \<Longrightarrow> l_ip (lt_leases ?c ! k) = 0 \<or>
       (\<forall>i<length (lt_leases t). held_lease (lt_leases ?c ! i) \<and> l_since (lt_leases ?c ! k) \<le> l_since (lt_leases ?c ! i)) \<and>
       (lease_min \<le> now - l_since (lt_leases ?c ! k) \<or> \<not> growable grow pool (length (lt_leases t)))"
    using lease_add_props [OF ok ne w t'] by blast
  show ?thesis
  proof (cases "k = j")
    case False
    then have "lt_leases t' ! j = lt_leases t ! j"
      using same j'(1) cj by simp
    then show ?thesis
      using j' len by (simp add: by_ip_Some_iff [OF ok'])
  next
    case True
    then have v: "\<forall>i<length (lt_leases t). held_lease (lt_leases ?c ! i) \<and> l_since (lt_leases t ! j) \<le> l_since (lt_leases ?c ! i)"
      "lease_min \<le> now - l_since (lt_leases t ! j) \<or> \<not> growable grow pool (length (lt_leases t))"
      using victim j' cj by auto
    have "lt_leases ?c ! i = lt_leases t ! i" if "i < length (lt_leases t)" for i
      using C(3) [OF that] v(1) that by (auto split: if_splits)
    then show ?thesis
      using v by simp
  qed
qed

definition one_lease :: lease_table where
  "one_lease = server_lease_add (\<lambda>_. True) (\<lambda>_. True) 254 720 1000 1000 ''cam'' 0x0200C80A False two_leases"


end
