(* ===== verification/Budget.thy ===== *)
theory Budget
  imports Session
begin

text \<open>
  The handshake budgets of \<open>src/server.c\<close>: how many INITs and key trials the server spends in a
  second, all together, on unknown sources, and on one source address or its /24.  Slots of the
  share table are numbers; a counter is a number too, each is bounded (below).
\<close>

subsection \<open>Model\<close>

definition SERVER_HANDSHAKES_PER_SEC :: nat where "SERVER_HANDSHAKES_PER_SEC = 200"
definition SERVER_KEY_TRIALS_PER_SEC :: nat where "SERVER_KEY_TRIALS_PER_SEC = SERVER_HANDSHAKES_PER_SEC * 256"
definition SERVER_UNKNOWN_SHARE :: "nat \<Rightarrow> nat" where "SERVER_UNKNOWN_SHARE n = n div 4 * 3"
definition SERVER_SRC_SHARE :: "nat \<Rightarrow> nat" where "SERVER_SRC_SHARE n = n div 8"
definition SERVER_NET_SHARE :: "nat \<Rightarrow> nat" where "SERVER_NET_SHARE n = n div 4"
definition SERVER_KNOWN_PER_SEC :: u8 where "SERVER_KNOWN_PER_SEC = 4"
definition SERVER_SRC_SLOTS :: nat where "SERVER_SRC_SLOTS = 512"
definition SERVER_SRC_PROBES :: nat where "SERVER_SRC_PROBES = 8"

record share =
  sh_key :: u32
  sh_is_net :: bool
  sh_window :: int
  sh_handshakes :: nat
  sh_trials :: nat

text \<open>\<open>src_addr\<close>, \<open>src_net\<close>: share slots; \<open>src_known\<close>: the slot of the live client there.\<close>

record source =
  src_a :: u32
  src_looked_up :: bool
  src_addr :: "nat option"
  src_net :: "nat option"
  src_known :: "nat option"

record budget =
  bg_shares :: "share list"
  bg_key :: bytes
  bg_key_ready :: bool
  bg_window :: int
  bg_handshakes :: nat
  bg_unknown_handshakes :: nat
  bg_trials :: nat
  bg_unknown_trials :: nat

definition budget_start :: budget where
  "budget_start = \<lparr>bg_shares = replicate SERVER_SRC_SLOTS
       \<lparr>sh_key = 0, sh_is_net = False, sh_window = 0, sh_handshakes = 0, sh_trials = 0\<rparr>,
     bg_key = replicate 16 0, bg_key_ready = False, bg_window = 0, bg_handshakes = 0,
     bg_unknown_handshakes = 0, bg_trials = 0, bg_unknown_trials = 0\<rparr>"

definition server_budget_window :: "int \<Rightarrow> budget \<Rightarrow> budget" where
  "server_budget_window now b =
     (if bg_window b \<noteq> now
      then b\<lparr>bg_window := now, bg_handshakes := 0, bg_unknown_handshakes := 0, bg_trials := 0,
             bg_unknown_trials := 0\<rparr>
      else b)"

text \<open>The probes: the entry of the key for this second, else the first slot not used in it.\<close>

fun share_probe :: "share list \<Rightarrow> int \<Rightarrow> u32 \<Rightarrow> bool \<Rightarrow> nat list \<Rightarrow> nat option \<Rightarrow> nat option + nat" where
  "share_probe sh now key is_net [] free = Inl free"
| "share_probe sh now key is_net (i # is) free =
     (if sh_window (sh ! i) \<noteq> now then share_probe sh now key is_net is (if free = None then Some i else free)
      else if sh_key (sh ! i) = key \<and> sh_is_net (sh ! i) = is_net then Inr i
      else share_probe sh now key is_net is free)"

text \<open>\<open>fresh\<close>: the random bytes for the placement key, \<open>None\<close> when there are none.\<close>

definition share_key :: "bytes option \<Rightarrow> budget \<Rightarrow> budget" where
  "share_key fresh b =
     (if bg_key_ready b then b
      else case fresh of None \<Rightarrow> b | Some k \<Rightarrow> b\<lparr>bg_key := k, bg_key_ready := True\<rparr>)"

definition share_hash :: "monocypher \<Rightarrow> bytes \<Rightarrow> u32 \<Rightarrow> bool \<Rightarrow> u32" where
  "share_hash mc k key is_net =
     v2_read_u32 (mc_blake2b_keyed mc 4 k (v2_write_u32 key @ [if is_net then 1 else 0]))"

definition server_share_of ::
  "monocypher \<Rightarrow> bytes option \<Rightarrow> int \<Rightarrow> u32 \<Rightarrow> bool \<Rightarrow> budget \<Rightarrow> budget \<times> nat option" where
  "server_share_of mc fresh now key is_net b0 =
     (let b = share_key fresh b0;
          h = share_hash mc (bg_key b) key is_net
      in case share_probe (bg_shares b) now key is_net
                (map (\<lambda>p. unat (h + of_nat p) mod SERVER_SRC_SLOTS) [0..<SERVER_SRC_PROBES]) None of
           Inr i \<Rightarrow> (b, Some i)
         | Inl None \<Rightarrow> (b, None)
         | Inl (Some i) \<Rightarrow>
             (b\<lparr>bg_shares := (bg_shares b)[i := \<lparr>sh_key = key, sh_is_net = is_net, sh_window = now,
                  sh_handshakes = 0, sh_trials = 0\<rparr>]\<rparr>, Some i))"

definition server_source_shares ::
  "monocypher \<Rightarrow> bytes option \<Rightarrow> int \<Rightarrow> source \<Rightarrow> budget \<Rightarrow> source \<times> budget" where
  "server_source_shares mc fresh now src b =
     (if src_looked_up src then (src, b)
      else (let (b1, a) = server_share_of mc fresh now (src_a src) False b;
                (b2, n) = server_share_of mc fresh now (src_a src AND 0xFFFFFF00) True b1
            in (src\<lparr>src_looked_up := True, src_addr := a, src_net := n\<rparr>, b2)))"

definition share_at :: "budget \<Rightarrow> nat option \<Rightarrow> (share \<Rightarrow> nat) \<Rightarrow> nat \<Rightarrow> bool" where
  "share_at b k count limit = (case k of None \<Rightarrow> False | Some i \<Rightarrow> count (bg_shares b ! i) \<ge> limit)"

definition share_count :: "nat option \<Rightarrow> (share \<Rightarrow> share) \<Rightarrow> budget \<Rightarrow> budget" where
  "share_count k f b =
     (case k of None \<Rightarrow> b | Some i \<Rightarrow> b\<lparr>bg_shares := (bg_shares b)[i := f (bg_shares b ! i)]\<rparr>)"

definition one_handshake :: "share \<Rightarrow> share" where
  "one_handshake s = s\<lparr>sh_handshakes := sh_handshakes s + 1\<rparr>"

definition one_trial :: "share \<Rightarrow> share" where
  "one_trial s = s\<lparr>sh_trials := sh_trials s + 1\<rparr>"

text \<open>The result 0, -1, -2 or -3.\<close>

definition server_handshake_budget ::
  "monocypher \<Rightarrow> bytes option \<Rightarrow> int \<Rightarrow> source \<Rightarrow> budget \<Rightarrow> int \<times> source \<times> budget" where
  "server_handshake_budget mc fresh now src b =
     (if bg_handshakes b \<ge> SERVER_HANDSHAKES_PER_SEC then (- 1, src, b)
      else if src_known src \<noteq> None then (0, src, b\<lparr>bg_handshakes := bg_handshakes b + 1\<rparr>)
      else if bg_unknown_handshakes b \<ge> SERVER_UNKNOWN_SHARE SERVER_HANDSHAKES_PER_SEC then (- 2, src, b)
      else case server_source_shares mc fresh now src b of (src1, b1) \<Rightarrow>
        (if share_at b1 (src_addr src1) sh_handshakes (SERVER_SRC_SHARE SERVER_HANDSHAKES_PER_SEC)
            \<or> share_at b1 (src_net src1) sh_handshakes (SERVER_NET_SHARE SERVER_HANDSHAKES_PER_SEC)
         then (- 3, src1, b1)
         else (let b2 = share_count (src_net src1) one_handshake (share_count (src_addr src1) one_handshake b1)
               in (0, src1, b2\<lparr>bg_unknown_handshakes := bg_unknown_handshakes b2 + 1,
                             bg_handshakes := bg_handshakes b2 + 1\<rparr>))))"

definition server_key_trials_limit :: "nat \<Rightarrow> nat" where
  "server_key_trials_limit ks_count =
     (if ks_count * 4 > SERVER_KEY_TRIALS_PER_SEC then ks_count * 4 else SERVER_KEY_TRIALS_PER_SEC)"

definition server_trial_share :: "nat \<Rightarrow> bool \<Rightarrow> nat" where
  "server_trial_share ks_count is_net =
     (let limit = server_key_trials_limit ks_count;
          share = (if is_net then SERVER_NET_SHARE limit else SERVER_SRC_SHARE limit);
          least = ks_count * (if is_net then 2 else 1)
      in if share > least then share else least)"

definition server_key_trial_budget ::
  "monocypher \<Rightarrow> bytes option \<Rightarrow> int \<Rightarrow> nat \<Rightarrow> bool \<Rightarrow> source \<Rightarrow> budget \<Rightarrow> int \<times> source \<times> budget" where
  "server_key_trial_budget mc fresh now ks_count own src b =
     (if bg_trials b \<ge> server_key_trials_limit ks_count then (- 1, src, b)
      else if own then (0, src, b\<lparr>bg_trials := bg_trials b + 1\<rparr>)
      else if bg_unknown_trials b \<ge> SERVER_UNKNOWN_SHARE (server_key_trials_limit ks_count) then (- 2, src, b)
      else case server_source_shares mc fresh now src b of (src1, b1) \<Rightarrow>
        (if share_at b1 (src_addr src1) sh_trials (server_trial_share ks_count False)
            \<or> share_at b1 (src_net src1) sh_trials (server_trial_share ks_count True)
         then (- 3, src1, b1)
         else (let b2 = share_count (src_net src1) one_trial (share_count (src_addr src1) one_trial b1)
               in (0, src1, b2\<lparr>bg_unknown_trials := bg_unknown_trials b2 + 1,
                             bg_trials := bg_trials b2 + 1\<rparr>))))"

text \<open>An INIT: its second, its source, whether a live client is there, and the trials it makes.\<close>

fun trial_run ::
  "monocypher \<Rightarrow> bytes option \<Rightarrow> int \<Rightarrow> nat \<Rightarrow> bool list \<Rightarrow> source \<Rightarrow> budget \<Rightarrow> nat \<times> source \<times> budget" where
  "trial_run mc fresh now ks [] src b = (0, src, b)"
| "trial_run mc fresh now ks (own # rest) src b =
     (case server_key_trial_budget mc fresh now ks own src b of (r, src1, b1) \<Rightarrow>
        (if r \<noteq> 0 then (0, src1, b1)
         else case trial_run mc fresh now ks rest src1 b1 of (n, src2, b2) \<Rightarrow> (Suc n, src2, b2)))"

definition source_new :: "u32 \<Rightarrow> nat option \<Rightarrow> source" where
  "source_new a known = \<lparr>src_a = a, src_looked_up = False, src_addr = None, src_net = None, src_known = known\<rparr>"

record init_event =
  ev_now :: int
  ev_a :: u32
  ev_known :: "nat option"
  ev_fresh :: "bytes option"
  ev_trials :: "bool list"

definition budget_step :: "monocypher \<Rightarrow> nat \<Rightarrow> budget \<Rightarrow> init_event \<Rightarrow> budget" where
  "budget_step mc ks b e =
     (case server_handshake_budget mc (ev_fresh e) (ev_now e) (source_new (ev_a e) (ev_known e))
             (server_budget_window (ev_now e) b) of (r, src, b1) \<Rightarrow>
        if r \<noteq> 0 then b1
        else snd (snd (trial_run mc (ev_fresh e) (ev_now e) ks (ev_trials e) src b1)))"

subsection \<open>The counters stay within the budgets\<close>

definition share_ok :: "nat \<Rightarrow> share \<Rightarrow> bool" where
  "share_ok ks s \<longleftrightarrow>
     sh_handshakes s \<le> (if sh_is_net s then SERVER_NET_SHARE SERVER_HANDSHAKES_PER_SEC
                         else SERVER_SRC_SHARE SERVER_HANDSHAKES_PER_SEC) \<and>
     sh_trials s \<le> server_trial_share ks (sh_is_net s)"

definition budget_inv :: "nat \<Rightarrow> budget \<Rightarrow> bool" where
  "budget_inv ks b \<longleftrightarrow> length (bg_shares b) = SERVER_SRC_SLOTS \<and> (\<forall>i<SERVER_SRC_SLOTS. share_ok ks (bg_shares b ! i)) \<and>
     bg_handshakes b \<le> SERVER_HANDSHAKES_PER_SEC \<and>
     bg_unknown_handshakes b \<le> SERVER_UNKNOWN_SHARE SERVER_HANDSHAKES_PER_SEC \<and>
     bg_unknown_handshakes b \<le> bg_handshakes b \<and>
     bg_trials b \<le> server_key_trials_limit ks \<and>
     bg_unknown_trials b \<le> SERVER_UNKNOWN_SHARE (server_key_trials_limit ks) \<and> bg_unknown_trials b \<le> bg_trials b"

definition slot_for :: "budget \<Rightarrow> int \<Rightarrow> bool \<Rightarrow> nat option \<Rightarrow> bool" where
  "slot_for b now is_net k \<longleftrightarrow> (\<forall>i. k = Some i \<longrightarrow> i < SERVER_SRC_SLOTS \<and> i < length (bg_shares b) \<and>
     sh_window (bg_shares b ! i) = now \<and> sh_is_net (bg_shares b ! i) = is_net)"

definition source_ok :: "budget \<Rightarrow> int \<Rightarrow> source \<Rightarrow> bool" where
  "source_ok b now src \<longleftrightarrow> slot_for b now False (src_addr src) \<and> slot_for b now True (src_net src)"

lemma budget_inv_start: "budget_inv ks budget_start"
  by (simp add: budget_inv_def budget_start_def share_ok_def)

lemma budget_inv_window: "budget_inv ks b \<Longrightarrow> budget_inv ks (server_budget_window now b)"
  by (simp add: budget_inv_def server_budget_window_def)

lemma share_probe_props:
  assumes "\<forall>i\<in>set is. i < n" and "\<forall>i. free = Some i \<longrightarrow> i < n \<and> sh_window (sh ! i) \<noteq> now"
  shows "share_probe sh now key net is free = Inr i \<Longrightarrow>
      i < n \<and> sh_window (sh ! i) = now \<and> sh_key (sh ! i) = key \<and> sh_is_net (sh ! i) = net"
    and "share_probe sh now key net is free = Inl (Some i) \<Longrightarrow> i < n \<and> sh_window (sh ! i) \<noteq> now"
  using assms by (induction "is" arbitrary: free) (auto split: if_splits)

lemma share_of_props:
  assumes inv: "budget_inv ks b" and run: "server_share_of mc fresh now key net b = (b', k)"
  shows "budget_inv ks b' \<and> slot_for b' now net k \<and> (\<forall>net' j. slot_for b now net' j \<longrightarrow> slot_for b' now net' j)"
proof -
  let ?b = "share_key fresh b"
  let ?is = "map (\<lambda>p. unat (share_hash mc (bg_key ?b) key net + of_nat p) mod SERVER_SRC_SLOTS) [0..<SERVER_SRC_PROBES]"
  let ?r = "share_probe (bg_shares ?b) now key net ?is None"
  have same: "bg_shares ?b = bg_shares b" "bg_handshakes ?b = bg_handshakes b"
    "bg_unknown_handshakes ?b = bg_unknown_handshakes b" "bg_trials ?b = bg_trials b"
    "bg_unknown_trials ?b = bg_unknown_trials b"
    by (simp_all add: share_key_def split: option.splits)
  have inv': "budget_inv ks ?b"
    using inv by (simp add: budget_inv_def same)
  have len: "length (bg_shares b) = SERVER_SRC_SLOTS"
    using inv by (simp add: budget_inv_def)
  have "\<forall>i\<in>set ?is. i < SERVER_SRC_SLOTS"
    by (simp add: SERVER_SRC_SLOTS_def)
  note P = share_probe_props [OF this, of None "bg_shares ?b" now key net, simplified]
  show ?thesis
  proof (cases ?r)
    case (Inr i)
    then have "b' = ?b" "k = Some i"
      using run by (simp_all add: server_share_of_def Let_def)
    then show ?thesis
      using P(1) [OF Inr] inv' len by (simp add: slot_for_def same)
  next
    case (Inl o1)
    show ?thesis
    proof (cases o1)
      case None
      then have "b' = ?b" "k = None"
        using run Inl by (simp_all add: server_share_of_def Let_def)
      then show ?thesis
        using inv' by (simp add: slot_for_def same)
    next
      case (Some i)
      then have r: "b' = ?b\<lparr>bg_shares := (bg_shares ?b)[i := \<lparr>sh_key = key, sh_is_net = net, sh_window = now,
                  sh_handshakes = 0, sh_trials = 0\<rparr>]\<rparr>" "k = Some i"
        using run Inl by (auto simp: server_share_of_def Let_def)
      have "i < SERVER_SRC_SLOTS \<and> sh_window (bg_shares b ! i) \<noteq> now"
        using P(2) [of i] Inl Some same by simp
      then show ?thesis
        using inv len r by (auto simp: slot_for_def same nth_list_update budget_inv_def share_ok_def)
    qed
  qed
qed

lemma source_shares_props:
  assumes inv: "budget_inv ks b" and src: "src_looked_up src \<longrightarrow> source_ok b now src"
    and run: "server_source_shares mc fresh now src b = (src', b')"
  shows "budget_inv ks b' \<and> source_ok b' now src' \<and> src_looked_up src' \<and> src_known src' = src_known src"
proof (cases "src_looked_up src")
  case True
  then show ?thesis
    using assms by (simp add: server_source_shares_def)
next
  case False
  obtain b1 a where r1: "server_share_of mc fresh now (src_a src) False b = (b1, a)"
    by fastforce
  obtain b2 n where r2: "server_share_of mc fresh now (src_a src AND 0xFFFFFF00) True b1 = (b2, n)"
    by fastforce
  note S1 = share_of_props [OF inv r1]
  note S2 = share_of_props [OF conjunct1 [OF S1] r2]
  have "src' = src\<lparr>src_looked_up := True, src_addr := a, src_net := n\<rparr>" "b' = b2"
    using run False r1 r2 by (simp_all add: server_source_shares_def)
  then show ?thesis
    using S1 S2 by (simp add: source_ok_def)
qed

lemma share_count_props:
  assumes f: "\<And>s. sh_window (f s) = sh_window s \<and> sh_is_net (f s) = sh_is_net s"
    and slot: "slot_for b now net k" and ok: "\<And>i. k = Some i \<Longrightarrow> share_ok ks (f (bg_shares b ! i))"
    and inv: "budget_inv ks b"
  shows "budget_inv ks (share_count k f b)" and "slot_for (share_count k f b) now net' j = slot_for b now net' j"
    and "bg_handshakes (share_count k f b) = bg_handshakes b" "bg_trials (share_count k f b) = bg_trials b"
    and "bg_unknown_handshakes (share_count k f b) = bg_unknown_handshakes b"
    and "bg_unknown_trials (share_count k f b) = bg_unknown_trials b"
proof -
  have len: "length (bg_shares b) = SERVER_SRC_SLOTS"
    using inv by (simp add: budget_inv_def)
  have slots: "i < SERVER_SRC_SLOTS" if "k = Some i" for i
    using slot that by (simp add: slot_for_def)
  show "budget_inv ks (share_count k f b)"
    using inv ok slots by (auto simp: share_count_def budget_inv_def nth_list_update split: option.splits)
  show "slot_for (share_count k f b) now net' j = slot_for b now net' j"
    using f slots len by (auto simp: share_count_def slot_for_def nth_list_update split: option.splits)
qed (simp_all add: share_count_def split: option.splits)

lemma frames_one [simp]:
  "sh_window (one_handshake s) = sh_window s" "sh_is_net (one_handshake s) = sh_is_net s"
  "sh_window (one_trial s) = sh_window s" "sh_is_net (one_trial s) = sh_is_net s"
  by (simp_all add: one_handshake_def one_trial_def)

text \<open>Counting one in both shares of a source, each below its limit.\<close>

lemma count_both:
  assumes inv: "budget_inv ks b" and src: "source_ok b now src"
    and f: "\<And>s. sh_window (f s) = sh_window s \<and> sh_is_net (f s) = sh_is_net s"
    and low: "\<And>s net. share_ok ks s \<Longrightarrow> sh_is_net s = net \<Longrightarrow> count s < limit net \<Longrightarrow> share_ok ks (f s)"
    and "\<not> share_at b (src_addr src) count (limit False)" "\<not> share_at b (src_net src) count (limit True)"
  shows "budget_inv ks (share_count (src_net src) f (share_count (src_addr src) f b))"
    and "source_ok (share_count (src_net src) f (share_count (src_addr src) f b)) now src"
proof -
  have ok: "share_ok ks (bg_shares b ! i)" if "i < SERVER_SRC_SLOTS" for i
    using inv that by (simp add: budget_inv_def)
  have a: "slot_for b now False (src_addr src)" and n: "slot_for b now True (src_net src)"
    using src by (simp_all add: source_ok_def)
  have fa: "share_ok ks (f (bg_shares b ! i))" if "src_addr src = Some i" for i
    by (rule low [of _ False]) (use that a ok assms(5) in \<open>auto simp: slot_for_def share_at_def\<close>)
  let ?b1 = "share_count (src_addr src) f b"
  note C1 = share_count_props [OF f a fa inv]
  have n1: "slot_for ?b1 now True (src_net src)"
    using n by (simp add: C1(2))
  have same: "bg_shares ?b1 ! i = bg_shares b ! i" if "src_net src = Some i" for i
    using that a n by (auto simp: share_count_def slot_for_def nth_list_update split: option.splits)
  have fn: "share_ok ks (f (bg_shares ?b1 ! i))" if "src_net src = Some i" for i
    unfolding same [OF that]
    by (rule low [of _ True]) (use that n ok assms(6) in \<open>auto simp: slot_for_def share_at_def\<close>)
  note C2 = share_count_props [OF f n1 fn C1(1)]
  show "budget_inv ks (share_count (src_net src) f ?b1)"
    by (rule C2(1))
  show "source_ok (share_count (src_net src) f ?b1) now src"
    using a n by (simp add: source_ok_def C2(2) C1(2))
qed

lemma share_count_frames:
  "bg_handshakes (share_count k f b) = bg_handshakes b" "bg_trials (share_count k f b) = bg_trials b"
  "bg_unknown_handshakes (share_count k f b) = bg_unknown_handshakes b"
  "bg_unknown_trials (share_count k f b) = bg_unknown_trials b"
  by (simp_all add: share_count_def split: option.splits)

lemma shares_frames:
  assumes "server_source_shares mc fresh now src b = (src', b')"
  shows "bg_handshakes b' = bg_handshakes b \<and> bg_unknown_handshakes b' = bg_unknown_handshakes b \<and>
    bg_trials b' = bg_trials b \<and> bg_unknown_trials b' = bg_unknown_trials b"
proof -
  have of_frames: "bg_handshakes b2 = bg_handshakes b1 \<and> bg_unknown_handshakes b2 = bg_unknown_handshakes b1 \<and>
      bg_trials b2 = bg_trials b1 \<and> bg_unknown_trials b2 = bg_unknown_trials b1"
    if "server_share_of mc fresh now key net b1 = (b2, k)" for key net b1 b2 k
    using that by (auto simp: server_share_of_def share_key_def Let_def split: sum.splits option.splits)
  show ?thesis
    using assms of_frames by (auto simp: server_source_shares_def split: prod.splits if_splits)
qed

lemma handshake_budget_props:
  assumes inv: "budget_inv ks b" and src: "src_looked_up src \<longrightarrow> source_ok b now src"
    and run: "server_handshake_budget mc fresh now src b = (r, src', b')"
  shows "budget_inv ks b' \<and> (src_looked_up src' \<longrightarrow> source_ok b' now src') \<and> src_known src' = src_known src"
proof (cases "bg_handshakes b \<ge> SERVER_HANDSHAKES_PER_SEC \<or> src_known src \<noteq> None \<or>
    bg_unknown_handshakes b \<ge> SERVER_UNKNOWN_SHARE SERVER_HANDSHAKES_PER_SEC")
  case True
  then have "src' = src \<and> (b' = b \<or> b' = b\<lparr>bg_handshakes := bg_handshakes b + 1\<rparr> \<and>
      bg_handshakes b < SERVER_HANDSHAKES_PER_SEC)"
    using run by (auto simp: server_handshake_budget_def split: if_splits)
  then show ?thesis
    using inv src by (auto simp: budget_inv_def source_ok_def slot_for_def)
next
  case False
  obtain src1 b1 where sh: "server_source_shares mc fresh now src b = (src1, b1)"
    by fastforce
  note S = source_shares_props [OF inv src sh] and F = shares_frames [OF sh]
  show ?thesis
  proof (cases "share_at b1 (src_addr src1) sh_handshakes (SERVER_SRC_SHARE SERVER_HANDSHAKES_PER_SEC)
      \<or> share_at b1 (src_net src1) sh_handshakes (SERVER_NET_SHARE SERVER_HANDSHAKES_PER_SEC)")
    case True
    then have "src' = src1" "b' = b1"
      using run False sh by (simp_all add: server_handshake_budget_def)
    then show ?thesis
      using S by simp
  next
    case go: False
    let ?b2 = "share_count (src_net src1) one_handshake (share_count (src_addr src1) one_handshake b1)"
    have r: "src' = src1" "b' = ?b2\<lparr>bg_unknown_handshakes := bg_unknown_handshakes ?b2 + 1,
        bg_handshakes := bg_handshakes ?b2 + 1\<rparr>"
      using run False sh go by (auto simp: server_handshake_budget_def Let_def)
    have "budget_inv ks ?b2" "source_ok ?b2 now src1"
      by (rule count_both [where count = sh_handshakes and limit = "\<lambda>net. if net then SERVER_NET_SHARE SERVER_HANDSHAKES_PER_SEC
              else SERVER_SRC_SHARE SERVER_HANDSHAKES_PER_SEC"]; use S go in \<open>auto simp: share_ok_def one_handshake_def\<close>)+
    then show ?thesis
      using S F False by (auto simp: r budget_inv_def source_ok_def slot_for_def share_count_frames)
  qed
qed

lemma key_trial_props:
  assumes inv: "budget_inv ks b" and src: "src_looked_up src \<longrightarrow> source_ok b now src"
    and run: "server_key_trial_budget mc fresh now ks own src b = (r, src', b')"
  shows "budget_inv ks b' \<and> (src_looked_up src' \<longrightarrow> source_ok b' now src') \<and> src_known src' = src_known src"
proof (cases "bg_trials b \<ge> server_key_trials_limit ks \<or> own \<or>
    bg_unknown_trials b \<ge> SERVER_UNKNOWN_SHARE (server_key_trials_limit ks)")
  case True
  then have "src' = src \<and> (b' = b \<or> b' = b\<lparr>bg_trials := bg_trials b + 1\<rparr> \<and> bg_trials b < server_key_trials_limit ks)"
    using run by (auto simp: server_key_trial_budget_def split: if_splits)
  then show ?thesis
    using inv src by (auto simp: budget_inv_def source_ok_def slot_for_def)
next
  case False
  obtain src1 b1 where sh: "server_source_shares mc fresh now src b = (src1, b1)"
    by fastforce
  note S = source_shares_props [OF inv src sh] and F = shares_frames [OF sh]
  show ?thesis
  proof (cases "share_at b1 (src_addr src1) sh_trials (server_trial_share ks False)
      \<or> share_at b1 (src_net src1) sh_trials (server_trial_share ks True)")
    case True
    then have "src' = src1" "b' = b1"
      using run False sh by (simp_all add: server_key_trial_budget_def)
    then show ?thesis
      using S by simp
  next
    case go: False
    let ?b2 = "share_count (src_net src1) one_trial (share_count (src_addr src1) one_trial b1)"
    have r: "src' = src1" "b' = ?b2\<lparr>bg_unknown_trials := bg_unknown_trials ?b2 + 1, bg_trials := bg_trials ?b2 + 1\<rparr>"
      using run False sh go by (auto simp: server_key_trial_budget_def Let_def)
    have "budget_inv ks ?b2" "source_ok ?b2 now src1"
      by (rule count_both [where count = sh_trials and limit = "server_trial_share ks"];
          use S go in \<open>auto simp: share_ok_def one_trial_def Suc_le_eq\<close>)+
    then show ?thesis
      using S F False by (auto simp: r budget_inv_def source_ok_def slot_for_def share_count_frames)
  qed
qed

lemma trial_run_props:
  "budget_inv ks b \<Longrightarrow> src_looked_up src \<longrightarrow> source_ok b now src \<Longrightarrow>
   trial_run mc fresh now ks owns src b = (n, src', b') \<Longrightarrow> budget_inv ks b'"
proof (induction owns arbitrary: src b n)
  case (Cons own owns)
  obtain r src1 b1 where t: "server_key_trial_budget mc fresh now ks own src b = (r, src1, b1)"
    by (metis surj_pair)
  note P = key_trial_props [OF Cons.prems(1,2) t]
  show ?case
  proof (cases "r = 0")
    case False
    then show ?thesis
      using Cons.prems(3) t P by simp
  next
    case True
    obtain m src2 b2 where "trial_run mc fresh now ks owns src1 b1 = (m, src2, b2)"
      by (metis surj_pair)
    then show ?thesis
      using Cons.prems(3) t True P Cons.IH [of b1 src1 m] by simp
  qed
qed simp

lemma budget_step_inv: "budget_inv ks b \<Longrightarrow> budget_inv ks (budget_step mc ks b e)"
proof -
  assume inv: "budget_inv ks b"
  obtain r src b1 where h: "server_handshake_budget mc (ev_fresh e) (ev_now e) (source_new (ev_a e) (ev_known e))
      (server_budget_window (ev_now e) b) = (r, src, b1)"
    by (metis surj_pair)
  have "src_looked_up (source_new (ev_a e) (ev_known e)) \<longrightarrow>
      source_ok (server_budget_window (ev_now e) b) (ev_now e) (source_new (ev_a e) (ev_known e))"
    by (simp add: source_new_def)
  note H = handshake_budget_props [OF budget_inv_window [OF inv] this h]
  obtain n src2 b2 where t: "trial_run mc (ev_fresh e) (ev_now e) ks (ev_trials e) src b1 = (n, src2, b2)"
    by (metis surj_pair)
  then have "budget_inv ks b2"
    using trial_run_props [OF _ _ t] H by blast
  then show ?thesis
    using H h t by (simp add: budget_step_def)
qed

interpretation budgets: stepper "budget_step mc ks" "budget_inv ks" for mc ks
  by unfold_locales (rule budget_step_inv)

subsection \<open>The first handshake of a source can try every key\<close>

lemma trial_share_room: "ks \<le> server_trial_share ks net"
  by (cases net) (auto simp: server_trial_share_def Let_def)

lemma unknown_trial_room: "ks \<le> SERVER_UNKNOWN_SHARE (server_key_trials_limit ks)" "ks \<le> server_key_trials_limit ks"
  by (auto simp: server_key_trials_limit_def SERVER_UNKNOWN_SHARE_def SERVER_KEY_TRIALS_PER_SEC_def
      SERVER_HANDSHAKES_PER_SEC_def)

text \<open>\<open>m\<close> trials are already counted, all of them for this source.\<close>

definition trials_done :: "nat \<Rightarrow> source \<Rightarrow> budget \<Rightarrow> bool" where
  "trials_done m src b \<longleftrightarrow> bg_trials b \<le> m \<and> bg_unknown_trials b \<le> m \<and> src_looked_up src \<and>
     (\<forall>i. src_addr src = Some i \<longrightarrow> sh_trials (bg_shares b ! i) \<le> m) \<and>
     (\<forall>i. src_net src = Some i \<longrightarrow> sh_trials (bg_shares b ! i) \<le> m)"

lemma trial_granted:
  assumes d: "trials_done m src b" and m: "m < ks" and src: "source_ok b now src"
  shows "\<exists>b'. server_key_trial_budget mc fresh now ks False src b = (0, src, b') \<and> trials_done (Suc m) src b' \<and>
    source_ok b' now src"
proof -
  let ?b1 = "share_count (src_addr src) one_trial b"
  let ?b2 = "share_count (src_net src) one_trial ?b1"
  let ?b' = "?b2\<lparr>bg_unknown_trials := bg_unknown_trials ?b2 + 1, bg_trials := bg_trials ?b2 + 1\<rparr>"
  have look: "server_source_shares mc fresh now src b = (src, b)"
    using d by (simp add: server_source_shares_def trials_done_def)
  have low: "\<not> share_at b (src_addr src) sh_trials (server_trial_share ks False)"
    "\<not> share_at b (src_net src) sh_trials (server_trial_share ks True)"
    using d m trial_share_room [of ks False] trial_share_room [of ks True]
    by (auto simp: share_at_def trials_done_def split: option.splits)
  have "bg_trials b < server_key_trials_limit ks" "bg_unknown_trials b < SERVER_UNKNOWN_SHARE (server_key_trials_limit ks)"
    using d m unknown_trial_room [of ks] by (simp_all add: trials_done_def)
  then have run: "server_key_trial_budget mc fresh now ks False src b = (0, src, ?b')"
    using look low by (simp add: server_key_trial_budget_def Let_def)
  have ne: "i \<noteq> j" if "src_addr src = Some i" "src_net src = Some j" for i j
    using src that by (auto simp: source_ok_def slot_for_def)
  have "trials_done (Suc m) src ?b'"
    using d ne by (auto simp: trials_done_def share_count_def nth_update one_trial_def le_SucI split: option.splits)
  moreover have "source_ok ?b' now src"
    using src ne by (auto simp: source_ok_def slot_for_def share_count_def nth_update split: option.splits)
  ultimately show ?thesis
    using run by blast
qed

lemma trials_granted:
  "trials_done m src b \<Longrightarrow> m + n \<le> ks \<Longrightarrow> source_ok b now src \<Longrightarrow>
   \<exists>src' b'. trial_run mc fresh now ks (replicate n False) src b = (n, src', b')"
proof (induction n arbitrary: m b)
  case (Suc n)
  have "m < ks"
    using Suc.prems(2) by simp
  from trial_granted [OF Suc.prems(1) this Suc.prems(3)] obtain b1 where
    b1: "server_key_trial_budget mc fresh now ks False src b = (0, src, b1)" "trials_done (Suc m) src b1" "source_ok b1 now src"
    by blast
  have "Suc m + n \<le> ks"
    using Suc.prems(2) by simp
  from Suc.IH [OF b1(2) this b1(3)] show ?case
    using b1(1) by auto
qed simp


subsection \<open>Seconds seen\<close>

definition windows_in :: "int set \<Rightarrow> budget \<Rightarrow> bool" where
  "windows_in W b \<longleftrightarrow> bg_window b \<in> W \<and> (\<forall>i<length (bg_shares b). sh_window (bg_shares b ! i) \<in> W)"

lemma share_key_frames:
  "bg_shares (share_key fresh b) = bg_shares b" "bg_window (share_key fresh b) = bg_window b"
  by (simp_all add: share_key_def split: option.splits)

lemma windows_mono: "windows_in W b \<Longrightarrow> W \<subseteq> V \<Longrightarrow> windows_in V b"
  by (auto simp: windows_in_def)

lemma windows_share_of:
  "windows_in W b \<Longrightarrow> now \<in> W \<Longrightarrow> server_share_of mc fresh now key net b = (b', k) \<Longrightarrow> windows_in W b'"
  by (auto simp: server_share_of_def Let_def windows_in_def nth_update share_key_frames split: sum.splits option.splits)

lemma windows_source:
  assumes w: "windows_in W b" "now \<in> W" and run: "server_source_shares mc fresh now src b = (src', b')"
  shows "windows_in W b'"
proof (cases "src_looked_up src")
  case True
  then show ?thesis
    using run w by (simp add: server_source_shares_def)
next
  case False
  obtain b1 a where r1: "server_share_of mc fresh now (src_a src) False b = (b1, a)"
    by fastforce
  obtain b2 n where r2: "server_share_of mc fresh now (src_a src AND 0xFFFFFF00) True b1 = (b2, n)"
    by fastforce
  have "b' = b2"
    using run False r1 r2 by (simp add: server_source_shares_def)
  then show ?thesis
    using windows_share_of [OF windows_share_of [OF w r1] w(2) r2] by simp
qed

lemma windows_count: "(\<And>s. sh_window (f s) = sh_window s) \<Longrightarrow> windows_in W (share_count k f b) = windows_in W b"
  by (auto simp: share_count_def windows_in_def nth_update split: option.splits)

lemma windows_fields:
  "windows_in W (b\<lparr>bg_handshakes := x\<rparr>) = windows_in W b" "windows_in W (b\<lparr>bg_unknown_handshakes := x\<rparr>) = windows_in W b"
  "windows_in W (b\<lparr>bg_trials := x\<rparr>) = windows_in W b" "windows_in W (b\<lparr>bg_unknown_trials := x\<rparr>) = windows_in W b"
  by (simp_all add: windows_in_def)

lemma windows_handshake:
  assumes "windows_in W b" "now \<in> W" and run: "server_handshake_budget mc fresh now src b = (r, src', b')"
  shows "windows_in W b'"
proof -
  obtain src1 b1 where s: "server_source_shares mc fresh now src b = (src1, b1)"
    by fastforce
  show ?thesis
    using run assms(1) windows_source [OF assms(1,2) s]
    by (auto simp: server_handshake_budget_def s Let_def windows_fields windows_count split: if_splits)
qed

lemma windows_trial:
  assumes "windows_in W b" "now \<in> W" and run: "server_key_trial_budget mc fresh now ks own src b = (r, src', b')"
  shows "windows_in W b'"
proof -
  obtain src1 b1 where s: "server_source_shares mc fresh now src b = (src1, b1)"
    by fastforce
  show ?thesis
    using run assms(1) windows_source [OF assms(1,2) s]
    by (auto simp: server_key_trial_budget_def s Let_def windows_fields windows_count split: if_splits)
qed

lemma windows_trials:
  "windows_in W b \<Longrightarrow> now \<in> W \<Longrightarrow> trial_run mc fresh now ks owns src b = (n, src', b') \<Longrightarrow> windows_in W b'"
proof (induction owns arbitrary: src b n)
  case (Cons own owns)
  obtain r src1 b1 where t: "server_key_trial_budget mc fresh now ks own src b = (r, src1, b1)"
    by (metis surj_pair)
  obtain m src2 b2 where u: "trial_run mc fresh now ks owns src1 b1 = (m, src2, b2)"
    by (metis surj_pair)
  show ?case
    using Cons.prems(3) Cons.IH [OF windows_trial [OF Cons.prems(1,2) t] Cons.prems(2)]
      windows_trial [OF Cons.prems(1,2) t] t u
    by (auto split: if_splits)
qed simp

lemma windows_step: "windows_in W b \<Longrightarrow> ev_now e \<in> W \<Longrightarrow> windows_in W (budget_step mc ks b e)"
proof -
  assume w: "windows_in W b" "ev_now e \<in> W"
  have w0: "windows_in W (server_budget_window (ev_now e) b)"
    using w by (simp add: server_budget_window_def windows_in_def)
  obtain r src b1 where h: "server_handshake_budget mc (ev_fresh e) (ev_now e) (source_new (ev_a e) (ev_known e))
      (server_budget_window (ev_now e) b) = (r, src, b1)"
    by (metis surj_pair)
  obtain n src2 b2 where t: "trial_run mc (ev_fresh e) (ev_now e) ks (ev_trials e) src b1 = (n, src2, b2)"
    by (metis surj_pair)
  have w1: "windows_in W b1"
    by (rule windows_handshake [OF w0 w(2) h])
  show ?thesis
    using w1 windows_trials [OF w1 w(2) t] by (simp add: budget_step_def h t)
qed

lemma windows_run: "windows_in (insert 0 (ev_now ` set es)) (foldl (budget_step mc ks) budget_start es)"
proof (induction es rule: rev_induct)
  case Nil
  then show ?case
    by (simp add: windows_in_def budget_start_def)
next
  case (snoc e es)
  then have "windows_in (insert 0 (ev_now ` set (es @ [e]))) (foldl (budget_step mc ks) budget_start es)"
    by (rule windows_mono) auto
  from windows_step [OF this, of e mc ks] show ?case
    by simp
qed

subsection \<open>Properties\<close>

text \<open>Whatever INITs arrive, from whatever sources, known or not, and however many keys each tries,
  the server never spends more than 200 handshakes and its limit of key trials in a second,
  unknown sources get at most three quarters of them, and no share entry goes over its part.\<close>

lemma budget_bounded:
  assumes "b = foldl (budget_step mc ks) budget_start es"
  shows "bg_handshakes b \<le> 200 \<and> bg_unknown_handshakes b \<le> 150 \<and> bg_trials b \<le> server_key_trials_limit ks \<and>
    bg_unknown_trials b \<le> server_key_trials_limit ks div 4 * 3 \<and>
    (\<forall>i<SERVER_SRC_SLOTS. sh_handshakes (bg_shares b ! i) \<le> (if sh_is_net (bg_shares b ! i) then 50 else 25))"
proof -
  have "budget_inv ks b"
    unfolding assms by (rule budgets.inv_run [OF budget_inv_start])
  then have I: "bg_handshakes b \<le> 200 \<and> bg_unknown_handshakes b \<le> 150 \<and> bg_trials b \<le> server_key_trials_limit ks \<and>
      bg_unknown_trials b \<le> server_key_trials_limit ks div 4 * 3"
    and S: "\<And>i. i < SERVER_SRC_SLOTS \<Longrightarrow> share_ok ks (bg_shares b ! i)"
    by (simp_all add: budget_inv_def SERVER_HANDSHAKES_PER_SEC_def SERVER_UNKNOWN_SHARE_def)
  have "sh_handshakes (bg_shares b ! i) \<le> (if sh_is_net (bg_shares b ! i) then 50 else 25)" if "i < SERVER_SRC_SLOTS" for i
    using S [OF that]
    by (cases "sh_is_net (bg_shares b ! i)")
      (simp_all add: share_ok_def SERVER_HANDSHAKES_PER_SEC_def SERVER_NET_SHARE_def SERVER_SRC_SHARE_def)
  then show ?thesis
    using I by blast
qed


text \<open>A flood from unknown sources cannot shut out live clients: in any reachable state an INIT of
  a known source is refused only when at least 50 INITs of known sources have been taken in
  this very second.\<close>

lemma budget_known_sources:
  assumes "b = server_budget_window now (foldl (budget_step mc ks) budget_start es)" and "src_known src \<noteq> None"
    and "server_handshake_budget mc fresh now src b = (r, src', b')"
  shows "r = 0 \<or> r = - 1 \<and> 50 \<le> bg_handshakes b - bg_unknown_handshakes b"
proof -
  have "budget_inv ks b"
    unfolding assms(1) by (rule budget_inv_window [OF budgets.inv_run [OF budget_inv_start]])
  then show ?thesis
    using assms(2,3) by (auto simp: server_handshake_budget_def budget_inv_def SERVER_HANDSHAKES_PER_SEC_def
        SERVER_UNKNOWN_SHARE_def split: if_splits)
qed


text \<open>The first handshake of a second can try every key of the keystore, however large it is,
  whatever its source and whatever the seconds before held.\<close>

lemma budget_reaches_every_key:
  assumes b: "b = server_budget_window now (foldl (budget_step mc ks) budget_start es)"
    and new: "now \<noteq> 0" "\<forall>e\<in>set es. ev_now e \<noteq> now"
  shows "\<exists>src' b'. trial_run mc fresh now ks (replicate ks False) (source_new a None) b = (ks, src', b')"
proof (cases ks)
  case 0
  then show ?thesis by simp
next
  case (Suc n)
  let ?b0 = "foldl (budget_step mc ks) budget_start es"
  have inv: "budget_inv ks b"
    unfolding b by (rule budget_inv_window [OF budgets.inv_run [OF budget_inv_start]])
  have now: "now \<notin> insert 0 (ev_now ` set es)"
    using new by auto
  have w: "bg_window ?b0 \<noteq> now \<and> (\<forall>i<length (bg_shares ?b0). sh_window (bg_shares ?b0 ! i) \<noteq> now)"
    using windows_run [of es mc ks] now unfolding windows_in_def by metis
  have zero: "bg_trials b = 0" "bg_unknown_trials b = 0"
    using w by (simp_all add: b server_budget_window_def)
  have unused: "\<forall>i<length (bg_shares b). sh_window (bg_shares b ! i) = now \<longrightarrow> sh_trials (bg_shares b ! i) = 0"
    using w by (simp add: b server_budget_window_def)
  obtain s1 b1 where sh: "server_source_shares mc fresh now (source_new a None) b = (s1, b1)"
    by fastforce
  have nl: "src_looked_up (source_new a None) \<longrightarrow> source_ok b now (source_new a None)"
    by (simp add: source_new_def)
  note S = source_shares_props [OF inv nl sh] and F = shares_frames [OF sh]
  have keep: "\<forall>i<length (bg_shares b2). sh_window (bg_shares b2 ! i) = now \<longrightarrow> sh_trials (bg_shares b2 ! i) = 0"
    if "server_share_of mc fresh now key net b3 = (b2, k)"
      "\<forall>i<length (bg_shares b3). sh_window (bg_shares b3 ! i) = now \<longrightarrow> sh_trials (bg_shares b3 ! i) = 0" for key net b3 b2 k
    using that by (auto simp: server_share_of_def share_key_frames Let_def nth_update split: sum.splits option.splits)
  have "\<forall>i<length (bg_shares b1). sh_window (bg_shares b1 ! i) = now \<longrightarrow> sh_trials (bg_shares b1 ! i) = 0"
  proof -
    obtain b2 k where r1: "server_share_of mc fresh now a False b = (b2, k)"
      by fastforce
    obtain b3 n where r2: "server_share_of mc fresh now (a AND 0xFFFFFF00) True b2 = (b3, n)"
      by fastforce
    have "b1 = b3"
      using sh r1 r2 by (simp add: server_source_shares_def source_new_def)
    then show ?thesis
      using keep [OF r2 keep [OF r1 unused]] by simp
  qed
  then have done1: "trials_done 0 s1 b1"
    using S F zero by (auto simp: trials_done_def source_ok_def slot_for_def)
  have "server_source_shares mc fresh now s1 b1 = (s1, b1)"
    using S by (simp add: server_source_shares_def)
  then have first: "server_key_trial_budget mc fresh now ks False (source_new a None) b
      = server_key_trial_budget mc fresh now ks False s1 b1"
    using zero F Suc unknown_trial_room [of ks] sh by (simp add: server_key_trial_budget_def)
  have "trial_run mc fresh now ks (replicate ks False) (source_new a None) b
      = trial_run mc fresh now ks (replicate ks False) s1 b1"
    by (simp add: Suc) (simp add: first [unfolded Suc])
  then show ?thesis
    using trials_granted [OF done1, of ks ks now mc fresh] S by simp
qed


end
