(* ===== verification/Proto.thy ===== *)
theory Proto
  imports Config
begin

text \<open>
  \<open>src/proto.c\<close> and \<open>config_apply_profile\<close> of \<open>src/config.c\<close>: the REGISTER and CONFIG
  messages carried in the handshake payloads.  A message is the C string the builder leaves in
  its buffer; a parser returns what it stores, \<open>None\<close> when it returns -1 (its callers then
  drop what it had stored).
\<close>

subsection \<open>The client configuration\<close>

text \<open>The fields of \<open>camex_config_t\<close> that the tunnel code reads and writes.\<close>

record camex_config =
  c_local_ip :: string
  c_local_cidr :: string
  c_gateway_ip :: string
  c_server_host :: string
  c_port :: int
  c_route_cidrs :: "string list"
  c_mtu :: int
  c_encrypt :: bool
  c_client_id :: string
  c_auto_config :: bool
  c_tcp :: bool
  c_server_timeout :: int
  c_keepalive :: int

definition config_apply_profile :: "camex_config \<Rightarrow> camex_profile \<Rightarrow> camex_config option" where
  "config_apply_profile c p =
     (if p_local_cidr p = [] \<or> p_gateway_ip p = [] then None
      else Some (c\<lparr>c_local_cidr := fit 32 (p_local_cidr p),
                   c_gateway_ip := fit 16 (p_gateway_ip p),
                   c_route_cidrs := map (fit 32) (take CAMEX_MAX_ROUTES (p_route_cidrs p)),
                   c_mtu := (if p_mtu p > 0 then p_mtu p else c_mtu c)\<rparr>))"

definition CAMEX_CTRL_WORD :: string where "CAMEX_CTRL_WORD = ''CAMEX''"
definition CAMEX_PROTO_VER :: nat where "CAMEX_PROTO_VER = 2"
definition CAMEX_CLIENT_TOKEN_LEN :: nat where "CAMEX_CLIENT_TOKEN_LEN = 64"
definition CAMEX_CONTROL_MAX :: nat where "CAMEX_CONTROL_MAX = 1024"

subsection \<open>REGISTER\<close>

text \<open>Successive \<open>append_control_field\<close> calls, each returning -1 from the builder when it fails.\<close>

fun append_fields :: "nat \<Rightarrow> string list \<Rightarrow> string \<Rightarrow> string option" where
  "append_fields n [] b = Some b"
| "append_fields n (f # fs) b =
     (case append_control_field n b f of None \<Rightarrow> None | Some b' \<Rightarrow> append_fields n fs b')"

definition proto_build_register :: "camex_config \<Rightarrow> nat \<Rightarrow> string option" where
  "proto_build_register c n =
     (if n = 0 then None
      else append_fields n
        ([CAMEX_CTRL_WORD @ '' REGISTER'', '' VER='' @ dec CAMEX_PROTO_VER] @
         (if c_auto_config c
          then ['' MODE=AUTO CLIENT_ID='' @ c_client_id c] @
               (if c_local_ip c \<noteq> [] then ['' LOCAL_IP='' @ c_local_ip c] else [])
          else ['' MODE=MANUAL LOCAL_IP='' @ c_local_ip c] @
               (if c_client_id c \<noteq> [] then ['' CLIENT_ID='' @ c_client_id c] else [])) @
         [[CHR 0x0A]]) [])"

text \<open>The caller's buffers and flags: \<open>client_id[32]\<close>, \<open>local_ip[16]\<close>, \<open>*auto_request\<close>, \<open>saw_mode\<close>.\<close>

record reg_msg =
  r_client_id :: string
  r_local_ip :: string
  r_auto :: bool
  r_saw_mode :: bool

definition token_field :: "string \<Rightarrow> string \<Rightarrow> string option" where
  "token_field tok key = token_value tok key CAMEX_CLIENT_TOKEN_LEN"

text \<open>The version check: \<open>strtoul\<close> without \<open>ERANGE\<close>, cut to \<open>unsigned int\<close>.\<close>

definition register_version_ok :: "string \<Rightarrow> bool" where
  "register_version_ok v =
     (case strtoul v of (pv, end, _) \<Rightarrow>
        if end = v \<or> end \<noteq> [] then False else \<not> (pv mod 2 ^ 32 > CAMEX_PROTO_VER))"

definition register_other :: "string \<Rightarrow> reg_msg \<Rightarrow> reg_msg option" where
  "register_other tok r =
     (if \<not> r_saw_mode r \<and> r_client_id r = [] \<and> r_local_ip r = [] then
        (if \<not> validate_ipv4 tok then None
         else map_option (\<lambda>v. r\<lparr>r_local_ip := v, r_auto := False\<rparr>) (copy_option 16 tok))
      else None)"

definition register_token :: "string \<Rightarrow> reg_msg \<Rightarrow> reg_msg option" where
  "register_token tok r =
     (case token_field tok ''VER'' of
        Some v \<Rightarrow> (if register_version_ok v then Some r else None)
      | None \<Rightarrow>
     (case token_field tok ''MODE'' of
        Some v \<Rightarrow>
          (if strcaseeq v ''AUTO'' then Some (r\<lparr>r_saw_mode := True, r_auto := True\<rparr>)
           else if strcaseeq v ''MANUAL'' then Some (r\<lparr>r_saw_mode := True, r_auto := False\<rparr>)
           else None)
      | None \<Rightarrow>
     (case token_field tok ''CLIENT_ID'' of
        Some v \<Rightarrow> map_option (\<lambda>w. r\<lparr>r_client_id := w\<rparr>) (copy_option CAMEX_CLIENT_ID_LEN v)
      | None \<Rightarrow>
     (case token_field tok ''LOCAL_IP'' of
        Some v \<Rightarrow> map_option (\<lambda>w. r\<lparr>r_local_ip := w\<rparr>) (copy_option 16 v)
      | None \<Rightarrow> register_other tok r))))"

fun register_tokens :: "string list \<Rightarrow> reg_msg \<Rightarrow> reg_msg option" where
  "register_tokens [] r = Some r"
| "register_tokens (t # ts) r =
     (case register_token t r of None \<Rightarrow> None | Some r' \<Rightarrow> register_tokens ts r')"

definition register_complete :: "reg_msg \<Rightarrow> reg_msg option" where
  "register_complete r =
     (if r_auto r then (if r_client_id r = [] then None else Some r)
      else if r_local_ip r = [] then None else Some r)"

definition proto_parse_register :: "string \<Rightarrow> reg_msg \<Rightarrow> reg_msg option" where
  "proto_parse_register message r =
     (case tokens message of
        w1 # w2 # ts \<Rightarrow>
          (if w1 \<noteq> CAMEX_CTRL_WORD then None
           else if w2 \<noteq> ''REGISTER'' then None
           else case register_tokens ts (r\<lparr>r_saw_mode := False\<rparr>) of
                  None \<Rightarrow> None
                | Some r' \<Rightarrow> register_complete r')
      | _ \<Rightarrow> None)"

subsection \<open>CONFIG\<close>

definition proto_build_config :: "string \<Rightarrow> camex_profile \<Rightarrow> nat \<Rightarrow> string option" where
  "proto_build_config client_id p n =
     (if n = 0 then None
      else append_fields n
        ([CAMEX_CTRL_WORD @ '' CONFIG'', '' VER='' @ dec CAMEX_PROTO_VER] @
         (if client_id \<noteq> [] then ['' CLIENT_ID='' @ client_id] else []) @
         (if p_mtu p > 0 then ['' MTU='' @ dec (nat (p_mtu p))] else []) @
         (if p_local_cidr p \<noteq> [] then ['' LOCAL_CIDR='' @ p_local_cidr p] else []) @
         (if p_gateway_ip p \<noteq> [] then ['' GATEWAY_IP='' @ p_gateway_ip p] else []) @
         map (\<lambda>r. '' ROUTE_CIDR='' @ r) (p_route_cidrs p) @
         [[CHR 0x0A]]) [])"

text \<open>One token; the staged client ID and profile.\<close>

definition config_token :: "string \<Rightarrow> string \<times> camex_profile \<Rightarrow> (string \<times> camex_profile) option" where
  "config_token tok st = (case st of (cid, p) \<Rightarrow>
     (case token_field tok ''CLIENT_ID'' of
        Some v \<Rightarrow> map_option (\<lambda>w. (w, p)) (copy_option CAMEX_CLIENT_ID_LEN v)
      | None \<Rightarrow>
     (case token_field tok ''LOCAL_CIDR'' of
        Some v \<Rightarrow> map_option (\<lambda>w. (cid, p\<lparr>p_local_cidr := w\<rparr>)) (copy_option 32 v)
      | None \<Rightarrow>
     (case token_field tok ''GATEWAY_IP'' of
        Some v \<Rightarrow> map_option (\<lambda>w. (cid, p\<lparr>p_gateway_ip := w\<rparr>)) (copy_option 16 v)
      | None \<Rightarrow>
     (case token_field tok ''ROUTE_CIDR'' of
        Some v \<Rightarrow> map_option (\<lambda>q. (cid, q)) (config_profile_append_route p v)
      | None \<Rightarrow>
     (case token_field tok ''MTU'' of
        Some v \<Rightarrow> map_option (\<lambda>m. (cid, p\<lparr>p_mtu := m\<rparr>)) (parse_mtu v)
      | None \<Rightarrow>
     (case token_field tok ''VER'' of
        Some v \<Rightarrow> Some (cid, p)
      | None \<Rightarrow> None)))))))"

fun config_tokens :: "string list \<Rightarrow> string \<times> camex_profile \<Rightarrow> (string \<times> camex_profile) option" where
  "config_tokens [] st = Some st"
| "config_tokens (t # ts) st =
     (case config_token t st of None \<Rightarrow> None | Some st' \<Rightarrow> config_tokens ts st')"

text \<open>The checks after the loop, and the commit.\<close>

definition config_accept :: "camex_config \<Rightarrow> string \<times> camex_profile \<Rightarrow> camex_config option" where
  "config_accept c st = (case st of (cid, p) \<Rightarrow>
     if p_local_cidr p \<noteq> [] \<and> parse_local_cidr (p_local_cidr p) 16 16 = None then None
     else if p_gateway_ip p \<noteq> [] \<and> \<not> validate_ipv4 (p_gateway_ip p) then None
     else if c_client_id c \<noteq> [] \<and> cid \<noteq> [] \<and> \<not> strcaseeq (c_client_id c) cid then None
     else case config_apply_profile c p of
            None \<Rightarrow> None
          | Some c' \<Rightarrow> Some (if cid \<noteq> [] then c'\<lparr>c_client_id := cid\<rparr> else c'))"

definition proto_parse_config :: "string \<Rightarrow> camex_config \<Rightarrow> camex_config option" where
  "proto_parse_config message c =
     (case tokens message of
        w1 # w2 # ts \<Rightarrow>
          (if w1 \<noteq> CAMEX_CTRL_WORD then None
           else if w2 \<noteq> ''CONFIG'' then None
           else case config_tokens ts (c_client_id c, config_profile_reset) of
                  None \<Rightarrow> None
                | Some st \<Rightarrow> config_accept c st)
      | _ \<Rightarrow> None)"

subsection \<open>Messages as words\<close>

definition message_of :: "string list \<Rightarrow> string" where
  "message_of ws = CAMEX_CTRL_WORD @ concat (map (\<lambda>w. CHR '' '' # w) ws) @ [CHR 0x0A]"

lemma append_fields_fits:
  "length (b @ concat fs) < n \<Longrightarrow> append_fields n fs b = Some (b @ concat fs)"
  by (induction fs arbitrary: b) (auto simp: append_control_field_def)

lemma append_fields_Some:
  "append_fields n fs b = Some b' \<Longrightarrow> b' = b @ concat fs \<and> (fs \<noteq> [] \<longrightarrow> length b' < n)"
proof (induction fs arbitrary: b)
  case (Cons f fs)
  then obtain c where c: "append_control_field n b f = Some c" "append_fields n fs c = Some b'"
    by (auto split: option.splits)
  then have "c = b @ f" "length c < n"
    by (auto simp: append_field_Some_iff)
  then show ?case
    using Cons.IH [OF c(2)] c(2) by (cases "fs = []") auto
qed simp

lemma append_fields_iff:
  "fs \<noteq> [] \<Longrightarrow> append_fields n fs b = Some b' \<longleftrightarrow> b' = b @ concat fs \<and> length b' < n"
  using append_fields_Some [of n fs b b'] append_fields_fits [of b fs n] by auto

lemma blank_chars [simp]: "blank (CHR '' '')" "blank (CHR 0x0A)"
  by (simp_all add: blank_def)

lemma tokens_words:
  "\<forall>w\<in>set ws. word_text w \<Longrightarrow>
   tokens (concat (map (\<lambda>w. CHR '' '' # w) ws) @ [CHR 0x0A]) = ws"
proof (induction ws)
  case Nil
  then show ?case by (simp add: tokens_sep tokens_Nil)
next
  case (Cons w ws)
  let ?rest = "concat (map (\<lambda>w. CHR '' '' # w) ws) @ [CHR 0x0A]"
  have w: "word_text w" and rest: "tokens ?rest = ws"
    using Cons by simp_all
  obtain c s where c: "?rest = c # s" "blank c"
    by (cases ws) auto
  have "tokens (w @ ?rest) = w # tokens ?rest"
    using tokens_word_sep [OF w c(2)] c tokens_sep [OF c(2)] by simp
  then show ?case
    using rest by (simp add: tokens_sep)
qed

lemma tokens_message:
  assumes "\<forall>w\<in>set ws. word_text w"
  shows "tokens (message_of ws) = CAMEX_CTRL_WORD # ws"
proof -
  have "\<forall>w\<in>set (CAMEX_CTRL_WORD # ws). word_text w"
    using assms by (auto simp: word_text_def CAMEX_CTRL_WORD_def blank_def)
  from tokens_words [OF this] show ?thesis
    by (simp add: message_of_def tokens_sep)
qed

lemma word_text_append: "word_text a \<Longrightarrow> word_text b \<Longrightarrow> word_text (a @ b)"
  by (auto simp: word_text_def)

lemma field_words:
  "word_text v \<Longrightarrow> word_text (''CLIENT_ID='' @ v)" "word_text v \<Longrightarrow> word_text (''LOCAL_IP='' @ v)"
  "word_text v \<Longrightarrow> word_text (''LOCAL_CIDR='' @ v)" "word_text v \<Longrightarrow> word_text (''GATEWAY_IP='' @ v)"
  "word_text v \<Longrightarrow> word_text (''ROUTE_CIDR='' @ v)" "word_text v \<Longrightarrow> word_text (''MTU='' @ v)"
  "word_text ''VER=2''" "word_text ''REGISTER''" "word_text ''CONFIG''"
  "word_text ''MODE=AUTO''" "word_text ''MODE=MANUAL''"
  by (auto simp: word_text_def blank_def)

lemma dec_ver: "dec CAMEX_PROTO_VER = ''2''"
  by code_simp

lemma word_text_dec: "word_text (dec n)"
  using dec_digits [of n] digit_not_special(6) by (auto simp: word_text_def)

lemma token_field_eq:
  "token_field (''CLIENT_ID='' @ v) ''CLIENT_ID'' = copy_option 64 v"
  "token_field (''LOCAL_IP='' @ v) ''LOCAL_IP'' = copy_option 64 v"
  "token_field (''LOCAL_CIDR='' @ v) ''LOCAL_CIDR'' = copy_option 64 v"
  "token_field (''GATEWAY_IP='' @ v) ''GATEWAY_IP'' = copy_option 64 v"
  "token_field (''ROUTE_CIDR='' @ v) ''ROUTE_CIDR'' = copy_option 64 v"
  "token_field (''MTU='' @ v) ''MTU'' = copy_option 64 v"
  "token_field (''VER='' @ v) ''VER'' = copy_option 64 v"
  "token_field (''MODE='' @ v) ''MODE'' = copy_option 64 v"
  by (simp_all add: token_field_def token_value_def CAMEX_CLIENT_TOKEN_LEN_def)

lemma token_field_other:
  "token_field (''CLIENT_ID='' @ v) ''VER'' = None" "token_field (''CLIENT_ID='' @ v) ''MODE'' = None"
  "token_field (''LOCAL_IP='' @ v) ''VER'' = None" "token_field (''LOCAL_IP='' @ v) ''MODE'' = None"
  "token_field (''LOCAL_IP='' @ v) ''CLIENT_ID'' = None"
  "token_field (''LOCAL_CIDR='' @ v) ''CLIENT_ID'' = None"
  "token_field (''GATEWAY_IP='' @ v) ''CLIENT_ID'' = None"
  "token_field (''GATEWAY_IP='' @ v) ''LOCAL_CIDR'' = None"
  "token_field (''ROUTE_CIDR='' @ v) ''CLIENT_ID'' = None"
  "token_field (''ROUTE_CIDR='' @ v) ''LOCAL_CIDR'' = None"
  "token_field (''ROUTE_CIDR='' @ v) ''GATEWAY_IP'' = None"
  "token_field (''MTU='' @ v) ''CLIENT_ID'' = None" "token_field (''MTU='' @ v) ''LOCAL_CIDR'' = None"
  "token_field (''MTU='' @ v) ''GATEWAY_IP'' = None" "token_field (''MTU='' @ v) ''ROUTE_CIDR'' = None"
  "token_field (''VER='' @ v) ''CLIENT_ID'' = None" "token_field (''VER='' @ v) ''LOCAL_CIDR'' = None"
  "token_field (''VER='' @ v) ''GATEWAY_IP'' = None" "token_field (''VER='' @ v) ''ROUTE_CIDR'' = None"
  "token_field (''VER='' @ v) ''MTU'' = None" "token_field (''MODE='' @ v) ''VER'' = None"
  by (simp_all add: token_field_def token_value_def)

lemma copy_fits: "v \<noteq> [] \<Longrightarrow> length v < n \<Longrightarrow> n \<le> m \<Longrightarrow> copy_option m v = Some v"
  by (simp add: copy_option_eq)

subsection \<open>REGISTER round trip\<close>

definition register_words :: "camex_config \<Rightarrow> string list" where
  "register_words c = [''REGISTER'', ''VER=2''] @
     (if c_auto_config c
      then [''MODE=AUTO'', ''CLIENT_ID='' @ c_client_id c] @
           (if c_local_ip c \<noteq> [] then [''LOCAL_IP='' @ c_local_ip c] else [])
      else [''MODE=MANUAL'', ''LOCAL_IP='' @ c_local_ip c] @
           (if c_client_id c \<noteq> [] then [''CLIENT_ID='' @ c_client_id c] else []))"

lemma append_fields_concat: "concat fs = m \<Longrightarrow> length m < n \<Longrightarrow> append_fields n fs [] = Some m"
  using append_fields_fits [of "[]" fs n] by simp

lemma build_register_words:
  assumes "length (message_of (register_words c)) < n"
  shows "proto_build_register c n = Some (message_of (register_words c))"
proof -
  have n: "n \<noteq> 0"
    using assms by simp
  show ?thesis
    unfolding proto_build_register_def if_not_P [OF n]
    by (rule append_fields_concat [OF _ assms])
      (simp add: message_of_def register_words_def CAMEX_CTRL_WORD_def dec_ver)
qed

text \<open>What a client sends: an ID and an address that are single words and fit their fields.\<close>

definition sends_ok :: "camex_config \<Rightarrow> bool" where
  "sends_ok c \<longleftrightarrow> length (c_client_id c) < CAMEX_CLIENT_ID_LEN \<and> length (c_local_ip c) < 16 \<and>
     (if c_auto_config c then word_text (c_client_id c) \<and> (c_local_ip c = [] \<or> word_text (c_local_ip c))
      else word_text (c_local_ip c) \<and> (c_client_id c = [] \<or> word_text (c_client_id c)))"

lemma register_version_dec:
  "n < 2 ^ 64 \<Longrightarrow> register_version_ok (dec n) \<longleftrightarrow> n mod 2 ^ 32 \<le> CAMEX_PROTO_VER"
  by (simp add: register_version_ok_def strtoul_dec not_less)

lemma register_token_ver_value:
  "v \<noteq> [] \<Longrightarrow> length v < 64 \<Longrightarrow>
   register_token (''VER='' @ v) r = (if register_version_ok v then Some r else None)"
  unfolding register_token_def token_field_eq(7) by (simp add: copy_option_eq)

lemma register_token_ver: "register_token ''VER=2'' r = Some r"
  using register_token_ver_value [of "''2''" r] register_version_dec [of 2] dec_ver
  by (simp add: CAMEX_PROTO_VER_def)

lemma register_token_mode_value:
  "v \<noteq> [] \<Longrightarrow> length v < 64 \<Longrightarrow> register_token (''MODE='' @ v) r =
     (if strcaseeq v ''AUTO'' then Some (r\<lparr>r_saw_mode := True, r_auto := True\<rparr>)
      else if strcaseeq v ''MANUAL'' then Some (r\<lparr>r_saw_mode := True, r_auto := False\<rparr>) else None)"
  unfolding register_token_def token_field_eq(8) token_field_other(21) by (simp add: copy_option_eq)

lemma register_token_mode:
  "register_token ''MODE=AUTO'' r = Some (r\<lparr>r_saw_mode := True, r_auto := True\<rparr>)"
  "register_token ''MODE=MANUAL'' r = Some (r\<lparr>r_saw_mode := True, r_auto := False\<rparr>)"
proof -
  have neq: "\<not> strcaseeq ''MANUAL'' ''AUTO''"
    by (simp add: strcaseeq_def)
  show "register_token ''MODE=AUTO'' r = Some (r\<lparr>r_saw_mode := True, r_auto := True\<rparr>)"
    using register_token_mode_value [of "''AUTO''" r] by simp
  show "register_token ''MODE=MANUAL'' r = Some (r\<lparr>r_saw_mode := True, r_auto := False\<rparr>)"
    using register_token_mode_value [of "''MANUAL''" r] neq by simp
qed

lemma register_token_id:
  "word_text v \<Longrightarrow> length v < CAMEX_CLIENT_ID_LEN \<Longrightarrow>
   register_token (''CLIENT_ID='' @ v) r = Some (r\<lparr>r_client_id := v\<rparr>)"
  unfolding register_token_def token_field_eq(1) token_field_other(1,2)
  by (simp add: copy_option_eq CAMEX_CLIENT_ID_LEN_def word_text_def)

lemma register_token_ip:
  "word_text v \<Longrightarrow> length v < 16 \<Longrightarrow>
   register_token (''LOCAL_IP='' @ v) r = Some (r\<lparr>r_local_ip := v\<rparr>)"
  unfolding register_token_def token_field_eq(2) token_field_other(3,4,5)
  by (simp add: copy_option_eq word_text_def)

lemma register_words_text: "sends_ok c \<Longrightarrow> \<forall>w\<in>set (register_words c). word_text w"
  by (auto simp: register_words_def sends_ok_def field_words simp del: append_Cons split: if_splits)


lemma register_tokens_append:
  "register_tokens (a @ b) r = (case register_tokens a r of None \<Rightarrow> None | Some r' \<Rightarrow> register_tokens b r')"
  by (induction a arbitrary: r) (simp_all split: option.splits)

lemma register_tokens_sent:
  assumes "sends_ok c"
  shows "register_tokens (tl (register_words c))
           \<lparr>r_client_id = [], r_local_ip = [], r_auto = a, r_saw_mode = False\<rparr>
         = Some \<lparr>r_client_id = c_client_id c, r_local_ip = c_local_ip c, r_auto = c_auto_config c,
                 r_saw_mode = True\<rparr>"
  using assms
  by (auto simp: register_words_def sends_ok_def register_token_ver register_token_mode register_token_id
      register_token_ip register_tokens_append simp del: append_Cons)

lemma register_round_trip:
  assumes c: "sends_ok c" and m: "m = message_of (register_words c)"
  shows "proto_parse_register m \<lparr>r_client_id = [], r_local_ip = [], r_auto = a, r_saw_mode = b\<rparr>
       = Some \<lparr>r_client_id = c_client_id c, r_local_ip = c_local_ip c, r_auto = c_auto_config c,
              r_saw_mode = True\<rparr>"
proof -
  have w: "register_words c = ''REGISTER'' # tl (register_words c)"
    by (simp add: register_words_def)
  have "tokens m = CAMEX_CTRL_WORD # ''REGISTER'' # tl (register_words c)"
    unfolding m by (subst tokens_message [OF register_words_text [OF c]]) (subst w, rule refl)
  then show ?thesis
    using c register_tokens_sent [OF c, of a]
    by (auto simp: proto_parse_register_def register_complete_def sends_ok_def word_text_def split: if_splits)
qed

lemma register_message_length:
  "sends_ok c \<Longrightarrow> length (message_of (register_words c)) < 128"
  by (simp add: sends_ok_def message_of_def register_words_def CAMEX_CTRL_WORD_def CAMEX_CLIENT_ID_LEN_def)

text \<open>What the parser accepts is complete, and every stored text fits its field.\<close>

definition reg_fits :: "reg_msg \<Rightarrow> bool" where
  "reg_fits r \<longleftrightarrow> length (r_client_id r) < CAMEX_CLIENT_ID_LEN \<and> length (r_local_ip r) < 16"

lemma register_token_fits: "register_token t r = Some r' \<Longrightarrow> reg_fits r \<Longrightarrow> reg_fits r'"
  by (auto simp: register_token_def register_other_def reg_fits_def copy_option_Some_iff
      split: option.splits if_splits)

lemma register_tokens_fits: "register_tokens ts r = Some r' \<Longrightarrow> reg_fits r \<Longrightarrow> reg_fits r'"
  by (induction ts arbitrary: r) (auto intro: register_token_fits split: option.splits)

lemma register_sound:
  assumes "proto_parse_register m r = Some r'" and "reg_fits r"
  shows "reg_fits r'" and "r_auto r' \<Longrightarrow> r_client_id r' \<noteq> []"
    and "\<not> r_auto r' \<Longrightarrow> r_local_ip r' \<noteq> []"
proof -
  have "reg_fits (r\<lparr>r_saw_mode := False\<rparr>)"
    using assms(2) by (simp add: reg_fits_def)
  moreover obtain ts q where "register_tokens ts (r\<lparr>r_saw_mode := False\<rparr>) = Some q"
      and q: "register_complete q = Some r'"
    using assms(1) by (auto simp: proto_parse_register_def split: list.splits if_splits option.splits)
  ultimately have "reg_fits q"
    by (blast intro: register_tokens_fits)
  then show "reg_fits r'" and "r_auto r' \<Longrightarrow> r_client_id r' \<noteq> []"
    and "\<not> r_auto r' \<Longrightarrow> r_local_ip r' \<noteq> []"
    using q by (auto simp: register_complete_def split: if_splits)
qed

subsection \<open>CONFIG round trip\<close>

definition config_words :: "string \<Rightarrow> camex_profile \<Rightarrow> string list" where
  "config_words cid p = [''CONFIG'', ''VER=2''] @
     (if cid \<noteq> [] then [''CLIENT_ID='' @ cid] else []) @
     (if p_mtu p > 0 then [''MTU='' @ dec (nat (p_mtu p))] else []) @
     (if p_local_cidr p \<noteq> [] then [''LOCAL_CIDR='' @ p_local_cidr p] else []) @
     (if p_gateway_ip p \<noteq> [] then [''GATEWAY_IP='' @ p_gateway_ip p] else []) @
     map (\<lambda>r. ''ROUTE_CIDR='' @ r) (p_route_cidrs p)"

lemma build_config_words:
  assumes "length (message_of (config_words cid p)) < n"
  shows "proto_build_config cid p n = Some (message_of (config_words cid p))"
proof -
  have n: "n \<noteq> 0"
    using assms by simp
  have r: "(@) '' ROUTE_CIDR='' = (\<lambda>x. CHR '' '' # ''ROUTE_CIDR='' @ x)"
    by auto
  show ?thesis
    unfolding proto_build_config_def if_not_P [OF n]
    by (rule append_fields_concat [OF _ assms])
      (simp add: message_of_def config_words_def CAMEX_CTRL_WORD_def dec_ver comp_def r)
qed

text \<open>A profile the server can announce: complete, checked, every value a single word.\<close>

definition profile_sendable :: "camex_profile \<Rightarrow> bool" where
  "profile_sendable p \<longleftrightarrow>
     word_text (p_local_cidr p) \<and> length (p_local_cidr p) < 32 \<and> parse_local_cidr (p_local_cidr p) 16 16 \<noteq> None \<and>
     word_text (p_gateway_ip p) \<and> length (p_gateway_ip p) < 16 \<and> validate_ipv4 (p_gateway_ip p) \<and>
     length (p_route_cidrs p) \<le> CAMEX_MAX_ROUTES \<and>
     (\<forall>r\<in>set (p_route_cidrs p). word_text r \<and> length r < 32 \<and> validate_route_cidr r) \<and>
     (p_mtu p = 0 \<or> 576 \<le> p_mtu p \<and> p_mtu p \<le> 9000)"

definition id_sendable :: "string \<Rightarrow> bool" where
  "id_sendable cid \<longleftrightarrow> length cid < CAMEX_CLIENT_ID_LEN \<and> (cid = [] \<or> word_text cid)"

lemma config_words_text:
  "id_sendable cid \<Longrightarrow> profile_sendable p \<Longrightarrow> \<forall>w\<in>set (config_words cid p). word_text w"
  by (auto simp: config_words_def id_sendable_def profile_sendable_def field_words word_text_dec
      simp del: append_Cons split: if_splits)

lemma config_token_id:
  "word_text v \<Longrightarrow> length v < CAMEX_CLIENT_ID_LEN \<Longrightarrow> config_token (''CLIENT_ID='' @ v) (cid, p) = Some (v, p)"
  unfolding config_token_def token_field_eq(1) prod.case
  by (simp add: copy_option_eq CAMEX_CLIENT_ID_LEN_def word_text_def)

lemma config_token_cidr:
  "word_text v \<Longrightarrow> length v < 32 \<Longrightarrow>
   config_token (''LOCAL_CIDR='' @ v) (cid, p) = Some (cid, p\<lparr>p_local_cidr := v\<rparr>)"
  unfolding config_token_def token_field_eq(3) token_field_other(6) prod.case
  by (simp add: copy_option_eq word_text_def)

lemma config_token_gateway:
  "word_text v \<Longrightarrow> length v < 16 \<Longrightarrow>
   config_token (''GATEWAY_IP='' @ v) (cid, p) = Some (cid, p\<lparr>p_gateway_ip := v\<rparr>)"
  unfolding config_token_def token_field_eq(4) token_field_other(7,8) prod.case
  by (simp add: copy_option_eq word_text_def)

lemma config_token_route:
  "word_text v \<Longrightarrow> length v < 32 \<Longrightarrow> validate_route_cidr v \<Longrightarrow> length (p_route_cidrs p) < CAMEX_MAX_ROUTES \<Longrightarrow>
   config_token (''ROUTE_CIDR='' @ v) (cid, p) = Some (cid, p\<lparr>p_route_cidrs := p_route_cidrs p @ [v]\<rparr>)"
  unfolding config_token_def token_field_eq(5) token_field_other(9,10,11) prod.case
  by (simp add: copy_option_eq word_text_def config_profile_append_route_def append_route_eq)

lemma config_token_mtu:
  assumes "576 \<le> m" and "m \<le> 9000"
  shows "config_token (''MTU='' @ dec (nat m)) (cid, p) = Some (cid, p\<lparr>p_mtu := m\<rparr>)"
proof -
  have "length (dec (nat m)) \<le> 4"
    using assms by (intro length_dec) auto
  moreover have "parse_mtu (dec (nat m)) = Some m"
    using assms parse_ranged_dec [of 576 "nat m" 9000] by (simp add: parse_mtu_def)
  ultimately show ?thesis
    unfolding config_token_def token_field_eq(6) token_field_other(12,13,14,15) prod.case
    by (simp add: copy_option_eq)
qed

lemma config_token_ver: "config_token ''VER=2'' st = Some st"
  using token_field_eq(7) [of "''2''"] token_field_other(16-20) [of "''2''"]
  by (cases st) (simp add: config_token_def copy_option_eq)

lemma config_tokens_append:
  "config_tokens (a @ b) st = (case config_tokens a st of None \<Rightarrow> None | Some st' \<Rightarrow> config_tokens b st')"
  by (induction a arbitrary: st) (simp_all split: option.splits)

lemma config_tokens_routes:
  "\<forall>r\<in>set rs. word_text r \<and> length r < 32 \<and> validate_route_cidr r \<Longrightarrow>
   length (p_route_cidrs p) + length rs \<le> CAMEX_MAX_ROUTES \<Longrightarrow>
   config_tokens (map (\<lambda>r. ''ROUTE_CIDR='' @ r) rs) (cid, p)
   = Some (cid, p\<lparr>p_route_cidrs := p_route_cidrs p @ rs\<rparr>)"
  by (induction rs arbitrary: p) (simp_all add: config_token_route del: append_Cons)

lemma config_tokens_sent:
  assumes "id_sendable cid" and p: "profile_sendable p" and q: "p_route_cidrs q = []" "p_mtu q = 0"
  shows "config_tokens (tl (config_words cid p)) (c0, q)
    = Some (if cid = [] then c0 else cid,
        q\<lparr>p_local_cidr := p_local_cidr p, p_gateway_ip := p_gateway_ip p,
          p_route_cidrs := p_route_cidrs p, p_mtu := p_mtu p\<rparr>)"
proof -
  let ?id = "if cid \<noteq> [] then [''CLIENT_ID='' @ cid] else []"
  let ?mtu = "if p_mtu p > 0 then [''MTU='' @ dec (nat (p_mtu p))] else []"
  let ?q = "q\<lparr>p_mtu := p_mtu p\<rparr>"
  have ne: "p_local_cidr p \<noteq> []" "p_gateway_ip p \<noteq> []"
    using p by (auto simp: profile_sendable_def word_text_def)
  then have words: "tl (config_words cid p) = [''VER=2''] @ ?id @ ?mtu @ [''LOCAL_CIDR='' @ p_local_cidr p]
      @ [''GATEWAY_IP='' @ p_gateway_ip p] @ map (\<lambda>r. ''ROUTE_CIDR='' @ r) (p_route_cidrs p)"
    by (simp add: config_words_def)
  have id: "config_tokens ?id (c0, q) = Some (if cid = [] then c0 else cid, q)"
    using assms(1) by (auto simp: id_sendable_def config_token_id simp del: append_Cons)
  have mtu: "config_tokens ?mtu (c, q) = Some (c, ?q)" for c
    using p q config_token_mtu [of "p_mtu p" c q] by (auto simp: profile_sendable_def simp del: append_Cons)
  show ?thesis
    unfolding words config_tokens_append using p q
    by (simp add: config_token_ver id mtu profile_sendable_def config_token_cidr config_token_gateway
        config_tokens_routes del: append_Cons)
qed

lemma config_apply_sent:
  assumes p: "profile_sendable p"
  shows "config_apply_profile c p = Some (c\<lparr>c_local_cidr := p_local_cidr p, c_gateway_ip := p_gateway_ip p,
    c_route_cidrs := p_route_cidrs p, c_mtu := (if p_mtu p > 0 then p_mtu p else c_mtu c)\<rparr>)"
proof -
  have "map (fit 32) (p_route_cidrs p) = p_route_cidrs p"
    using p by (auto simp: profile_sendable_def fit_id intro!: map_idI)
  then show ?thesis
    using p by (auto simp: config_apply_profile_def profile_sendable_def fit_id word_text_def)
qed

lemma config_message_length:
  assumes "id_sendable cid" and p: "profile_sendable p"
  shows "length (message_of (config_words cid p)) < CAMEX_CONTROL_MAX"
proof -
  have routes: "length (concat (map (\<lambda>w. CHR '' '' # w) (map (\<lambda>r. ''ROUTE_CIDR='' @ r) rs))) \<le> 43 * length rs"
    if "\<forall>r\<in>set rs. length r < 32" for rs
    using that by (induction rs) auto
  have "length (dec (nat (p_mtu p))) \<le> 4" if "p_mtu p \<noteq> 0"
    using p that by (intro length_dec) (auto simp: profile_sendable_def)
  then show ?thesis
    using assms routes [of "p_route_cidrs p"]
    by (auto simp: message_of_def config_words_def CAMEX_CTRL_WORD_def id_sendable_def profile_sendable_def
        CAMEX_CLIENT_ID_LEN_def CAMEX_MAX_ROUTES_def CAMEX_CONTROL_MAX_def)
qed

lemma config_round_trip:
  assumes cid: "id_sendable cid" and p: "profile_sendable p"
    and own: "c_client_id c = [] \<or> cid = [] \<or> strcaseeq (c_client_id c) cid"
  shows "proto_parse_config (message_of (config_words cid p)) c
    = Some (c\<lparr>c_local_cidr := p_local_cidr p, c_gateway_ip := p_gateway_ip p, c_route_cidrs := p_route_cidrs p,
        c_mtu := (if p_mtu p > 0 then p_mtu p else c_mtu c),
        c_client_id := (if cid = [] then c_client_id c else cid)\<rparr>)"
proof -
  let ?p = "config_profile_reset\<lparr>p_local_cidr := p_local_cidr p, p_gateway_ip := p_gateway_ip p,
          p_route_cidrs := p_route_cidrs p, p_mtu := p_mtu p\<rparr>"
  have w: "config_words cid p = ''CONFIG'' # tl (config_words cid p)"
    by (simp add: config_words_def)
  have toks: "tokens (message_of (config_words cid p)) = CAMEX_CTRL_WORD # ''CONFIG'' # tl (config_words cid p)"
    by (subst tokens_message [OF config_words_text [OF cid p]]) (subst w, rule refl)
  have staged: "config_tokens (tl (config_words cid p)) (c_client_id c, config_profile_reset)
      = Some (if cid = [] then c_client_id c else cid, ?p)"
    by (rule config_tokens_sent [OF cid p]) (simp_all add: config_profile_reset_def)
  have "profile_sendable ?p"
    using p by (simp add: profile_sendable_def)
  then have "config_accept c (if cid = [] then c_client_id c else cid, ?p)
    = Some (c\<lparr>c_local_cidr := p_local_cidr p, c_gateway_ip := p_gateway_ip p, c_route_cidrs := p_route_cidrs p,
        c_mtu := (if p_mtu p > 0 then p_mtu p else c_mtu c),
        c_client_id := (if cid = [] then c_client_id c else cid)\<rparr>)"
    using own p by (auto simp: config_accept_def config_apply_sent profile_sendable_def)
  then show ?thesis
    by (simp add: proto_parse_config_def toks staged)
qed

subsection \<open>What an accepted CONFIG stores\<close>

definition staged_ok :: "camex_profile \<Rightarrow> bool" where
  "staged_ok p \<longleftrightarrow> length (p_local_cidr p) < 32 \<and> length (p_gateway_ip p) < 16 \<and>
     length (p_route_cidrs p) \<le> CAMEX_MAX_ROUTES \<and>
     (\<forall>r\<in>set (p_route_cidrs p). r \<noteq> [] \<and> length r < 32 \<and> validate_route_cidr r) \<and>
     (p_mtu p = 0 \<or> 576 \<le> p_mtu p \<and> p_mtu p \<le> 9000)"

lemma staged_route:
  "config_profile_append_route p v = Some q \<Longrightarrow> staged_ok p \<Longrightarrow> staged_ok q"
proof -
  assume "config_profile_append_route p v = Some q" and p: "staged_ok p"
  then obtain rs where "append_route_option (p_route_cidrs p) v = Some rs" and q: "q = p\<lparr>p_route_cidrs := rs\<rparr>"
    by (auto simp: config_profile_append_route_def)
  from append_route_Some [OF this(1)] show ?thesis
    using p by (auto simp: staged_ok_def q)
qed

lemma config_token_staged:
  assumes "config_token t st = Some st'" and "staged_ok (snd st)"
  shows "staged_ok (snd st')"
proof -
  have mtu: "parse_mtu v = Some m \<Longrightarrow> 576 \<le> m \<and> m \<le> 9000" for v m
    unfolding parse_mtu_def by (rule parse_ranged_bounds)
  have upd: "length w < 32 \<Longrightarrow> staged_ok p \<Longrightarrow> staged_ok (p\<lparr>p_local_cidr := w\<rparr>)"
    "length w < 16 \<Longrightarrow> staged_ok p \<Longrightarrow> staged_ok (p\<lparr>p_gateway_ip := w\<rparr>)"
    "576 \<le> m \<and> m \<le> 9000 \<Longrightarrow> staged_ok p \<Longrightarrow> staged_ok (p\<lparr>p_mtu := m\<rparr>)" for w m p
    by (simp_all add: staged_ok_def)
  show ?thesis
    using assms unfolding config_token_def
    by (auto simp: copy_option_Some_iff dest!: mtu intro: staged_route upd split: option.splits prod.splits)
qed

lemma config_tokens_staged:
  "config_tokens ts st = Some st' \<Longrightarrow> staged_ok (snd st) \<Longrightarrow> staged_ok (snd st')"
  by (induction ts arbitrary: st) (auto dest: config_token_staged split: option.splits)

lemma config_accept_Some:
  assumes "config_accept c (cid, p) = Some c'" and "staged_ok p"
  shows "parse_local_cidr (c_local_cidr c') 16 16 \<noteq> None" and "validate_ipv4 (c_gateway_ip c')"
    and "length (c_route_cidrs c') \<le> CAMEX_MAX_ROUTES" and "\<forall>r\<in>set (c_route_cidrs c'). validate_route_cidr r"
    and "c_mtu c' = c_mtu c \<or> 576 \<le> c_mtu c' \<and> c_mtu c' \<le> 9000"
    and "c_client_id c = [] \<or> strcaseeq (c_client_id c) (c_client_id c')"
    and "\<exists>l g r m i. c' = c\<lparr>c_local_cidr := l, c_gateway_ip := g, c_route_cidrs := r, c_mtu := m, c_client_id := i\<rparr>"
proof -
  let ?a = "c\<lparr>c_local_cidr := p_local_cidr p, c_gateway_ip := p_gateway_ip p, c_route_cidrs := p_route_cidrs p,
     c_mtu := (if p_mtu p > 0 then p_mtu p else c_mtu c)\<rparr>"
  have routes: "map (fit 32) (p_route_cidrs p) = p_route_cidrs p"
    using assms(2) by (auto simp: staged_ok_def fit_id intro!: map_idI)
  have ne: "p_local_cidr p \<noteq> []" "p_gateway_ip p \<noteq> []"
    and ok: "parse_local_cidr (p_local_cidr p) 16 16 \<noteq> None" "validate_ipv4 (p_gateway_ip p)"
    and own: "c_client_id c = [] \<or> cid = [] \<or> strcaseeq (c_client_id c) cid"
    using assms(1) by (auto simp: config_accept_def config_apply_profile_def split: if_splits option.splits)
  then have "config_apply_profile c p = Some ?a"
    using assms(2) by (simp add: config_apply_profile_def staged_ok_def fit_id routes)
  then have c': "c' = (if cid \<noteq> [] then ?a\<lparr>c_client_id := cid\<rparr> else ?a)"
    using assms(1) ne ok own by (simp add: config_accept_def split: if_splits)
  show "parse_local_cidr (c_local_cidr c') 16 16 \<noteq> None" "validate_ipv4 (c_gateway_ip c')"
    "length (c_route_cidrs c') \<le> CAMEX_MAX_ROUTES" "\<forall>r\<in>set (c_route_cidrs c'). validate_route_cidr r"
    "c_mtu c' = c_mtu c \<or> 576 \<le> c_mtu c' \<and> c_mtu c' \<le> 9000"
    using ok assms(2) by (auto simp: c' staged_ok_def)
  show "c_client_id c = [] \<or> strcaseeq (c_client_id c) (c_client_id c')"
    using own by (auto simp: c')
  have "c' = c\<lparr>c_local_cidr := p_local_cidr p, c_gateway_ip := p_gateway_ip p, c_route_cidrs := p_route_cidrs p,
     c_mtu := (if p_mtu p > 0 then p_mtu p else c_mtu c), c_client_id := (if cid \<noteq> [] then cid else c_client_id c)\<rparr>"
    by (simp add: c')
  then show "\<exists>l g r m i. c' = c\<lparr>c_local_cidr := l, c_gateway_ip := g, c_route_cidrs := r, c_mtu := m, c_client_id := i\<rparr>"
    by blast
qed

subsection \<open>Properties\<close>

definition reg_empty :: reg_msg where
  "reg_empty = \<lparr>r_client_id = [], r_local_ip = [], r_auto = False, r_saw_mode = False\<rparr>"

text \<open>C27: the REGISTER a client builds from its configuration fits a control message, and the
  server reads the mode, the client ID and the address from it that the client put in.\<close>

theorem proto_register_round_trip:
  assumes "sends_ok c"
  shows "\<exists>m. proto_build_register c CAMEX_CONTROL_MAX = Some m \<and> length m < 128 \<and>
    proto_parse_register m reg_empty = Some \<lparr>r_client_id = c_client_id c, r_local_ip = c_local_ip c,
      r_auto = c_auto_config c, r_saw_mode = True\<rparr>"
proof -
  let ?m = "message_of (register_words c)"
  have "length ?m < 128"
    by (rule register_message_length [OF assms])
  moreover from this have "proto_build_register c CAMEX_CONTROL_MAX = Some ?m"
    by (intro build_register_words) (simp add: CAMEX_CONTROL_MAX_def)
  moreover have "proto_parse_register ?m reg_empty = Some \<lparr>r_client_id = c_client_id c,
      r_local_ip = c_local_ip c, r_auto = c_auto_config c, r_saw_mode = True\<rparr>"
    unfolding reg_empty_def by (rule register_round_trip [OF assms refl])
  ultimately show ?thesis
    by blast
qed

definition some_client :: camex_config where
  "some_client = \<lparr>c_local_ip = ''10.200.0.2'', c_local_cidr = [], c_gateway_ip = [], c_server_host = ''srv'',
     c_port = 8080, c_route_cidrs = [], c_mtu = 1500, c_encrypt = True, c_client_id = ''cam-1'',
     c_auto_config = True, c_tcp = False, c_server_timeout = 20, c_keepalive = 10\<rparr>"

lemma some_client_sends: "sends_ok some_client"
  by (simp add: sends_ok_def some_client_def word_text_def blank_def CAMEX_CLIENT_ID_LEN_def)

theorem proto_register_round_trip_witness:
  "\<exists>m. proto_build_register some_client CAMEX_CONTROL_MAX = Some m \<and> length m < 128 \<and>
    proto_parse_register m reg_empty = Some \<lparr>r_client_id = c_client_id some_client,
      r_local_ip = c_local_ip some_client, r_auto = c_auto_config some_client, r_saw_mode = True\<rparr>"
  by (rule proto_register_round_trip [OF some_client_sends])

text \<open>Whatever bytes a REGISTER holds, an accepted one names a client ID in auto mode and an
  address in manual mode, and what it stores fits the fields it is stored in.\<close>

lemma proto_register_complete:
  assumes "proto_parse_register m reg_empty = Some r"
  shows "length (r_client_id r) < CAMEX_CLIENT_ID_LEN \<and> length (r_local_ip r) < 16 \<and>
    (if r_auto r then r_client_id r \<noteq> [] else r_local_ip r \<noteq> [])"
  using register_sound [OF assms]
  by (simp add: reg_fits_def reg_empty_def CAMEX_CLIENT_ID_LEN_def)


text \<open>C28: the CONFIG the server builds from a complete profile fits a control message, and the
  client it is for ends up with exactly the announced address, gateway, routes and MTU.\<close>

theorem proto_config_round_trip:
  assumes "id_sendable cid" and "profile_sendable p"
    and "c_client_id c = [] \<or> cid = [] \<or> strcaseeq (c_client_id c) cid"
  shows "\<exists>m. proto_build_config cid p CAMEX_CONTROL_MAX = Some m \<and>
    proto_parse_config m c = Some (c\<lparr>c_local_cidr := p_local_cidr p, c_gateway_ip := p_gateway_ip p,
        c_route_cidrs := p_route_cidrs p, c_mtu := (if p_mtu p > 0 then p_mtu p else c_mtu c),
        c_client_id := (if cid = [] then c_client_id c else cid)\<rparr>)"
  using build_config_words [OF config_message_length [OF assms(1,2)]] config_round_trip [OF assms]
  by blast

definition some_profile :: camex_profile where
  "some_profile = config_profile_reset\<lparr>p_local_cidr := ''10.200.0.2/24'', p_gateway_ip := ''10.200.0.1'',
     p_route_cidrs := [''192.168.1.0/24''], p_mtu := 1400\<rparr>"

lemmas ipv4_text = inet_pton_def octet_def isdigit_def digits_val_def digit_val_def
lemmas cidr_text = cidr_parts_def cut_at_def strtol_def strto_scan_def isspace_def ipv4_text

lemma sample_texts:
  "cidr_parts ''10.200.0.2/24'' = Some (''10.200.0.2'', 24)" "validate_ipv4 ''10.200.0.1''"
  "validate_route_cidr ''192.168.1.0/24''" "validate_route_cidr ''10.0.0.0/ 24''"
  "\<not> validate_route_cidr ''10.0.0.0/''"
proof -
  show "cidr_parts ''10.200.0.2/24'' = Some (''10.200.0.2'', 24)"
    by (simp add: cidr_text)
  show "validate_ipv4 ''10.200.0.1''"
    by (simp add: validate_ipv4_def ipv4_text)
  show "validate_route_cidr ''192.168.1.0/24''"
    by (simp add: validate_route_cidr_def cidr_text)
  show "validate_route_cidr ''10.0.0.0/ 24''"
    by (simp add: validate_route_cidr_def cidr_text)
  show "\<not> validate_route_cidr ''10.0.0.0/''"
    by (simp add: validate_route_cidr_def cidr_parts_def cut_at_def)
qed

lemma some_profile_sendable: "profile_sendable some_profile"
proof -
  have "parse_local_cidr ''10.200.0.2/24'' 16 16 \<noteq> None"
    using length_inet_ntop [of "htonl (prefix_mask 24)"] by (simp add: parse_local_cidr_def sample_texts Let_def)
  then show ?thesis
    by (simp add: sample_texts profile_sendable_def some_profile_def config_profile_reset_def word_text_def blank_def
        CAMEX_MAX_ROUTES_def)
qed

lemma cam_id: "id_sendable ''CAM-1''" "strcaseeq (c_client_id some_client) ''CAM-1''"
proof -
  show "id_sendable ''CAM-1''"
    by (simp add: id_sendable_def CAMEX_CLIENT_ID_LEN_def word_text_def blank_def)
  show "strcaseeq (c_client_id some_client) ''CAM-1''"
    by code_simp
qed

lemma some_profile_fields: "p_local_cidr some_profile = ''10.200.0.2/24''" "p_mtu some_profile = 1400"
  by (simp_all add: some_profile_def)

theorem proto_config_round_trip_witness:
  "\<exists>m. proto_build_config ''CAM-1'' some_profile CAMEX_CONTROL_MAX = Some m \<and>
    (\<exists>c'. proto_parse_config m some_client = Some c' \<and> c_local_cidr c' = ''10.200.0.2/24'' \<and> c_mtu c' = 1400)"
  using proto_config_round_trip [OF cam_id(1) some_profile_sendable, of some_client] cam_id(2)
  by (force simp: some_profile_fields)

lemma parse_config_sound:
  assumes "proto_parse_config m c = Some c'"
  shows "parse_local_cidr (c_local_cidr c') 16 16 \<noteq> None \<and> validate_ipv4 (c_gateway_ip c') \<and>
    length (c_route_cidrs c') \<le> CAMEX_MAX_ROUTES \<and> (\<forall>r\<in>set (c_route_cidrs c'). validate_route_cidr r) \<and>
    (c_mtu c' = c_mtu c \<or> 576 \<le> c_mtu c' \<and> c_mtu c' \<le> 9000) \<and>
    (c_client_id c = [] \<or> strcaseeq (c_client_id c) (c_client_id c')) \<and>
    (\<exists>l g r m i. c' = c\<lparr>c_local_cidr := l, c_gateway_ip := g, c_route_cidrs := r, c_mtu := m, c_client_id := i\<rparr>)"
proof -
  obtain ts cid p where st: "config_tokens ts (c_client_id c, config_profile_reset) = Some (cid, p)"
    and acc: "config_accept c (cid, p) = Some c'"
    using assms by (auto simp: proto_parse_config_def split: list.splits if_splits option.splits)
  have "staged_ok config_profile_reset"
    by (simp add: staged_ok_def config_profile_reset_def)
  then have "staged_ok p"
    using config_tokens_staged [OF st] by simp
  from config_accept_Some [OF acc this] show ?thesis
    by blast
qed

text \<open>Whatever bytes a CONFIG holds, a client accepts it only with a well-formed tunnel address,
  gateway and routes and an MTU in range, never changes its client ID to another one, and
  changes nothing else of its configuration.\<close>

lemma proto_config_safe:
  assumes "proto_parse_config m c = Some c'"
  shows "parse_local_cidr (c_local_cidr c') 16 16 \<noteq> None \<and> validate_ipv4 (c_gateway_ip c') \<and>
    length (c_route_cidrs c') \<le> CAMEX_MAX_ROUTES \<and> (\<forall>r\<in>set (c_route_cidrs c'). validate_route_cidr r) \<and>
    (c_mtu c' = c_mtu c \<or> 576 \<le> c_mtu c' \<and> c_mtu c' \<le> 9000) \<and>
    (c_client_id c = [] \<or> strcaseeq (c_client_id c) (c_client_id c')) \<and>
    (\<exists>l g r m i. c' = c\<lparr>c_local_cidr := l, c_gateway_ip := g, c_route_cidrs := r, c_mtu := m, c_client_id := i\<rparr>)"
  by (rule parse_config_sound [OF assms])


text \<open>
  Two places where the code accepts more than it means to.  \<open>strtoul\<close>'s result is cut to 32
  bits before it is compared, so \<open>VER=4294967298\<close> passes as version 2; and \<open>strtol\<close> skips
  blanks, so a route such as \<open>10.0.0.0/ 24\<close> passes the validator, but then the CONFIG message
  that announces it falls apart into tokens the client rejects.
\<close>

lemma register_version_truncated: "register_version_ok (dec 4294967298)"
  by (simp add: register_version_dec CAMEX_PROTO_VER_def)

definition blank_profile :: camex_profile where
  "blank_profile = some_profile\<lparr>p_route_cidrs := [''10.0.0.0/ 24''], p_mtu := 0\<rparr>"

lemma blank_route_rejected:
  "validate_route_cidr ''10.0.0.0/ 24'' \<and>
   Option.bind (proto_build_config [] blank_profile CAMEX_CONTROL_MAX) (\<lambda>m. proto_parse_config m c) = None"
proof -
  let ?m = "message_of (config_words [] blank_profile)"
  have words: "config_words [] blank_profile = [''CONFIG'', ''VER=2'',
      ''LOCAL_CIDR=10.200.0.2/24'', ''GATEWAY_IP=10.200.0.1'', ''ROUTE_CIDR=10.0.0.0/ 24'']"
    by (simp add: config_words_def blank_profile_def some_profile_def config_profile_reset_def)
  have "message_of (config_words [] blank_profile) = message_of [''CONFIG'', ''VER=2'',
      ''LOCAL_CIDR=10.200.0.2/24'', ''GATEWAY_IP=10.200.0.1'', ''ROUTE_CIDR=10.0.0.0/'', ''24'']"
    by (simp add: words message_of_def)
  then have toks: "tokens ?m = CAMEX_CTRL_WORD # [''CONFIG'', ''VER=2'',
      ''LOCAL_CIDR=10.200.0.2/24'', ''GATEWAY_IP=10.200.0.1'', ''ROUTE_CIDR=10.0.0.0/'', ''24'']"
    by (subst tokens_message [symmetric]) (auto simp: word_text_def blank_def)
  have route: "config_token (''ROUTE_CIDR='' @ ''10.0.0.0/'') (cid, p) = None" for cid p
    unfolding config_token_def token_field_eq(5) token_field_other(9,10,11) prod.case
    by (simp add: copy_option_eq config_profile_append_route_def append_route_option_def sample_texts(5))
  have "config_tokens [''VER=2'', ''LOCAL_CIDR=10.200.0.2/24'',
      ''GATEWAY_IP=10.200.0.1'', ''ROUTE_CIDR=10.0.0.0/'', ''24''] (cid, p) = None" for cid p
    using route by (auto simp: prod_eq_iff split: option.splits)
  then have "proto_parse_config ?m c = None"
    by (simp add: proto_parse_config_def toks)
  moreover have "length ?m < CAMEX_CONTROL_MAX"
    by (simp add: words message_of_def CAMEX_CTRL_WORD_def CAMEX_CONTROL_MAX_def)
  ultimately show ?thesis
    by (simp add: build_config_words sample_texts(4))
qed

end
