(* ===== verification/Clients.thy ===== *)
theory Clients
  imports Leases Budget Keystore Packet Proto
begin

text \<open>
  The client table of \<open>src/server.c\<close>: the slots, their three indexes (tunnel address, client ID,
  peer address), allocation and eviction, leases of ended clients, and expiry.  A pointer to an
  entry is its slot number.
\<close>

subsection \<open>State\<close>

text \<open>An address as text.\<close>

definition ip_text :: "u32 \<Rightarrow> string" where
  "ip_text host = inet_ntop (htonl host)"

record server_client =
  sc_addr :: sockaddr_in
  sc_ip :: u32
  sc_pending_ip :: u32
  sc_prev_ip :: u32
  sc_last_seen :: int
  sc_last_data :: int
  sc_client_id :: string
  sc_active :: bool
  sc_registered :: bool
  sc_auto :: bool
  sc_connected_at :: int
  sc_tcp_fd :: int
  sc_psk_key :: bytes
  sc_hs_ts :: bytes
  sc_registered_at :: int
  sc_session_since :: int
  sc_last_hs :: int
  sc_stale_logged :: int
  sc_stale_quiet :: u32
  sc_handshakes :: u32
  sc_rx_packets :: u64
  sc_rx_bytes :: u64
  sc_tx_packets :: u64
  sc_tx_bytes :: u64
  sc_isolation_drops :: u64
  sc_hs_window :: int
  sc_hs_count :: u8
  sc_cur :: session
  sc_next :: session
  sc_prev :: session
  sc_prev_until :: int
  sc_recv :: tcp_recv_state

definition addr_zero :: sockaddr_in where
  "addr_zero = \<lparr>sin_family = 0, sin_port = 0, sin_addr = 0\<rparr>"

definition client_zero :: server_client where
  "client_zero = \<lparr>sc_addr = addr_zero, sc_ip = 0, sc_pending_ip = 0, sc_prev_ip = 0, sc_last_seen = 0,
     sc_last_data = 0, sc_client_id = [], sc_active = False, sc_registered = False, sc_auto = False,
     sc_connected_at = 0, sc_tcp_fd = 0, sc_psk_key = replicate 32 0, sc_hs_ts = replicate 12 0,
     sc_registered_at = 0, sc_session_since = 0, sc_last_hs = 0, sc_stale_logged = 0, sc_stale_quiet = 0,
     sc_handshakes = 0, sc_rx_packets = 0, sc_rx_bytes = 0, sc_tx_packets = 0, sc_tx_bytes = 0,
     sc_isolation_drops = 0, sc_hs_window = 0, sc_hs_count = 0, sc_cur = session_zero,
     sc_next = session_zero, sc_prev = session_zero, sc_prev_until = 0, sc_recv = recv_zero\<rparr>"

text \<open>A wiped entry: \<open>tcp_fd = -1\<close>.\<close>

definition client_wiped :: server_client where
  "client_wiped = client_zero\<lparr>sc_tcp_fd := - 1\<rparr>"

text \<open>What the server hands to the network and to the tunnel, in order.\<close>

datatype sent = Sent_tcp int bytes | Sent_udp sockaddr_in bytes | Sent_tun bytes | Closed_tcp int

text \<open>The file's variables, and the pending slots of \<open>net.c\<close>.\<close>

record server =
  sv_clients :: "server_client list"
  sv_alloc_next :: nat
  sv_idx_ip :: slotidx
  sv_idx_id :: slotidx
  sv_idx_addr :: slotidx
  sv_idx_ok :: bool
  sv_pool_next :: u32
  sv_pool_full_at :: int
  sv_pool_full_net :: u32
  sv_pool_full_prefix :: nat
  sv_tunnel_ip :: u32
  sv_leases :: lease_table
  sv_started :: int
  sv_isolation_drops :: u64
  sv_expire_check :: int
  sv_budget :: budget
  sv_net :: "tcp_pending list"
  sv_sent :: "sent list"

text \<open>
  What the server reads of the rest of the process (the clock \<open>g_now\<close> and \<open>time\<close>, the
  configuration, the keystore, the keys, settings) and what the system answers: memory,
  randomness, sends.  \<open>x_timeout_env\<close> and \<open>x_hold\<close>: \<open>CAMEX_CLIENT_TIMEOUT\<close> (0 when unset) and the
  seconds of the start hold.
\<close>

record srv_ctx =
  x_now :: int
  x_time :: int
  x_db :: server_db
  x_ks :: keystore
  x_crypto :: camex_crypto
  x_mc :: monocypher
  x_tcp :: bool
  x_isolation :: bool
  x_timeout_env :: int
  x_hold :: int
  x_mem :: "u32 \<Rightarrow> bool"
  x_grow :: "nat \<Rightarrow> bool"
  x_share_rnd :: "bytes option"
  x_seed :: "bytes option"
  x_index_rnd :: "nat \<Rightarrow> nat \<Rightarrow> bytes option"
  x_sndbuf :: bool
  x_rs1 :: "send_result list"
  x_rs2 :: "send_result list"
  x_udp :: bool
  x_tun :: int

abbreviation x_globals :: "srv_ctx \<Rightarrow> server_globals" where
  "x_globals x \<equiv> db_globals (x_db x)"

abbreviation client :: "server \<Rightarrow> nat \<Rightarrow> server_client" where
  "client sv i \<equiv> sv_clients sv ! i"

abbreviation max_clients :: "server \<Rightarrow> nat" where
  "max_clients sv \<equiv> length (sv_clients sv)"

definition upd :: "nat \<Rightarrow> (server_client \<Rightarrow> server_client) \<Rightarrow> server \<Rightarrow> server" where
  "upd i f sv = sv\<lparr>sv_clients := (sv_clients sv)[i := f (client sv i)]\<rparr>"

subsection \<open>The auto pool\<close>

definition pool_size :: "server_globals \<Rightarrow> u32" where
  "pool_size g = push_bit (32 - g_pool_prefix g) 1"

definition pool_gateway :: "server_globals \<Rightarrow> u32" where
  "pool_gateway g = g_pool_net g + 1"

definition pool_first :: "server_globals \<Rightarrow> u32" where
  "pool_first g = g_pool_net g + 2"

definition pool_last :: "server_globals \<Rightarrow> u32" where
  "pool_last g = g_pool_net g + pool_size g - 2"

definition pool_has :: "server_globals \<Rightarrow> u32 \<Rightarrow> bool" where
  "pool_has g ip \<longleftrightarrow> ip \<noteq> 0 \<and> ntohl ip \<ge> pool_first g \<and> ntohl ip \<le> pool_last g"

definition server_default_max_clients :: "server_globals \<Rightarrow> nat" where
  "server_default_max_clients g =
     (let hosts = unat (pool_last g - pool_first g + 1);
          hosts' = (if hosts > CAMEX_MAX_CLIENTS_LIMIT then CAMEX_MAX_CLIENTS_LIMIT else hosts)
      in if hosts' > CAMEX_MAX_CLIENTS_DEFAULT then hosts' else CAMEX_MAX_CLIENTS_DEFAULT)"

text \<open>\<open>server_check_pool\<close>, without its warnings.\<close>

definition server_check_pool :: "string \<Rightarrow> server \<Rightarrow> server" where
  "server_check_pool server_cidr sv =
     sv\<lparr>sv_tunnel_ip :=
       (case parse_local_cidr server_cidr 16 16 of
          None \<Rightarrow> 0
        | Some (ip, mk) \<Rightarrow> (case (inet_pton ip, inet_pton mk) of (Some a, Some m) \<Rightarrow> a | _ \<Rightarrow> 0))\<rparr>"

definition profile_owner_of_ip :: "srv_ctx \<Rightarrow> u32 \<Rightarrow> string option" where
  "profile_owner_of_ip x ip =
     map_option (\<lambda>i. sp_client_id (db_clients (x_db x) ! i)) (config_db_find_profile_by_ip (x_db x) ip)"

definition server_client_timeout :: "srv_ctx \<Rightarrow> int" where
  "server_client_timeout x =
     (if x_timeout_env x > 0 then x_timeout_env x
      else if g_client_timeout (x_globals x) \<noteq> 0 then int (g_client_timeout (x_globals x))
      else int CAMEX_CLIENT_TIMEOUT)"

definition SERVER_LEASE_MIN :: "srv_ctx \<Rightarrow> int" where
  "SERVER_LEASE_MIN x = V2_REKEY_AFTER_TIME + server_client_timeout x"

definition server_pool_holding :: "srv_ctx \<Rightarrow> server \<Rightarrow> bool" where
  "server_pool_holding x sv \<longleftrightarrow> sv_started sv \<noteq> 0 \<and> x_now x - sv_started sv < x_hold x"

subsection \<open>Keys and indexes\<close>

definition addr_is_set :: "sockaddr_in \<Rightarrow> bool" where
  "addr_is_set a \<longleftrightarrow> sin_addr a \<noteq> 0 \<or> sin_port a \<noteq> 0"

text \<open>The address and port as they lie in memory.\<close>

definition hash_addr :: "sockaddr_in \<Rightarrow> u32" where
  "hash_addr a = slotidx_hash_bytes (le_bytes 4 (sin_addr a) @ le_bytes 2 (sin_port a))"

definition match_ip :: "server \<Rightarrow> u32 \<Rightarrow> nat \<Rightarrow> bool" where
  "match_ip sv ip slot \<longleftrightarrow> ip \<noteq> 0 \<and> slot < max_clients sv \<and> sc_active (client sv slot) \<and>
     (sc_ip (client sv slot) = ip \<or> sc_pending_ip (client sv slot) = ip \<or>
      s_valid (sc_prev (client sv slot)) \<and> sc_prev_ip (client sv slot) = ip)"

definition match_cur_ip :: "server \<Rightarrow> u32 \<Rightarrow> nat \<Rightarrow> bool" where
  "match_cur_ip sv ip slot \<longleftrightarrow> ip \<noteq> 0 \<and> slot < max_clients sv \<and> sc_active (client sv slot) \<and>
     sc_ip (client sv slot) = ip"

definition match_id :: "server \<Rightarrow> string \<Rightarrow> nat \<Rightarrow> bool" where
  "match_id sv key slot \<longleftrightarrow> slot < max_clients sv \<and> sc_active (client sv slot) \<and>
     strcaseeq (sc_client_id (client sv slot)) key"

definition match_addr :: "server \<Rightarrow> sockaddr_in \<Rightarrow> nat \<Rightarrow> bool" where
  "match_addr sv key slot \<longleftrightarrow> slot < max_clients sv \<and> sc_active (client sv slot) \<and>
     net_sockaddr_equal (sc_addr (client sv slot)) key"

datatype which = IX_IP | IX_ID | IX_ADDR

definition idx_of :: "which \<Rightarrow> server \<Rightarrow> slotidx" where
  "idx_of w sv = (case w of IX_IP \<Rightarrow> sv_idx_ip sv | IX_ID \<Rightarrow> sv_idx_id sv | IX_ADDR \<Rightarrow> sv_idx_addr sv)"

definition set_idx :: "which \<Rightarrow> slotidx \<Rightarrow> server \<Rightarrow> server" where
  "set_idx w i sv = (case w of IX_IP \<Rightarrow> sv\<lparr>sv_idx_ip := i\<rparr> | IX_ID \<Rightarrow> sv\<lparr>sv_idx_id := i\<rparr>
     | IX_ADDR \<Rightarrow> sv\<lparr>sv_idx_addr := i\<rparr>)"

text \<open>The keys an active entry is indexed under, in the order of the rebuild.\<close>

definition client_keys :: "server_client \<Rightarrow> (which \<times> u32) list" where
  "client_keys c =
     (if sc_ip c \<noteq> 0 then [(IX_IP, slotidx_hash_u32 (sc_ip c))] else []) @
     (if sc_pending_ip c \<noteq> 0 then [(IX_IP, slotidx_hash_u32 (sc_pending_ip c))] else []) @
     (if s_valid (sc_prev c) \<and> sc_prev_ip c \<noteq> 0 then [(IX_IP, slotidx_hash_u32 (sc_prev_ip c))] else []) @
     (if sc_client_id c \<noteq> [] then [(IX_ID, slotidx_hash_nocase (sc_client_id c))] else []) @
     (if addr_is_set (sc_addr c) then [(IX_ADDR, hash_addr (sc_addr c))] else [])"

fun enter_keys :: "(u32 \<Rightarrow> bool) \<Rightarrow> nat \<Rightarrow> (which \<times> u32) list \<Rightarrow> server \<Rightarrow> server \<times> bool" where
  "enter_keys mem i [] sv = (sv, True)"
| "enter_keys mem i ((w, h) # ks) sv =
     (case slotidx_enter mem (idx_of w sv) h i of
        (False, y) \<Rightarrow> (set_idx w y sv, False)
      | (True, y) \<Rightarrow> enter_keys mem i ks (set_idx w y sv))"

fun index_loop :: "(u32 \<Rightarrow> bool) \<Rightarrow> nat list \<Rightarrow> server \<Rightarrow> server" where
  "index_loop mem [] sv = sv"
| "index_loop mem (i # is) sv =
     (if \<not> sv_idx_ok sv then sv
      else if \<not> sc_active (client sv i) then index_loop mem is sv
      else case enter_keys mem i (client_keys (client sv i)) sv of
             (sv1, ok) \<Rightarrow> index_loop mem is (sv1\<lparr>sv_idx_ok := ok\<rparr>))"

fun reset_all :: "(u32 \<Rightarrow> bool) \<Rightarrow> nat \<Rightarrow> which list \<Rightarrow> server \<Rightarrow> server \<times> bool" where
  "reset_all mem n [] sv = (sv, True)"
| "reset_all mem n (w # ws) sv =
     (case slotidx_reset mem (idx_of w sv) n of
        (False, y) \<Rightarrow> (set_idx w y sv, False)
      | (True, y) \<Rightarrow> reset_all mem n ws (set_idx w y sv))"

definition server_index_rebuild :: "srv_ctx \<Rightarrow> server \<Rightarrow> server" where
  "server_index_rebuild x sv =
     (case reset_all (x_mem x) (max_clients sv) [IX_IP, IX_ID, IX_ADDR] sv of
        (sv1, ok) \<Rightarrow> index_loop (x_mem x) [0..<max_clients sv] (sv1\<lparr>sv_idx_ok := ok\<rparr>))"

definition server_index_add :: "srv_ctx \<Rightarrow> which \<Rightarrow> u32 \<Rightarrow> nat \<Rightarrow> server \<Rightarrow> server" where
  "server_index_add x w h i sv =
     (if \<not> sv_idx_ok sv then sv
      else if slotidx_crowded (idx_of w sv) (if w = IX_IP then max_clients sv * 3 else max_clients sv)
      then server_index_rebuild x sv
      else case slotidx_enter (x_mem x) (idx_of w sv) h i of
             (ok, y) \<Rightarrow> (if ok then set_idx w y sv else server_index_rebuild x (set_idx w y sv)))"

definition server_set_ip :: "srv_ctx \<Rightarrow> nat \<Rightarrow> u32 \<Rightarrow> server \<Rightarrow> server" where
  "server_set_ip x i ip sv =
     (if sc_ip (client sv i) = ip then sv
      else let sv1 = upd i (\<lambda>c. c\<lparr>sc_ip := ip\<rparr>) sv
           in if ip \<noteq> 0 then server_index_add x IX_IP (slotidx_hash_u32 ip) i sv1 else sv1)"

definition server_assign_ip :: "srv_ctx \<Rightarrow> nat \<Rightarrow> u32 \<Rightarrow> server \<Rightarrow> server" where
  "server_assign_ip x i ip sv =
     (let c = client sv i
      in if s_valid (sc_cur c) \<and> sc_ip c \<noteq> 0 \<and> ip \<noteq> sc_ip c
         then (if sc_pending_ip c \<noteq> ip
               then server_index_add x IX_IP (slotidx_hash_u32 ip) i (upd i (\<lambda>c. c\<lparr>sc_pending_ip := ip\<rparr>) sv)
               else sv)
         else server_set_ip x i ip (upd i (\<lambda>c. c\<lparr>sc_pending_ip := 0\<rparr>) sv))"

definition server_restore_ip :: "srv_ctx \<Rightarrow> nat \<Rightarrow> u32 \<Rightarrow> u32 \<Rightarrow> server \<Rightarrow> server" where
  "server_restore_ip x i ip pending sv =
     (let sv1 = upd i (\<lambda>c. c\<lparr>sc_pending_ip := pending\<rparr>) (server_set_ip x i ip sv);
          sv2 = (if ip \<noteq> 0 then server_index_add x IX_IP (slotidx_hash_u32 ip) i sv1 else sv1)
      in if pending \<noteq> 0 then server_index_add x IX_IP (slotidx_hash_u32 pending) i sv2 else sv2)"

definition server_set_id :: "srv_ctx \<Rightarrow> nat \<Rightarrow> string \<Rightarrow> server \<Rightarrow> server" where
  "server_set_id x i client_id sv =
     (if sc_client_id (client sv i) = client_id then sv
      else let w = fit CAMEX_CLIENT_ID_LEN client_id; sv1 = upd i (\<lambda>c. c\<lparr>sc_client_id := w\<rparr>) sv
           in if w \<noteq> [] then server_index_add x IX_ID (slotidx_hash_nocase w) i sv1 else sv1)"

definition server_set_addr :: "srv_ctx \<Rightarrow> nat \<Rightarrow> sockaddr_in \<Rightarrow> server \<Rightarrow> server" where
  "server_set_addr x i addr sv =
     (if net_sockaddr_equal (sc_addr (client sv i)) addr \<and> addr_is_set addr then sv
      else let sv1 = upd i (\<lambda>c. c\<lparr>sc_addr := addr\<rparr>) sv
           in if addr_is_set addr then server_index_add x IX_ADDR (hash_addr addr) i sv1 else sv1)"

subsection \<open>Lookups\<close>

definition server_find_by_ip :: "server \<Rightarrow> u32 \<Rightarrow> nat option" where
  "server_find_by_ip sv ip =
     (if sv_idx_ok sv
      then (case slotidx_lookup (sv_idx_ip sv) (slotidx_hash_u32 ip) (match_cur_ip sv ip) of
              Some k \<Rightarrow> Some k
            | None \<Rightarrow> slotidx_lookup (sv_idx_ip sv) (slotidx_hash_u32 ip) (match_ip sv ip))
      else (case scan_first (max_clients sv) (match_cur_ip sv ip) of
              Some k \<Rightarrow> Some k
            | None \<Rightarrow> scan_first (max_clients sv) (match_ip sv ip)))"

definition server_find_by_client_id :: "server \<Rightarrow> string \<Rightarrow> nat option" where
  "server_find_by_client_id sv client_id =
     (if client_id = [] then None
      else if sv_idx_ok sv
      then slotidx_lookup (sv_idx_id sv) (slotidx_hash_nocase client_id) (match_id sv client_id)
      else scan_first (max_clients sv) (match_id sv client_id))"

definition server_find_by_addr :: "server \<Rightarrow> sockaddr_in \<Rightarrow> nat option" where
  "server_find_by_addr sv addr =
     (if sv_idx_ok sv \<and> addr_is_set addr
      then slotidx_lookup (sv_idx_addr sv) (hash_addr addr) (match_addr sv addr)
      else scan_first (max_clients sv) (match_addr sv addr))"

subsection \<open>Entries end\<close>

definition close_tcp :: "int \<Rightarrow> server \<Rightarrow> server" where
  "close_tcp fd sv =
     (if fd < 0 then sv
      else sv\<lparr>sv_net := net_tcp_close fd (sv_net sv), sv_sent := sv_sent sv @ [Closed_tcp fd]\<rparr>)"

definition server_drop_entry :: "nat \<Rightarrow> server \<Rightarrow> server" where
  "server_drop_entry i sv = upd i (\<lambda>c. client_wiped) (close_tcp (sc_tcp_fd (client sv i)) sv)"

definition lease_address :: "srv_ctx \<Rightarrow> string \<Rightarrow> u32 \<Rightarrow> bool \<Rightarrow> server \<Rightarrow> server" where
  "lease_address x client_id ip prev sv =
     sv\<lparr>sv_leases := server_lease_add (x_mem x) (x_grow x) (unat (pool_size (x_globals x))) (SERVER_LEASE_MIN x)
          (x_now x) (if x_now x \<noteq> 0 then x_now x else x_time x) client_id ip prev (sv_leases sv)\<rparr>"

definition server_end_client :: "srv_ctx \<Rightarrow> nat \<Rightarrow> server \<Rightarrow> server" where
  "server_end_client x i sv =
     (let c = client sv i;
          keeps = sc_active c \<and> sc_registered c \<and> sc_auto c \<and> sc_client_id c \<noteq> [];
          sv1 = (if keeps \<and> pool_has (x_globals x) (sc_ip c) \<and> profile_owner_of_ip x (sc_ip c) = None
                 then lease_address x (sc_client_id c) (sc_ip c) False sv else sv);
          sv2 = (if keeps \<and> s_valid (sc_prev c) \<and> sc_prev_ip c \<noteq> sc_ip c \<and>
                    pool_has (x_globals x) (sc_prev_ip c) \<and> profile_owner_of_ip x (sc_prev_ip c) = None
                 then lease_address x (sc_client_id c) (sc_prev_ip c) True sv1 else sv1)
      in server_drop_entry i sv2)"

text \<open>The first inactive slot from the cursor, and the client that was quiet longest.\<close>

definition alloc_free_slot :: "server \<Rightarrow> nat option" where
  "alloc_free_slot sv =
     List.find (\<lambda>i. \<not> sc_active (client sv i))
       (map (\<lambda>n. (sv_alloc_next sv + n) mod max_clients sv) [0..<max_clients sv])"

definition quiet_longest :: "server \<Rightarrow> nat" where
  "quiet_longest sv =
     foldl (\<lambda>b i. if sc_last_seen (client sv i) < sc_last_seen (client sv b) then i else b) 0 [1..<max_clients sv]"

definition server_alloc_client :: "srv_ctx \<Rightarrow> server \<Rightarrow> server \<times> nat option" where
  "server_alloc_client x sv =
     (if max_clients sv = 0 then (sv, None)
      else case alloc_free_slot sv of
             Some i \<Rightarrow> (upd i (\<lambda>c. client_wiped\<lparr>sc_active := True\<rparr>)
                          (sv\<lparr>sv_alloc_next := (i + 1) mod max_clients sv\<rparr>), Some i)
           | None \<Rightarrow>
               if server_pool_holding x sv then (sv, None)
               else let i = quiet_longest sv
                    in (upd i (\<lambda>c. c\<lparr>sc_active := True\<rparr>) (server_end_client x i sv), Some i))"

subsection \<open>Expiry\<close>

definition CAMEX_TCP_PREAUTH_TIMEOUT :: int where "CAMEX_TCP_PREAUTH_TIMEOUT = 10"

definition sessions_expire :: "int \<Rightarrow> server_client \<Rightarrow> server_client" where
  "sessions_expire now c =
     (let c1 = (if s_valid (sc_prev c) \<and> now > sc_prev_until c
                then c\<lparr>sc_prev := session_wipe (sc_prev c), sc_prev_ip := 0\<rparr> else c)
      in if s_valid (sc_next c1) \<and> now - s_created (sc_next c1) > V2_PREV_SESSION_GRACE
         then c1\<lparr>sc_next := session_wipe (sc_next c1), sc_pending_ip := 0\<rparr> else c1)"

definition client_expired :: "srv_ctx \<Rightarrow> int \<Rightarrow> server_client \<Rightarrow> bool" where
  "client_expired x now c \<longleftrightarrow>
     (if sc_tcp_fd c \<ge> 0 \<and> \<not> sc_registered c then now - sc_connected_at c > CAMEX_TCP_PREAUTH_TIMEOUT
      else now - sc_last_seen c > server_client_timeout x)"

definition expire_one :: "srv_ctx \<Rightarrow> int \<Rightarrow> server \<Rightarrow> nat \<Rightarrow> server" where
  "expire_one x now sv i =
     (if \<not> sc_active (client sv i) then sv
      else let sv1 = upd i (sessions_expire now) sv
           in if client_expired x now (client sv1 i) then server_end_client x i sv1 else sv1)"

definition server_expire_clients :: "srv_ctx \<Rightarrow> server \<Rightarrow> server" where
  "server_expire_clients x sv =
     (let now = (if x_now x \<noteq> 0 then x_now x else x_time x)
      in if now = sv_expire_check sv then sv
         else foldl (expire_one x now) (sv\<lparr>sv_expire_check := now\<rparr>) [0..<max_clients sv])"

subsection \<open>The table's life\<close>

definition lease_none :: lease_table where
  "lease_none = \<lparr>lt_leases = [], lt_idx_ip = slotidx_free, lt_idx_id = slotidx_free, lt_ok = False,
     lt_used = 0, lt_next = 0\<rparr>"

definition server_clients_free :: "server \<Rightarrow> server" where
  "server_clients_free sv =
     sv\<lparr>sv_clients := [], sv_idx_ip := slotidx_free, sv_idx_id := slotidx_free, sv_idx_addr := slotidx_free,
        sv_idx_ok := False,
        sv_leases := (sv_leases sv)\<lparr>lt_leases := [], lt_idx_ip := slotidx_free, lt_idx_id := slotidx_free,
                                    lt_ok := False\<rparr>\<rparr>"

text \<open>\<open>slots\<close>, \<open>leases\<close>: the two tables can be allocated.\<close>

definition server_clients_init :: "srv_ctx \<Rightarrow> bool \<Rightarrow> bool \<Rightarrow> nat \<Rightarrow> server \<Rightarrow> server \<times> int" where
  "server_clients_init x slots leases count sv0 =
     (let sv = server_clients_free sv0
      in if \<not> slots then (sv, - 1)
         else (let sv1 = server_index_rebuild x
                    (sv\<lparr>sv_clients := replicate count client_wiped, sv_alloc_next := 0, sv_pool_next := 0\<rparr>)
               in (sv1\<lparr>sv_leases := leases_init (x_mem x) leases count, sv_started := x_time x\<rparr>, 0)))"

subsection \<open>The indexes hold every live client\<close>

definition same_table :: "server \<Rightarrow> server \<Rightarrow> bool" where
  "same_table sv sv' \<longleftrightarrow>
     (\<exists>a b c ok. sv' = sv\<lparr>sv_idx_ip := a, sv_idx_id := b, sv_idx_addr := c, sv_idx_ok := ok\<rparr>)"

definition keys_of :: "server_client list \<Rightarrow> nat set \<Rightarrow> which \<Rightarrow> (u32 \<times> nat) set" where
  "keys_of cs I w = {(h, i) |h i. i \<in> I \<and> i < length cs \<and> sc_active (cs ! i) \<and> (w, h) \<in> set (client_keys (cs ! i))}"

definition all_indexed :: "server \<Rightarrow> nat set \<Rightarrow> bool" where
  "all_indexed sv I \<longleftrightarrow> (\<forall>w. indexed (idx_of w sv) (keys_of (sv_clients sv) I w))"

definition indexes_inv :: "server \<Rightarrow> bool" where
  "indexes_inv sv \<longleftrightarrow> (\<forall>w. slotidx_inv (idx_of w sv))"

definition srv_idx_inv :: "server \<Rightarrow> bool" where
  "srv_idx_inv sv \<longleftrightarrow> indexes_inv sv \<and> max_clients sv \<le> CAMEX_MAX_CLIENTS_LIMIT \<and>
     (sv_idx_ok sv \<longrightarrow> all_indexed sv UNIV)"

lemma idx_set_idx [simp]: "idx_of w (set_idx v y sv) = (if w = v then y else idx_of w sv)"
  by (cases w; cases v) (simp_all add: idx_of_def set_idx_def)

lemma set_idx_frame [simp]:
  "sv_clients (set_idx w y sv) = sv_clients sv" "sv_idx_ok (set_idx w y sv) = sv_idx_ok sv"
  by (cases w; simp add: set_idx_def)+

lemma idx_of_frame [simp]:
  "idx_of w (sv\<lparr>sv_idx_ok := ok\<rparr>) = idx_of w sv" "idx_of w (sv\<lparr>sv_clients := cs\<rparr>) = idx_of w sv"
  by (cases w; simp add: idx_of_def)+

lemma upd_frame [simp]:
  "sv_clients (upd i f sv) = (sv_clients sv)[i := f (client sv i)]" "sv_idx_ok (upd i f sv) = sv_idx_ok sv"
  "idx_of w (upd i f sv) = idx_of w sv" "sv_leases (upd i f sv) = sv_leases sv"
  "sv_net (upd i f sv) = sv_net sv" "sv_sent (upd i f sv) = sv_sent sv" "sv_budget (upd i f sv) = sv_budget sv"
  "sv_tunnel_ip (upd i f sv) = sv_tunnel_ip sv" "sv_started (upd i f sv) = sv_started sv"
  by (simp_all add: upd_def)

lemma same_table_refl [intro, simp]: "same_table sv sv"
  unfolding same_table_def
  by (rule exI [of _ "sv_idx_ip sv"], rule exI [of _ "sv_idx_id sv"], rule exI [of _ "sv_idx_addr sv"],
      rule exI [of _ "sv_idx_ok sv"]) simp

lemma same_table_trans [trans]: "same_table a b \<Longrightarrow> same_table b c \<Longrightarrow> same_table a c"
  by (clarsimp simp: same_table_def) (intro exI, rule refl)

lemma same_table_ok [intro, simp]: "same_table sv (sv\<lparr>sv_idx_ok := ok\<rparr>)"
  unfolding same_table_def
  by (rule exI [of _ "sv_idx_ip sv"], rule exI [of _ "sv_idx_id sv"], rule exI [of _ "sv_idx_addr sv"],
      rule exI [of _ ok]) simp

lemma same_table_set_idx [intro, simp]: "same_table sv (set_idx w y sv)"
  unfolding same_table_def
  by (rule exI [of _ "sv_idx_ip (set_idx w y sv)"], rule exI [of _ "sv_idx_id (set_idx w y sv)"],
      rule exI [of _ "sv_idx_addr (set_idx w y sv)"], rule exI [of _ "sv_idx_ok sv"]) (cases w; simp add: set_idx_def)

lemma same_table_fields:
  assumes "same_table sv sv'"
  shows "sv_clients sv' = sv_clients sv" "sv_leases sv' = sv_leases sv" "sv_net sv' = sv_net sv"
    "sv_sent sv' = sv_sent sv" "sv_budget sv' = sv_budget sv" "sv_tunnel_ip sv' = sv_tunnel_ip sv"
    "sv_started sv' = sv_started sv" "sv_pool_next sv' = sv_pool_next sv" "sv_alloc_next sv' = sv_alloc_next sv"
    "sv_pool_full_at sv' = sv_pool_full_at sv" "sv_isolation_drops sv' = sv_isolation_drops sv"
  using assms by (auto simp: same_table_def)

lemma keys_of_subset: "I \<subseteq> J \<Longrightarrow> keys_of cs I w \<subseteq> keys_of cs J w"
  by (auto simp: keys_of_def)

lemma keys_of_all: "\<forall>i<length cs. i \<in> I \<or> \<not> sc_active (cs ! i) \<Longrightarrow> keys_of cs UNIV w = keys_of cs I w"
  by (auto simp: keys_of_def)

lemma keys_of_insert:
  "keys_of cs (insert i I) w = keys_of cs I w \<union>
     (if i < length cs \<and> sc_active (cs ! i) then {(h, i) |h. (w, h) \<in> set (client_keys (cs ! i))} else {})"
  by (auto simp: keys_of_def)

lemma length_client_keys: "length (client_keys c) \<le> 5"
  by (simp add: client_keys_def)

lemma enter_keys_props:
  assumes "enter_keys mem i ks sv = (sv', ok)" and "i < 2 ^ 32 - 1"
    and "\<forall>w. indexed (idx_of w sv) (K w) \<and> room_used (idx_of w sv) + length ks \<le> SLOTIDX_ROOM"
  shows "same_table sv sv' \<and> sv_idx_ok sv' = sv_idx_ok sv \<and> (\<forall>w. indexed (idx_of w sv') (K w) \<and>
     room_used (idx_of w sv') \<le> room_used (idx_of w sv) + length ks \<and>
     (ok \<longrightarrow> indexed (idx_of w sv') (K w \<union> {(h, i) |h. (w, h) \<in> set ks})))"
  using assms
proof (induction ks arbitrary: sv K)
  case Nil
  then show ?case by simp
next
  case (Cons k ks)
  obtain w h where k [simp]: "k = (w, h)"
    by fastforce
  obtain ok1 y where e: "slotidx_enter mem (idx_of w sv) h i = (ok1, y)"
    by fastforce
  let ?s = "set_idx w y sv"
  let ?K = "\<lambda>v. if v = w then insert (h, i) (K w) else K v"
  have y: "indexed y (K w) \<and> (ok1 \<longrightarrow> indexed y (insert (h, i) (K w))) \<and> room_used y \<le> Suc (room_used (idx_of w sv))"
    using Cons.prems(3)[rule_format, of w] by (intro indexed_enter [OF _ _ Cons.prems(2) e]) simp_all
  show ?case
  proof (cases ok1)
    case False
    then have "sv' = ?s" "\<not> ok"
      using Cons.prems(1) e by simp_all
    then show ?thesis
      using y Cons.prems(3) by auto
  next
    case True
    then have run: "enter_keys mem i ks ?s = (sv', ok)"
      using Cons.prems(1) e by simp
    have room: "room_used (idx_of v ?s) \<le> Suc (room_used (idx_of v sv))" for v
      using y by simp
    have "\<forall>v. indexed (idx_of v ?s) (?K v) \<and> room_used (idx_of v ?s) + length ks \<le> SLOTIDX_ROOM"
    proof
      fix v
      show "indexed (idx_of v ?s) (?K v) \<and> room_used (idx_of v ?s) + length ks \<le> SLOTIDX_ROOM"
        using y True Cons.prems(3)[rule_format, of v] room [of v] by auto
    qed
    from Cons.IH [OF run Cons.prems(2) this]
    have IH: "same_table ?s sv'" "sv_idx_ok sv' = sv_idx_ok sv"
      "\<And>v. indexed (idx_of v sv') (?K v)" "\<And>v. room_used (idx_of v sv') \<le> room_used (idx_of v ?s) + length ks"
      "\<And>v. ok \<Longrightarrow> indexed (idx_of v sv') (?K v \<union> {(h, i) |h. (v, h) \<in> set ks})"
      by auto
    have "indexed (idx_of v sv') (K v) \<and> room_used (idx_of v sv') \<le> room_used (idx_of v sv) + length (k # ks) \<and>
        (ok \<longrightarrow> indexed (idx_of v sv') (K v \<union> {(h, i) |h. (v, h) \<in> set (k # ks)}))" for v
    proof (intro conjI impI)
      show "indexed (idx_of v sv') (K v)"
        by (rule indexed_subset [OF IH(3) [of v]]) auto
      show "room_used (idx_of v sv') \<le> room_used (idx_of v sv) + length (k # ks)"
        using IH(4) [of v] room [of v] by simp
      show "indexed (idx_of v sv') (K v \<union> {(h, i) |h. (v, h) \<in> set (k # ks)})" if ok
        by (rule indexed_subset [OF IH(5) [OF that, of v]]) auto
    qed
    then show ?thesis
      using IH(1,2) same_table_trans [OF same_table_set_idx(1)] by blast
  qed
qed

lemma index_loop_props:
  assumes "indexes_inv sv" and "sv_idx_ok sv \<longrightarrow> all_indexed sv {..<k}" and "\<forall>w. room_used (idx_of w sv) \<le> 5 * k"
    and "k + m = max_clients sv" and "max_clients sv \<le> CAMEX_MAX_CLIENTS_LIMIT"
    and "sv' = index_loop mem [k..<k + m] sv"
  shows "same_table sv sv' \<and> srv_idx_inv sv'"
  using assms
proof (induction m arbitrary: k sv)
  case 0
  have "keys_of (sv_clients sv) UNIV w = keys_of (sv_clients sv) {..<k} w" for w
    by (rule keys_of_all) (use 0 in auto)
  then show ?case
    using 0 by (simp add: srv_idx_inv_def all_indexed_def)
next
  case (Suc m)
  have upt: "[k..<k + Suc m] = k # [Suc k..<Suc k + m]"
    by (simp add: upt_conv_Cons del: upt_Suc)
  have k: "k < max_clients sv" "k < 2 ^ 32 - 1"
    using Suc.prems(4,5) by (simp_all add: CAMEX_MAX_CLIENTS_LIMIT_def)
  show ?case
  proof (cases "sv_idx_ok sv")
    case False
    then show ?thesis
      using Suc.prems unfolding upt by (simp add: srv_idx_inv_def)
  next
    case ok: True
    let ?c = "client sv k"
    have all: "all_indexed sv {..<k}"
      using ok Suc.prems(2) by simp
    show ?thesis
    proof (cases "sc_active ?c")
      case False
      then have "keys_of (sv_clients sv) {..<Suc k} w = keys_of (sv_clients sv) {..<k} w" for w
        by (simp add: lessThan_Suc keys_of_insert)
      then have "all_indexed sv {..<Suc k}"
        using all by (simp add: all_indexed_def)
      moreover have "room_used (idx_of w sv) \<le> 5 * Suc k" for w
        using Suc.prems(3) by (metis le_add2 le_trans mult_Suc_right)
      moreover have "sv' = index_loop mem [Suc k..<Suc k + m] sv"
        using Suc.prems(6) ok False unfolding upt by simp
      ultimately show ?thesis
        using Suc.IH [of sv "Suc k"] Suc.prems(1,4,5) by simp
    next
      case True
      obtain sv1 e where e: "enter_keys mem k (client_keys ?c) sv = (sv1, e)"
        by fastforce
      let ?s = "sv1\<lparr>sv_idx_ok := e\<rparr>"
      have "room_used (idx_of w sv) + length (client_keys ?c) \<le> SLOTIDX_ROOM" for w
        using Suc.prems(3) [rule_format, of w] length_client_keys [of ?c] Suc.prems(4,5)
        by (simp add: SLOTIDX_ROOM_def CAMEX_MAX_CLIENTS_LIMIT_def)
      then have "\<forall>w. indexed (idx_of w sv) (keys_of (sv_clients sv) {..<k} w) \<and>
          room_used (idx_of w sv) + length (client_keys ?c) \<le> SLOTIDX_ROOM"
        using all by (simp add: all_indexed_def)
      from enter_keys_props [OF e k(2) this]
      have E: "same_table sv sv1" "\<And>w. indexed (idx_of w sv1) (keys_of (sv_clients sv) {..<k} w)"
        "\<And>w. room_used (idx_of w sv1) \<le> room_used (idx_of w sv) + length (client_keys ?c)"
        "\<And>w. e \<Longrightarrow> indexed (idx_of w sv1) (keys_of (sv_clients sv) {..<k} w \<union> {(h, k) |h. (w, h) \<in> set (client_keys ?c)})"
        by auto
      have cs: "sv_clients ?s = sv_clients sv"
        using same_table_fields(1) [OF E(1)] by simp
      have "indexes_inv ?s"
        using E(2) by (auto simp: indexes_inv_def indexed_def)
      moreover have "sv_idx_ok ?s \<longrightarrow> all_indexed ?s {..<Suc k}"
        using E(4) cs k True by (simp add: all_indexed_def lessThan_Suc keys_of_insert)
      moreover have "\<forall>w. room_used (idx_of w ?s) \<le> 5 * Suc k"
      proof
        fix w
        show "room_used (idx_of w ?s) \<le> 5 * Suc k"
          using E(3) [of w] Suc.prems(3) [rule_format, of w] length_client_keys [of ?c] by simp
      qed
      moreover have "sv' = index_loop mem [Suc k..<Suc k + m] ?s"
        using Suc.prems(6) ok True e unfolding upt by simp
      ultimately have "same_table ?s sv' \<and> srv_idx_inv sv'"
        using Suc.IH [of ?s "Suc k"] Suc.prems(4,5) cs by simp
      then show ?thesis
        using same_table_trans [OF E(1) same_table_trans [OF same_table_ok]] by blast
    qed
  qed
qed

lemma reset_all_props:
  assumes "reset_all mem n ws sv = (sv', ok)" and "\<forall>w. slotidx_inv (idx_of w sv)" and "distinct ws"
  shows "same_table sv sv' \<and> (\<forall>w. slotidx_inv (idx_of w sv')) \<and> (\<forall>w. w \<notin> set ws \<longrightarrow> idx_of w sv' = idx_of w sv) \<and>
    (ok \<longrightarrow> (\<forall>w\<in>set ws. room_used (idx_of w sv') = 0))"
  using assms
proof (induction ws arbitrary: sv)
  case Nil
  then show ?case by simp
next
  case (Cons w ws)
  obtain ok1 y where e: "slotidx_reset mem (idx_of w sv) n = (ok1, y)"
    by fastforce
  have y: "slotidx_inv y" "room_used y = 0"
    using indexed_reset [OF _ e] Cons.prems(2) by (simp_all add: indexed_def)
  show ?case
  proof (cases ok1)
    case False
    then have "sv' = set_idx w y sv" "\<not> ok"
      using Cons.prems(1) e by simp_all
    then show ?thesis
      using y Cons.prems(2) by auto
  next
    case True
    then have "reset_all mem n ws (set_idx w y sv) = (sv', ok)"
      using Cons.prems(1) e by simp
    from Cons.IH [OF this] y Cons.prems(2,3)
    have IH: "same_table (set_idx w y sv) sv'" "\<forall>v. slotidx_inv (idx_of v sv')"
      "\<forall>v. v \<notin> set ws \<longrightarrow> idx_of v sv' = idx_of v (set_idx w y sv)"
      "ok \<longrightarrow> (\<forall>v\<in>set ws. room_used (idx_of v sv') = 0)"
      by auto
    moreover have "w \<notin> set ws"
      using Cons.prems(3) by simp
    moreover have "same_table sv sv'"
      by (rule same_table_trans [OF same_table_set_idx IH(1)])
    ultimately show ?thesis
      using y by auto
  qed
qed

lemma index_rebuild_props:
  assumes "indexes_inv sv" and "max_clients sv \<le> CAMEX_MAX_CLIENTS_LIMIT"
  shows "same_table sv (server_index_rebuild x sv)" and "srv_idx_inv (server_index_rebuild x sv)"
proof -
  obtain sv1 ok where r: "reset_all (x_mem x) (max_clients sv) [IX_IP, IX_ID, IX_ADDR] sv = (sv1, ok)"
    by fastforce
  let ?s = "sv1\<lparr>sv_idx_ok := ok\<rparr>"
  have "distinct [IX_IP, IX_ID, IX_ADDR]"
    by simp
  from reset_all_props [OF r _ this] assms(1)
  have R: "same_table sv sv1" "\<forall>w. slotidx_inv (idx_of w sv1)" "ok \<longrightarrow> (\<forall>w\<in>{IX_IP, IX_ID, IX_ADDR}. room_used (idx_of w sv1) = 0)"
    by (simp_all add: indexes_inv_def)
  have w: "w \<in> {IX_IP, IX_ID, IX_ADDR}" for w
    by (cases w) auto
  have cs: "sv_clients ?s = sv_clients sv"
    using same_table_fields(1) [OF R(1)] by simp
  have e: "server_index_rebuild x sv = index_loop (x_mem x) [0..<0 + max_clients sv] ?s"
    by (simp add: server_index_rebuild_def r del: reset_all.simps)
  have inv: "indexes_inv ?s"
    using R(2) by (simp add: indexes_inv_def)
  have "same_table ?s (server_index_rebuild x sv) \<and> srv_idx_inv (server_index_rebuild x sv)"
  proof (cases ok)
    case True
    then have "room_used (idx_of w ?s) \<le> 5 * 0" for w
      using R(3) w [of w] by auto
    moreover have "all_indexed ?s {..<0}"
      using R(2) by (simp add: all_indexed_def keys_of_def indexed_def)
    ultimately show ?thesis
      using index_loop_props [OF inv _ _ _ _ e] assms(2) cs True by simp
  next
    case False
    have "index_loop (x_mem x) is ?s = ?s" for "is"
      using False by (cases "is") simp_all
    then show ?thesis
      using e inv assms(2) cs False by (simp add: srv_idx_inv_def)
  qed
  then show "same_table sv (server_index_rebuild x sv)" "srv_idx_inv (server_index_rebuild x sv)"
    using same_table_trans [OF R(1) same_table_trans [OF same_table_ok]] by blast+
qed

text \<open>All keys but perhaps one.\<close>

definition all_but :: "which \<Rightarrow> u32 \<Rightarrow> nat \<Rightarrow> server \<Rightarrow> bool" where
  "all_but w h i sv \<longleftrightarrow> indexes_inv sv \<and> max_clients sv \<le> CAMEX_MAX_CLIENTS_LIMIT \<and>
     (sv_idx_ok sv \<longrightarrow> (\<forall>v. indexed (idx_of v sv) (keys_of (sv_clients sv) UNIV v - (if v = w then {(h, i)} else {}))))"

lemma index_add_gen:
  assumes inv: "indexes_inv sv" and len: "max_clients sv \<le> CAMEX_MAX_CLIENTS_LIMIT" and i: "i < max_clients sv"
    and K: "\<And>v. sv_idx_ok sv \<Longrightarrow> indexed (idx_of v sv) (K v)"
  shows "same_table sv (server_index_add x w h i sv) \<and> (srv_idx_inv (server_index_add x w h i sv) \<or>
     indexes_inv (server_index_add x w h i sv) \<and> sv_idx_ok sv \<and>
     (\<forall>v. indexed (idx_of v (server_index_add x w h i sv)) (if v = w then insert (h, i) (K v) else K v)))"
proof -
  let ?n = "if w = IX_IP then max_clients sv * 3 else max_clients sv"
  let ?y = "server_index_add x w h i sv"
  have i32: "i < 2 ^ 32 - 1"
    using i len by (simp add: CAMEX_MAX_CLIENTS_LIMIT_def)
  show ?thesis
  proof (cases "sv_idx_ok sv")
    case False
    then show ?thesis
      using inv len by (simp add: server_index_add_def srv_idx_inv_def)
  next
    case ok: True
    show ?thesis
    proof (cases "slotidx_crowded (idx_of w sv) ?n")
      case True
      then show ?thesis
        using ok index_rebuild_props [OF inv len] by (simp add: server_index_add_def)
    next
      case False
      have "room_used (idx_of w sv) < SLOTIDX_ROOM"
        using not_crowded [OF False] len
        by (auto simp: SLOTIDX_ROOM_def CAMEX_MAX_CLIENTS_LIMIT_def split: if_splits)
      moreover obtain e y where y: "slotidx_enter (x_mem x) (idx_of w sv) h i = (e, y)"
        by fastforce
      ultimately have Y: "indexed y (K w)" "e \<Longrightarrow> indexed y (insert (h, i) (K w))"
        using indexed_enter [OF K [OF ok, of w] _ i32 y] by simp_all
      let ?s = "set_idx w y sv"
      have s: "indexes_inv ?s" "max_clients ?s \<le> CAMEX_MAX_CLIENTS_LIMIT"
        using inv len Y(1) by (simp_all add: indexes_inv_def indexed_def)
      show ?thesis
      proof (cases e)
        case True
        then have "?y = ?s"
          using ok False y by (simp add: server_index_add_def)
        then show ?thesis
          using s ok Y(2) [OF True] K [OF ok] by simp
      next
        case no: False
        then have "?y = server_index_rebuild x ?s"
          using ok False y by (simp add: server_index_add_def)
        then show ?thesis
          using index_rebuild_props [OF s] same_table_trans [OF same_table_set_idx] by metis
      qed
    qed
  qed
qed

lemma all_butI: "srv_idx_inv sv \<Longrightarrow> all_but w h i sv"
  by (auto simp: all_but_def srv_idx_inv_def all_indexed_def intro: indexed_subset)

lemma index_add_props:
  assumes "all_but w h i sv" and "i < max_clients sv"
  shows "same_table sv (server_index_add x w h i sv)" and "srv_idx_inv (server_index_add x w h i sv)"
proof -
  let ?y = "server_index_add x w h i sv"
  let ?K = "\<lambda>v. keys_of (sv_clients sv) UNIV v - (if v = w then {(h, i)} else {})"
  have inv: "indexes_inv sv" and len: "max_clients sv \<le> CAMEX_MAX_CLIENTS_LIMIT"
    and K: "\<And>v. sv_idx_ok sv \<Longrightarrow> indexed (idx_of v sv) (?K v)"
    using assms(1) by (auto simp: all_but_def)
  have G: "same_table sv ?y \<and> (srv_idx_inv ?y \<or> indexes_inv ?y \<and> sv_idx_ok sv \<and>
     (\<forall>v. indexed (idx_of v ?y) (if v = w then insert (h, i) (?K v) else ?K v)))"
    by (rule index_add_gen [OF inv len assms(2) K])
  show same: "same_table sv ?y"
    using G by blast
  show "srv_idx_inv ?y"
  proof (rule disjE [OF conjunct2 [OF G]])
    assume A: "indexes_inv ?y \<and> sv_idx_ok sv \<and> (\<forall>v. indexed (idx_of v ?y) (if v = w then insert (h, i) (?K v) else ?K v))"
    have "indexed (idx_of v ?y) (keys_of (sv_clients sv) UNIV v)" for v
    proof -
      have "indexed (idx_of v ?y) (if v = w then insert (h, i) (?K v) else ?K v)"
        using A by blast
      then show ?thesis
        by (rule indexed_subset) auto
    qed
    then show ?thesis
      using A len same_table_fields(1) [OF same] by (simp add: srv_idx_inv_def all_indexed_def)
  qed
qed

text \<open>Another key may be added meanwhile.\<close>

lemma index_add_all_but:
  assumes "all_but w h i sv" and "j < max_clients sv"
  shows "same_table sv (server_index_add x w' h' j sv)" and "all_but w h i (server_index_add x w' h' j sv)"
proof -
  let ?y = "server_index_add x w' h' j sv"
  let ?K = "\<lambda>v. keys_of (sv_clients sv) UNIV v - (if v = w then {(h, i)} else {})"
  have inv: "indexes_inv sv" and len: "max_clients sv \<le> CAMEX_MAX_CLIENTS_LIMIT"
    and K: "\<And>v. sv_idx_ok sv \<Longrightarrow> indexed (idx_of v sv) (?K v)"
    using assms(1) by (auto simp: all_but_def)
  have G: "same_table sv ?y \<and> (srv_idx_inv ?y \<or> indexes_inv ?y \<and> sv_idx_ok sv \<and>
     (\<forall>v. indexed (idx_of v ?y) (if v = w' then insert (h', j) (?K v) else ?K v)))"
    by (rule index_add_gen [OF inv len assms(2) K])
  show same: "same_table sv ?y"
    using G by blast
  show "all_but w h i ?y"
  proof (rule disjE [OF conjunct2 [OF G]])
    assume A: "indexes_inv ?y \<and> sv_idx_ok sv \<and> (\<forall>v. indexed (idx_of v ?y) (if v = w' then insert (h', j) (?K v) else ?K v))"
    have "indexed (idx_of v ?y) (?K v)" for v
    proof -
      have "indexed (idx_of v ?y) (if v = w' then insert (h', j) (?K v) else ?K v)"
        using A by blast
      then show ?thesis
        by (rule indexed_subset) auto
    qed
    then show ?thesis
      using A len same_table_fields(1) [OF same] by (simp add: all_but_def)
  qed (simp add: all_butI)
qed

lemma upd_out: "\<not> i < max_clients sv \<Longrightarrow> upd i f sv = sv"
  by (simp add: upd_def list_update_beyond)

lemma keys_of_update:
  "i < length cs \<Longrightarrow> keys_of (cs[i := c]) UNIV v =
     keys_of cs (- {i}) v \<union> (if sc_active c then {(h, i) |h. (v, h) \<in> set (client_keys c)} else {})"
  by (auto simp: keys_of_def nth_list_update)

text \<open>Changing an entry so that it has at most one key it had not before.\<close>

lemma upd_all_but:
  assumes inv: "srv_idx_inv sv" and i: "i < max_clients sv"
    and keys: "sc_active (f (client sv i)) \<Longrightarrow>
      sc_active (client sv i) \<and> set (client_keys (f (client sv i))) \<subseteq> insert (w, h) (set (client_keys (client sv i)))"
  shows "all_but w h i (upd i f sv)"
proof -
  let ?c = "f (client sv i)"
  have "keys_of (sv_clients (upd i f sv)) UNIV v - (if v = w then {(h, i)} else {}) \<subseteq> keys_of (sv_clients sv) UNIV v" for v
  proof
    fix p
    assume "p \<in> keys_of (sv_clients (upd i f sv)) UNIV v - (if v = w then {(h, i)} else {})"
    then have p: "p \<in> keys_of (sv_clients sv) (- {i}) v \<or> (\<exists>g. p = (g, i) \<and> sc_active ?c \<and> (v, g) \<in> set (client_keys ?c))"
      and no: "\<not> (v = w \<and> p = (h, i))"
      by (auto simp: keys_of_update [OF i] split: if_splits)
    from p show "p \<in> keys_of (sv_clients sv) UNIV v"
    proof (elim disjE exE conjE)
      assume "p \<in> keys_of (sv_clients sv) (- {i}) v"
      then show ?thesis
        using keys_of_subset [of "- {i}" UNIV] by blast
    next
      fix g
      assume g: "p = (g, i)" "sc_active ?c" "(v, g) \<in> set (client_keys ?c)"
      then have "sc_active (client sv i)" "(v, g) \<in> set (client_keys (client sv i))"
        using keys [OF g(2)] no by auto
      then show ?thesis
        using g(1) i by (auto simp: keys_of_def)
    qed
  qed
  then have "all_indexed sv UNIV \<Longrightarrow> indexed (idx_of v sv)
      (keys_of (sv_clients (upd i f sv)) UNIV v - (if v = w then {(h, i)} else {}))" for v
    unfolding all_indexed_def by (rule indexed_subset [rotated]) blast
  then show ?thesis
    using inv by (simp add: all_but_def srv_idx_inv_def indexes_inv_def)
qed

lemma upd_inv:
  assumes inv: "srv_idx_inv sv" and keys: "i < max_clients sv \<Longrightarrow> sc_active (f (client sv i)) \<Longrightarrow>
      sc_active (client sv i) \<and> set (client_keys (f (client sv i))) \<subseteq> set (client_keys (client sv i))"
  shows "srv_idx_inv (upd i f sv)"
proof (cases "i < max_clients sv")
  case False
  then show ?thesis
    using inv by (simp add: upd_out)
next
  case i: True
  have sub: "keys_of (sv_clients (upd i f sv)) UNIV v \<subseteq> keys_of (sv_clients sv) UNIV v" for v
    using keys [OF i] i unfolding upd_frame keys_of_update [OF i]
    by (auto simp: keys_of_def split: if_splits)
  show ?thesis
    using inv indexed_subset [OF _ sub] by (auto simp: srv_idx_inv_def all_indexed_def indexes_inv_def)
qed

text \<open>A fresh entry has no keys.\<close>

lemma upd_inv_fresh:
  assumes inv: "srv_idx_inv sv" and keys: "client_keys (f (client sv i)) = []"
  shows "srv_idx_inv (upd i f sv)"
proof (cases "i < max_clients sv")
  case False
  then show ?thesis
    using inv by (simp add: upd_out)
next
  case i: True
  have sub: "keys_of (sv_clients (upd i f sv)) UNIV v \<subseteq> keys_of (sv_clients sv) UNIV v" for v
    using keys i unfolding upd_frame keys_of_update [OF i] by (auto simp: keys_of_def)
  show ?thesis
    using inv indexed_subset [OF _ sub] by (auto simp: srv_idx_inv_def all_indexed_def indexes_inv_def)
qed

subsection \<open>Lookups are table scans\<close>

lemma match_lt:
  "match_ip sv ip k \<Longrightarrow> k < max_clients sv" "match_cur_ip sv ip k \<Longrightarrow> k < max_clients sv"
  "match_id sv s k \<Longrightarrow> k < max_clients sv" "match_addr sv a k \<Longrightarrow> k < max_clients sv"
  by (simp_all add: match_ip_def match_cur_ip_def match_id_def match_addr_def)

lemma keys_ofI: "k < length cs \<Longrightarrow> sc_active (cs ! k) \<Longrightarrow> (w, h) \<in> set (client_keys (cs ! k)) \<Longrightarrow> (h, k) \<in> keys_of cs UNIV w"
  by (simp add: keys_of_def)

lemma client_keysI:
  "ip \<noteq> 0 \<Longrightarrow> sc_ip c = ip \<or> sc_pending_ip c = ip \<or> s_valid (sc_prev c) \<and> sc_prev_ip c = ip \<Longrightarrow>
     (IX_IP, slotidx_hash_u32 ip) \<in> set (client_keys c)"
  "sc_client_id c \<noteq> [] \<Longrightarrow> slotidx_hash_nocase (sc_client_id c) = h \<Longrightarrow> (IX_ID, h) \<in> set (client_keys c)"
  "addr_is_set (sc_addr c) \<Longrightarrow> hash_addr (sc_addr c) = h \<Longrightarrow> (IX_ADDR, h) \<in> set (client_keys c)"
  by (auto simp: client_keys_def)

lemma match_keys:
  "match_ip sv ip k \<Longrightarrow> (slotidx_hash_u32 ip, k) \<in> keys_of (sv_clients sv) UNIV IX_IP"
  "match_cur_ip sv ip k \<Longrightarrow> (slotidx_hash_u32 ip, k) \<in> keys_of (sv_clients sv) UNIV IX_IP"
  "match_id sv s k \<Longrightarrow> s \<noteq> [] \<Longrightarrow> (slotidx_hash_nocase s, k) \<in> keys_of (sv_clients sv) UNIV IX_ID"
  "match_addr sv a k \<Longrightarrow> addr_is_set a \<Longrightarrow> (hash_addr a, k) \<in> keys_of (sv_clients sv) UNIV IX_ADDR"
     apply (rule keys_ofI; simp add: match_ip_def client_keysI)
    apply (rule keys_ofI; simp add: match_cur_ip_def client_keysI)
   apply (rule keys_ofI; auto simp: match_id_def strcaseeq_def intro!: client_keysI slotidx_hash_nocase_eq)
  apply (rule keys_ofI; simp add: match_addr_def net_sockaddr_equal_def)
  apply (rule client_keysI; simp add: addr_is_set_def hash_addr_def)
  done

lemma idx_lookup:
  assumes "srv_idx_inv sv" and "sv_idx_ok sv"
    and "\<And>k. P k \<Longrightarrow> k < max_clients sv" and "\<And>k. P k \<Longrightarrow> (h, k) \<in> keys_of (sv_clients sv) UNIV w"
  shows "slotidx_lookup (idx_of w sv) h P = scan_first (max_clients sv) P"
  using assms by (intro indexed_scan) (auto simp: srv_idx_inv_def all_indexed_def)

lemma find_by_ip_scan:
  assumes "srv_idx_inv sv"
  shows "server_find_by_ip sv ip = (case scan_first (max_clients sv) (match_cur_ip sv ip) of
     Some k \<Rightarrow> Some k | None \<Rightarrow> scan_first (max_clients sv) (match_ip sv ip))"
  using idx_lookup [OF assms, of "match_cur_ip sv ip" "slotidx_hash_u32 ip" IX_IP]
    idx_lookup [OF assms, of "match_ip sv ip" "slotidx_hash_u32 ip" IX_IP]
  by (cases "scan_first (max_clients sv) (match_cur_ip sv ip)") (simp_all add: server_find_by_ip_def match_keys match_lt idx_of_def)

lemma find_by_id_scan:
  assumes "srv_idx_inv sv" and "s \<noteq> []"
  shows "server_find_by_client_id sv s = scan_first (max_clients sv) (match_id sv s)"
  using idx_lookup [OF assms(1), of "match_id sv s" "slotidx_hash_nocase s" IX_ID] assms(2)
  by (simp add: server_find_by_client_id_def match_keys match_lt idx_of_def)

lemma find_by_addr_scan:
  assumes "srv_idx_inv sv"
  shows "server_find_by_addr sv a = scan_first (max_clients sv) (match_addr sv a)"
  using idx_lookup [OF assms, of "match_addr sv a" "hash_addr a" IX_ADDR]
  by (simp add: server_find_by_addr_def match_keys match_lt idx_of_def)

lemma match_cur_ip_match: "match_cur_ip sv ip k \<Longrightarrow> match_ip sv ip k"
  by (simp add: match_ip_def match_cur_ip_def)

lemma find_by_ip_None:
  assumes "srv_idx_inv sv"
  shows "server_find_by_ip sv ip = None \<longleftrightarrow> (\<forall>k<max_clients sv. \<not> match_ip sv ip k)"
proof (cases "scan_first (max_clients sv) (match_cur_ip sv ip)")
  case None
  then show ?thesis
    unfolding find_by_ip_scan [OF assms] by (simp add: scan_first_None_iff [of _ "match_ip sv ip"])
next
  case (Some k)
  then have "match_ip sv ip k"
    using scan_firstD(2) match_cur_ip_match by blast
  then show ?thesis
    using Some match_lt(1) by (auto simp: find_by_ip_scan [OF assms])
qed

lemma find_by_ip_Some:
  assumes "srv_idx_inv sv" and "server_find_by_ip sv ip = Some k"
  shows "match_ip sv ip k" and "sc_ip (client sv k) \<noteq> ip \<Longrightarrow> j < max_clients sv \<Longrightarrow> \<not> match_cur_ip sv ip j"
proof -
  let ?s = "scan_first (max_clients sv) (match_cur_ip sv ip)"
  show "match_ip sv ip k"
    using assms(2) scan_firstD(2) [of _ "match_cur_ip sv ip" k] scan_firstD(2) [of _ "match_ip sv ip" k] match_cur_ip_match
    by (cases ?s) (simp_all add: find_by_ip_scan [OF assms(1)])
  assume "sc_ip (client sv k) \<noteq> ip" "j < max_clients sv"
  moreover have "?s = None"
    using assms(2) calculation(1) scan_firstD(2) [of _ "match_cur_ip sv ip" k]
    by (cases ?s) (auto simp: find_by_ip_scan [OF assms(1)] match_cur_ip_def)
  ultimately show "\<not> match_cur_ip sv ip j"
    by (simp add: scan_first_None_iff)
qed

lemma find_by_addr_Some:
  "srv_idx_inv sv \<Longrightarrow> server_find_by_addr sv a = Some k \<Longrightarrow> match_addr sv a k"
  using scan_firstD(2) by (fastforce simp: find_by_addr_scan)

lemma find_by_id_Some:
  assumes "srv_idx_inv sv" and "server_find_by_client_id sv s = Some k"
  shows "match_id sv s k"
proof -
  have "s \<noteq> []"
    using assms(2) by (auto simp: server_find_by_client_id_def)
  then show ?thesis
    using assms scan_firstD(2) [of _ "match_id sv s" k] by (simp add: find_by_id_scan)
qed

subsection \<open>What the operations on an entry do\<close>

text \<open>\<open>sv'\<close> is \<open>sv\<close> with one entry changed and the indexes brought up to date.\<close>

definition entry_set :: "nat \<Rightarrow> (server_client \<Rightarrow> server_client) \<Rightarrow> server \<Rightarrow> server \<Rightarrow> bool" where
  "entry_set i f sv sv' \<longleftrightarrow> same_table (upd i f sv) sv' \<and> srv_idx_inv sv'"

lemma entry_setD:
  assumes "entry_set i f sv sv'"
  shows "srv_idx_inv sv'" and "sv_clients sv' = (sv_clients sv)[i := f (client sv i)]" and "sv_leases sv' = sv_leases sv"
    and "sv_net sv' = sv_net sv" and "sv_sent sv' = sv_sent sv" and "sv_budget sv' = sv_budget sv"
    and "sv_tunnel_ip sv' = sv_tunnel_ip sv" and "sv_started sv' = sv_started sv"
  using assms same_table_fields [of "upd i f sv" sv'] by (simp_all add: entry_set_def)

lemma same_table_upd: "same_table sv sv' \<Longrightarrow> same_table (upd i f sv) (upd i f sv')"
proof -
  assume "same_table sv sv'"
  then obtain a b c ok where "sv' = sv\<lparr>sv_idx_ip := a, sv_idx_id := b, sv_idx_addr := c, sv_idx_ok := ok\<rparr>"
    by (auto simp: same_table_def)
  then have "upd i f sv' = (upd i f sv)\<lparr>sv_idx_ip := a, sv_idx_id := b, sv_idx_addr := c, sv_idx_ok := ok\<rparr>"
    by (simp add: upd_def)
  then show ?thesis
    unfolding same_table_def by blast
qed

lemma upd_upd [simp]: "upd i g (upd i f sv) = upd i (\<lambda>c. g (f c)) sv"
  by (cases "i < max_clients sv") (simp_all add: upd_def list_update_beyond)

lemma upd_same: "f (client sv i) = client sv i \<Longrightarrow> upd i f sv = sv"
  by (simp add: upd_def)

lemma upd_cong: "f (client sv i) = g (client sv i) \<Longrightarrow> upd i f sv = upd i g sv"
  by (simp add: upd_def)

lemma entry_set_trans:
  assumes "entry_set i f sv sv1" and "entry_set i g sv1 sv2"
  shows "entry_set i (\<lambda>c. g (f c)) sv sv2"
  using same_table_trans [OF same_table_upd [of "upd i f sv" sv1 i g]] assms by (auto simp: entry_set_def)

lemma entry_set_id: "srv_idx_inv sv \<Longrightarrow> f (client sv i) = client sv i \<Longrightarrow> entry_set i f sv sv"
  by (simp add: entry_set_def upd_same)

lemma entry_set_cong:
  "entry_set i f sv sv' \<Longrightarrow> f (client sv i) = g (client sv i) \<Longrightarrow> entry_set i g sv sv'"
  using upd_cong [of f sv i g] by (simp add: entry_set_def)

lemma entry_set_upd:
  assumes "srv_idx_inv sv" and "i < max_clients sv \<Longrightarrow> sc_active (f (client sv i)) \<Longrightarrow>
      sc_active (client sv i) \<and> set (client_keys (f (client sv i))) \<subseteq> set (client_keys (client sv i))"
  shows "entry_set i f sv (upd i f sv)"
  unfolding entry_set_def by (rule conjI [OF same_table_refl upd_inv]) (use assms in auto)

lemma entry_set_index:
  assumes "srv_idx_inv sv" and "i < max_clients sv" and "sc_active (client sv i)"
    and "set (client_keys (f (client sv i))) \<subseteq> insert (w, h) (set (client_keys (client sv i)))"
  shows "entry_set i f sv (server_index_add x w h i (upd i f sv))"
proof -
  have "all_but w h i (upd i f sv)"
    using assms by (intro upd_all_but) auto
  then show ?thesis
    using index_add_props [of w h i "upd i f sv" x] assms(2) by (simp add: entry_set_def)
qed

lemma entry_set_field:
  assumes "srv_idx_inv sv" and "i < max_clients sv" and "sc_active (client sv i)"
    and "set (client_keys (f (client sv i))) \<subseteq> insert (w, h) (set (client_keys (client sv i)))"
    and "\<not> b \<Longrightarrow> set (client_keys (f (client sv i))) \<subseteq> set (client_keys (client sv i))"
  shows "entry_set i f sv (if b then server_index_add x w h i (upd i f sv) else upd i f sv)"
  using entry_set_index [OF assms(1-3), of f w h x] entry_set_upd [OF assms(1), of i f] assms(3-5) by (cases b) simp_all

lemma net_sockaddr_equal_eq: "net_sockaddr_equal a b \<longleftrightarrow> a = b"
  by (cases a; cases b) (auto simp: net_sockaddr_equal_def)

lemma set_ip_entry:
  assumes "srv_idx_inv sv" and "i < max_clients sv" and "sc_active (client sv i)"
  shows "entry_set i (\<lambda>c. c\<lparr>sc_ip := ip\<rparr>) sv (server_set_ip x i ip sv)"
proof (cases "sc_ip (client sv i) = ip")
  case True
  then show ?thesis
    using assms(1) entry_set_id by (auto simp: server_set_ip_def)
next
  case False
  then have e: "server_set_ip x i ip sv = (if ip \<noteq> 0 then server_index_add x IX_IP (slotidx_hash_u32 ip) i
      (upd i (\<lambda>c. c\<lparr>sc_ip := ip\<rparr>) sv) else upd i (\<lambda>c. c\<lparr>sc_ip := ip\<rparr>) sv)"
    by (simp add: server_set_ip_def Let_def)
  show ?thesis
    unfolding e by (rule entry_set_field [OF assms]) (auto simp: client_keys_def)
qed

lemma set_id_entry:
  assumes "srv_idx_inv sv" and "i < max_clients sv" and "sc_active (client sv i)" and "length w < CAMEX_CLIENT_ID_LEN"
  shows "entry_set i (\<lambda>c. c\<lparr>sc_client_id := w\<rparr>) sv (server_set_id x i w sv)"
proof (cases "sc_client_id (client sv i) = w")
  case True
  then show ?thesis
    using assms(1) entry_set_id by (auto simp: server_set_id_def)
next
  case False
  then have e: "server_set_id x i w sv = (if w \<noteq> [] then server_index_add x IX_ID (slotidx_hash_nocase w) i
      (upd i (\<lambda>c. c\<lparr>sc_client_id := w\<rparr>) sv) else upd i (\<lambda>c. c\<lparr>sc_client_id := w\<rparr>) sv)"
    using assms(4) by (simp add: server_set_id_def Let_def fit_id)
  show ?thesis
    unfolding e by (rule entry_set_field [OF assms(1-3)]) (auto simp: client_keys_def)
qed

lemma set_addr_entry:
  assumes "srv_idx_inv sv" and "i < max_clients sv" and "sc_active (client sv i)"
  shows "entry_set i (\<lambda>c. c\<lparr>sc_addr := a\<rparr>) sv (server_set_addr x i a sv)"
proof (cases "sc_addr (client sv i) = a \<and> addr_is_set a")
  case True
  then show ?thesis
    using assms(1) entry_set_id by (auto simp: server_set_addr_def net_sockaddr_equal_eq)
next
  case False
  then have e: "server_set_addr x i a sv = (if addr_is_set a then server_index_add x IX_ADDR (hash_addr a) i
      (upd i (\<lambda>c. c\<lparr>sc_addr := a\<rparr>) sv) else upd i (\<lambda>c. c\<lparr>sc_addr := a\<rparr>) sv)"
    by (simp add: server_set_addr_def Let_def net_sockaddr_equal_eq)
  show ?thesis
    unfolding e by (rule entry_set_field [OF assms]) (auto simp: client_keys_def)
qed

definition assigned :: "u32 \<Rightarrow> server_client \<Rightarrow> server_client" where
  "assigned ip c = (if s_valid (sc_cur c) \<and> sc_ip c \<noteq> 0 \<and> ip \<noteq> sc_ip c then c\<lparr>sc_pending_ip := ip\<rparr>
     else c\<lparr>sc_pending_ip := 0, sc_ip := ip\<rparr>)"

lemma assign_ip_entry:
  assumes "srv_idx_inv sv" and "i < max_clients sv" and "sc_active (client sv i)"
  shows "entry_set i (assigned ip) sv (server_assign_ip x i ip sv)"
proof (cases "s_valid (sc_cur (client sv i)) \<and> sc_ip (client sv i) \<noteq> 0 \<and> ip \<noteq> sc_ip (client sv i)")
  case True
  have keys: "set (client_keys (client sv i\<lparr>sc_pending_ip := ip\<rparr>)) \<subseteq> insert (IX_IP, slotidx_hash_u32 ip) (set (client_keys (client sv i)))"
    by (auto simp: client_keys_def)
  have "entry_set i (\<lambda>c. c\<lparr>sc_pending_ip := ip\<rparr>) sv (server_assign_ip x i ip sv)"
  proof (cases "sc_pending_ip (client sv i) = ip")
    case same: True
    then show ?thesis
      using assms(1) True entry_set_id by (auto simp: server_assign_ip_def Let_def)
  next
    case other: False
    then show ?thesis
      using True entry_set_index [OF assms, of "\<lambda>c. c\<lparr>sc_pending_ip := ip\<rparr>"] keys
      by (simp add: server_assign_ip_def Let_def)
  qed
  then show ?thesis
    by (rule entry_set_cong) (use True in \<open>simp add: assigned_def\<close>)
next
  case False
  let ?s = "upd i (\<lambda>c. c\<lparr>sc_pending_ip := 0\<rparr>) sv"
  have s: "entry_set i (\<lambda>c. c\<lparr>sc_pending_ip := 0\<rparr>) sv ?s"
    using assms by (intro entry_set_upd) (auto simp: client_keys_def)
  have "entry_set i (\<lambda>c. c\<lparr>sc_ip := ip\<rparr>) ?s (server_set_ip x i ip ?s)"
    using assms entry_setD(1) [OF s] by (intro set_ip_entry) simp_all
  note entry_set_trans [OF s this]
  moreover have "server_assign_ip x i ip sv = server_set_ip x i ip ?s"
    using False by (auto simp: server_assign_ip_def Let_def)
  ultimately show ?thesis
    using False by (auto simp: assigned_def elim: entry_set_cong)
qed

lemma restore_ip_entry:
  assumes "srv_idx_inv sv" and "i < max_clients sv" and "sc_active (client sv i)"
  shows "entry_set i (\<lambda>c. c\<lparr>sc_ip := ip, sc_pending_ip := p\<rparr>) sv (server_restore_ip x i ip p sv)"
proof -
  let ?s = "server_set_ip x i ip sv" and ?h = "slotidx_hash_u32"
  have s: "entry_set i (\<lambda>c. c\<lparr>sc_ip := ip\<rparr>) sv ?s"
    by (rule set_ip_entry [OF assms])
  have s_i: "srv_idx_inv ?s" "i < max_clients ?s" "sc_active (client ?s i)"
    using assms entry_setD(1,2) [OF s] by simp_all
  let ?u = "upd i (\<lambda>c. c\<lparr>sc_pending_ip := p\<rparr>) ?s"
  have iu: "i < max_clients ?u"
    using s_i by simp
  have u: "all_but IX_IP (?h p) i ?u"
    using s_i by (intro upd_all_but) (auto simp: client_keys_def)
  have u0: "srv_idx_inv ?u" if "p = 0"
    using s_i that by (intro upd_inv) (auto simp: client_keys_def)
  let ?v = "if ip \<noteq> 0 then server_index_add x IX_IP (?h ip) i ?u else ?u"
  have v: "same_table ?u ?v" "all_but IX_IP (?h p) i ?v"
    using index_add_all_but [OF u iu, of x IX_IP "?h ip"] u by (cases "ip \<noteq> 0"; simp only: if_True if_False; simp)+
  have v0: "srv_idx_inv ?v" if "p = 0"
    using index_add_props [OF all_butI [OF u0 [OF that], of IX_IP "?h ip" i] iu, of x] u0 [OF that]
    by (cases "ip \<noteq> 0") (simp_all only: if_True if_False simp_thms)
  have iv: "i < max_clients ?v"
    using same_table_fields(1) [OF v(1)] iu by simp
  let ?r = "if p \<noteq> 0 then server_index_add x IX_IP (?h p) i ?v else ?v"
  have "same_table ?v ?r \<and> srv_idx_inv ?r"
    using index_add_props [OF v(2) iv, of x] v0 by (cases "p \<noteq> 0"; simp only: if_True if_False; simp)
  then have "entry_set i (\<lambda>c. c\<lparr>sc_pending_ip := p\<rparr>) ?s ?r"
    using same_table_trans [OF v(1)] by (auto simp: entry_set_def)
  moreover have "server_restore_ip x i ip p sv = ?r"
    unfolding server_restore_ip_def Let_def by (rule refl)
  ultimately show ?thesis
    using entry_set_trans [OF s] by simp
qed

subsection \<open>The table stays sound\<close>

definition server_ok :: "server \<Rightarrow> bool" where
  "server_ok sv \<longleftrightarrow> srv_idx_inv sv \<and> lease_ok (sv_leases sv) \<and>
     (\<forall>i<max_clients sv. length (sc_client_id (client sv i)) < CAMEX_CLIENT_ID_LEN)"

lemma idx_frame [simp]:
  "idx_of w (sv\<lparr>sv_net := a\<rparr>) = idx_of w sv" "idx_of w (sv\<lparr>sv_sent := b\<rparr>) = idx_of w sv"
  "idx_of w (sv\<lparr>sv_leases := c\<rparr>) = idx_of w sv" "idx_of w (sv\<lparr>sv_alloc_next := d\<rparr>) = idx_of w sv"
  "idx_of w (sv\<lparr>sv_expire_check := e\<rparr>) = idx_of w sv" "idx_of w (sv\<lparr>sv_budget := f\<rparr>) = idx_of w sv"
  "idx_of w (sv\<lparr>sv_pool_next := g\<rparr>) = idx_of w sv" "idx_of w (sv\<lparr>sv_isolation_drops := h\<rparr>) = idx_of w sv"
  "idx_of w (sv\<lparr>sv_pool_full_at := t, sv_pool_full_net := n, sv_pool_full_prefix := p\<rparr>) = idx_of w sv"
  "idx_of w (sv\<lparr>sv_tunnel_ip := k\<rparr>) = idx_of w sv" "idx_of w (sv\<lparr>sv_started := l\<rparr>) = idx_of w sv"
  by (cases w; simp add: idx_of_def)+

named_theorems server_inv

lemma inv_frame [simp, server_inv]:
  "srv_idx_inv (sv\<lparr>sv_net := a\<rparr>) = srv_idx_inv sv" "srv_idx_inv (sv\<lparr>sv_sent := b\<rparr>) = srv_idx_inv sv"
  "srv_idx_inv (sv\<lparr>sv_leases := c\<rparr>) = srv_idx_inv sv" "srv_idx_inv (sv\<lparr>sv_alloc_next := d\<rparr>) = srv_idx_inv sv"
  "srv_idx_inv (sv\<lparr>sv_expire_check := e\<rparr>) = srv_idx_inv sv" "srv_idx_inv (sv\<lparr>sv_budget := f\<rparr>) = srv_idx_inv sv"
  "srv_idx_inv (sv\<lparr>sv_pool_next := g\<rparr>) = srv_idx_inv sv" "srv_idx_inv (sv\<lparr>sv_isolation_drops := h\<rparr>) = srv_idx_inv sv"
  "srv_idx_inv (sv\<lparr>sv_pool_full_at := t, sv_pool_full_net := n, sv_pool_full_prefix := p\<rparr>) = srv_idx_inv sv"
  "srv_idx_inv (sv\<lparr>sv_tunnel_ip := k\<rparr>) = srv_idx_inv sv" "srv_idx_inv (sv\<lparr>sv_started := l\<rparr>) = srv_idx_inv sv"
  by (simp_all add: srv_idx_inv_def indexes_inv_def all_indexed_def)

lemma ok_frame [simp]:
  "server_ok (sv\<lparr>sv_net := a\<rparr>) = server_ok sv" "server_ok (sv\<lparr>sv_sent := b\<rparr>) = server_ok sv"
  "server_ok (sv\<lparr>sv_alloc_next := d\<rparr>) = server_ok sv"
  "server_ok (sv\<lparr>sv_expire_check := e\<rparr>) = server_ok sv" "server_ok (sv\<lparr>sv_budget := f\<rparr>) = server_ok sv"
  "server_ok (sv\<lparr>sv_pool_next := g\<rparr>) = server_ok sv" "server_ok (sv\<lparr>sv_isolation_drops := h\<rparr>) = server_ok sv"
  "server_ok (sv\<lparr>sv_pool_full_at := t, sv_pool_full_net := n, sv_pool_full_prefix := p\<rparr>) = server_ok sv"
  "server_ok (sv\<lparr>sv_tunnel_ip := k\<rparr>) = server_ok sv" "server_ok (sv\<lparr>sv_started := l\<rparr>) = server_ok sv"
  by (simp_all add: server_ok_def)

lemma server_okD:
  assumes "server_ok sv"
  shows "srv_idx_inv sv" and "lease_ok (sv_leases sv)"
    and "i < max_clients sv \<Longrightarrow> length (sc_client_id (client sv i)) < CAMEX_CLIENT_ID_LEN"
  using assms by (simp_all add: server_ok_def)

text \<open>An entry changed within the invariant.\<close>

lemma entry_set_ok:
  assumes "server_ok sv" and "entry_set i f sv sv'"
    and "i < max_clients sv \<Longrightarrow> length (sc_client_id (f (client sv i))) < CAMEX_CLIENT_ID_LEN"
  shows "server_ok sv'"
  using entry_setD [OF assms(2)] assms(1,3) by (auto simp: server_ok_def nth_update)

lemma upd_ok:
  assumes "server_ok sv"
    and "i < max_clients sv \<Longrightarrow> sc_active (f (client sv i)) \<Longrightarrow>
      sc_active (client sv i) \<and> set (client_keys (f (client sv i))) \<subseteq> set (client_keys (client sv i))"
    and "i < max_clients sv \<Longrightarrow> length (sc_client_id (f (client sv i))) < CAMEX_CLIENT_ID_LEN"
  shows "server_ok (upd i f sv)"
  by (rule entry_set_ok [OF assms(1) entry_set_upd [OF server_okD(1) [OF assms(1)]]]) (use assms in auto)

lemma client_wiped_fields [simp]:
  "sc_active client_wiped = False" "sc_client_id client_wiped = []" "client_keys (client_wiped\<lparr>sc_active := b\<rparr>) = []"
  "client_keys client_wiped = []" "sc_tcp_fd client_wiped = - 1" "sc_ip client_wiped = 0" "sc_registered client_wiped = False"
  "sc_pending_ip client_wiped = 0" "s_valid (sc_cur client_wiped) = False" "s_valid (sc_next client_wiped) = False"
  "s_valid (sc_prev client_wiped) = False" "sc_auto client_wiped = False"
  by (simp_all add: client_wiped_def client_zero_def client_keys_def addr_is_set_def addr_zero_def session_zero_def)

lemma close_tcp_frame [simp]:
  "sv_clients (close_tcp fd sv) = sv_clients sv" "sv_leases (close_tcp fd sv) = sv_leases sv"
  "srv_idx_inv (close_tcp fd sv) = srv_idx_inv sv" "server_ok (close_tcp fd sv) = server_ok sv"
  "sv_tunnel_ip (close_tcp fd sv) = sv_tunnel_ip sv" "sv_started (close_tcp fd sv) = sv_started sv"
  "sv_budget (close_tcp fd sv) = sv_budget sv" "sv_alloc_next (close_tcp fd sv) = sv_alloc_next sv"
proof -
  have "close_tcp fd sv = (if fd < 0 then sv else (sv\<lparr>sv_net := net_tcp_close fd (sv_net sv)\<rparr>)\<lparr>sv_sent := sv_sent sv @ [Closed_tcp fd]\<rparr>)"
    by (simp add: close_tcp_def)
  then show "srv_idx_inv (close_tcp fd sv) = srv_idx_inv sv" "server_ok (close_tcp fd sv) = server_ok sv"
    by (simp_all only: inv_frame ok_frame if_distrib [of srv_idx_inv] if_distrib [of server_ok] if_cancel)
qed (simp_all add: close_tcp_def)

lemma wipe_ok:
  assumes "server_ok sv" and "client_keys c = []" and "sc_client_id c = []"
  shows "server_ok (upd i (\<lambda>_. c) sv)"
  using upd_inv_fresh [OF server_okD(1) [OF assms(1)], of "\<lambda>_. c" i] assms
  by (auto simp: server_ok_def nth_update CAMEX_CLIENT_ID_LEN_def)

lemma drop_entry_props:
  shows "sv_clients (server_drop_entry i sv) = (sv_clients sv)[i := client_wiped]"
    and "sv_leases (server_drop_entry i sv) = sv_leases sv" and "sv_tunnel_ip (server_drop_entry i sv) = sv_tunnel_ip sv"
    and "server_ok sv \<Longrightarrow> server_ok (server_drop_entry i sv)"
  by (simp_all add: server_drop_entry_def wipe_ok)

lemma lease_address_props [simp]:
  "sv_clients (lease_address x w ip prev sv) = sv_clients sv"
  "srv_idx_inv (lease_address x w ip prev sv) = srv_idx_inv sv"
  "sv_tunnel_ip (lease_address x w ip prev sv) = sv_tunnel_ip sv"
  "sv_started (lease_address x w ip prev sv) = sv_started sv"
  "sv_budget (lease_address x w ip prev sv) = sv_budget sv"
  by (simp_all add: lease_address_def)

lemma lease_address_ok:
  "server_ok sv \<Longrightarrow> length w < CAMEX_CLIENT_ID_LEN \<Longrightarrow> server_ok (lease_address x w ip prev sv)"
  by (simp add: server_ok_def lease_address_def lease_add_ok CAMEX_CLIENT_ID_LEN_def)

lemma end_client_props:
  shows "sv_clients (server_end_client x i sv) = (sv_clients sv)[i := client_wiped]"
    and "sv_tunnel_ip (server_end_client x i sv) = sv_tunnel_ip sv"
    and "server_ok sv \<Longrightarrow> i < max_clients sv \<Longrightarrow> server_ok (server_end_client x i sv)"
  by (auto simp: server_end_client_def Let_def drop_entry_props lease_address_ok server_okD(3))

lemma alloc_free_slot_Some:
  "alloc_free_slot sv = Some i \<Longrightarrow> i < max_clients sv \<and> \<not> sc_active (client sv i)"
  by (auto simp: alloc_free_slot_def find_Some_iff intro!: mod_less_divisor)

lemma alloc_free_slot_None:
  assumes "alloc_free_slot sv = None" and "i < max_clients sv"
  shows "sc_active (client sv i)"
proof -
  let ?n = "max_clients sv" and ?a = "sv_alloc_next sv mod max_clients sv"
  have a: "?a < ?n"
    by (rule mod_less_divisor) (use assms(2) in linarith)
  have "(sv_alloc_next sv + (i + ?n - ?a) mod ?n) mod ?n = (?a + (i + ?n - ?a)) mod ?n"
    by (simp add: mod_simps)
  also have "\<dots> = i"
    using assms(2) a by simp
  finally have i: "i = (sv_alloc_next sv + (i + ?n - ?a) mod ?n) mod ?n"
    by simp
  have "(i + ?n - ?a) mod ?n \<in> set [0..<?n]"
    using assms(2) by (cases "sv_clients sv = []") simp_all
  then have "i \<in> set (map (\<lambda>n. (sv_alloc_next sv + n) mod ?n) [0..<?n])"
    unfolding set_map using i by blast
  then show ?thesis
    using assms(1) unfolding alloc_free_slot_def find_None_iff by blast
qed

lemma quiet_longest_lt:
  assumes "0 < max_clients sv"
  shows "quiet_longest sv < max_clients sv"
proof -
  have "foldl (\<lambda>b i. if P i b then i else b) b xs < n" if "b < n" "\<forall>i\<in>set xs. i < n" for P b xs and n :: nat
    using that by (induction xs arbitrary: b) auto
  then show ?thesis
    unfolding quiet_longest_def using assms by auto
qed

lemma alloc_client_props:
  assumes ok: "server_ok sv" and a: "server_alloc_client x sv = (sv', r)"
  shows "server_ok sv' \<and> sv_tunnel_ip sv' = sv_tunnel_ip sv \<and> (case r of
      None \<Rightarrow> sv' = sv
    | Some i \<Rightarrow> i < max_clients sv \<and> sv_clients sv' = (sv_clients sv)[i := client_wiped\<lparr>sc_active := True\<rparr>])"
proof (cases "max_clients sv = 0")
  case True
  then show ?thesis
    using ok a by (simp add: server_alloc_client_def)
next
  case n: False
  show ?thesis
  proof (cases "alloc_free_slot sv")
    case (Some i)
    have "server_ok (upd i (\<lambda>_. client_wiped\<lparr>sc_active := True\<rparr>) (sv\<lparr>sv_alloc_next := (i + 1) mod max_clients sv\<rparr>))"
      using ok by (intro wipe_ok) simp_all
    then show ?thesis
      using a n Some alloc_free_slot_Some [OF Some] by (cases r) (auto simp: server_alloc_client_def)
  next
    case None
    let ?i = "quiet_longest sv"
    have i: "?i < max_clients sv"
      using n quiet_longest_lt by simp
    let ?s = "server_end_client x ?i sv"
    have "upd ?i (\<lambda>c. c\<lparr>sc_active := True\<rparr>) ?s = upd ?i (\<lambda>_. client_wiped\<lparr>sc_active := True\<rparr>) ?s"
      using i by (intro upd_cong) (simp add: end_client_props)
    moreover have "server_ok (upd ?i (\<lambda>_. client_wiped\<lparr>sc_active := True\<rparr>) ?s)"
      using end_client_props(3) [OF ok i] by (intro wipe_ok) simp_all
    ultimately show ?thesis
      using a n None i ok by (auto simp: server_alloc_client_def Let_def end_client_props split: if_splits)
  qed
qed

lemma sessions_expire_keys:
  "set (client_keys (sessions_expire now c)) \<subseteq> set (client_keys c)" "sc_active (sessions_expire now c) = sc_active c"
  "sc_client_id (sessions_expire now c) = sc_client_id c"
  by (auto simp: sessions_expire_def Let_def client_keys_def session_wipe_def session_zero_def split: if_splits)

lemma expire_one_ok:
  assumes "server_ok sv" and "i < max_clients sv"
  shows "server_ok (expire_one x now sv i) \<and> max_clients (expire_one x now sv i) = max_clients sv"
proof -
  have "server_ok (upd i (sessions_expire now) sv)"
    using assms server_okD(3) [OF assms(1)] sessions_expire_keys by (intro upd_ok) simp_all
  then show ?thesis
    using assms end_client_props by (simp add: expire_one_def Let_def)
qed

lemma expire_clients_ok:
  assumes "server_ok sv"
  shows "server_ok (server_expire_clients x sv)" and "max_clients (server_expire_clients x sv) = max_clients sv"
proof -
  have "server_ok (foldl (expire_one x now) s is) \<and> max_clients (foldl (expire_one x now) s is) = max_clients s"
    if "server_ok s" "\<forall>i\<in>set is. i < max_clients s" for now s "is"
    using that by (induction "is" arbitrary: s) (simp_all add: expire_one_ok)
  then show "server_ok (server_expire_clients x sv)" "max_clients (server_expire_clients x sv) = max_clients sv"
    using assms by (simp_all add: server_expire_clients_def Let_def)
qed


subsection \<open>A fresh table\<close>

definition server_zero :: server where
  "server_zero = \<lparr>sv_clients = [], sv_alloc_next = 0, sv_idx_ip = slotidx_free, sv_idx_id = slotidx_free,
     sv_idx_addr = slotidx_free, sv_idx_ok = False, sv_pool_next = 0, sv_pool_full_at = 0, sv_pool_full_net = 0,
     sv_pool_full_prefix = 0, sv_tunnel_ip = 0, sv_leases = lease_none, sv_started = 0, sv_isolation_drops = 0,
     sv_expire_check = 0, sv_budget = budget_start, sv_net = tcp_pending_init, sv_sent = []\<rparr>"

lemma clients_init_ok:
  assumes init: "server_clients_init x True leases count sv0 = (sv, r)" and n: "count \<le> CAMEX_MAX_CLIENTS_LIMIT"
  shows "server_ok sv" and "sv_clients sv = replicate count client_wiped" and "r = 0"
    and "lt_leases (sv_leases sv) = (if leases then replicate count lease_zero else [])"
proof -
  let ?f = "(server_clients_free sv0)\<lparr>sv_clients := replicate count client_wiped, sv_alloc_next := 0, sv_pool_next := 0\<rparr>"
  have "idx_of w ?f = slotidx_free" for w
    by (cases w) (simp_all add: idx_of_def server_clients_free_def)
  then have inv: "indexes_inv ?f"
    using slotidx_free_ok(1) by (simp add: indexes_inv_def)
  have len: "count \<le> SERVER_LEASE_MAX"
    using n by (simp add: CAMEX_MAX_CLIENTS_LIMIT_def SERVER_LEASE_MAX_def)
  let ?b = "server_index_rebuild x ?f"
  have b: "same_table ?f ?b" "srv_idx_inv ?b"
    using index_rebuild_props [OF inv] n by simp_all
  have sv: "sv = ?b\<lparr>sv_leases := leases_init (x_mem x) leases count\<rparr>\<lparr>sv_started := x_time x\<rparr>" and "r = 0"
    using init by (simp_all add: server_clients_init_def Let_def)
  show "r = 0" by fact
  have cs: "sv_clients ?b = replicate count client_wiped"
    using same_table_fields(1) [OF b(1)] by simp
  then show "sv_clients sv = replicate count client_wiped"
    unfolding sv by simp
  have "srv_idx_inv sv"
    unfolding sv inv_frame by (rule b(2))
  then show "server_ok sv"
    using leases_init_ok(1) [OF len, of "x_mem x" leases] cs
    by (simp add: server_ok_def sv CAMEX_CLIENT_ID_LEN_def)
  show "lt_leases (sv_leases sv) = (if leases then replicate count lease_zero else [])"
    unfolding sv using leases_init_ok(2) [OF len, of "x_mem x" leases] by simp
qed

text \<open>A server with two slots and a pool, and no configuration file.\<close>

definition demo_ctx :: srv_ctx where
  "demo_ctx = \<lparr>x_now = 1000, x_time = 1000, x_db = config_server_db_reset, x_ks = ks_zero, x_crypto = crypto_zero,
     x_mc = toy_mono, x_tcp = False, x_isolation = False, x_timeout_env = 0, x_hold = 20, x_mem = (\<lambda>_. True),
     x_grow = (\<lambda>_. True), x_share_rnd = Some (replicate 16 1), x_seed = Some (replicate 32 1),
     x_index_rnd = (\<lambda>_ _. Some [1, 2, 3, 4]), x_sndbuf = True, x_rs1 = [], x_rs2 = [Sent 10000], x_udp = True, x_tun = 0\<rparr>"

definition demo_server :: server where
  "demo_server = fst (server_clients_init demo_ctx True True 2 server_zero)"

text \<open>One auto client, on 10.200.0.2.\<close>

definition demo_ip :: u32 where
  "demo_ip = 0x0200C80A"

definition demo_client :: server where
  "demo_client = server_set_ip demo_ctx 0 demo_ip (server_set_id demo_ctx 0 ''cam''
     (upd 0 (\<lambda>_. client_wiped\<lparr>sc_active := True, sc_registered := True, sc_auto := True, sc_last_seen := 1000\<rparr>) demo_server))"

lemma demo_server_ok:
  "server_ok demo_server" "sv_clients demo_server = [client_wiped, client_wiped]"
  "lt_leases (sv_leases demo_server) = [lease_zero, lease_zero]"
proof -
  obtain r where r: "server_clients_init demo_ctx True True 2 server_zero = (demo_server, r)"
    by (metis demo_server_def prod.collapse)
  have "(2 :: nat) \<le> CAMEX_MAX_CLIENTS_LIMIT"
    by (simp add: CAMEX_MAX_CLIENTS_LIMIT_def)
  from clients_init_ok [OF r this] show "server_ok demo_server" "sv_clients demo_server = [client_wiped, client_wiped]"
    "lt_leases (sv_leases demo_server) = [lease_zero, lease_zero]"
    by (simp_all add: numeral_2_eq_2)
qed

lemma demo_client_ok:
  "server_ok demo_client"
  "sv_clients demo_client = [client_wiped\<lparr>sc_active := True, sc_registered := True, sc_auto := True,
      sc_last_seen := 1000, sc_client_id := ''cam'', sc_ip := demo_ip\<rparr>, client_wiped]"
  "sv_leases demo_client = sv_leases demo_server"
proof -
  let ?c = "client_wiped\<lparr>sc_active := True, sc_registered := True, sc_auto := True, sc_last_seen := 1000\<rparr>"
  let ?a = "upd 0 (\<lambda>_. ?c) demo_server"
  let ?b = "server_set_id demo_ctx 0 ''cam'' ?a"
  have a: "server_ok ?a"
    by (rule wipe_ok [OF demo_server_ok(1)])
      (simp_all add: client_wiped_def client_zero_def client_keys_def addr_is_set_def addr_zero_def session_zero_def)
  have b: "entry_set 0 (\<lambda>c. c\<lparr>sc_client_id := ''cam''\<rparr>) ?a ?b"
    using server_okD(1) [OF a] demo_server_ok(2) by (intro set_id_entry) (simp_all add: CAMEX_CLIENT_ID_LEN_def)
  have bok: "server_ok ?b"
    by (rule entry_set_ok [OF a b]) (simp add: CAMEX_CLIENT_ID_LEN_def)
  have c: "entry_set 0 (\<lambda>c. c\<lparr>sc_ip := demo_ip\<rparr>) ?b demo_client"
    unfolding demo_client_def using server_okD(1) [OF bok] demo_server_ok(2) entry_setD(2) [OF b]
    by (intro set_ip_entry) simp_all
  show "server_ok demo_client"
    by (rule entry_set_ok [OF bok c]) (use server_okD(3) [OF bok, of 0] in simp)
  show "sv_clients demo_client = [client_wiped\<lparr>sc_active := True, sc_registered := True, sc_auto := True,
      sc_last_seen := 1000, sc_client_id := ''cam'', sc_ip := demo_ip\<rparr>, client_wiped]"
    using entry_setD(2) [OF b] entry_setD(2) [OF c] demo_server_ok(2) by simp
  show "sv_leases demo_client = sv_leases demo_server"
    using entry_setD(3) [OF b] entry_setD(3) [OF c] by simp
qed

lemma demo_pool:
  "pool_has (x_globals demo_ctx) demo_ip" "profile_owner_of_ip demo_ctx ip = None"
proof -
  show "pool_has (x_globals demo_ctx) demo_ip"
    by (simp add: demo_ctx_def demo_ip_def config_server_db_reset_def pool_has_def pool_first_def pool_last_def
        pool_size_def htonl_def load_le32_def addr_byte_def CAMEX_AUTO_POOL_DEFAULT_NET_def CAMEX_AUTO_POOL_DEFAULT_PREFIX_def)
  have "db_by_ip (x_db demo_ctx) = slotidx_free"
    by (simp add: demo_ctx_def config_server_db_reset_def db_zero_def)
  then show "profile_owner_of_ip demo_ctx ip = None"
    using slotidx_free_ok slotidx_lookup_scan [of slotidx_free "profile_ip_match (x_db demo_ctx) ip" 0 "slotidx_hash_u32 ip"]
    by (simp add: profile_owner_of_ip_def config_db_find_profile_by_ip_def profile_ip_match_def demo_ctx_def
        config_server_db_reset_def db_zero_def scan_first_def)
qed

subsection \<open>Properties\<close>



lemma quiet_longest_least:
  assumes "j < max_clients sv"
  shows "sc_last_seen (client sv (quiet_longest sv)) \<le> sc_last_seen (client sv j)"
proof -
  let ?f = "\<lambda>b i. if sc_last_seen (client sv i) < sc_last_seen (client sv b) then i else b"
  have "\<forall>k\<in>insert b (set xs). sc_last_seen (client sv (foldl ?f b xs)) \<le> sc_last_seen (client sv k)" for b xs
  proof (induction xs arbitrary: b)
    case (Cons a xs)
    have b': "sc_last_seen (client sv (?f b a)) \<le> sc_last_seen (client sv a) \<and> sc_last_seen (client sv (?f b a)) \<le> sc_last_seen (client sv b)"
      by auto
    have "foldl ?f b (a # xs) = foldl ?f (?f b a) xs"
      by simp
    then show ?case
      using Cons.IH [of "?f b a"] b' order.trans by (metis (no_types, lifting) insert_iff list.simps(15))
  qed simp
  from this [of 0 "[1..<max_clients sv]"] show ?thesis
    using assms by (cases j) (auto simp: quiet_longest_def)
qed

text \<open>C39: a slot is taken for a new client without pushing a live one out while any is free; when none
  is, nobody is pushed out in the start hold, and later only the client that was quiet longest.\<close>

theorem alloc_evicts_quietest:
  assumes "server_ok sv" and "server_alloc_client x sv = (sv', r)" and "0 < max_clients sv"
  shows "(case r of
      None \<Rightarrow> sv' = sv \<and> server_pool_holding x sv \<and> (\<forall>j<max_clients sv. sc_active (client sv j))
    | Some i \<Rightarrow> i < max_clients sv \<and> sc_active (client sv' i) \<and> \<not> sc_registered (client sv' i) \<and>
        (\<forall>j<max_clients sv. j \<noteq> i \<longrightarrow> client sv' j = client sv j) \<and>
        (sc_active (client sv i) \<longrightarrow> \<not> server_pool_holding x sv \<and>
          (\<forall>j<max_clients sv. sc_active (client sv j) \<and> sc_last_seen (client sv i) \<le> sc_last_seen (client sv j))))"
proof -
  note P = alloc_client_props [OF assms(1,2)]
  show ?thesis
  proof (cases "alloc_free_slot sv")
    case (Some i)
    then have "r = Some i" "\<not> sc_active (client sv i)"
      using assms(2,3) alloc_free_slot_Some [OF Some] by (auto simp: server_alloc_client_def)
    then show ?thesis
      using P by (auto simp: nth_update)
  next
    case None
    then have all: "\<forall>j<max_clients sv. sc_active (client sv j)"
      using alloc_free_slot_None by blast
    show ?thesis
    proof (cases "server_pool_holding x sv")
      case True
      then have "r = None \<and> sv' = sv"
        using assms(2,3) None by (auto simp: server_alloc_client_def)
      then show ?thesis
        using True all by simp
    next
      case False
      then have "r = Some (quiet_longest sv)"
        using assms(2,3) None by (auto simp: server_alloc_client_def Let_def)
      then show ?thesis
        using P False all quiet_longest_least by (auto simp: nth_update)
    qed
  qed
qed

theorem alloc_evicts_quietest_witness:
  "\<exists>sv' i. server_alloc_client demo_ctx demo_client = (sv', Some i) \<and> client sv' 0 = client demo_client 0"
proof -
  obtain sv' r where a: "server_alloc_client demo_ctx demo_client = (sv', r)"
    by fastforce
  have n: "0 < max_clients demo_client"
    by (simp add: demo_client_ok(2))
  have free: "1 < max_clients demo_client \<and> \<not> sc_active (client demo_client 1)"
    by (simp add: demo_client_ok(2))
  have P: "case r of
      None \<Rightarrow> sv' = demo_client \<and> server_pool_holding demo_ctx demo_client \<and>
        (\<forall>j<max_clients demo_client. sc_active (client demo_client j))
    | Some i \<Rightarrow> i < max_clients demo_client \<and> sc_active (client sv' i) \<and> \<not> sc_registered (client sv' i) \<and>
        (\<forall>j<max_clients demo_client. j \<noteq> i \<longrightarrow> client sv' j = client demo_client j) \<and>
        (sc_active (client demo_client i) \<longrightarrow> \<not> server_pool_holding demo_ctx demo_client \<and>
          (\<forall>j<max_clients demo_client. sc_active (client demo_client j) \<and>
             sc_last_seen (client demo_client i) \<le> sc_last_seen (client demo_client j)))"
    by (rule alloc_evicts_quietest [OF demo_client_ok(1) a n])
  then obtain i where i: "r = Some i"
    using free by (cases r) auto
  have "i \<noteq> 0"
    using P free i by (auto simp: demo_client_ok(2))
  then show ?thesis
    using P i a n by auto
qed

text \<open>The expiry of a tick ends exactly the clients whose time is over (a connection without a
  handshake after ten seconds, any other client after its silence) and keeps every other one,
  less sessions past their grace.\<close>

lemma expiry_exact:
  assumes "(if x_now x \<noteq> 0 then x_now x else x_time x) = now" and "now \<noteq> sv_expire_check sv"
    and "i < max_clients sv"
  shows "client (server_expire_clients x sv) i =
    (if \<not> sc_active (client sv i) then client sv i
     else if client_expired x now (client sv i) then client_wiped else sessions_expire now (client sv i))"
proof -
  have one: "client (expire_one x now s k) j = (if j \<noteq> k \<or> \<not> sc_active (client s j) then client s j
      else if client_expired x now (client s j) then client_wiped else sessions_expire now (client s j))"
    if "j < max_clients s" for s k j
  proof -
    have "sc_tcp_fd (sessions_expire now c) = sc_tcp_fd c" "sc_registered (sessions_expire now c) = sc_registered c"
      "sc_connected_at (sessions_expire now c) = sc_connected_at c" "sc_last_seen (sessions_expire now c) = sc_last_seen c" for c
      by (simp_all add: sessions_expire_def Let_def)
    then have "client_expired x now (sessions_expire now c) = client_expired x now c" for c
      unfolding client_expired_def by (simp only:)
    then show ?thesis
      using that by (auto simp: expire_one_def Let_def end_client_props nth_update)
  qed
  have len: "max_clients (expire_one x now s k) = max_clients s" for s k
    by (simp add: expire_one_def Let_def end_client_props)
  have "client (foldl (expire_one x now) s ks) i = (if i \<notin> set ks \<or> \<not> sc_active (client s i) then client s i
      else if client_expired x now (client s i) then client_wiped else sessions_expire now (client s i))"
    if "i < max_clients s" "distinct ks" for s ks
    using that
  proof (induction ks arbitrary: s)
    case (Cons k ks)
    then show ?case
      using Cons.IH [of "expire_one x now s k"] one [of i s k] len [of s k] sessions_expire_keys(2)
      by auto
  qed simp
  then show ?thesis
    using assms by (simp add: server_expire_clients_def Let_def)
qed


end
