(* ===== verification/Pool.thy ===== *)
theory Pool
  imports Clients
begin

text \<open>
  The auto pool of \<open>src/server.c\<close>, the CONFIG of an auto client, the three checks after a reload,
  and the rule which key may register as which client: \<open>server_ip_usable\<close>, \<open>server_auto_pool_take\<close>,
  \<open>server_build_config\<close>, \<open>server_revalidate_*\<close>, \<open>server_register_allowed\<close>.
\<close>

subsection \<open>Addresses of the pool\<close>

definition server_ip_usable :: "srv_ctx \<Rightarrow> server \<Rightarrow> nat \<Rightarrow> u32 \<Rightarrow> string \<Rightarrow> bool" where
  "server_ip_usable x sv i ip client_id \<longleftrightarrow>
     pool_has (x_globals x) ip \<and> ip \<noteq> sv_tunnel_ip sv \<and> profile_owner_of_ip x ip = None \<and>
     (case server_find_by_ip sv ip of None \<Rightarrow> True | Some user \<Rightarrow> user = i) \<and>
     server_lease_allows (sv_leases sv) ip client_id"

text \<open>A lease of another ID on an otherwise free address, old enough to be given away.\<close>

definition lease_gives :: "srv_ctx \<Rightarrow> server \<Rightarrow> nat \<Rightarrow> u32 \<Rightarrow> nat \<Rightarrow> bool" where
  "lease_gives x sv i a l \<longleftrightarrow>
     a \<noteq> sv_tunnel_ip sv \<and> profile_owner_of_ip x a = None \<and>
     (case server_find_by_ip sv a of None \<Rightarrow> True | Some user \<Rightarrow> user = i) \<and>
     x_now x - l_since (lt_leases (sv_leases sv) ! l) \<ge> SERVER_LEASE_MIN x"

text \<open>The walk over the host addresses: an address to take, or the oldest such lease.\<close>

fun pool_walk :: "srv_ctx \<Rightarrow> server \<Rightarrow> nat \<Rightarrow> u32 list \<Rightarrow> nat option \<Rightarrow> u32 + nat option" where
  "pool_walk x sv i [] oldest = Inr oldest"
| "pool_walk x sv i (host # hosts) oldest =
     (if server_ip_usable x sv i (htonl host) (sc_client_id (client sv i)) then Inl host
      else case server_lease_by_ip (sv_leases sv) (htonl host) of
             None \<Rightarrow> pool_walk x sv i hosts oldest
           | Some l \<Rightarrow>
               if lease_gives x sv i (htonl host) l \<and>
                  (case oldest of None \<Rightarrow> True
                   | Some b \<Rightarrow> l_since (lt_leases (sv_leases sv) ! l) < l_since (lt_leases (sv_leases sv) ! b))
               then pool_walk x sv i hosts (Some l)
               else pool_walk x sv i hosts oldest)"

definition pool_hosts :: "srv_ctx \<Rightarrow> server \<Rightarrow> u32 list" where
  "pool_hosts x sv =
     (let first = pool_first (x_globals x); size = pool_last (x_globals x) - first + 1;
          start = (if sv_pool_next sv \<ge> first \<and> sv_pool_next sv \<le> pool_last (x_globals x)
                   then sv_pool_next sv - first else 0)
      in map (\<lambda>n. first + (start + of_nat n) mod size) [0..<unat size])"

definition pool_known_full :: "srv_ctx \<Rightarrow> server \<Rightarrow> bool" where
  "pool_known_full x sv \<longleftrightarrow> sv_pool_full_at sv = x_now x \<and> sv_pool_full_at sv \<noteq> 0 \<and>
     sv_pool_full_net sv = g_pool_net (x_globals x) \<and> sv_pool_full_prefix sv = g_pool_prefix (x_globals x)"

definition server_auto_pool_take :: "srv_ctx \<Rightarrow> nat \<Rightarrow> server \<Rightarrow> server \<times> u32 option" where
  "server_auto_pool_take x i sv =
     (if pool_known_full x sv then (sv, None)
      else case pool_walk x sv i (pool_hosts x sv) None of
             Inl host \<Rightarrow>
               (sv\<lparr>sv_pool_next := (if host < pool_last (x_globals x) then host + 1 else pool_first (x_globals x))\<rparr>,
                Some (htonl host))
           | Inr (Some l) \<Rightarrow> (sv, Some (l_ip (lt_leases (sv_leases sv) ! l)))
           | Inr None \<Rightarrow>
               (sv\<lparr>sv_pool_full_at := x_now x, sv_pool_full_net := g_pool_net (x_globals x),
                   sv_pool_full_prefix := g_pool_prefix (x_globals x)\<rparr>, None))"

subsection \<open>The CONFIG of an auto client\<close>

text \<open>A new entry: the address leased to its ID, else the one the client asks for, when it is free.\<close>

definition config_hint :: "srv_ctx \<Rightarrow> nat \<Rightarrow> string \<Rightarrow> string \<Rightarrow> server \<Rightarrow> server" where
  "config_hint x i client_id hint_ip sv =
     (if sc_ip (client sv i) \<noteq> 0 then sv
      else case (case server_lease_by_id (sv_leases sv) client_id of
                   Some l \<Rightarrow> (let a = l_ip (lt_leases (sv_leases sv) ! l)
                              in if server_ip_usable x sv i a client_id then Some a else None)
                 | None \<Rightarrow> None) of
             Some a \<Rightarrow> server_set_ip x i a sv
           | None \<Rightarrow>
               (case (if hint_ip = [] then None else inet_pton hint_ip) of
                  Some h \<Rightarrow> if server_ip_usable x sv i h client_id then server_set_ip x i h sv else sv
                | None \<Rightarrow> sv))"

text \<open>The address the client keeps or gets, \<open>None\<close> when there is none.\<close>

definition config_address :: "srv_ctx \<Rightarrow> nat \<Rightarrow> string \<Rightarrow> server \<Rightarrow> server \<times> u32 option" where
  "config_address x i client_id sv =
     (let c = client sv i;
          given = (if sc_pending_ip c \<noteq> 0 then sc_pending_ip c else sc_ip c)
      in if given \<noteq> 0 \<and> server_ip_usable x sv i given client_id then (sv, Some given)
         else if given \<noteq> sc_ip c \<and> sc_ip c \<noteq> 0 \<and> server_ip_usable x sv i (sc_ip c) client_id then (sv, Some (sc_ip c))
         else if server_pool_holding x sv then (sv, None)
         else server_auto_pool_take x i sv)"

definition pool_profile :: "srv_ctx \<Rightarrow> u32 \<Rightarrow> camex_profile \<Rightarrow> camex_profile" where
  "pool_profile x ip p =
     p\<lparr>p_local_cidr := fit 32 (inet_ntop ip @ ''/'' @ dec (g_pool_prefix (x_globals x))),
       p_gateway_ip := fit 16 (ip_text (pool_gateway (x_globals x)))\<rparr>"

definition server_build_config :: "srv_ctx \<Rightarrow> nat \<Rightarrow> string \<Rightarrow> string \<Rightarrow> server \<Rightarrow> server \<times> string option" where
  "server_build_config x i client_id hint_ip sv =
     (let p = config_db_lookup_profile (x_db x) client_id
      in if p_local_cidr p \<noteq> [] \<and> p_gateway_ip p \<noteq> [] then (sv, proto_build_config client_id p CAMEX_CONTROL_MAX)
         else if client_id = [] then (sv, None)
         else case config_address x i client_id (config_hint x i client_id hint_ip sv) of
                (sv1, None) \<Rightarrow> (sv1, None)
              | (sv1, Some ip) \<Rightarrow>
                  (server_assign_ip x i ip sv1, proto_build_config client_id (pool_profile x ip p) CAMEX_CONTROL_MAX))"

subsection \<open>After a reload\<close>

definition unknown_ends :: "srv_ctx \<Rightarrow> server \<Rightarrow> nat \<Rightarrow> server" where
  "unknown_ends x sv i =
     (let c = client sv i
      in if \<not> sc_active c \<or> \<not> sc_auto c \<or> config_db_find_client (x_db x) (sc_client_id c) \<noteq> None then sv
         else server_end_client x i sv)"

definition server_revalidate_unknown_clients :: "srv_ctx \<Rightarrow> server \<Rightarrow> server" where
  "server_revalidate_unknown_clients x sv =
     (if g_deny_unknown_clients (x_globals x) then foldl (unknown_ends x) sv [0..<max_clients sv] else sv)"

text \<open>Another profile's address: \<open>owner\<close> of \<open>ip\<close> is not this ID.\<close>

definition other_profiles :: "srv_ctx \<Rightarrow> u32 \<Rightarrow> string \<Rightarrow> bool" where
  "other_profiles x ip client_id =
     (case profile_owner_of_ip x ip of None \<Rightarrow> False | Some owner \<Rightarrow> \<not> strcaseeq owner client_id)"

definition address_ends :: "srv_ctx \<Rightarrow> server \<Rightarrow> nat \<Rightarrow> server" where
  "address_ends x sv i =
     (let c = client sv i
      in if \<not> sc_active c \<or> \<not> sc_registered c then sv
         else let sv1 = (if sc_pending_ip c \<noteq> 0 \<and> other_profiles x (sc_pending_ip c) (sc_client_id c)
                         then upd i (\<lambda>c. c\<lparr>sc_pending_ip := 0, sc_next := session_wipe (sc_next c)\<rparr>) sv else sv)
              in if \<not> other_profiles x (sc_ip c) (sc_client_id c) \<or> (\<not> sc_auto c \<and> sc_client_id c = []) then sv1
                 else server_drop_entry i sv1)"

definition server_revalidate_profile_addresses :: "srv_ctx \<Rightarrow> server \<Rightarrow> server" where
  "server_revalidate_profile_addresses x sv = foldl (address_ends x) sv [0..<max_clients sv]"

definition key_allowed :: "keystore \<Rightarrow> bytes \<Rightarrow> string \<Rightarrow> bool" where
  "key_allowed ks key client_id \<longleftrightarrow>
     config_ks_contains ks key \<and>
     (if client_id = [] then config_ks_is_global ks key
      else config_ks_key_owned_by ks key client_id \<or>
           (config_ks_owner ks key = [] \<and> \<not> config_ks_has_owner ks client_id))"

definition key_ends :: "srv_ctx \<Rightarrow> server \<Rightarrow> nat \<Rightarrow> server" where
  "key_ends x sv i =
     (let c = client sv i
      in if \<not> sc_active c \<or> \<not> sc_registered c \<or> key_allowed (x_ks x) (sc_psk_key c) (sc_client_id c) then sv
         else server_end_client x i sv)"

definition server_revalidate_keys :: "srv_ctx \<Rightarrow> server \<Rightarrow> server" where
  "server_revalidate_keys x sv = foldl (key_ends x) sv [0..<max_clients sv]"

subsection \<open>Which key may register as which client\<close>

definition profile_ip :: "srv_ctx \<Rightarrow> string \<Rightarrow> u32 option" where
  "profile_ip x client_id =
     (case config_db_find_client (x_db x) client_id of
        None \<Rightarrow> None
      | Some i \<Rightarrow> (let p = db_clients (x_db x) ! i in if sp_has_ip p then Some (sp_ip_be p) else None))"

text \<open>The client ID the handshake may use, \<open>None\<close> when it is rejected.\<close>

definition server_register_allowed :: "srv_ctx \<Rightarrow> bytes \<Rightarrow> string \<Rightarrow> string \<Rightarrow> bool \<Rightarrow> string option" where
  "server_register_allowed x key client_id local_ip auto =
     (let owner = config_ks_owner (x_ks x) key;
          global_key = (owner = []);
          cid = (if client_id = [] \<and> \<not> global_key then fit CAMEX_CLIENT_ID_LEN owner else client_id)
      in if cid \<noteq> [] \<and> \<not> config_ks_key_owned_by (x_ks x) key cid \<and>
            (\<not> global_key \<or> config_ks_has_owner (x_ks x) cid) then None
         else if auto then Some cid
         else case inet_pton local_ip of
                None \<Rightarrow> None
              | Some claimed \<Rightarrow>
                  if cid \<noteq> [] \<and> (case profile_ip x cid of None \<Rightarrow> False | Some want \<Rightarrow> want \<noteq> claimed) then None
                  else case profile_owner_of_ip x claimed of
                         None \<Rightarrow> Some cid
                       | Some ip_owner \<Rightarrow>
                           if \<not> strcaseeq ip_owner cid \<and> config_ks_has_owner (x_ks x) ip_owner then None
                           else Some cid)"


subsection \<open>The table stays sound\<close>

lemma fold_ok:
  assumes "\<And>s i. server_ok s \<Longrightarrow> i < max_clients s \<Longrightarrow> server_ok (step s i) \<and> max_clients (step s i) = max_clients s"
    and "server_ok sv"
  shows "server_ok (foldl step sv [0..<max_clients sv]) \<and> max_clients (foldl step sv [0..<max_clients sv]) = max_clients sv"
proof -
  have "server_ok (foldl step s is) \<and> max_clients (foldl step s is) = max_clients s"
    if "server_ok s" "\<forall>i\<in>set is. i < max_clients s" for s "is"
    using that by (induction "is" arbitrary: s) (simp_all add: assms(1))
  then show ?thesis
    using assms(2) by simp
qed

lemma fold_length:
  "(\<And>s k. max_clients (step s k) = max_clients s) \<Longrightarrow> max_clients (foldl step s ks) = max_clients s"
  by (induction ks arbitrary: s) simp_all

text \<open>Each slot is looked at once, and only its own entry changes.\<close>

lemma fold_exact:
  assumes step: "\<And>s k. max_clients (step s k) = max_clients s"
    and one: "\<And>s k j. j < max_clients s \<Longrightarrow> client (step s k) j = (if j = k then f (client s k) else client s j)"
    and i: "i < max_clients sv"
  shows "client (foldl step sv [0..<max_clients sv]) i = f (client sv i)"
proof -
  have "client (foldl step s ks) i = (if i \<in> set ks then f (client s i) else client s i)"
    if "i < max_clients s" "distinct ks" for s ks
    using that by (induction ks arbitrary: s) (auto simp: step one)
  then show ?thesis
    using i by simp
qed

lemma auto_pool_take_props:
  assumes "server_auto_pool_take x i sv = (sv', r)"
  shows "sv_clients sv' = sv_clients sv" "sv_leases sv' = sv_leases sv" "sv_idx_ok sv' = sv_idx_ok sv"
    "idx_of w sv' = idx_of w sv" "server_ok sv' = server_ok sv" "srv_idx_inv sv' = srv_idx_inv sv"
    "sv_tunnel_ip sv' = sv_tunnel_ip sv" "sv_net sv' = sv_net sv" "sv_sent sv' = sv_sent sv"
  using assms by (auto simp: server_auto_pool_take_def split: if_splits sum.splits option.splits)

lemma config_hint_ok:
  assumes ok: "server_ok sv" and i: "i < max_clients sv" "sc_active (client sv i)"
  shows "server_ok (config_hint x i w hint sv)" and "sv_leases (config_hint x i w hint sv) = sv_leases sv"
    and "\<exists>ip. sv_clients (config_hint x i w hint sv) = (sv_clients sv)[i := client sv i\<lparr>sc_ip := ip\<rparr>]"
    and "sv_tunnel_ip (config_hint x i w hint sv) = sv_tunnel_ip sv"
proof -
  let ?Q = "\<lambda>s. server_ok s \<and> sv_leases s = sv_leases sv \<and> sv_tunnel_ip s = sv_tunnel_ip sv \<and>
      (\<exists>ip. sv_clients s = (sv_clients sv)[i := client sv i\<lparr>sc_ip := ip\<rparr>])"
  have same: "?Q sv"
  proof -
    have "sv_clients sv = (sv_clients sv)[i := client sv i\<lparr>sc_ip := sc_ip (client sv i)\<rparr>]"
      by simp
    then show ?thesis
      using ok by blast
  qed
  have new: "?Q (server_set_ip x i ip sv)" for ip
  proof -
    have e: "entry_set i (\<lambda>c. c\<lparr>sc_ip := ip\<rparr>) sv (server_set_ip x i ip sv)"
      by (rule set_ip_entry [OF server_okD(1) [OF ok] i])
    have "server_ok (server_set_ip x i ip sv)"
      by (rule entry_set_ok [OF ok e]) (use server_okD(3) [OF ok i(1)] in simp)
    then show ?thesis
      using entry_setD(2,3,7) [OF e] by auto
  qed
  have "?Q (config_hint x i w hint sv)"
    unfolding config_hint_def Let_def using same new by (simp split: option.split)
  then show "server_ok (config_hint x i w hint sv)" and "sv_leases (config_hint x i w hint sv) = sv_leases sv"
    and "\<exists>ip. sv_clients (config_hint x i w hint sv) = (sv_clients sv)[i := client sv i\<lparr>sc_ip := ip\<rparr>]"
    and "sv_tunnel_ip (config_hint x i w hint sv) = sv_tunnel_ip sv"
    by blast+
qed

lemma config_address_props:
  assumes "config_address x i w sv = (sv', r)"
  shows "sv_clients sv' = sv_clients sv" "sv_leases sv' = sv_leases sv" "server_ok sv' = server_ok sv"
    "sv_tunnel_ip sv' = sv_tunnel_ip sv" "srv_idx_inv sv' = srv_idx_inv sv" "sv_net sv' = sv_net sv" "sv_sent sv' = sv_sent sv"
  using assms auto_pool_take_props [of x i sv sv' r] unfolding config_address_def Let_def
  by (auto split: if_splits)

text \<open>The handshake changes only the addresses of its entry.\<close>

definition addr_change :: "server_client \<Rightarrow> server_client \<Rightarrow> bool" where
  "addr_change c c' \<longleftrightarrow> (\<exists>ip p. c' = c\<lparr>sc_ip := ip, sc_pending_ip := p\<rparr>)"

lemma addr_changeI: "addr_change c (c\<lparr>sc_ip := ip, sc_pending_ip := p\<rparr>)"
  unfolding addr_change_def by (intro exI) (rule refl)

lemma addr_change_refl [simp]: "addr_change c c"
  using addr_changeI [where c = c and ip = "sc_ip c" and p = "sc_pending_ip c"] by simp

lemma addr_change_trans: "addr_change a b \<Longrightarrow> addr_change b c \<Longrightarrow> addr_change a c"
  by (clarsimp simp: addr_change_def) (intro exI, rule refl)

lemma addr_change_ip: "addr_change c (c\<lparr>sc_ip := ip\<rparr>)" "addr_change c (assigned ip c)"
proof -
  have "addr_change c (c\<lparr>sc_pending_ip := 0, sc_ip := ip\<rparr>)"
    by (cases c) (simp add: addr_change_def)
  then show "addr_change c (c\<lparr>sc_ip := ip\<rparr>)" "addr_change c (assigned ip c)"
    using addr_changeI [where c = c and ip = ip and p = "sc_pending_ip c"]
    addr_changeI [where c = c and ip = "sc_ip c" and p = ip]
    by (simp_all add: assigned_def)
qed

lemma addr_change_fields:
  assumes "addr_change c c'"
  shows "sc_client_id c' = sc_client_id c" "sc_active c' = sc_active c" "sc_cur c' = sc_cur c" "sc_next c' = sc_next c"
    "sc_prev c' = sc_prev c" "sc_tcp_fd c' = sc_tcp_fd c" "sc_registered c' = sc_registered c" "sc_auto c' = sc_auto c"
    "sc_psk_key c' = sc_psk_key c" "sc_addr c' = sc_addr c"
  using assms by (auto simp: addr_change_def)

lemma assign_ip_ok:
  assumes ok: "server_ok sv" and i: "i < max_clients sv" "sc_active (client sv i)"
  shows "server_ok (server_assign_ip x i ip sv)" and "sv_leases (server_assign_ip x i ip sv) = sv_leases sv"
    and "sv_clients (server_assign_ip x i ip sv) = (sv_clients sv)[i := assigned ip (client sv i)]"
    and "sv_tunnel_ip (server_assign_ip x i ip sv) = sv_tunnel_ip sv"
proof -
  have e: "entry_set i (assigned ip) sv (server_assign_ip x i ip sv)"
    by (rule assign_ip_entry [OF server_okD(1) [OF ok] i])
  show "server_ok (server_assign_ip x i ip sv)"
    by (rule entry_set_ok [OF ok e]) (use server_okD(3) [OF ok i(1)] addr_change_fields(1) [OF addr_change_ip(2)] in simp)
  show "sv_leases (server_assign_ip x i ip sv) = sv_leases sv"
    "sv_clients (server_assign_ip x i ip sv) = (sv_clients sv)[i := assigned ip (client sv i)]"
    "sv_tunnel_ip (server_assign_ip x i ip sv) = sv_tunnel_ip sv"
    using entry_setD [OF e] by simp_all
qed

lemma build_config_ok:
  assumes ok: "server_ok sv" and i: "i < max_clients sv" "sc_active (client sv i)"
    and b: "server_build_config x i w hint sv = (sv', r)"
  shows "server_ok sv'" and "sv_leases sv' = sv_leases sv"
    and "\<exists>c. sv_clients sv' = (sv_clients sv)[i := c] \<and> addr_change (client sv i) c"
    and "sv_tunnel_ip sv' = sv_tunnel_ip sv"
proof -
  let ?Q = "\<lambda>s. server_ok s \<and> sv_leases s = sv_leases sv \<and> sv_tunnel_ip s = sv_tunnel_ip sv \<and>
      (\<exists>c. sv_clients s = (sv_clients sv)[i := c] \<and> addr_change (client sv i) c)"
  let ?h = "config_hint x i w hint sv"
  obtain ip where h: "server_ok ?h" "sv_leases ?h = sv_leases sv" "sv_tunnel_ip ?h = sv_tunnel_ip sv"
      "sv_clients ?h = (sv_clients sv)[i := client sv i\<lparr>sc_ip := ip\<rparr>]"
    using config_hint_ok [OF ok i] by blast
  obtain s1 a where a: "config_address x i w ?h = (s1, a)"
    by fastforce
  note A = config_address_props [OF a]
  have s1: "?Q s1"
    using h A addr_change_ip(1) by auto
  have ii: "i < max_clients s1" "sc_active (client s1 i)"
    using h A i by simp_all
  have as: "?Q (server_assign_ip x i y s1)" for y
    using assign_ip_ok [of s1 i x y] s1 ii addr_change_trans [OF addr_change_ip(1) addr_change_ip(2)] h(4) A(1,4) i
    by auto
  have same: "?Q sv"
    using ok by (auto intro: exI [of _ "client sv i"])
  have "?Q sv'"
    using b same s1 as a unfolding server_build_config_def Let_def
    by (auto split: if_splits option.splits)
  then show "server_ok sv'" and "sv_leases sv' = sv_leases sv"
    and "\<exists>c. sv_clients sv' = (sv_clients sv)[i := c] \<and> addr_change (client sv i) c"
    and "sv_tunnel_ip sv' = sv_tunnel_ip sv"
    by blast+
qed

lemma unknown_ends_ok:
  assumes "server_ok s" "i < max_clients s"
  shows "server_ok (unknown_ends x s i) \<and> max_clients (unknown_ends x s i) = max_clients s"
  using assms by (simp add: unknown_ends_def Let_def end_client_props)

lemma key_ends_ok:
  assumes "server_ok s" "i < max_clients s"
  shows "server_ok (key_ends x s i) \<and> max_clients (key_ends x s i) = max_clients s"
  using assms by (simp add: key_ends_def Let_def end_client_props)

lemma withdraw_ok:
  assumes "server_ok s"
  shows "server_ok (upd i (\<lambda>c. c\<lparr>sc_pending_ip := 0, sc_next := session_wipe (sc_next c)\<rparr>) s)"
  by (rule upd_ok [OF assms]) (use server_okD(3) [OF assms] in \<open>auto simp: client_keys_def\<close>)

lemma address_ends_ok:
  assumes "server_ok s"
  shows "server_ok (address_ends x s i) \<and> max_clients (address_ends x s i) = max_clients s"
  using assms withdraw_ok [OF assms] by (simp add: address_ends_def Let_def drop_entry_props)

lemma revalidate_ok:
  assumes "server_ok sv"
  shows "server_ok (server_revalidate_keys x sv) \<and> max_clients (server_revalidate_keys x sv) = max_clients sv"
    and "server_ok (server_revalidate_unknown_clients x sv) \<and>
      max_clients (server_revalidate_unknown_clients x sv) = max_clients sv"
    and "server_ok (server_revalidate_profile_addresses x sv) \<and>
      max_clients (server_revalidate_profile_addresses x sv) = max_clients sv"
  using fold_ok [OF key_ends_ok assms] fold_ok [OF unknown_ends_ok assms] fold_ok [OF address_ends_ok assms] assms
  by (simp_all add: server_revalidate_keys_def server_revalidate_unknown_clients_def server_revalidate_profile_addresses_def)

subsection \<open>What the pool gives\<close>

lemma mod_shift: "a < n \<Longrightarrow> d < n \<Longrightarrow> (a + (d + n - a) mod n) mod (n :: nat) = d"
  by (simp add: mod_simps)

lemma unat_small: "n < 2 ^ 32 \<Longrightarrow> unat (of_nat n :: u32) = n"
  by (simp add: unat_of_nat take_bit_nat_eq_self)

lemma unat_two_pow: "k < 32 \<Longrightarrow> unat ((2 :: u32) ^ k) = 2 ^ k"
  using unat_small [of "2 ^ k"] power_strict_increasing [of k 32 "2 :: nat"] by simp

lemma pool_room:
  assumes "pool_wf net p"
  shows "unat net + 2 ^ (32 - p) \<le> 2 ^ 32" and "4 \<le> (2 :: nat) ^ (32 - p)" and "(2 :: nat) ^ (32 - p) \<le> 2 ^ 24"
proof -
  have p: "8 \<le> p" "p \<le> 30"
    using assms by (simp_all add: pool_wf_def CAMEX_AUTO_POOL_MIN_PREFIX_def CAMEX_AUTO_POOL_MAX_PREFIX_def)
  let ?k = "32 - p"
  have "(0xFFFFFFFF :: u32) = - 1"
    by simp
  then have "NOT (push_bit ?k 0xFFFFFFFF) = (mask ?k :: u32)"
    by (simp only: push_bit_minus_one_eq_not_mask bit.double_compl)
  then have "take_bit ?k net = 0"
    using assms by (simp add: pool_wf_def take_bit_eq_mask)
  then have "unat (net mod 2 ^ ?k) = 0"
    by (simp add: take_bit_eq_mod)
  then have "unat net mod 2 ^ ?k = 0"
    using p unat_two_pow [of ?k] by (simp add: unat_mod)
  then obtain q where q: "unat net = 2 ^ ?k * q"
    by auto
  have "unat net < 2 ^ 32"
    using unsigned_less [of net] by simp
  then have "2 ^ ?k * q < 2 ^ ?k * 2 ^ p"
    using q p by (simp flip: power_add)
  then have "q + 1 \<le> 2 ^ p"
    by simp
  then have "2 ^ ?k * (q + 1) \<le> 2 ^ ?k * (2 ^ p :: nat)"
    by (rule mult_le_mono2)
  then show "unat net + 2 ^ ?k \<le> 2 ^ 32"
    using q p by (simp add: algebra_simps flip: power_add)
  show "4 \<le> (2 :: nat) ^ ?k"
    using p power_increasing [of 2 ?k "2 :: nat"] by simp
  show "(2 :: nat) ^ ?k \<le> 2 ^ 24"
    using p by (intro power_increasing) simp_all
qed

lemma pool_bounds:
  assumes "pool_wf (g_pool_net g) (g_pool_prefix g)"
  shows "unat (pool_first g) = unat (g_pool_net g) + 2"
    and "unat (pool_last g) = unat (g_pool_net g) + 2 ^ (32 - g_pool_prefix g) - 2"
    and "unat (pool_last g - pool_first g + 1) = 2 ^ (32 - g_pool_prefix g) - 3"
proof -
  let ?n = "unat (g_pool_net g)" and ?s = "(2 :: nat) ^ (32 - g_pool_prefix g)"
  note R = pool_room [OF assms]
  have size: "unat (pool_size g) = ?s"
  proof -
    have "pool_size g = of_nat ?s"
      by (simp add: pool_size_def push_bit_eq_mult)
    then show ?thesis
      using R(3) by (simp add: unat_small del: of_nat_power)
  qed
  have net: "g_pool_net g = of_nat ?n" and sz: "pool_size g = of_nat ?s"
    by (simp_all flip: size del: of_nat_power)
  have f: "pool_first g = of_nat (?n + 2)"
    unfolding pool_first_def by (subst net) simp
  have l: "pool_last g = of_nat (?n + ?s - 2)"
    unfolding pool_last_def using R(2) by (subst net, subst sz) (simp add: of_nat_diff)
  show "unat (pool_first g) = ?n + 2"
    unfolding f using R(1,2) by (intro unat_small) simp
  show "unat (pool_last g) = ?n + ?s - 2"
    unfolding l using R(1,2) by (intro unat_small) simp
  have "pool_last g - pool_first g + 1 = of_nat (?s - 3)"
    unfolding f l using R(2) by (simp add: of_nat_diff)
  then show "unat (pool_last g - pool_first g + 1) = ?s - 3"
    using R(3) by (simp add: unat_small)
qed

lemma pool_hosts_set:
  assumes wf: "pool_wf (g_pool_net (x_globals x)) (g_pool_prefix (x_globals x))"
  shows "set (pool_hosts x sv) = {h. pool_first (x_globals x) \<le> h \<and> h \<le> pool_last (x_globals x)}"
proof -
  let ?g = "x_globals x" and ?f = "pool_first (x_globals x)" and ?l = "pool_last (x_globals x)"
  let ?S = "(2 :: nat) ^ (32 - g_pool_prefix ?g) - 3" and ?size = "?l - ?f + 1"
  note R = pool_room [OF wf] and B = pool_bounds [OF wf]
  define start where "start = (if sv_pool_next sv \<ge> ?f \<and> sv_pool_next sv \<le> ?l then sv_pool_next sv - ?f else 0)"
  have start: "unat start < ?S"
  proof (cases "sv_pool_next sv \<ge> ?f \<and> sv_pool_next sv \<le> ?l")
    case True
    then have "unat start = unat (sv_pool_next sv) - unat ?f" "unat ?f \<le> unat (sv_pool_next sv)" "unat (sv_pool_next sv) \<le> unat ?l"
      by (simp_all add: start_def unat_sub word_le_nat_alt)
    then show ?thesis
      using B(1,2) R(1,2) by linarith
  next
    case False
    have "start = 0"
      unfolding start_def by (rule if_not_P [OF False])
    then show ?thesis
      using R(2) by simp
  qed
  have one: "unat (?f + (start + of_nat n) mod ?size) = unat ?f + (unat start + n) mod ?S" if "n < ?S" for n
  proof -
    have "unat (of_nat n :: u32) = n"
      using that R(3) by (intro unat_small) simp
    then have "unat (start + of_nat n) = unat start + n"
      using start that R(3) by (subst unat_add_lem [THEN iffD1]) simp_all
    then have m: "unat ((start + of_nat n) mod ?size) = (unat start + n) mod ?S"
      by (simp add: unat_mod B(3))
    have "(unat start + n) mod ?S < ?S"
      using R(2) by (intro mod_less_divisor) simp
    then have "unat ?f + unat ((start + of_nat n) mod ?size) < 2 ^ 32"
      unfolding m using B(1) R(1,2) by linarith
    then show ?thesis
      using m by (subst unat_add_lem [THEN iffD1]) simp_all
  qed
  have hosts: "pool_hosts x sv = map (\<lambda>n. ?f + (start + of_nat n) mod ?size) [0..<?S]"
    by (simp add: pool_hosts_def Let_def B(3) start_def)
  show ?thesis
  proof (rule set_eqI)
    fix h :: u32
    have "h = ?f + (start + of_nat n) mod ?size \<longleftrightarrow> unat h = unat ?f + (unat start + n) mod ?S" if "n < ?S" for n
      unfolding word_unat_eq_iff one [OF that] by (rule refl)
    moreover have "h \<in> set (pool_hosts x sv) \<longleftrightarrow> (\<exists>n<?S. h = ?f + (start + of_nat n) mod ?size)"
      unfolding hosts set_map set_upt by (auto simp: image_iff)
    ultimately have "h \<in> set (pool_hosts x sv) \<longleftrightarrow> (\<exists>n<?S. unat h = unat ?f + (unat start + n) mod ?S)"
      by blast
    also have "\<dots> \<longleftrightarrow> unat ?f \<le> unat h \<and> unat h - unat ?f < ?S"
    proof
      assume "\<exists>n<?S. unat h = unat ?f + (unat start + n) mod ?S"
      then show "unat ?f \<le> unat h \<and> unat h - unat ?f < ?S"
        using R(2) by (auto intro!: mod_less_divisor)
    next
      assume h: "unat ?f \<le> unat h \<and> unat h - unat ?f < ?S"
      let ?d = "unat h - unat ?f"
      have "(unat start + (?d + ?S - unat start) mod ?S) mod ?S = ?d"
        by (rule mod_shift [OF start]) (use h in blast)
      then have "unat h = unat ?f + (unat start + (?d + ?S - unat start) mod ?S) mod ?S"
        using h by linarith
      moreover have "(?d + ?S - unat start) mod ?S < ?S"
        using R(2) by (intro mod_less_divisor) simp
      ultimately show "\<exists>n<?S. unat h = unat ?f + (unat start + n) mod ?S"
        by blast
    qed
    also have "\<dots> \<longleftrightarrow> ?f \<le> h \<and> h \<le> ?l"
      unfolding word_le_nat_alt using B(1,2) R(1,2) by linarith
    finally show "h \<in> set (pool_hosts x sv) \<longleftrightarrow> h \<in> {h. ?f \<le> h \<and> h \<le> ?l}"
      by simp
  qed
qed

lemma pool_walk_props:
  "pool_walk x sv i hosts oldest = r \<Longrightarrow> (case r of
     Inl h \<Rightarrow> h \<in> set hosts \<and> server_ip_usable x sv i (htonl h) (sc_client_id (client sv i))
   | Inr b \<Rightarrow> (\<forall>h\<in>set hosts. \<not> server_ip_usable x sv i (htonl h) (sc_client_id (client sv i))) \<and>
       (case b of
          None \<Rightarrow> oldest = None \<and> (\<forall>h\<in>set hosts. \<forall>l. server_lease_by_ip (sv_leases sv) (htonl h) = Some l \<longrightarrow>
              \<not> lease_gives x sv i (htonl h) l)
        | Some l \<Rightarrow> oldest = Some l \<or>
            (\<exists>h\<in>set hosts. server_lease_by_ip (sv_leases sv) (htonl h) = Some l \<and> lease_gives x sv i (htonl h) l)))"
proof (induction hosts arbitrary: oldest)
  case Nil
  then show ?case
    by (auto split: option.split)
next
  case (Cons h hosts)
  let ?u = "server_ip_usable x sv i (htonl h) (sc_client_id (client sv i))"
  show ?case
  proof (cases ?u)
    case True
    then show ?thesis
      using Cons.prems by auto
  next
    case no: False
    consider (skip) "pool_walk x sv i hosts oldest = r"
        "\<And>l. server_lease_by_ip (sv_leases sv) (htonl h) = Some l \<Longrightarrow> lease_gives x sv i (htonl h) l \<Longrightarrow> oldest \<noteq> None"
      | (keep) l where "pool_walk x sv i hosts (Some l) = r" "server_lease_by_ip (sv_leases sv) (htonl h) = Some l"
          "lease_gives x sv i (htonl h) l"
      using Cons.prems no by (fastforce split: option.splits if_splits)
    then show ?thesis
    proof cases
      case skip
      then show ?thesis
        using Cons.IH [OF skip(1)] no by (auto split: sum.splits option.splits)
    next
      case keep
      then show ?thesis
        using Cons.IH [OF keep(1)] no by (auto split: sum.splits option.splits)
    qed
  qed
qed

lemma ks_owner_global:
  assumes ok: "ks_ok ks" and key: "config_ks_contains ks key" and o: "config_ks_owner ks key = []"
  shows "config_ks_is_global ks key"
proof -
  have keys: "ks_keys_indexed ks (length (ks_entries ks))"
    using ok by (simp add: ks_ok_def)
  obtain i where i: "ks_find_key ks key None None = Some i"
    using key by (auto simp: config_ks_contains_def)
  then have "i < length (ks_entries ks)" and m: "ks_key_match ks key None None i"
    using ks_find_key_scan [OF keys, of key] scan_firstD by fastforce+
  have "kse_owner (ks_entries ks ! i) = []"
    using o i by (simp add: config_ks_owner_def)
  then have m': "ks_key_match ks key (Some []) None i"
    using m by (simp add: ks_key_match_def strcaseeq_def)
  have inv: "slotidx_inv (ks_by_key ks)"
    using keys by (simp add: ks_keys_indexed_def)
  have "(slotidx_hash_bytes (take 32 key), i) \<in> slotidx_entries (ks_by_key ks)"
    using slotidx_lookup_Some [OF inv i [unfolded ks_find_key_def]] by blast
  then have "ks_find_key ks key (Some []) None \<noteq> None"
    using m' slotidx_lookup_None [OF inv] unfolding ks_find_key_def by blast
  then show ?thesis
    by (simp add: config_ks_is_global_def)
qed

subsection \<open>Properties\<close>


lemma demo_free:
  assumes "server_ok sv" and "sv_clients sv = sv_clients demo_client" and "sv_leases sv = sv_leases demo_server" and "a \<noteq> 0"
  shows "server_lease_by_ip (sv_leases sv) a = None"
    and "case server_find_by_ip sv demo_ip of None \<Rightarrow> True | Some user \<Rightarrow> user = 0"
proof -
  show "server_lease_by_ip (sv_leases sv) a = None"
  proof (rule ccontr)
    assume "server_lease_by_ip (sv_leases sv) a \<noteq> None"
    then obtain k where k: "server_lease_by_ip (sv_leases sv) a = Some k"
      by blast
    then have "k < 2" "l_ip ([lease_zero, lease_zero] ! k) = a"
      using by_ip_Some_iff [OF server_okD(2) [OF assms(1)]] assms(3) demo_server_ok(3) by auto
    then show False
      using assms(4) by (auto simp: less_2_cases_iff)
  qed
  show "case server_find_by_ip sv demo_ip of None \<Rightarrow> True | Some user \<Rightarrow> user = 0"
  proof (cases "server_find_by_ip sv demo_ip")
    case (Some u)
    have "match_ip sv demo_ip u"
      by (rule find_by_ip_Some(1) [OF server_okD(1) [OF assms(1)] Some])
    then have "u < 2" "sc_active (client sv u)"
      using assms(2) demo_client_ok(2) by (simp_all add: match_ip_def)
    then have "u = 0"
      using assms(2) demo_client_ok(2) less_2_cases_iff [of u] by auto
    then show ?thesis
      using Some by simp
  qed simp
qed


text \<open>The pool is full only when it is: an address is refused only when every client address of the
  pool is the server's, a profile's, held by a live client or leased to another ID that may still
  come back.\<close>

lemma pool_full_only_when_full:
  assumes ok: "server_ok sv" and wf: "pool_wf (g_pool_net (x_globals x)) (g_pool_prefix (x_globals x))"
    and t: "server_auto_pool_take x i sv = (sv', None)" and first: "\<not> pool_known_full x sv"
    and ip: "pool_has (x_globals x) ip"
  shows "ip = sv_tunnel_ip sv \<or> profile_owner_of_ip x ip \<noteq> None \<or> (\<exists>j. j \<noteq> i \<and> match_ip sv ip j) \<or>
    (\<exists>l. server_lease_by_ip (sv_leases sv) ip = Some l \<and>
       \<not> strcaseeq (l_id (lt_leases (sv_leases sv) ! l)) (sc_client_id (client sv i)) \<and>
       x_now x - l_since (lt_leases (sv_leases sv) ! l) < SERVER_LEASE_MIN x)"
proof -
  have "pool_walk x sv i (pool_hosts x sv) None = Inr None"
    using t first by (auto simp: server_auto_pool_take_def split: if_splits sum.splits option.splits)
  note W = pool_walk_props [OF this]
  have h: "htonl ip \<in> set (pool_hosts x sv)"
    using ip pool_hosts_set [OF wf] by (simp add: pool_has_def)
  have no: "\<not> server_ip_usable x sv i ip (sc_client_id (client sv i))"
    and no_l: "\<And>l. server_lease_by_ip (sv_leases sv) ip = Some l \<Longrightarrow> \<not> lease_gives x sv i ip l"
    using W h by auto
  have "\<exists>j. j \<noteq> i \<and> match_ip sv ip j" if "\<not> (case server_find_by_ip sv ip of None \<Rightarrow> True | Some user \<Rightarrow> user = i)"
    using that find_by_ip_Some(1) [OF server_okD(1) [OF ok]] by (cases "server_find_by_ip sv ip") auto
  then show ?thesis
    using no no_l ip by (auto simp: server_ip_usable_def lease_gives_def server_lease_allows_def not_le split: option.splits)
qed

text \<open>A pool of one address, which is the server's own.\<close>

definition small_ctx :: srv_ctx where
  "small_ctx = demo_ctx\<lparr>x_db := (x_db demo_ctx)\<lparr>db_globals := (x_globals demo_ctx)\<lparr>g_pool_prefix := 30\<rparr>\<rparr>\<rparr>"

definition small_server :: server where
  "small_server = demo_client\<lparr>sv_tunnel_ip := demo_ip\<rparr>
     \<lparr>sv_pool_full_at := 0, sv_pool_full_net := 0, sv_pool_full_prefix := 0\<rparr>"


definition stays :: "srv_ctx \<Rightarrow> server_client \<Rightarrow> bool" where
  "stays x c \<longleftrightarrow>
     (sc_registered c \<longrightarrow> key_allowed (x_ks x) (sc_psk_key c) (sc_client_id c)) \<and>
     (g_deny_unknown_clients (x_globals x) \<and> sc_auto c \<longrightarrow> config_db_find_client (x_db x) (sc_client_id c) \<noteq> None) \<and>
     (sc_registered c \<longrightarrow> \<not> other_profiles x (sc_ip c) (sc_client_id c) \<or> \<not> sc_auto c \<and> sc_client_id c = [])"

definition without_offer :: "srv_ctx \<Rightarrow> server_client \<Rightarrow> server_client" where
  "without_offer x c =
     (if sc_registered c \<and> sc_pending_ip c \<noteq> 0 \<and> other_profiles x (sc_pending_ip c) (sc_client_id c)
      then c\<lparr>sc_pending_ip := 0, sc_next := session_wipe (sc_next c)\<rparr> else c)"

text \<open>A reload ends exactly the clients the new keys, profiles and addresses do not allow, and no other entry changes.\<close>

lemma reload_ends:
  assumes "i < max_clients sv"
  shows "client (server_revalidate_profile_addresses x (server_revalidate_unknown_clients x
      (server_revalidate_keys x sv))) i =
    (if \<not> sc_active (client sv i) then client sv i
     else if stays x (client sv i) then without_offer x (client sv i) else client_wiped)"
proof -
  let ?k = "\<lambda>c. if sc_active c \<and> sc_registered c \<and> \<not> key_allowed (x_ks x) (sc_psk_key c) (sc_client_id c) then client_wiped else c"
  let ?u = "\<lambda>c. if sc_active c \<and> sc_auto c \<and> config_db_find_client (x_db x) (sc_client_id c) = None then client_wiped else c"
  let ?a = "\<lambda>c. if \<not> sc_active c \<or> \<not> sc_registered c then c
      else if other_profiles x (sc_ip c) (sc_client_id c) \<and> \<not> (\<not> sc_auto c \<and> sc_client_id c = []) then client_wiped
      else without_offer x c"
  have k: "client (server_revalidate_keys x s) i = ?k (client s i)" "max_clients (server_revalidate_keys x s) = max_clients s"
    if "i < max_clients s" for s
  proof -
    show "client (server_revalidate_keys x s) i = ?k (client s i)"
      unfolding server_revalidate_keys_def
      by (rule fold_exact [OF _ _ that]) (auto simp: key_ends_def Let_def end_client_props nth_update)
    show "max_clients (server_revalidate_keys x s) = max_clients s"
      unfolding server_revalidate_keys_def by (rule fold_length) (simp add: key_ends_def Let_def end_client_props)
  qed
  have u: "client (server_revalidate_unknown_clients x s) i =
      (if g_deny_unknown_clients (x_globals x) then ?u (client s i) else client s i)"
    "max_clients (server_revalidate_unknown_clients x s) = max_clients s" if "i < max_clients s" for s
  proof -
    have "client (foldl (unknown_ends x) s [0..<max_clients s]) i = ?u (client s i)"
      by (rule fold_exact [OF _ _ that]) (auto simp: unknown_ends_def Let_def end_client_props nth_update)
    moreover have "max_clients (foldl (unknown_ends x) s [0..<max_clients s]) = max_clients s"
      by (rule fold_length) (simp add: unknown_ends_def Let_def end_client_props)
    ultimately show "client (server_revalidate_unknown_clients x s) i =
      (if g_deny_unknown_clients (x_globals x) then ?u (client s i) else client s i)"
      "max_clients (server_revalidate_unknown_clients x s) = max_clients s"
      by (simp_all add: server_revalidate_unknown_clients_def)
  qed
  have a: "client (server_revalidate_profile_addresses x s) i = ?a (client s i)" if "i < max_clients s" for s
    unfolding server_revalidate_profile_addresses_def
    by (rule fold_exact [OF _ _ that]) (auto simp: address_ends_def Let_def drop_entry_props nth_update without_offer_def)
  let ?c = "client sv i"
  have "client (server_revalidate_profile_addresses x (server_revalidate_unknown_clients x (server_revalidate_keys x sv))) i
      = ?a (if g_deny_unknown_clients (x_globals x) then ?u (?k ?c) else ?k ?c)"
    using assms by (simp only: a u k)
  moreover consider "\<not> sc_active ?c" | "sc_active ?c" "\<not> stays x ?c" | "sc_active ?c" "stays x ?c"
    by blast
  then have "?a (if g_deny_unknown_clients (x_globals x) then ?u (?k ?c) else ?k ?c) =
    (if \<not> sc_active ?c then ?c else if stays x ?c then without_offer x ?c else client_wiped)"
    by cases (simp_all add: stays_def, auto simp: without_offer_def)
  ultimately show ?thesis
    by simp
qed

lemma register_allowed:
  assumes ks: "ks_ok (x_ks x)" and key: "config_ks_contains (x_ks x) key"
    and r: "server_register_allowed x key w ip auto = Some cid"
  shows "(w \<noteq> [] \<longrightarrow> cid = w) \<and> key_allowed (x_ks x) key cid \<and>
    (\<not> auto \<longrightarrow> (\<exists>a. inet_pton ip = Some a \<and> (\<forall>p. cid \<noteq> [] \<and> profile_ip x cid = Some p \<longrightarrow> p = a) \<and>
       (\<forall>own. profile_owner_of_ip x a = Some own \<and> config_ks_has_owner (x_ks x) own \<longrightarrow> strcaseeq own cid)))"
proof -
  let ?owner = "config_ks_owner (x_ks x) key"
  let ?cid = "if w = [] \<and> ?owner \<noteq> [] then fit CAMEX_CLIENT_ID_LEN ?owner else w"
  have cid: "cid = ?cid" and own: "cid \<noteq> [] \<longrightarrow> config_ks_key_owned_by (x_ks x) key cid \<or>
      ?owner = [] \<and> \<not> config_ks_has_owner (x_ks x) cid"
    and man: "\<not> auto \<longrightarrow> (\<exists>a. inet_pton ip = Some a \<and> (\<forall>p. cid \<noteq> [] \<and> profile_ip x cid = Some p \<longrightarrow> p = a) \<and>
       (\<forall>own. profile_owner_of_ip x a = Some own \<and> config_ks_has_owner (x_ks x) own \<longrightarrow> strcaseeq own cid))"
    using r unfolding server_register_allowed_def Let_def by (auto split: if_splits option.splits)
  have "config_ks_is_global (x_ks x) key" if "cid = []"
  proof -
    have "?owner = []"
    proof (rule ccontr)
      assume "?owner \<noteq> []"
      then have "fit CAMEX_CLIENT_ID_LEN ?owner = []"
        using cid that by (auto split: if_splits)
      then show False
        using \<open>?owner \<noteq> []\<close> by (simp add: fit_def CAMEX_CLIENT_ID_LEN_def)
    qed
    then show ?thesis
      by (rule ks_owner_global [OF ks key])
  qed
  then show ?thesis
    using own man key cid by (auto simp: key_allowed_def)
qed

text \<open>A handshake that authenticated with a key may use only a client ID that owns the key, or, with
  the global key, one without a key of its own; a manual one claims its profile's address and
  never one whose profile has a key of its own; and the session it makes is one that the next
  reload keeps while the keystore stays the same.\<close>

lemma register_allowed_safe:
  assumes ks: "ks_ok (x_ks x)" and key: "config_ks_contains (x_ks x) key"
    and r: "server_register_allowed x key w ip auto = Some cid"
  shows "(w \<noteq> [] \<longrightarrow> cid = w) \<and> key_allowed (x_ks x) key cid \<and>
    (\<not> auto \<longrightarrow> (\<exists>a. inet_pton ip = Some a \<and> (\<forall>p. cid \<noteq> [] \<and> profile_ip x cid = Some p \<longrightarrow> p = a) \<and>
       (\<forall>own. profile_owner_of_ip x a = Some own \<and> config_ks_has_owner (x_ks x) own \<longrightarrow> strcaseeq own cid)))"
  by (rule register_allowed [OF assms])

text \<open>A keystore that holds the global key only.\<close>

definition global_ks :: keystore where
  "global_ks = fst (config_build_keystore toy_mono (\<lambda>_. True) (\<lambda>_. True)
      (\<lambda>_. (\<lparr>ke_malloc = True, ke_munlock = False, ke_malloc_unlocked = False\<rparr>, None))
      global_ctx config_server_db_reset key_start)"

lemma global_ks_ok:
  "ks_ok global_ks" "ks_entries global_ks = [\<lparr>kse_psk_key = replicate 32 7, kse_owner = [], kse_locked = False\<rparr>]"
proof -
  obtain ks db' st' r where b: "config_build_keystore toy_mono (\<lambda>_. True) (\<lambda>_. True)
      (\<lambda>_. (\<lparr>ke_malloc = True, ke_munlock = False, ke_malloc_unlocked = False\<rparr>, None))
      global_ctx config_server_db_reset key_start = (ks, db', st', r)"
    using prod_cases4 by blast
  have "snd (snd (snd (config_build_keystore toy_mono (\<lambda>_. True) (\<lambda>_. True)
      (\<lambda>_. (\<lparr>ke_malloc = True, ke_munlock = False, ke_malloc_unlocked = False\<rparr>, None))
      global_ctx config_server_db_reset key_start))) = KS_OK"
    by code_simp
  then have r: "r \<noteq> KS_NOMEM"
    unfolding b by simp
  note wf = db_reset_ok(1)
  have ready: "cc_ready global_ctx"
    by (simp add: global_ctx_def)
  have ks: "global_ks = ks"
    using b by (simp add: global_ks_def)
  obtain es where es: "ks_entries ks = global_entries global_ctx @ es" "ks_ok ks"
      "keystore_entries toy_mono (\<lambda>_. (\<lparr>ke_malloc = True, ke_munlock = False, ke_malloc_unlocked = False\<rparr>, None)) 0
         (db_clients config_server_db_reset) key_start = (st', Some es)"
    using build_keystore_ok [OF wf b ready r] by blast
  then have "es = []"
    by (simp add: config_server_db_reset_def db_zero_def)
  then show "ks_ok global_ks" "ks_entries global_ks = [\<lparr>kse_psk_key = replicate 32 7, kse_owner = [], kse_locked = False\<rparr>]"
    using es ks by (simp_all add: global_entries_def global_ctx_def)
qed


end
