(* ===== verification/Handshake.thy ===== *)
theory Handshake
  imports Pool
begin

text \<open>
  The handshake of \<open>src/server.c\<close>: \<open>server_known_source\<close> and \<open>server_source_for\<close>, \<open>server_new_index\<close>,
  \<open>server_adopt_tcp\<close>, \<open>server_entry_for\<close> and \<open>server_handle_init\<close>, the latter in the steps it takes:
  authenticate message 1, read the REGISTER in it, choose the entry, prepare it and the reply,
  make the session, send, and undo on failure.
\<close>

subsection \<open>Where a handshake comes from\<close>

definition known_live :: "srv_ctx \<Rightarrow> server_client \<Rightarrow> bool" where
  "known_live x c \<longleftrightarrow> sc_registered c \<and> s_valid (sc_cur c) \<and> sc_last_data c \<noteq> 0 \<and>
     \<not> x_now x - sc_last_data c > server_client_timeout x"

text \<open>\<open>SERVER_KNOWN_PER_SEC\<close> INITs a second.\<close>

definition known_window :: "srv_ctx \<Rightarrow> server_client \<Rightarrow> server_client" where
  "known_window x c = (if sc_hs_window c \<noteq> x_now x then c\<lparr>sc_hs_window := x_now x, sc_hs_count := 0\<rparr> else c)"

definition server_known_source :: "srv_ctx \<Rightarrow> sockaddr_in \<Rightarrow> server \<Rightarrow> server \<times> nat option" where
  "server_known_source x from sv =
     (case server_find_by_addr sv from of
        None \<Rightarrow> (sv, None)
      | Some i \<Rightarrow>
          if \<not> known_live x (client sv i) then (sv, None)
          else let sv1 = upd i (known_window x) sv
               in if sc_hs_count (client sv1 i) \<ge> SERVER_KNOWN_PER_SEC then (sv1, None)
                  else (upd i (\<lambda>c. c\<lparr>sc_hs_count := sc_hs_count c + 1\<rparr>) sv1, Some i))"

definition server_source_for :: "srv_ctx \<Rightarrow> sockaddr_in \<Rightarrow> server \<Rightarrow> server \<times> source" where
  "server_source_for x from sv =
     (case server_known_source x from (sv\<lparr>sv_budget := server_budget_window (x_now x) (sv_budget sv)\<rparr>) of
        (sv1, known) \<Rightarrow> (sv1, source_new (ntohl (sin_addr from)) known))"

subsection \<open>Message 1\<close>

text \<open>The order the keys are tried in: \<open>own\<close> right after the global key (\<open>ahead\<close> of it).\<close>

definition trial_key :: "nat option \<Rightarrow> nat \<Rightarrow> nat \<Rightarrow> nat" where
  "trial_key own ahead n =
     (case own of
        None \<Rightarrow> n
      | Some o' \<Rightarrow> if o' > 0 \<and> n = ahead then o' else if o' > 0 \<and> n > ahead \<and> n \<le> o' then n - 1 else n)"

definition trial_order :: "keystore \<Rightarrow> nat option \<Rightarrow> nat list" where
  "trial_order ks own =
     (let count = length (ks_entries ks);
          ahead = (if count > 0 \<and> kse_owner (ks_entries ks ! 0) = [] then 1 else 0)
      in map (trial_key own ahead) [0..<count])"

text \<open>The handshake state, the key and the payload of the first key that authenticates it.\<close>

type_synonym msg1 = "noise_hs \<times> bytes \<times> bytes"

fun key_trials :: "srv_ctx \<Rightarrow> noise_hs \<Rightarrow> bytes \<Rightarrow> bytes \<Rightarrow> nat option \<Rightarrow> nat list \<Rightarrow> source \<Rightarrow> server \<Rightarrow> server \<times> msg1 option" where
  "key_trials x base es msg own [] src sv = (sv, None)"
| "key_trials x base es msg own (i # is) src sv =
     (let e = ks_entries (x_ks x) ! i
      in if kse_locked e then key_trials x base es msg own is src sv
         else case (if i \<noteq> 0 \<or> kse_owner e \<noteq> []
                    then server_key_trial_budget (x_mc x) (x_share_rnd x) (x_now x) (length (ks_entries (x_ks x)))
                           (own = Some i) src (sv_budget sv)
                    else (0, src, sv_budget sv)) of
                (r, src1, b) \<Rightarrow>
                  if r \<noteq> 0 then (sv\<lparr>sv_budget := b\<rparr>, None)
                  else case noise_read_msg1 (x_mc x) base (kse_psk_key e) es msg (V2_TIMESTAMP_LEN + CAMEX_CONTROL_MAX - 1) of
                         (hs, Some payload) \<Rightarrow> (sv\<lparr>sv_budget := b\<rparr>, Some (hs, kse_psk_key e, payload))
                       | (hs, None) \<Rightarrow> key_trials x base es msg own is src1 (sv\<lparr>sv_budget := b\<rparr>))"

definition init_authenticate :: "srv_ctx \<Rightarrow> bytes \<Rightarrow> sockaddr_in \<Rightarrow> server \<Rightarrow> server \<times> msg1 option" where
  "init_authenticate x buffer from sv =
     (let ctx = x_crypto x; len = length buffer - V2_MAC_LEN; msg = drop V2_INIT_HDR (take len buffer)
      in if \<not> cc_has_server_key ctx then (sv, None)
         else if \<not> crypto_verify 16 (v2_mac1 (x_mc x) (cc_server_pub ctx) (take len buffer)) (drop len buffer) then (sv, None)
         else case server_source_for x from sv of (sv1, src) \<Rightarrow>
           (case server_handshake_budget (x_mc x) (x_share_rnd x) (x_now x) src (sv_budget sv1) of (r, src1, b) \<Rightarrow>
              let sv2 = sv1\<lparr>sv_budget := b\<rparr>;
                  base = noise_init_responder (x_mc x) CAMEX_NOISE_PROLOGUE (cc_server_priv ctx) (cc_server_pub ctx);
                  own = (case src_known src1 of None \<Rightarrow> None
                         | Some k \<Rightarrow> config_ks_find (x_ks x) (sc_psk_key (client sv2 k)))
              in if r \<noteq> 0 then (sv2, None)
                 else case noise_msg1_es (x_mc x) base msg of
                        None \<Rightarrow> (sv2, None)
                      | Some es \<Rightarrow>
                          (case key_trials x base es msg own (trial_order (x_ks x) own) src1 sv2 of
                             (sv3, Some (hs, key, payload)) \<Rightarrow>
                               if length payload < V2_TIMESTAMP_LEN then (sv3, None) else (sv3, Some (hs, key, payload))
                           | (sv3, None) \<Rightarrow> (sv3, None))))"

subsection \<open>The REGISTER in it\<close>

text \<open>The client ID, the address and the mode, when the key may use them.\<close>

definition init_request :: "srv_ctx \<Rightarrow> bytes \<Rightarrow> bytes \<Rightarrow> (string \<times> string \<times> bool) option" where
  "init_request x key payload =
     (case proto_parse_register (cstr (drop V2_TIMESTAMP_LEN payload)) reg_empty of
        None \<Rightarrow> None
      | Some m \<Rightarrow>
          (case server_register_allowed x key (r_client_id m) (r_local_ip m) (r_auto m) of
             None \<Rightarrow> None
           | Some cid \<Rightarrow> Some (cid, r_local_ip m, r_auto m)))"

definition init_owner :: "server \<Rightarrow> string \<Rightarrow> string \<Rightarrow> bool \<Rightarrow> nat option" where
  "init_owner sv cid ip auto =
     (if auto then server_find_by_client_id sv cid
      else case inet_pton ip of None \<Rightarrow> None | Some a \<Rightarrow> server_find_by_ip sv a)"

definition init_stale :: "srv_ctx \<Rightarrow> bytes \<Rightarrow> bytes \<Rightarrow> server_client \<Rightarrow> bool" where
  "init_stale x key payload c \<longleftrightarrow>
     s_valid (sc_cur c) \<and> sc_last_data c \<noteq> 0 \<and> memeq32 (sc_psk_key c) key \<and>
     x_now x - sc_last_data c \<le> server_client_timeout x \<and> v2_timestamp_cmp payload (sc_hs_ts c) \<le> 0"

text \<open>Its two counters.\<close>

definition server_log_stale_handshake :: "srv_ctx \<Rightarrow> server_client \<Rightarrow> server_client" where
  "server_log_stale_handshake x c =
     (if sc_stale_logged c \<noteq> 0 \<and> x_now x - sc_stale_logged c \<ge> 0 \<and> x_now x - sc_stale_logged c < 30
      then c\<lparr>sc_stale_quiet := sc_stale_quiet c + 1\<rparr>
      else c\<lparr>sc_stale_logged := x_now x, sc_stale_quiet := 0\<rparr>)"

text \<open>The address of the client's profile.\<close>

definition config_ip :: "srv_ctx \<Rightarrow> string \<Rightarrow> u32 option" where
  "config_ip x cid =
     (let p = config_db_lookup_profile (x_db x) cid
      in if p_local_cidr p = [] then None
         else case parse_local_cidr (p_local_cidr p) 16 16 of
                None \<Rightarrow> None
              | Some (ip, mk) \<Rightarrow> inet_pton ip)"

definition config_ip_taken :: "srv_ctx \<Rightarrow> server \<Rightarrow> string \<Rightarrow> bool" where
  "config_ip_taken x sv cid =
     (case config_ip x cid of
        None \<Rightarrow> False
      | Some a \<Rightarrow> (case server_find_by_ip sv a of
                     None \<Rightarrow> False
                   | Some h \<Rightarrow> \<not> strcaseeq (sc_client_id (client sv h)) cid))"

subsection \<open>The entry\<close>

definition other_slot_wiped :: "nat \<Rightarrow> int \<Rightarrow> server \<Rightarrow> nat \<Rightarrow> server" where
  "other_slot_wiped i fd sv j =
     (if sc_active (client sv j) \<and> sc_tcp_fd (client sv j) = fd \<and> j \<noteq> i then upd j (\<lambda>c. client_wiped) sv else sv)"

definition server_adopt_tcp :: "nat \<Rightarrow> int \<Rightarrow> server \<Rightarrow> server" where
  "server_adopt_tcp i fd sv =
     (if fd < 0 \<or> sc_tcp_fd (client sv i) = fd then sv
      else let sv1 = foldl (other_slot_wiped i fd) sv [0..<max_clients sv]
           in upd i (\<lambda>c. c\<lparr>sc_tcp_fd := fd, sc_recv := recv_zero\<rparr>) (close_tcp (sc_tcp_fd (client sv1 i)) sv1))"

text \<open>An entry that came back, from the same or another address.\<close>

definition entry_again :: "nat \<Rightarrow> sockaddr_in \<Rightarrow> int \<Rightarrow> server \<Rightarrow> server" where
  "entry_again i from fd sv =
     server_adopt_tcp i fd
       (if net_sockaddr_equal (sc_addr (client sv i)) from then sv else upd i (\<lambda>c. c\<lparr>sc_session_since := 0\<rparr>) sv)"

text \<open>The third component: a new slot was taken.\<close>

definition entry_auto :: "srv_ctx \<Rightarrow> string \<Rightarrow> sockaddr_in \<Rightarrow> int \<Rightarrow> server \<Rightarrow> server \<times> nat option \<times> bool" where
  "entry_auto x cid from fd sv =
     (if g_deny_unknown_clients (x_globals x) \<and> config_db_find_client (x_db x) cid = None then (sv, None, False)
      else case server_find_by_client_id sv cid of
             Some i \<Rightarrow> (entry_again i from fd sv, Some i, False)
           | None \<Rightarrow>
               (case (case server_find_by_addr sv from of
                        Some i \<Rightarrow> if sc_tcp_fd (client sv i) \<ge> 0 then Some i else None
                      | None \<Rightarrow> None) of
                  Some i \<Rightarrow> (sv, Some i, False)
                | None \<Rightarrow> (case server_alloc_client x sv of (sv1, r) \<Rightarrow> (sv1, r, r \<noteq> None))))"

text \<open>A manual handshake is refused when its address is reserved, in use or kept for another client.\<close>

definition manual_refused :: "srv_ctx \<Rightarrow> bytes \<Rightarrow> string \<Rightarrow> u32 \<Rightarrow> nat option \<Rightarrow> server \<Rightarrow> bool" where
  "manual_refused x key cid a by_addr sv \<longleftrightarrow>
     (case server_find_by_ip sv a of
        None \<Rightarrow> False
      | Some h \<Rightarrow>
          sc_ip (client sv h) \<noteq> a \<or> sc_auto (client sv h) \<or>
          (by_addr \<noteq> Some h \<and> (\<not> strcaseeq (sc_client_id (client sv h)) cid \<or> \<not> memeq32 (sc_psk_key (client sv h)) key))) \<or>
     (case server_lease_by_ip (sv_leases sv) a of
        None \<Rightarrow> False
      | Some l \<Rightarrow> \<not> strcaseeq (l_id (lt_leases (sv_leases sv) ! l)) cid \<and>
          x_now x - l_since (lt_leases (sv_leases sv) ! l) < SERVER_LEASE_MIN x)"

definition entry_manual :: "srv_ctx \<Rightarrow> bytes \<Rightarrow> string \<Rightarrow> string \<Rightarrow> sockaddr_in \<Rightarrow> int \<Rightarrow> server \<Rightarrow> server \<times> nat option \<times> bool" where
  "entry_manual x key cid ip from fd sv =
     (let by_addr = server_find_by_addr sv from
      in case inet_pton ip of
           None \<Rightarrow> (sv, None, False)
         | Some a \<Rightarrow>
             if manual_refused x key cid a by_addr sv then (sv, None, False)
             else (case (server_find_by_ip sv a, by_addr) of
                     (Some h, None) \<Rightarrow> (server_set_ip x h a (entry_again h from fd sv), Some h, False)
                   | (Some h, Some k) \<Rightarrow>
                       if k = h \<or> (sc_tcp_fd (client sv k) \<ge> 0 \<and> \<not> sc_registered (client sv k))
                       then (server_set_ip x h a (entry_again h from fd sv), Some h, False)
                       else if fd \<ge> 0 \<or> \<not> s_valid (sc_cur (client sv k)) then (server_set_ip x k a sv, Some k, False)
                       else (case server_alloc_client x sv of
                               (sv1, None) \<Rightarrow> (sv1, None, False)
                             | (sv1, Some n) \<Rightarrow> (server_set_ip x n a sv1, Some n, True))
                   | (None, Some k) \<Rightarrow>
                       if fd \<ge> 0 \<or> \<not> s_valid (sc_cur (client sv k)) then (server_set_ip x k a sv, Some k, False)
                       else (case server_alloc_client x sv of
                               (sv1, None) \<Rightarrow> (sv1, None, False)
                             | (sv1, Some n) \<Rightarrow> (server_set_ip x n a sv1, Some n, True))
                   | (None, None) \<Rightarrow>
                       (case server_alloc_client x sv of
                          (sv1, None) \<Rightarrow> (sv1, None, False)
                        | (sv1, Some n) \<Rightarrow> (server_set_ip x n a sv1, Some n, True))))"

definition server_entry_for ::
  "srv_ctx \<Rightarrow> bytes \<Rightarrow> string \<Rightarrow> string \<Rightarrow> bool \<Rightarrow> sockaddr_in \<Rightarrow> int \<Rightarrow> server \<Rightarrow> server \<times> nat option \<times> bool" where
  "server_entry_for x key cid ip auto from fd sv =
     (if auto then entry_auto x cid from fd sv else entry_manual x key cid ip from fd sv)"

subsection \<open>The session\<close>

definition index_used :: "server_client \<Rightarrow> u32 \<Rightarrow> bool" where
  "index_used c idx \<longleftrightarrow> s_valid (sc_cur c) \<and> s_local_index (sc_cur c) = idx \<or>
     s_valid (sc_next c) \<and> s_local_index (sc_next c) = idx \<or>
     s_valid (sc_prev c) \<and> s_local_index (sc_prev c) = idx"

fun server_index_loop :: "(nat \<Rightarrow> nat \<Rightarrow> bytes option) \<Rightarrow> nat \<Rightarrow> server_client \<Rightarrow> nat \<Rightarrow> nat \<Rightarrow> u32" where
  "server_index_loop rnd i c tries 0 = 0"
| "server_index_loop rnd i c tries (Suc left) =
     (let idx = v2_new_index (rnd tries)
      in if idx = 0 then 0
         else let idx' = (idx AND 0xFFFF0000) OR (of_nat i + 1)
              in if index_used c idx' then server_index_loop rnd i c (Suc tries) left else idx')"

definition server_new_index :: "srv_ctx \<Rightarrow> nat \<Rightarrow> server \<Rightarrow> u32" where
  "server_new_index x i sv = server_index_loop (x_index_rnd x) i (client sv i) 0 16"

definition tcp_frame :: "srv_ctx \<Rightarrow> int \<Rightarrow> bytes \<Rightarrow> server \<Rightarrow> server \<times> int \<times> bool" where
  "tcp_frame x fd data sv =
     (case net_tcp_send_frame_ex (x_sndbuf x) (x_rs1 x) (x_rs2 x) fd data (sv_net sv) of
        (rc, accepted, ps, out) \<Rightarrow> (sv\<lparr>sv_net := ps, sv_sent := sv_sent sv @ [Sent_tcp fd out]\<rparr>, rc, accepted))"

text \<open>A datagram: \<open>x_udp\<close>, the system takes it whole.\<close>

definition udp_send :: "srv_ctx \<Rightarrow> sockaddr_in \<Rightarrow> bytes \<Rightarrow> server \<Rightarrow> server \<times> int" where
  "udp_send x to data sv = (if x_udp x then (sv\<lparr>sv_sent := sv_sent sv @ [Sent_udp to data]\<rparr>, 0) else (sv, - 1))"

definition server_send :: "srv_ctx \<Rightarrow> nat \<Rightarrow> bytes \<Rightarrow> server \<Rightarrow> server \<times> int" where
  "server_send x i pkt sv =
     (if sc_tcp_fd (client sv i) \<ge> 0 then (case tcp_frame x (sc_tcp_fd (client sv i)) pkt sv of (sv1, rc, acc) \<Rightarrow> (sv1, rc))
      else if x_tcp x then (sv, - 1)
      else udp_send x (sc_addr (client sv i)) pkt sv)"

subsection \<open>\<open>server_handle_init\<close>\<close>

text \<open>What a handshake found in its entry, for a failure.\<close>

record init_before =
  ib_first :: bool
  ib_psk :: bytes
  ib_pending :: u32
  ib_ip :: u32

definition init_saved :: "server_client \<Rightarrow> init_before" where
  "init_saved c = \<lparr>ib_first = \<not> sc_registered c, ib_psk = sc_psk_key c, ib_pending = sc_pending_ip c, ib_ip = sc_ip c\<rparr>"

definition init_entry :: "srv_ctx \<Rightarrow> nat \<Rightarrow> string \<Rightarrow> bool \<Rightarrow> sockaddr_in \<Rightarrow> int \<Rightarrow> server \<Rightarrow> server" where
  "init_entry x i cid auto from fd sv =
     (let sv1 = (if \<not> s_valid (sc_cur (client sv i)) \<or> fd \<ge> 0 then server_set_addr x i from sv else sv)
      in server_set_id x i cid (upd i (\<lambda>c. c\<lparr>sc_last_seen := x_now x, sc_auto := auto\<rparr>) sv1))"

definition manual_reply :: string where
  "manual_reply = CAMEX_CTRL_WORD @ '' OK VER='' @ dec CAMEX_PROTO_VER @ [CHR 0x0A]"

definition init_reply :: "srv_ctx \<Rightarrow> nat \<Rightarrow> string \<Rightarrow> string \<Rightarrow> bool \<Rightarrow> server \<Rightarrow> server \<times> string option" where
  "init_reply x i cid ip auto sv =
     (if auto
      then server_build_config x i cid ip (case config_ip x cid of None \<Rightarrow> sv | Some a \<Rightarrow> server_assign_ip x i a sv)
      else (upd i (\<lambda>c. c\<lparr>sc_pending_ip := 0\<rparr>) sv, Some manual_reply))"

text \<open>Message 2 and the transport keys.\<close>

definition init_msg2 :: "srv_ctx \<Rightarrow> noise_hs \<Rightarrow> u32 \<Rightarrow> u32 \<Rightarrow> string \<Rightarrow> (bytes \<times> bytes \<times> bytes) option" where
  "init_msg2 x hs server_index client_index reply =
     (case x_seed x of
        None \<Rightarrow> None
      | Some seed \<Rightarrow>
          if server_index = 0 then None
          else case noise_write_msg2 (x_mc x) hs seed (str_bytes reply) (NOISE_MSG_OVERHEAD + CAMEX_CONTROL_MAX) of
                 (hs1, None) \<Rightarrow> None
               | (hs1, Some m) \<Rightarrow>
                   (case noise_split (x_mc x) hs1 of
                      (c1, c2) \<Rightarrow> Some (CAMEX_MAGIC @ [V2_TYPE_RESP] @ v2_write_u32 server_index @ v2_write_u32 client_index @ m, c1, c2)))"

text \<open>With a current session the new one waits in \<open>next\<close>.\<close>

definition init_session :: "int \<Rightarrow> u32 \<Rightarrow> u32 \<Rightarrow> bytes \<Rightarrow> bytes \<Rightarrow> bytes \<Rightarrow> bytes \<Rightarrow> server_client \<Rightarrow> server_client" where
  "init_session now server_index client_index c1 c2 key ts c =
     (let s = session_init server_index client_index c2 c1 now;
          c' = (if s_valid (sc_cur c) then c\<lparr>sc_next := s\<rparr> else c\<lparr>sc_cur := s\<rparr>)
      in c'\<lparr>sc_psk_key := key, sc_hs_ts := ts, sc_registered := True\<rparr>)"

definition init_send :: "srv_ctx \<Rightarrow> nat \<Rightarrow> sockaddr_in \<Rightarrow> bytes \<Rightarrow> server \<Rightarrow> server \<times> int" where
  "init_send x i from resp sv =
     (if sc_tcp_fd (client sv i) \<ge> 0 then (case tcp_frame x (sc_tcp_fd (client sv i)) resp sv of (sv1, rc, acc) \<Rightarrow> (sv1, rc))
      else udp_send x from resp sv)"

definition init_done :: "srv_ctx \<Rightarrow> nat \<Rightarrow> string \<Rightarrow> bool \<Rightarrow> server \<Rightarrow> server" where
  "init_done x i cid auto sv =
     (let t = sv_leases sv;
          t1 = server_lease_drop (server_lease_by_id t cid) t;
          t2 = server_lease_drop (server_lease_by_ip t1 (sc_ip (client sv i))) t1
      in upd i (\<lambda>c. c\<lparr>sc_registered_at := (if sc_registered_at c = 0 then x_now x else sc_registered_at c),
                      sc_session_since := (if sc_session_since c = 0 then x_now x else sc_session_since c),
                      sc_last_hs := x_now x, sc_handshakes := sc_handshakes c + 1\<rparr>)
           (if auto then sv\<lparr>sv_leases := t2\<rparr> else sv))"

text \<open>The label \<open>fail\<close>.  \<open>old\<close>: the sessions before, when this handshake made one.\<close>

definition init_fail :: "srv_ctx \<Rightarrow> nat \<Rightarrow> bool \<Rightarrow> init_before \<Rightarrow> server_client option \<Rightarrow> server \<Rightarrow> server" where
  "init_fail x i fresh b old sv =
     (if fresh then upd i (\<lambda>c. client_wiped) sv
      else upd i (\<lambda>c. (case old of
                         None \<Rightarrow> c
                       | Some c0 \<Rightarrow> if s_valid (sc_cur c0) then c\<lparr>sc_next := sc_next c0\<rparr>
                                    else c\<lparr>sc_cur := session_wipe (sc_cur c)\<rparr>)
                      \<lparr>sc_registered := \<not> ib_first b, sc_psk_key := ib_psk b\<rparr>)
             (server_restore_ip x i (ib_ip b) (ib_pending b) sv))"

definition init_register ::
  "srv_ctx \<Rightarrow> bytes \<Rightarrow> msg1 \<Rightarrow> string \<Rightarrow> string \<Rightarrow> bool \<Rightarrow> sockaddr_in \<Rightarrow> int \<Rightarrow> nat \<Rightarrow> bool \<Rightarrow> server \<Rightarrow> server \<times> int" where
  "init_register x buffer m cid ip auto from fd i fresh sv =
     (case m of (hs, key, payload) \<Rightarrow>
        let b = init_saved (client sv i)
        in case init_reply x i cid ip auto (init_entry x i cid auto from fd sv) of
             (sv1, None) \<Rightarrow> (init_fail x i fresh b None sv1, - 1)
           | (sv1, Some reply) \<Rightarrow>
               (let server_index = server_new_index x i sv1; client_index = v2_read_u32 (drop 5 buffer)
                in case init_msg2 x hs server_index client_index reply of
                     None \<Rightarrow> (init_fail x i fresh b None sv1, - 1)
                   | Some (resp, c1, c2) \<Rightarrow>
                       (case init_send x i from resp
                           (upd i (init_session (x_now x) server_index client_index c1 c2 key (take V2_TIMESTAMP_LEN payload)) sv1) of
                          (sv3, rc) \<Rightarrow>
                            if rc < 0 then (init_fail x i fresh b (Some (client sv1 i)) sv3, - 1)
                            else (init_done x i cid auto sv3, 0))))"

definition server_handle_init :: "srv_ctx \<Rightarrow> bytes \<Rightarrow> sockaddr_in \<Rightarrow> int \<Rightarrow> server \<Rightarrow> server \<times> int" where
  "server_handle_init x buffer from fd sv =
     (case init_authenticate x buffer from sv of
        (sv1, None) \<Rightarrow> (sv1, - 1)
      | (sv1, Some (hs, key, payload)) \<Rightarrow>
          (case init_request x key payload of
             None \<Rightarrow> (sv1, - 1)
           | Some (cid, ip, auto) \<Rightarrow>
               (case (case init_owner sv1 cid ip auto of
                        None \<Rightarrow> None
                      | Some k \<Rightarrow> if init_stale x key payload (client sv1 k) then Some k else None) of
                  Some k \<Rightarrow> (upd k (server_log_stale_handshake x) sv1, - 1)
                | None \<Rightarrow>
                    if auto \<and> config_ip_taken x sv1 cid then (sv1, - 1)
                    else (case server_entry_for x key cid ip auto from fd sv1 of
                            (sv2, None, fresh) \<Rightarrow> (sv2, - 1)
                          | (sv2, Some i, fresh) \<Rightarrow>
                              init_register x buffer (hs, key, payload) cid ip auto from fd i fresh sv2))))"

subsection \<open>One entry changes\<close>

definition only :: "nat \<Rightarrow> server \<Rightarrow> server \<Rightarrow> bool" where
  "only i sv sv' \<longleftrightarrow> sv_clients sv' = (sv_clients sv)[i := client sv' i]"

lemma onlyI: "sv_clients sv' = (sv_clients sv)[i := c] \<Longrightarrow> only i sv sv'"
  by (cases "i < max_clients sv") (simp_all add: only_def list_update_beyond)

lemma onlyD: "only i sv sv' \<Longrightarrow> max_clients sv' = max_clients sv" "only i sv sv' \<Longrightarrow> j \<noteq> i \<Longrightarrow> client sv' j = client sv j"
  unfolding only_def by (metis length_list_update, metis nth_list_update_neq)

lemma only_refl [simp]: "sv_clients sv' = sv_clients sv \<Longrightarrow> only i sv sv'"
  by (simp add: only_def)

lemma only_upd [simp]: "only i sv (upd i f sv)"
  by (rule onlyI) simp

lemma only_trans: "only i a b \<Longrightarrow> only i b c \<Longrightarrow> only i a c"
  unfolding only_def by (metis list_update_overwrite)

lemma set_at: "sv_clients sv' = (sv_clients sv)[i := c] \<Longrightarrow> i < max_clients sv \<Longrightarrow> client sv' i = c"
  by simp

text \<open>What a live client keeps while handshakes come in: its session and the one before, its addresses.\<close>

definition live_kept :: "server_client \<Rightarrow> server_client \<Rightarrow> bool" where
  "live_kept c c' \<longleftrightarrow> sc_active c' = sc_active c \<and> sc_cur c' = sc_cur c \<and> sc_prev c' = sc_prev c \<and>
     sc_addr c' = sc_addr c \<and> sc_ip c' = sc_ip c \<and> sc_tcp_fd c' = sc_tcp_fd c"

lemma live_kept_refl [simp]: "live_kept c c"
  by (simp add: live_kept_def)

lemma live_kept_trans: "live_kept a b \<Longrightarrow> live_kept b c \<Longrightarrow> live_kept a c"
  by (simp add: live_kept_def)

definition live :: "server_client \<Rightarrow> bool" where
  "live c \<longleftrightarrow> sc_active c \<and> s_valid (sc_cur c) \<and> sc_ip c \<noteq> 0"

text \<open>Also what a failed handshake leaves as it was.\<close>

definition same_kept :: "server_client \<Rightarrow> server_client \<Rightarrow> bool" where
  "same_kept c c' \<longleftrightarrow> live_kept c c' \<and> sc_next c' = sc_next c \<and> sc_psk_key c' = sc_psk_key c \<and> sc_registered c' = sc_registered c"

definition live_same :: "server \<Rightarrow> server \<Rightarrow> bool" where
  "live_same sv sv' \<longleftrightarrow> (\<forall>j<max_clients sv. live (client sv j) \<longrightarrow> same_kept (client sv j) (client sv' j))"

lemma same_kept_refl [simp]: "same_kept c c"
  by (simp add: same_kept_def)

lemma same_kept_trans: "same_kept a b \<Longrightarrow> same_kept b c \<Longrightarrow> same_kept a c"
  by (simp add: same_kept_def live_kept_def)

lemma same_kept_live: "same_kept c c' \<Longrightarrow> live c' = live c"
  by (simp add: same_kept_def live_kept_def live_def)

lemma live_same_refl: "sv_clients sv' = sv_clients sv \<Longrightarrow> live_same sv sv'"
  by (simp add: live_same_def)

lemma live_same_trans: "live_same a b \<Longrightarrow> max_clients b = max_clients a \<Longrightarrow> live_same b c \<Longrightarrow> live_same a c"
  unfolding live_same_def by (metis same_kept_trans same_kept_live)

lemma live_same_set:
  assumes "sv_clients sv' = (sv_clients sv)[i := c]" and "i < max_clients sv \<Longrightarrow> live (client sv i) \<Longrightarrow> same_kept (client sv i) c"
  shows "live_same sv sv'"
  using assms(2) unfolding live_same_def assms(1) by (auto simp: nth_update)

lemma live_same_upd: "(\<And>c. same_kept c (f c)) \<Longrightarrow> live_same sv (upd i f sv)"
  by (rule live_same_set) auto

subsection \<open>Authentication\<close>

lemma quiet_upd_ok:
  assumes "server_ok sv" and "\<And>c. client_keys (f c) = client_keys c" and "\<And>c. sc_active (f c) = sc_active c"
    and "\<And>c. sc_client_id (f c) = sc_client_id c"
  shows "server_ok (upd i f sv)"
  by (rule upd_ok [OF assms(1)]) (use server_okD(3) [OF assms(1)] assms(2-4) in simp_all)

lemma known_source_props:
  assumes "server_ok sv" and "server_known_source x from sv = (sv', k)"
  shows "server_ok sv' \<and> max_clients sv' = max_clients sv \<and> sv_leases sv' = sv_leases sv \<and> sv_tunnel_ip sv' = sv_tunnel_ip sv \<and> sv_started sv' = sv_started sv \<and>
    (\<forall>j. same_kept (client sv j) (client sv' j)) \<and> (\<forall>i. k = Some i \<longrightarrow> i < max_clients sv)"
proof -
  define f :: "server_client \<Rightarrow> server_client" where "f = (\<lambda>c. c\<lparr>sc_hs_count := sc_hs_count c + 1\<rparr>)"
  let ?w = "known_window x"
  have w: "client_keys (?w c) = client_keys c" "sc_active (?w c) = sc_active c" "sc_client_id (?w c) = sc_client_id c"
    "same_kept c (?w c)" for c
    by (simp_all add: known_window_def client_keys_def same_kept_def live_kept_def)
  have f: "client_keys (f c) = client_keys c" "sc_active (f c) = sc_active c" "sc_client_id (f c) = sc_client_id c"
    "same_kept c (f c)" for c
    by (simp_all add: f_def client_keys_def same_kept_def live_kept_def)
  have wk: "server_ok (upd i ?w sv)" and wf: "server_ok (upd i f (upd i ?w sv))" for i
    using quiet_upd_ok [OF assms(1), of ?w i] w quiet_upd_ok [of "upd i ?w sv" f i] f by simp_all
  have lw: "same_kept (client sv j) (client (upd i ?w sv) j)" and lf: "same_kept (client sv j) (client (upd i f (upd i ?w sv)) j)" for i j
    using w(4) f(4) same_kept_trans [OF w(4) f(4)] by (auto simp: nth_update)
  have lt: "server_find_by_addr sv from = Some i \<Longrightarrow> i < max_clients sv" for i
    using find_by_addr_Some [OF server_okD(1) [OF assms(1)]] match_lt(4) by blast
  show ?thesis
    using assms wk wf lw lf lt
    unfolding server_known_source_def Let_def f_def [symmetric]
    by (auto split: option.splits if_splits)
qed

lemma key_trials_cons:
  assumes "key_trials x base es msg own (i # is) src sv = (sv', r)"
  obtains "key_trials x base es msg own is src sv = (sv', r)"
  | b where "sv' = sv\<lparr>sv_budget := b\<rparr>" and "r = None"
  | b hs payload where "sv' = sv\<lparr>sv_budget := b\<rparr>" and "\<not> kse_locked (ks_entries (x_ks x) ! i)"
      and "r = Some (hs, kse_psk_key (ks_entries (x_ks x) ! i), payload)"
      and "noise_read_msg1 (x_mc x) base (kse_psk_key (ks_entries (x_ks x) ! i)) es msg (V2_TIMESTAMP_LEN + CAMEX_CONTROL_MAX - 1) =
             (hs, Some payload)"
  | b src1 where "key_trials x base es msg own is src1 (sv\<lparr>sv_budget := b\<rparr>) = (sv', r)"
proof -
  let ?e = "ks_entries (x_ks x) ! i"
  obtain r0 src1 b where b: "(if i \<noteq> 0 \<or> kse_owner ?e \<noteq> []
      then server_key_trial_budget (x_mc x) (x_share_rnd x) (x_now x) (length (ks_entries (x_ks x))) (own = Some i) src (sv_budget sv)
      else (0, src, sv_budget sv)) = (r0, src1, b)"
    by (metis prod_cases3)
  obtain hs p where n: "noise_read_msg1 (x_mc x) base (kse_psk_key ?e) es msg (V2_TIMESTAMP_LEN + CAMEX_CONTROL_MAX - 1) = (hs, p)"
    by fastforce
  consider "kse_locked ?e" | "\<not> kse_locked ?e" "r0 \<noteq> 0" | "\<not> kse_locked ?e" "r0 = 0" "p = None"
    | payload where "\<not> kse_locked ?e" "r0 = 0" "p = Some payload"
    by blast
  then show thesis
  proof cases
    case 1
    then show thesis using assms that(1) by simp
  next
    case 2
    then show thesis using assms b that(2) by (auto simp: Let_def)
  next
    case 3
    then show thesis using assms b n that(4) by (simp add: Let_def)
  next
    case 4
    then show thesis using assms b n that(3) by (auto simp: Let_def)
  qed
qed

lemma key_trials_budget: "key_trials x base es msg own is src sv = (sv', r) \<Longrightarrow> \<exists>b. sv' = sv\<lparr>sv_budget := b\<rparr>"
proof (induction "is" arbitrary: src sv)
  case Nil
  then show ?case by (intro exI [of _ "sv_budget sv"]) simp
next
  case (Cons i "is")
  from Cons.prems show ?case
  proof (cases rule: key_trials_cons)
    case (4 b src1)
    then show ?thesis using Cons.IH [OF 4] by auto
  qed (use Cons.IH in blast)+
qed

lemma key_trials_found:
  "key_trials x base es msg own is src sv = (sv', Some (hs, key, payload)) \<Longrightarrow> \<exists>i\<in>set is.
     key = kse_psk_key (ks_entries (x_ks x) ! i) \<and> \<not> kse_locked (ks_entries (x_ks x) ! i) \<and>
     noise_read_msg1 (x_mc x) base key es msg (V2_TIMESTAMP_LEN + CAMEX_CONTROL_MAX - 1) = (hs, Some payload)"
proof (induction "is" arbitrary: src sv)
  case (Cons i "is")
  from Cons.prems show ?case
    by (cases rule: key_trials_cons) (use Cons.IH in auto)
qed simp

lemmas key_trials_props = key_trials_budget key_trials_found

text \<open>Every key is tried, each once.\<close>

lemma trial_order_set:
  assumes "\<And>o'. own = Some o' \<Longrightarrow> o' < length (ks_entries ks)"
  shows "set (trial_order ks own) = {..<length (ks_entries ks)}" and "distinct (trial_order ks own)"
proof -
  let ?n = "length (ks_entries ks)"
  define a where "a = (if ?n > 0 \<and> kse_owner (ks_entries ks ! 0) = [] then 1 else 0 :: nat)"
  have order: "trial_order ks own = map (trial_key own a) [0..<?n]"
    by (simp add: trial_order_def Let_def a_def)
  have a: "a \<le> 1"
    by (simp add: a_def)
  have lt: "trial_key own a m < ?n" if "m < ?n" for m
    using that assms by (auto simp: trial_key_def split: option.split)
  have inj: "inj_on (trial_key own a) {..<?n}"
    using a by (auto simp: inj_on_def trial_key_def split: option.splits if_splits)
  have "trial_key own a ` {..<?n} = {..<?n}"
    using lt by (intro endo_inj_surj [OF _ _ inj]) auto
  then show "set (trial_order ks own) = {..<?n}"
    by (simp add: order atLeast0LessThan)
  show "distinct (trial_order ks own)"
    using inj by (simp add: order distinct_map atLeast0LessThan)
qed

lemma authenticate_props:
  assumes "server_ok sv" and "init_authenticate x buffer from sv = (sv', r)"
  shows "server_ok sv' \<and> max_clients sv' = max_clients sv \<and> sv_leases sv' = sv_leases sv \<and> sv_tunnel_ip sv' = sv_tunnel_ip sv \<and> sv_started sv' = sv_started sv \<and>
    (\<forall>j. same_kept (client sv j) (client sv' j))"
proof -
  let ?Q = "\<lambda>s. server_ok s \<and> max_clients s = max_clients sv \<and> sv_leases s = sv_leases sv \<and> sv_tunnel_ip s = sv_tunnel_ip sv \<and> sv_started s = sv_started sv \<and>
    (\<forall>j. same_kept (client sv j) (client s j))"
  obtain sv1 src where s: "server_source_for x from sv = (sv1, src)"
    by fastforce
  then obtain known where k: "server_known_source x from (sv\<lparr>sv_budget := server_budget_window (x_now x) (sv_budget sv)\<rparr>) = (sv1, known)"
    by (auto simp: server_source_for_def split: prod.splits)
  have q1: "?Q sv1"
    using known_source_props [OF _ k] assms(1) by simp
  have qb: "?Q (sv1\<lparr>sv_budget := b\<rparr>)" for b
    using q1 by simp
  have qt: "?Q s2" if "key_trials x base es msg own is src' (sv1\<lparr>sv_budget := b\<rparr>) = (s2, r2)" for base es msg own "is" src' b s2 r2
    using key_trials_props(1) [OF that] qb by auto
  have q0: "?Q sv"
    using assms(1) by simp
  show ?thesis
    using assms(2) q0 qb qt unfolding init_authenticate_def Let_def s
    by (fastforce split: if_splits prod.splits option.splits)
qed

subsection \<open>The entry of a handshake\<close>

text \<open>The frame of one handshake: the invariant, the number of slots, the server's own address.\<close>

definition hs_frame :: "server \<Rightarrow> server \<Rightarrow> bool" where
  "hs_frame sv sv' \<longleftrightarrow> server_ok sv' \<and> max_clients sv' = max_clients sv \<and> sv_tunnel_ip sv' = sv_tunnel_ip sv"

lemma hs_frameD: "hs_frame sv sv' \<Longrightarrow> server_ok sv'" "hs_frame sv sv' \<Longrightarrow> max_clients sv' = max_clients sv"
  by (simp_all add: hs_frame_def)

lemma hs_frame_trans: "hs_frame a b \<Longrightarrow> hs_frame b c \<Longrightarrow> hs_frame a c"
  by (simp add: hs_frame_def)

lemma hs_frame_refl: "server_ok sv \<Longrightarrow> hs_frame sv sv"
  by (simp add: hs_frame_def)

lemma hs_frame_entry:
  assumes "server_ok sv" and "entry_set i f sv sv'" and "i < max_clients sv \<Longrightarrow> length (sc_client_id (f (client sv i))) < CAMEX_CLIENT_ID_LEN"
  shows "hs_frame sv sv'"
  using entry_set_ok [OF assms] entry_setD(2,7) [OF assms(2)] by (simp add: hs_frame_def)

lemma set_ip_frame:
  assumes "server_ok sv" and "i < max_clients sv" and "sc_active (client sv i)"
  shows "hs_frame sv (server_set_ip x i a sv)" and "sv_clients (server_set_ip x i a sv) = (sv_clients sv)[i := client sv i\<lparr>sc_ip := a\<rparr>]"
proof -
  note e = set_ip_entry [OF server_okD(1) [OF assms(1)] assms(2,3), of a x]
  show "hs_frame sv (server_set_ip x i a sv)"
    by (rule hs_frame_entry [OF assms(1) e]) (simp add: server_okD(3) [OF assms(1)])
  show "sv_clients (server_set_ip x i a sv) = (sv_clients sv)[i := client sv i\<lparr>sc_ip := a\<rparr>]"
    by (rule entry_setD(2) [OF e])
qed

lemma other_slot_ok:
  assumes "server_ok s" and "j < max_clients s"
  shows "server_ok (other_slot_wiped i fd s j) \<and> max_clients (other_slot_wiped i fd s j) = max_clients s"
  using assms by (simp add: other_slot_wiped_def wipe_ok)

lemma adopt_fold:
  fixes i :: nat and fd :: int
  assumes "server_ok sv"
  defines "s \<equiv> foldl (other_slot_wiped i fd) sv [0..<max_clients sv]"
  shows "hs_frame sv s" and "client s i = client sv i"
proof -
  have keep: "client (foldl (other_slot_wiped i fd) a js) i = client a i \<and> sv_tunnel_ip (foldl (other_slot_wiped i fd) a js) = sv_tunnel_ip a" for a js
    by (induction js arbitrary: a) (simp_all add: other_slot_wiped_def)
  show "hs_frame sv s" and "client s i = client sv i"
    using fold_ok [where step = "other_slot_wiped i fd", OF other_slot_ok assms(1)] keep by (simp_all add: s_def hs_frame_def)
qed

lemma adopt_tcp_props:
  assumes ok: "server_ok sv" and i: "i < max_clients sv"
  shows "hs_frame sv (server_adopt_tcp i fd sv)" and "sc_active (client (server_adopt_tcp i fd sv) i) = sc_active (client sv i)"
    and "fd < 0 \<Longrightarrow> server_adopt_tcp i fd sv = sv"
proof -
  let ?s = "foldl (other_slot_wiped i fd) sv [0..<max_clients sv]"
  let ?c = "close_tcp (sc_tcp_fd (client ?s i)) ?s"
  note f = adopt_fold [OF ok, of i fd]
  have u: "server_ok (upd i (\<lambda>c. c\<lparr>sc_tcp_fd := fd, sc_recv := recv_zero\<rparr>) ?c)"
    by (rule quiet_upd_ok) (use hs_frameD [OF f(1)] in \<open>simp_all add: client_keys_def\<close>)
  show "hs_frame sv (server_adopt_tcp i fd sv)"
    using u f(1) ok by (auto simp: server_adopt_tcp_def Let_def hs_frame_def)
  show "sc_active (client (server_adopt_tcp i fd sv) i) = sc_active (client sv i)"
    using f i by (simp add: server_adopt_tcp_def Let_def hs_frame_def)
  show "fd < 0 \<Longrightarrow> server_adopt_tcp i fd sv = sv"
    by (simp add: server_adopt_tcp_def)
qed

lemma entry_again_props:
  assumes ok: "server_ok sv" and i: "i < max_clients sv"
  shows "hs_frame sv (entry_again i from fd sv)" and "sc_active (client (entry_again i from fd sv) i) = sc_active (client sv i)"
    and "fd < 0 \<Longrightarrow> live_same sv (entry_again i from fd sv) \<and> sc_ip (client (entry_again i from fd sv) i) = sc_ip (client sv i)"
proof -
  let ?u = "if net_sockaddr_equal (sc_addr (client sv i)) from then sv else upd i (\<lambda>c. c\<lparr>sc_session_since := 0\<rparr>) sv"
  have u: "server_ok ?u" "max_clients ?u = max_clients sv" "sv_tunnel_ip ?u = sv_tunnel_ip sv"
    "sc_active (client ?u i) = sc_active (client sv i)" "sc_ip (client ?u i) = sc_ip (client sv i)"
    using ok quiet_upd_ok [OF ok, of "\<lambda>c. c\<lparr>sc_session_since := 0\<rparr>" i] i by (simp_all add: client_keys_def nth_update)
  have same: "live_same sv ?u"
    by (auto intro: live_same_refl live_same_upd simp: same_kept_def live_kept_def)
  note a = adopt_tcp_props [OF u(1), of i fd]
  show "hs_frame sv (entry_again i from fd sv)"
    using a(1) u i by (simp add: entry_again_def hs_frame_def)
  show "sc_active (client (entry_again i from fd sv) i) = sc_active (client sv i)"
    using a(2) u(2,4) i by (simp add: entry_again_def)
  show "fd < 0 \<Longrightarrow> live_same sv (entry_again i from fd sv) \<and> sc_ip (client (entry_again i from fd sv) i) = sc_ip (client sv i)"
    using a(3) u same i by (simp add: entry_again_def)
qed

text \<open>A slot can be had without an eviction.\<close>

definition no_eviction :: "srv_ctx \<Rightarrow> server \<Rightarrow> bool" where
  "no_eviction x sv \<longleftrightarrow> (\<exists>k<max_clients sv. \<not> sc_active (client sv k)) \<or> server_pool_holding x sv"

lemma alloc_frame:
  assumes ok: "server_ok sv" and a: "server_alloc_client x sv = (sv', r)"
  shows "hs_frame sv sv'" and "r = None \<Longrightarrow> sv' = sv"
    and "r = Some i \<Longrightarrow> i < max_clients sv \<and> client sv' i = client_wiped\<lparr>sc_active := True\<rparr>"
    and "no_eviction x sv \<Longrightarrow> live_same sv sv'"
proof -
  note p = alloc_client_props [OF ok a]
  show "hs_frame sv sv'" "r = None \<Longrightarrow> sv' = sv"
    "r = Some i \<Longrightarrow> i < max_clients sv \<and> client sv' i = client_wiped\<lparr>sc_active := True\<rparr>"
    using p by (auto simp: hs_frame_def split: option.splits)
  assume n: "no_eviction x sv"
  show "live_same sv sv'"
  proof (cases r)
    case None
    then show ?thesis using p by (simp add: live_same_refl)
  next
    case (Some k)
    have "\<not> sc_active (client sv k)"
    proof (cases "alloc_free_slot sv")
      case None
      then have "\<forall>k<max_clients sv. sc_active (client sv k)"
        using alloc_free_slot_None by blast
      then show ?thesis
        using a n None Some by (auto simp: server_alloc_client_def no_eviction_def split: if_splits)
    next
      case (Some l)
      then show ?thesis
        using a \<open>r = Some k\<close> alloc_free_slot_Some [OF Some] by (auto simp: server_alloc_client_def split: if_splits)
    qed
    then show ?thesis
      using p Some by (intro live_same_set) (auto simp: live_def)
  qed
qed


text \<open>What \<open>server_entry_for\<close> returns: an active entry, or nothing; \<open>fresh\<close> entries have no session.\<close>

definition entry_result :: "server \<Rightarrow> server \<Rightarrow> nat option \<Rightarrow> bool \<Rightarrow> bool" where
  "entry_result sv sv' r fresh \<longleftrightarrow> hs_frame sv sv' \<and>
     (\<forall>i. r = Some i \<longrightarrow> i < max_clients sv \<and> sc_active (client sv' i) \<and> (fresh \<longrightarrow> \<not> live (client sv' i) \<and> \<not> sc_registered (client sv' i)))"

lemma entry_auto_props:
  assumes ok: "server_ok sv" and e: "entry_auto x cid from fd sv = (sv', r, fresh)"
  shows "entry_result sv sv' r fresh" and "fd < 0 \<Longrightarrow> no_eviction x sv \<Longrightarrow> live_same sv sv'"
proof -
  note inv = server_okD(1) [OF ok]
  let ?deny = "g_deny_unknown_clients (x_globals x) \<and> config_db_find_client (x_db x) cid = None"
  let ?tcp = "case server_find_by_addr sv from of Some i \<Rightarrow> if sc_tcp_fd (client sv i) \<ge> 0 then Some i else None | None \<Rightarrow> None"
  obtain sv1 q where q: "server_alloc_client x sv = (sv1, q)"
    by fastforce
  have t: "?tcp = Some i \<Longrightarrow> server_find_by_addr sv from = Some i" for i
    by (simp split: option.splits if_splits)
  consider "sv' = sv" "r = None" "\<not> fresh"
    | i where "server_find_by_client_id sv cid = Some i" "sv' = entry_again i from fd sv" "r = Some i" "\<not> fresh"
    | i where "server_find_by_addr sv from = Some i" "sv' = sv" "r = Some i" "\<not> fresh"
    | "server_alloc_client x sv = (sv', r)" "fresh = (r \<noteq> None)"
  proof (cases ?deny)
    case True
    then show thesis using e that(1) by (simp add: entry_auto_def)
  next
    case False
    note e1 = e [unfolded entry_auto_def if_not_P [OF False]]
    show thesis
    proof (cases "server_find_by_client_id sv cid")
      case (Some i)
      then show thesis using e1 that(2) by auto
    next
      case None
      show thesis
      proof (cases ?tcp)
        case N2: None
        show thesis using e1 that(4) q by (simp only: None N2 option.case prod.case) auto
      next
        case (Some i)
        show thesis using e1 that(3) t [OF Some] Some by (auto simp: None split: if_splits)
      qed
    qed
  qed
  then have "entry_result sv sv' r fresh \<and> (fd < 0 \<longrightarrow> no_eviction x sv \<longrightarrow> live_same sv sv')"
  proof cases
    case 1
    then show ?thesis using ok by (simp add: entry_result_def hs_frame_refl live_same_refl)
  next
    case (2 i)
    then have "i < max_clients sv" "sc_active (client sv i)"
      using find_by_id_Some [OF inv] by (auto simp: match_id_def)
    then show ?thesis
      using entry_again_props [OF ok] 2 by (simp add: entry_result_def)
  next
    case (3 i)
    then show ?thesis
      using ok find_by_addr_Some [OF inv] by (auto simp: entry_result_def hs_frame_refl live_same_refl match_addr_def)
  next
    case 4
    note p = alloc_frame [OF ok 4(1)]
    have "\<not> live (client sv' i) \<and> \<not> sc_registered (client sv' i)" if "r = Some i" for i
      using p(3) that by (simp add: live_def)
    then show ?thesis
      using p(1,3,4) by (auto simp: entry_result_def)
  qed
  then show "entry_result sv sv' r fresh" and "fd < 0 \<Longrightarrow> no_eviction x sv \<Longrightarrow> live_same sv sv'"
    by blast+
qed

lemma set_ip_same: "sc_ip (client sv i) = a \<Longrightarrow> server_set_ip x i a sv = sv"
  by (simp add: server_set_ip_def)

text \<open>The two ways a manual handshake gets an entry that is not the holder of its address.\<close>

lemma set_ip_result:
  assumes ok: "server_ok sv" and b: "i < max_clients sv" "sc_active (client sv i)"
  shows "entry_result sv (server_set_ip x i a sv) (Some i) False"
  using set_ip_frame [OF ok b, of x a] b by (simp add: entry_result_def)

lemma set_ip_live: "server_ok sv \<Longrightarrow> i < max_clients sv \<Longrightarrow> sc_active (client sv i) \<Longrightarrow> \<not> s_valid (sc_cur (client sv i)) \<Longrightarrow>
    live_same sv (server_set_ip x i a sv)"
  using set_ip_frame(2) [of sv i x a] by (intro live_same_set) (auto simp: live_def)

lemma alloc_ip_result:
  assumes ok: "server_ok sv" and a: "server_alloc_client x sv = (sv1, Some n)"
  shows "entry_result sv (server_set_ip x n a sv1) (Some n) True"
    and "no_eviction x sv \<Longrightarrow> live_same sv (server_set_ip x n a sv1)"
proof -
  note p = alloc_frame [OF ok a]
  have n: "n < max_clients sv" "client sv1 n = client_wiped\<lparr>sc_active := True\<rparr>"
    using p(3) by simp_all
  have m: "max_clients sv1 = max_clients sv"
    using p(1) by (rule hs_frameD)
  note f = set_ip_frame [OF hs_frameD(1) [OF p(1)], of n x a]
  show "entry_result sv (server_set_ip x n a sv1) (Some n) True"
    using f hs_frame_trans [OF p(1)] n m by (simp add: entry_result_def live_def)
  assume "no_eviction x sv"
  then have "live_same sv sv1"
    by (rule p(4))
  then show "live_same sv (server_set_ip x n a sv1)"
    by (rule live_same_trans) (use m n set_ip_live [OF hs_frameD(1) [OF p(1)]] in simp_all)
qed

lemma entry_manual_cases:
  assumes ok: "server_ok sv" and e: "entry_manual x key cid ip from fd sv = (sv', r, fresh)"
  obtains (none) "sv' = sv" and "r = None" and "\<not> fresh"
  | (full) sv1 where "server_alloc_client x sv = (sv1, None)" and "sv' = sv1" and "r = None" and "\<not> fresh"
  | (own) h a where "h < max_clients sv" and "sc_active (client sv h)" and "sc_ip (client sv h) = a"
      and "sv' = server_set_ip x h a (entry_again h from fd sv)" and "r = Some h" and "\<not> fresh"
  | (addr) k a where "k < max_clients sv" and "sc_active (client sv k)" and "fd \<ge> 0 \<or> \<not> s_valid (sc_cur (client sv k))"
      and "sv' = server_set_ip x k a sv" and "r = Some k" and "\<not> fresh"
  | (new) n a sv1 where "server_alloc_client x sv = (sv1, Some n)" and "sv' = server_set_ip x n a sv1" and "r = Some n" and fresh
proof -
  note inv = server_okD(1) [OF ok]
  have h: "h < max_clients sv \<and> sc_active (client sv h)" if "server_find_by_ip sv a = Some h" for h a
    using find_by_ip_Some(1) [OF inv that] by (simp add: match_ip_def)
  have k: "k < max_clients sv \<and> sc_active (client sv k)" if "server_find_by_addr sv from = Some k" for k
    using find_by_addr_Some [OF inv that] by (simp add: match_addr_def)
  have eq: "sc_ip (client sv h) = a" if "\<not> manual_refused x key cid a b sv" "server_find_by_ip sv a = Some h" for h a b
    using that by (simp add: manual_refused_def)
  show thesis
  proof (cases "inet_pton ip")
    case None
    then show thesis using e none by (simp add: entry_manual_def)
  next
    case (Some a)
    show thesis
    proof (cases "manual_refused x key cid a (server_find_by_addr sv from) sv")
      case True
      then show thesis using e Some none by (simp add: entry_manual_def)
    next
      case False
      obtain sv1 q where q: "server_alloc_client x sv = (sv1, q)"
        by fastforce
      have alloc: thesis
        if "(case q of None \<Rightarrow> (sv1, None, False) | Some n \<Rightarrow> (server_set_ip x n a sv1, Some n, True)) = (sv', r, fresh)"
        using that q full new by (cases q) auto
      note e1 = e [unfolded entry_manual_def Let_def Some option.case if_not_P [OF False]]
      show thesis
      proof (cases "server_find_by_ip sv a")
        case N1: None
        show thesis
        proof (cases "server_find_by_addr sv from")
          case None
          then show thesis using e1 alloc q by (simp add: N1)
        next
          case S: (Some i)
          note e2 = e1 [unfolded N1 S option.case prod.case]
          show thesis
          proof (cases "fd \<ge> 0 \<or> \<not> s_valid (sc_cur (client sv i))")
            case True
            then show thesis using e2 addr [of i a] k [OF S] by auto
          next
            case False
            then show thesis using e2 [unfolded if_not_P [OF False]] alloc q by simp
          qed
        qed
      next
        case S1: (Some i)
        note i = h [OF S1] eq [OF False S1]
        show thesis
        proof (cases "server_find_by_addr sv from")
          case None
          then show thesis using e1 own [of i a] i by (simp add: S1)
        next
          case S: (Some j)
          let ?own = "j = i \<or> (sc_tcp_fd (client sv j) \<ge> 0 \<and> \<not> sc_registered (client sv j))"
          let ?addr = "fd \<ge> 0 \<or> \<not> s_valid (sc_cur (client sv j))"
          note e2 = e1 [unfolded S1 S option.case prod.case]
          show thesis
          proof (cases ?own)
            case True
            then show thesis using e2 own [of i a] i by auto
          next
            case False
            note e3 = e2 [unfolded if_not_P [OF False]]
            show thesis
            proof (cases ?addr)
              case True
              then show thesis using e3 addr [of j a] k [OF S] by auto
            next
              case False
              then show thesis using e3 [unfolded if_not_P [OF False]] alloc q by simp
            qed
          qed
        qed
      qed
    qed
  qed
qed

lemma entry_manual_props:
  assumes ok: "server_ok sv" and e: "entry_manual x key cid ip from fd sv = (sv', r, fresh)"
  shows "entry_result sv sv' r fresh \<and> (fd < 0 \<longrightarrow> no_eviction x sv \<longrightarrow> live_same sv sv')"
  using ok e
proof (cases rule: entry_manual_cases)
  case none
  then show ?thesis using ok by (simp add: entry_result_def hs_frame_refl live_same_refl)
next
  case (full sv1)
  then show ?thesis using alloc_frame [OF ok full(1)] by (simp add: entry_result_def)
next
  case (own h a)
  note p = entry_again_props [OF ok own(1)]
  have b: "h < max_clients (entry_again h from fd sv)" "sc_active (client (entry_again h from fd sv) h)"
    using own(1,2) p(2) [of "from" fd] hs_frameD(2) [OF p(1) [of "from" fd]] by simp_all
  show ?thesis
    using set_ip_result [OF hs_frameD(1) [OF p(1)] b, of x a] p(1) [of "from" fd] p(3) [of fd "from"] own set_ip_same [of "entry_again h from fd sv" h a x]
      hs_frame_trans [OF p(1) [of "from" fd]] hs_frameD(2) [OF p(1) [of "from" fd]]
    by (auto simp: entry_result_def)
next
  case (addr k a)
  then show ?thesis
    using set_ip_result [OF ok addr(1,2), of x a] set_ip_live [OF ok addr(1,2), of x a] by auto
next
  case (new n a sv1)
  then show ?thesis
    using alloc_ip_result [OF ok new(1), of a] by simp
qed

lemma entry_for_props:
  assumes ok: "server_ok sv" and e: "server_entry_for x key cid ip auto from fd sv = (sv', r, fresh)"
  shows "entry_result sv sv' r fresh" and "fd < 0 \<Longrightarrow> no_eviction x sv \<Longrightarrow> live_same sv sv'"
  using entry_auto_props [OF ok] entry_manual_props [OF ok] e by (auto simp: server_entry_for_def split: if_splits)


subsection \<open>The entry and the reply\<close>

lemma init_entry_props:
  assumes ok: "server_ok sv" and i: "i < max_clients sv" "sc_active (client sv i)" and cid: "length cid < CAMEX_CLIENT_ID_LEN"
  shows "hs_frame sv (init_entry x i cid auto from fd sv)"
    and "sv_clients (init_entry x i cid auto from fd sv) = (sv_clients sv)[i := client sv i
      \<lparr>sc_addr := (if \<not> s_valid (sc_cur (client sv i)) \<or> fd \<ge> 0 then from else sc_addr (client sv i)),
       sc_last_seen := x_now x, sc_auto := auto, sc_client_id := cid\<rparr>]"
proof -
  let ?b = "\<not> s_valid (sc_cur (client sv i)) \<or> fd \<ge> 0"
  let ?s1 = "if ?b then server_set_addr x i from sv else sv"
  let ?s2 = "upd i (\<lambda>c. c\<lparr>sc_last_seen := x_now x, sc_auto := auto\<rparr>) ?s1"
  note e1 = set_addr_entry [OF server_okD(1) [OF ok] i, of "from" x]
  have s1: "hs_frame sv ?s1" "sv_clients ?s1 = (sv_clients sv)[i := client sv i\<lparr>sc_addr := (if ?b then from else sc_addr (client sv i))\<rparr>]"
    using hs_frame_entry [OF ok e1] server_okD(3) [OF ok] entry_setD(2) [OF e1] hs_frame_refl [OF ok] by simp_all
  have "server_ok ?s2"
    by (rule quiet_upd_ok) (use hs_frameD [OF s1(1)] in \<open>simp_all add: client_keys_def\<close>)
  then have s2: "hs_frame sv ?s2"
    using s1(1) by (simp add: hs_frame_def)
  have c2: "i < max_clients ?s2" "sc_active (client ?s2 i)"
    using s1(2) i by simp_all
  note e3 = set_id_entry [OF server_okD(1) [OF hs_frameD(1) [OF s2]] c2 cid, of x]
  show "hs_frame sv (init_entry x i cid auto from fd sv)"
    using hs_frame_trans [OF s2 hs_frame_entry [OF hs_frameD(1) [OF s2] e3]] cid by (simp add: init_entry_def)
  show "sv_clients (init_entry x i cid auto from fd sv) = (sv_clients sv)[i := client sv i
      \<lparr>sc_addr := (if ?b then from else sc_addr (client sv i)), sc_last_seen := x_now x, sc_auto := auto, sc_client_id := cid\<rparr>]"
    using entry_setD(2) [OF e3] s1(2) i by (simp add: init_entry_def Let_def)
qed

text \<open>A working session keeps its address: a new one is only offered.\<close>

definition addr_keep :: "server_client \<Rightarrow> server_client \<Rightarrow> bool" where
  "addr_keep c c' \<longleftrightarrow> addr_change c c' \<and> (s_valid (sc_cur c) \<and> sc_ip c \<noteq> 0 \<longrightarrow> sc_ip c' = sc_ip c)"

lemma addr_keep_trans: "addr_keep a b \<Longrightarrow> addr_keep b c \<Longrightarrow> addr_keep a c"
  unfolding addr_keep_def using addr_change_trans addr_change_fields(3) by metis

lemma addr_keep_refl [simp]: "addr_keep c c"
  by (simp add: addr_keep_def)

lemma addr_keep_assigned: "addr_keep c (assigned ip c)"
  using addr_change_ip(2) [of c ip] by (simp add: addr_keep_def assigned_def)

lemma config_hint_same: "sc_ip (client sv i) \<noteq> 0 \<Longrightarrow> config_hint x i w hint sv = sv"
  by (simp add: config_hint_def)

lemma build_config_keep:
  assumes ok: "server_ok sv" and i: "i < max_clients sv" "sc_active (client sv i)"
    and b: "server_build_config x i w hint sv = (sv', r)"
  shows "\<exists>c. sv_clients sv' = (sv_clients sv)[i := c] \<and> addr_keep (client sv i) c"
proof (cases "sc_ip (client sv i) = 0")
  case True
  then show ?thesis
    using build_config_ok(3) [OF ok i b] by (simp add: addr_keep_def)
next
  case False
  obtain s1 a where a: "config_address x i w sv = (s1, a)"
    by fastforce
  note A = config_address_props [OF a]
  have same: "\<exists>c. sv_clients s = (sv_clients sv)[i := c] \<and> addr_keep (client sv i) c" if "sv_clients s = sv_clients sv" for s :: server
    using that by (auto intro: exI [of _ "client sv i"])
  have as: "\<exists>c. sv_clients (server_assign_ip x i y s1) = (sv_clients sv)[i := c] \<and> addr_keep (client sv i) c" for y
    using assign_ip_ok(3) [of s1 i x y] ok i A addr_keep_assigned by auto
  show ?thesis
    using b same A(1) as a unfolding server_build_config_def Let_def config_hint_same [OF False]
    by (auto split: if_splits option.splits)
qed

lemma init_reply_props:
  assumes ok: "server_ok sv" and i: "i < max_clients sv" "sc_active (client sv i)" and r: "init_reply x i cid ip auto sv = (sv', m)"
  shows "hs_frame sv sv'" and "\<exists>c. sv_clients sv' = (sv_clients sv)[i := c] \<and> addr_keep (client sv i) c"
proof -
  let ?s = "case config_ip x cid of None \<Rightarrow> sv | Some a \<Rightarrow> server_assign_ip x i a sv"
  have s: "hs_frame sv ?s \<and> (\<exists>c. sv_clients ?s = (sv_clients sv)[i := c] \<and> addr_keep (client sv i) c)"
  proof (cases "config_ip x cid")
    case None
    then show ?thesis using ok by (auto simp: hs_frame_refl intro: exI [of _ "client sv i"])
  next
    case (Some a)
    then show ?thesis using assign_ip_ok [OF ok i, of x a] addr_keep_assigned by (auto simp: hs_frame_def)
  qed
  then obtain c where c: "sv_clients ?s = (sv_clients sv)[i := c]" "addr_keep (client sv i) c"
    by blast
  have b: "i < max_clients ?s" "sc_active (client ?s i)"
    using c i addr_change_fields(2) [of "client sv i" c] by (auto simp: addr_keep_def)
  have auto: "hs_frame sv sv' \<and> (\<exists>c. sv_clients sv' = (sv_clients sv)[i := c] \<and> addr_keep (client sv i) c)" if auto
  proof -
    from r that have bc: "server_build_config x i cid ip ?s = (sv', m)"
      by (simp add: init_reply_def)
    have so: "server_ok ?s"
      using s hs_frameD by blast
    obtain c2 where c2: "sv_clients sv' = (sv_clients ?s)[i := c2]" "addr_keep (client ?s i) c2"
      using build_config_keep [OF so b bc] by blast
    have "hs_frame ?s sv'"
      using build_config_ok(1,4) [OF so b bc] c2(1) by (simp add: hs_frame_def)
    then show ?thesis
      using s c c2 hs_frame_trans addr_keep_trans [of "client sv i" c c2] i by auto
  qed
  have man: "hs_frame sv sv' \<and> (\<exists>c. sv_clients sv' = (sv_clients sv)[i := c] \<and> addr_keep (client sv i) c)" if "\<not> auto"
  proof -
    let ?u = "upd i (\<lambda>c. c\<lparr>sc_pending_ip := 0\<rparr>) sv"
    have u: "sv' = ?u"
      using r that by (simp add: init_reply_def)
    have "server_ok ?u"
      by (rule upd_ok [OF ok]) (use server_okD(3) [OF ok] in \<open>auto simp: client_keys_def\<close>)
    moreover have "addr_keep (client sv i) (client sv i\<lparr>sc_pending_ip := 0\<rparr>)"
      using addr_changeI [where c = "client sv i" and ip = "sc_ip (client sv i)" and p = 0] by (simp add: addr_keep_def)
    ultimately show ?thesis
      by (auto simp: u hs_frame_def)
  qed
  show "hs_frame sv sv'" and "\<exists>c. sv_clients sv' = (sv_clients sv)[i := c] \<and> addr_keep (client sv i) c"
    using auto man by blast+
qed

subsection \<open>The session, the reply on the wire, success and failure\<close>

lemma init_session_keys [simp]:
  "client_keys (init_session now si ci c1 c2 key ts c) = client_keys c"
  "sc_active (init_session now si ci c1 c2 key ts c) = sc_active c" "sc_client_id (init_session now si ci c1 c2 key ts c) = sc_client_id c"
  "sc_registered (init_session now si ci c1 c2 key ts c)" "sc_psk_key (init_session now si ci c1 c2 key ts c) = key"
  "sc_hs_ts (init_session now si ci c1 c2 key ts c) = ts" "sc_ip (init_session now si ci c1 c2 key ts c) = sc_ip c"
  "sc_auto (init_session now si ci c1 c2 key ts c) = sc_auto c"
  by (simp_all add: init_session_def client_keys_def Let_def)

lemma init_send_props:
  assumes "init_send x i from resp sv = (sv', rc)"
  shows "sv_clients sv' = sv_clients sv" "server_ok sv' = server_ok sv" "sv_leases sv' = sv_leases sv" "sv_tunnel_ip sv' = sv_tunnel_ip sv"
  using assms unfolding init_send_def udp_send_def tcp_frame_def
  by (auto split: if_splits prod.splits)

lemma by_id_lt: "lease_ok t \<Longrightarrow> server_lease_by_id t w = Some i \<Longrightarrow> i < length (lt_leases t)"
  using by_id_Some_iff [of t w i] by (cases "w = []") (simp_all add: server_lease_by_id_def)

lemma init_done_props:
  assumes ok: "server_ok sv" and i: "i < max_clients sv"
  shows "hs_frame sv (init_done x i cid auto sv)"
    and "sv_clients (init_done x i cid auto sv) = (sv_clients sv)[i := (client sv i)
      \<lparr>sc_registered_at := (if sc_registered_at (client sv i) = 0 then x_now x else sc_registered_at (client sv i)),
       sc_session_since := (if sc_session_since (client sv i) = 0 then x_now x else sc_session_since (client sv i)),
       sc_last_hs := x_now x, sc_handshakes := sc_handshakes (client sv i) + 1\<rparr>]"
proof -
  let ?t = "sv_leases sv" and ?f = "\<lambda>c. c\<lparr>sc_registered_at := (if sc_registered_at c = 0 then x_now x else sc_registered_at c),
                      sc_session_since := (if sc_session_since c = 0 then x_now x else sc_session_since c),
                      sc_last_hs := x_now x, sc_handshakes := sc_handshakes c + 1\<rparr>"
  let ?t1 = "server_lease_drop (server_lease_by_id ?t cid) ?t"
  let ?t2 = "server_lease_drop (server_lease_by_ip ?t1 (sc_ip (client sv i))) ?t1"
  have t1: "lease_ok ?t1"
    by (rule server_lease_drop_ok [OF server_okD(2) [OF ok]]) (use by_id_lt [OF server_okD(2) [OF ok]] in blast)
  then have "lease_ok ?t2"
    by (rule server_lease_drop_ok) (use by_ip_Some_iff [OF t1] in blast)
  then have s: "server_ok (if auto then sv\<lparr>sv_leases := ?t2\<rparr> else sv)"
    using ok by (simp add: server_ok_def)
  have "server_ok (init_done x i cid auto sv)"
    unfolding init_done_def Let_def by (rule quiet_upd_ok [OF s]) (simp_all add: client_keys_def)
  then show "hs_frame sv (init_done x i cid auto sv)"
    by (simp add: hs_frame_def init_done_def Let_def)
  show "sv_clients (init_done x i cid auto sv) = (sv_clients sv)[i := (client sv i)
      \<lparr>sc_registered_at := (if sc_registered_at (client sv i) = 0 then x_now x else sc_registered_at (client sv i)),
       sc_session_since := (if sc_session_since (client sv i) = 0 then x_now x else sc_session_since (client sv i)),
       sc_last_hs := x_now x, sc_handshakes := sc_handshakes (client sv i) + 1\<rparr>]"
    by (simp add: init_done_def Let_def)
qed

lemma init_fail_props:
  assumes ok: "server_ok sv" and i: "i < max_clients sv" "sc_active (client sv i)"
    and old: "\<And>c0. old = Some c0 \<Longrightarrow> client_keys c0 = client_keys (client sv i)"
  shows "hs_frame sv (init_fail x i fresh b old sv)"
    and "sv_clients (init_fail x i fresh b old sv) = (sv_clients sv)[i := if fresh then client_wiped else
      (case old of None \<Rightarrow> client sv i
       | Some c0 \<Rightarrow> if s_valid (sc_cur c0) then (client sv i)\<lparr>sc_next := sc_next c0\<rparr>
                    else (client sv i)\<lparr>sc_cur := session_wipe (sc_cur (client sv i))\<rparr>)
      \<lparr>sc_ip := ib_ip b, sc_pending_ip := ib_pending b, sc_registered := \<not> ib_first b, sc_psk_key := ib_psk b\<rparr>]"
proof -
  let ?r = "server_restore_ip x i (ib_ip b) (ib_pending b) sv"
  note e = restore_ip_entry [OF server_okD(1) [OF ok] i, where ip = "ib_ip b" and p = "ib_pending b" and x = x]
  have r: "hs_frame sv ?r"
    by (rule hs_frame_entry [OF ok e]) (simp add: server_okD(3) [OF ok])
  define f :: "server_client \<Rightarrow> server_client" where "f = (\<lambda>c. (case old of None \<Rightarrow> c
       | Some c0 \<Rightarrow> if s_valid (sc_cur c0) then c\<lparr>sc_next := sc_next c0\<rparr> else c\<lparr>sc_cur := session_wipe (sc_cur c)\<rparr>)
      \<lparr>sc_registered := \<not> ib_first b, sc_psk_key := ib_psk b\<rparr>)"
  have f: "client_keys (f c) = client_keys c" "sc_active (f c) = sc_active c" "sc_client_id (f c) = sc_client_id c" for c
    by (simp_all add: f_def client_keys_def split: option.split)
  have fr: "hs_frame sv (upd i f ?r)"
    using quiet_upd_ok [OF hs_frameD(1) [OF r] f] r by (simp add: hs_frame_def)
  have w: "hs_frame sv (upd i (\<lambda>c. client_wiped) sv)"
    using wipe_ok [OF ok, of client_wiped i] by (simp add: hs_frame_def)
  show "hs_frame sv (init_fail x i fresh b old sv)"
    using fr w by (simp add: init_fail_def f_def)
  show "sv_clients (init_fail x i fresh b old sv) = (sv_clients sv)[i := if fresh then client_wiped else
      (case old of None \<Rightarrow> client sv i
       | Some c0 \<Rightarrow> if s_valid (sc_cur c0) then (client sv i)\<lparr>sc_next := sc_next c0\<rparr>
                    else (client sv i)\<lparr>sc_cur := session_wipe (sc_cur (client sv i))\<rparr>)
      \<lparr>sc_ip := ib_ip b, sc_pending_ip := ib_pending b, sc_registered := \<not> ib_first b, sc_psk_key := ib_psk b\<rparr>]"
    using entry_setD(2) [OF e] i by (cases "client sv i") (simp add: init_fail_def split: option.split)
qed

text \<open>A registration, step by step: the reply is built in \<open>s1\<close>, the session made and sent in \<open>s3\<close>.\<close>

lemma init_register_cases:
  assumes "init_register x buffer (hs, key, payload) cid ip auto from fd i fresh sv = (sv', rc)"
  obtains (refused) s1 m where "init_reply x i cid ip auto (init_entry x i cid auto from fd sv) = (s1, m)"
      and "sv' = init_fail x i fresh (init_saved (client sv i)) None s1" and "rc = - 1"
  | (made) s1 reply resp c1 c2 s3 rc3 where "init_reply x i cid ip auto (init_entry x i cid auto from fd sv) = (s1, Some reply)"
      and "init_msg2 x hs (server_new_index x i s1) (v2_read_u32 (drop 5 buffer)) reply = Some (resp, c1, c2)"
      and "init_send x i from resp (upd i (init_session (x_now x) (server_new_index x i s1) (v2_read_u32 (drop 5 buffer))
             c1 c2 key (take V2_TIMESTAMP_LEN payload)) s1) = (s3, rc3)"
      and "rc3 < 0 \<Longrightarrow> sv' = init_fail x i fresh (init_saved (client sv i)) (Some (client s1 i)) s3 \<and> rc = - 1"
      and "\<not> rc3 < 0 \<Longrightarrow> sv' = init_done x i cid auto s3 \<and> rc = 0"
proof -
  obtain s1 m where r: "init_reply x i cid ip auto (init_entry x i cid auto from fd sv) = (s1, m)"
    by fastforce
  show thesis
  proof (cases m)
    case None
    then show thesis
      using assms r refused by (simp add: init_register_def Let_def)
  next
    case (Some reply)
    let ?si = "server_new_index x i s1" and ?ci = "v2_read_u32 (drop 5 buffer)"
    show thesis
    proof (cases "init_msg2 x hs ?si ?ci reply")
      case None
      then show thesis
        using assms r Some refused by (simp add: init_register_def Let_def)
    next
      case S2: (Some q)
      obtain resp c1 c2 where q: "q = (resp, c1, c2)"
        by (rule prod_cases3)
      obtain s3 rc3 where s: "init_send x i from resp (upd i (init_session (x_now x) ?si ?ci
             c1 c2 key (take V2_TIMESTAMP_LEN payload)) s1) = (s3, rc3)"
        by fastforce
      show thesis
        using assms r Some S2 s unfolding q by (intro made) (auto simp: init_register_def Let_def)
    qed
  qed
qed

text \<open>What every registration does to the table, whatever the entry.\<close>

lemma init_register_frame:
  assumes ok: "server_ok sv" and i: "i < max_clients sv" "sc_active (client sv i)" and cid: "length cid < CAMEX_CLIENT_ID_LEN"
    and e: "init_register x buffer (hs, key, payload) cid ip auto from fd i fresh sv = (sv', rc)"
  shows "hs_frame sv sv'" and "\<exists>c. sv_clients sv' = (sv_clients sv)[i := c] \<and>
    (rc = 0 \<longrightarrow> sc_active c \<and> sc_registered c \<and> sc_client_id c = cid \<and> sc_psk_key c = key \<and> sc_auto c = auto \<and>
       sc_hs_ts c = take V2_TIMESTAMP_LEN payload) \<and>
    (fd < 0 \<and> live (client sv i) \<and> \<not> fresh \<longrightarrow> live_kept (client sv i) c \<and> (rc \<noteq> 0 \<longrightarrow> same_kept (client sv i) c))"
proof -
  let ?s0 = "init_entry x i cid auto from fd sv"
  let ?P = "\<lambda>c rc. (rc = 0 \<longrightarrow> sc_active c \<and> sc_registered c \<and> sc_client_id c = cid \<and> sc_psk_key c = key \<and> sc_auto c = auto \<and>
       sc_hs_ts c = take V2_TIMESTAMP_LEN payload) \<and>
    (fd < 0 \<and> live (client sv i) \<and> \<not> fresh \<longrightarrow> live_kept (client sv i) c \<and> (rc \<noteq> 0 \<longrightarrow> same_kept (client sv i) c))"
  note E = init_entry_props [OF ok i cid, of x auto "from" fd]
  have e0: "i < max_clients ?s0" "sc_active (client ?s0 i)" "max_clients ?s0 = max_clients sv"
    using E i by simp_all
  have R: "hs_frame sv s1 \<and> (\<exists>c. sv_clients s1 = (sv_clients sv)[i := c] \<and> addr_keep (client ?s0 i) c)"
    if "init_reply x i cid ip auto ?s0 = (s1, m)" for s1 m
    using init_reply_props [OF hs_frameD(1) [OF E(1)] e0(1,2) that] hs_frame_trans [OF E(1)] E(2) by auto
  have fk: "?P c' (- 1 :: int)" if k: "addr_keep (client ?s0 i) c" and c': "c' = (if fresh then client_wiped else
      d\<lparr>sc_ip := sc_ip (client sv i), sc_pending_ip := sc_pending_ip (client sv i), sc_registered := sc_registered (client sv i),
        sc_psk_key := sc_psk_key (client sv i)\<rparr>)"
      and d: "live (client sv i) \<Longrightarrow> sc_active d = sc_active c \<and> sc_cur d = sc_cur c \<and> sc_prev d = sc_prev c \<and> sc_next d = sc_next c \<and>
        sc_addr d = sc_addr c \<and> sc_tcp_fd d = sc_tcp_fd c" for c c' d
    using k d E(2) i addr_change_fields [of "client ?s0 i" c] unfolding c' addr_keep_def
    by (auto simp: same_kept_def live_kept_def live_def)
  from e have "hs_frame sv sv' \<and> (\<exists>c. sv_clients sv' = (sv_clients sv)[i := c] \<and> ?P c rc)"
  proof (cases rule: init_register_cases)
    case (refused s1 m)
    obtain c where c: "hs_frame sv s1" "sv_clients s1 = (sv_clients sv)[i := c]" "addr_keep (client ?s0 i) c"
      using R [OF refused(1)] by blast
    have a: "i < max_clients s1" "sc_active (client s1 i)"
      using c i e0(2) addr_change_fields(2) [of "client ?s0 i" c] by (simp_all add: addr_keep_def)
    note F = init_fail_props [OF hs_frameD(1) [OF c(1)] a, where old = None and x = x and fresh = fresh and b = "init_saved (client sv i)"]
    show ?thesis
      unfolding refused(2,3) using F hs_frame_trans [OF c(1)] c(2) fk [OF c(3) refl] i
      by (auto simp: init_saved_def)
  next
    case (made s1 reply resp c1 c2 s3 rc3)
    obtain c where c: "hs_frame sv s1" "sv_clients s1 = (sv_clients sv)[i := c]" "addr_keep (client ?s0 i) c"
      using R [OF made(1)] by blast
    have a: "i < max_clients s1" "sc_active (client s1 i)" "client s1 i = c" "sc_active c"
      using c i e0(2) addr_change_fields(2) [of "client ?s0 i" c] by (simp_all add: addr_keep_def)
    let ?n = "init_session (x_now x) (server_new_index x i s1) (v2_read_u32 (drop 5 buffer)) c1 c2 key (take V2_TIMESTAMP_LEN payload)"
    note S = init_send_props [OF made(3)]
    have "server_ok (upd i ?n s1)"
      by (rule quiet_upd_ok [OF hs_frameD(1) [OF c(1)]]) simp_all
    then have s3: "hs_frame sv s3" "sv_clients s3 = (sv_clients sv)[i := ?n c]"
      using c S a by (simp_all add: hs_frame_def)
    have b: "i < max_clients s3" "sc_active (client s3 i)"
      using s3(2) i a(4) by simp_all
    show ?thesis
    proof (cases "rc3 < 0")
      case True
      have k: "client_keys c0 = client_keys (client s3 i)" if "Some (client s1 i) = Some c0" for c0
        using that s3(2) i a(3) by simp
      note F = init_fail_props [where old = "Some (client s1 i)" and x = x and fresh = fresh and b = "init_saved (client sv i)", OF hs_frameD(1) [OF s3(1)] b k]
      let ?d = "if s_valid (sc_cur c) then (?n c)\<lparr>sc_next := sc_next c\<rparr> else (?n c)\<lparr>sc_cur := session_wipe (sc_cur (?n c))\<rparr>"
      have d: "sc_active ?d = sc_active c \<and> sc_cur ?d = sc_cur c \<and> sc_prev ?d = sc_prev c \<and> sc_next ?d = sc_next c \<and>
          sc_addr ?d = sc_addr c \<and> sc_tcp_fd ?d = sc_tcp_fd c" if "live (client sv i)"
        using that c(3) E(2) i addr_change_fields(3) [of "client ?s0 i" c]
        by (simp add: live_def addr_keep_def init_session_def Let_def)
      have cl: "sv_clients sv' = (sv_clients sv)[i := if fresh then client_wiped else
          ?d\<lparr>sc_ip := sc_ip (client sv i), sc_pending_ip := sc_pending_ip (client sv i), sc_registered := sc_registered (client sv i),
            sc_psk_key := sc_psk_key (client sv i)\<rparr>]"
        using made(4) [OF True] F(2) s3(2) i a(3) by (cases fresh) (simp_all add: init_saved_def)
      show ?thesis
        using made(4) [OF True] F(1) hs_frame_trans [OF s3(1)] cl fk [OF c(3) refl d] by blast
    next
      case False
      note D = init_done_props [OF hs_frameD(1) [OF s3(1)] b(1), of x cid auto]
      let ?c = "(?n c)\<lparr>sc_registered_at := (if sc_registered_at (?n c) = 0 then x_now x else sc_registered_at (?n c)),
        sc_session_since := (if sc_session_since (?n c) = 0 then x_now x else sc_session_since (?n c)),
        sc_last_hs := x_now x, sc_handshakes := sc_handshakes (?n c) + 1\<rparr>"
      have "live_kept (client sv i) ?c" if "fd < 0" "live (client sv i)"
        using that c(3) E(2) i addr_change_fields [of "client ?s0 i" c]
        by (simp add: live_def live_kept_def addr_keep_def init_session_def Let_def)
      moreover have "sc_client_id c = cid" "sc_auto c = auto"
        using c(3) E(2) i addr_change_fields [of "client ?s0 i" c] by (simp_all add: addr_keep_def)
      moreover have "sv_clients sv' = (sv_clients sv)[i := ?c]" "hs_frame sv sv'" "rc = 0"
        using made(5) [OF False] D hs_frame_trans [OF s3(1)] s3(2) i by simp_all
      ultimately show ?thesis
        using a(4) by (intro conjI exI [of _ ?c]) simp_all
    qed
  qed
  then show "hs_frame sv sv'" and "\<exists>c. sv_clients sv' = (sv_clients sv)[i := c] \<and> ?P c rc"
    by blast+
qed


subsection \<open>\<open>server_handle_init\<close> as a whole\<close>

lemma authenticate_found:
  assumes ks: "ks_ok (x_ks x)" and a: "init_authenticate x buffer from sv = (sv', Some (hs, key, payload))"
  shows "config_ks_contains (x_ks x) key \<and> V2_TIMESTAMP_LEN \<le> length payload \<and>
    (\<exists>es. noise_msg1_es (x_mc x) (noise_init_responder (x_mc x) CAMEX_NOISE_PROLOGUE (cc_server_priv (x_crypto x)) (cc_server_pub (x_crypto x)))
        (drop V2_INIT_HDR (take (length buffer - V2_MAC_LEN) buffer)) = Some es \<and>
      noise_read_msg1 (x_mc x) (noise_init_responder (x_mc x) CAMEX_NOISE_PROLOGUE (cc_server_priv (x_crypto x)) (cc_server_pub (x_crypto x)))
        key es (drop V2_INIT_HDR (take (length buffer - V2_MAC_LEN) buffer)) (V2_TIMESTAMP_LEN + CAMEX_CONTROL_MAX - 1) = (hs, Some payload))"
    and "\<exists>e\<in>set (ks_entries (x_ks x)). \<not> kse_locked e \<and> key = kse_psk_key e"
proof -
  let ?base = "noise_init_responder (x_mc x) CAMEX_NOISE_PROLOGUE (cc_server_priv (x_crypto x)) (cc_server_pub (x_crypto x))"
  let ?msg = "drop V2_INIT_HDR (take (length buffer - V2_MAC_LEN) buffer)"
  obtain es and src :: source and sv2 :: server and src2 s2 s3 where es: "noise_msg1_es (x_mc x) ?base ?msg = Some es"
      and t: "key_trials x ?base es ?msg (case src_known src of None \<Rightarrow> None | Some k \<Rightarrow> config_ks_find (x_ks x) (sc_psk_key (client sv2 k)))
        (trial_order (x_ks x) (case src_known src of None \<Rightarrow> None | Some k \<Rightarrow> config_ks_find (x_ks x) (sc_psk_key (client sv2 k))))
        src2 s2 = (s3, Some (hs, key, payload))"
      and len: "V2_TIMESTAMP_LEN \<le> length payload"
  proof -
    obtain sv1 s where 1: "server_source_for x from sv = (sv1, s)"
      by fastforce
    obtain r src b where 2: "server_handshake_budget (x_mc x) (x_share_rnd x) (x_now x) s (sv_budget sv1) = (r, src, b)"
      by (rule prod_cases3)
    define ow where "ow = (case src_known src of None \<Rightarrow> None | Some k \<Rightarrow> config_ks_find (x_ks x) (sc_psk_key (client (sv1\<lparr>sv_budget := b\<rparr>) k)))"
    note a1 = a [unfolded init_authenticate_def Let_def 1 2 prod.case, folded ow_def]
    have g: "cc_has_server_key (x_crypto x)" "r = 0" "noise_msg1_es (x_mc x) ?base ?msg \<noteq> None"
      using a1 by (auto split: if_splits option.splits)
    then obtain es where es: "noise_msg1_es (x_mc x) ?base ?msg = Some es"
      by blast
    obtain s3 m3 where t: "key_trials x ?base es ?msg ow (trial_order (x_ks x) ow) src (sv1\<lparr>sv_budget := b\<rparr>) = (s3, m3)"
      by fastforce
    have m: "m3 = Some (hs, key, payload)" "V2_TIMESTAMP_LEN \<le> length payload"
      using a1 g es t by (cases m3; auto split: if_splits)+
    show thesis
      by (rule that [OF es t [unfolded ow_def m(1)] m(2)])
  qed
  define own where "own = (case src_known src of None \<Rightarrow> None | Some k \<Rightarrow> config_ks_find (x_ks x) (sc_psk_key (client sv2 k)))"
  have "ks_keys_indexed (x_ks x) (length (ks_entries (x_ks x)))"
    using ks by (simp add: ks_ok_def)
  then have own: "o' < length (ks_entries (x_ks x))" if "own = Some o'" for o'
    using that by (auto simp: own_def config_ks_find_def ks_find_key_scan dest: scan_firstD split: option.splits)
  obtain i where i: "i \<in> set (trial_order (x_ks x) own)" "key = kse_psk_key (ks_entries (x_ks x) ! i)"
      "\<not> kse_locked (ks_entries (x_ks x) ! i)"
      "noise_read_msg1 (x_mc x) ?base key es ?msg (V2_TIMESTAMP_LEN + CAMEX_CONTROL_MAX - 1) = (hs, Some payload)"
    using key_trials_found [OF t [folded own_def]] by blast
  then have "i < length (ks_entries (x_ks x))"
    using trial_order_set(1) [OF own] by blast
  then have e: "\<exists>e\<in>set (ks_entries (x_ks x)). \<not> kse_locked e \<and> key = kse_psk_key e"
    using i nth_mem by blast
  then have "config_ks_contains (x_ks x) key"
    by (auto simp: ks_queries(3) [OF ks] memeq32_def)
  then show "config_ks_contains (x_ks x) key \<and> V2_TIMESTAMP_LEN \<le> length payload \<and>
    (\<exists>es. noise_msg1_es (x_mc x) ?base ?msg = Some es \<and>
      noise_read_msg1 (x_mc x) ?base key es ?msg (V2_TIMESTAMP_LEN + CAMEX_CONTROL_MAX - 1) = (hs, Some payload))"
    using es i(4) len by blast
  show "\<exists>e\<in>set (ks_entries (x_ks x)). \<not> kse_locked e \<and> key = kse_psk_key e"
    by (rule e)
qed

lemma request_allowed:
  assumes "init_request x key payload = Some (cid, ip, auto)"
  shows "length cid < CAMEX_CLIENT_ID_LEN" and "\<exists>w. server_register_allowed x key w ip auto = Some cid"
proof -
  obtain m where m: "proto_parse_register (cstr (drop V2_TIMESTAMP_LEN payload)) reg_empty = Some m"
      and a: "server_register_allowed x key (r_client_id m) (r_local_ip m) (r_auto m) = Some cid" "ip = r_local_ip m" "auto = r_auto m"
    using assms by (auto simp: init_request_def split: option.splits)
  have "length (r_client_id m) < CAMEX_CLIENT_ID_LEN"
    using register_sound(1) [OF m] by (simp add: reg_fits_def reg_empty_def CAMEX_CLIENT_ID_LEN_def)
  then show "length cid < CAMEX_CLIENT_ID_LEN"
    using a(1) by (auto simp: server_register_allowed_def Let_def fit_def CAMEX_CLIENT_ID_LEN_def split: if_splits option.splits)
  show "\<exists>w. server_register_allowed x key w ip auto = Some cid"
    using a by blast
qed

text \<open>A handshake ends before an entry is chosen, or registers at one.\<close>

lemma handle_init_cases:
  assumes "server_handle_init x buffer from fd sv = (sv', rc)"
  obtains (stopped) sv1 m where "init_authenticate x buffer from sv = (sv1, m)" and "rc = - 1"
      and "sv' = sv1 \<or> (\<exists>k. sv' = upd k (server_log_stale_handshake x) sv1)"
  | (unplaced) sv1 hs key payload cid ip auto fresh where "init_authenticate x buffer from sv = (sv1, Some (hs, key, payload))"
      and "init_request x key payload = Some (cid, ip, auto)" and "rc = - 1"
      and "server_entry_for x key cid ip auto from fd sv1 = (sv', None, fresh)"
  | (placed) sv1 hs key payload cid ip auto fresh sv2 i where "init_authenticate x buffer from sv = (sv1, Some (hs, key, payload))"
      and "init_request x key payload = Some (cid, ip, auto)"
      and "server_entry_for x key cid ip auto from fd sv1 = (sv2, Some i, fresh)"
      and "init_register x buffer (hs, key, payload) cid ip auto from fd i fresh sv2 = (sv', rc)"
proof -
  obtain sv1 m where m: "init_authenticate x buffer from sv = (sv1, m)"
    by fastforce
  show thesis
  proof (cases m)
    case None
    then show thesis using assms m stopped by (simp add: server_handle_init_def)
  next
    case (Some q)
    obtain hs key payload where q: "q = (hs, key, payload)"
      by (rule prod_cases3)
    show thesis
    proof (cases "init_request x key payload")
      case None
      then show thesis using assms m Some q stopped by (simp add: server_handle_init_def)
    next
      case R: (Some r)
      obtain cid ip auto where r: "r = (cid, ip, auto)"
        by (rule prod_cases3)
      let ?own = "case init_owner sv1 cid ip auto of None \<Rightarrow> None
        | Some k \<Rightarrow> if init_stale x key payload (client sv1 k) then Some k else None"
      note e = assms [unfolded server_handle_init_def m Some q R r prod.case option.case]
      show thesis
      proof (cases ?own)
        case S: (Some k)
        show thesis using e [unfolded S option.case] m stopped by auto
      next
        case N: None
        note e1 = e [unfolded N option.case]
        show thesis
        proof (cases "auto \<and> config_ip_taken x sv1 cid")
          case True
          show thesis using e1 [unfolded if_P [OF True]] m stopped by auto
        next
          case False
          obtain s2 e2 f where f: "server_entry_for x key cid ip auto from fd sv1 = (s2, e2, f)"
            by (rule prod_cases3)
          note e3 = e1 [unfolded if_not_P [OF False] f prod.case]
          have m': "init_authenticate x buffer from sv = (sv1, Some (hs, key, payload))"
            using m Some q by simp
          have r': "init_request x key payload = Some (cid, ip, auto)"
            using R r by simp
          show thesis
          proof (cases e2)
            case None
            then show thesis using e3 unplaced [OF m' r'] f by auto
          next
            case (Some i)
            then show thesis using e3 placed [OF m' r'] f by simp
          qed
        qed
      qed
    qed
  qed
qed

lemma stale_same: "same_kept c (server_log_stale_handshake x c)" "client_keys (server_log_stale_handshake x c) = client_keys c"
  "sc_active (server_log_stale_handshake x c) = sc_active c" "sc_client_id (server_log_stale_handshake x c) = sc_client_id c"
  by (simp_all add: server_log_stale_handshake_def same_kept_def live_kept_def client_keys_def)

lemma handle_init_frame:
  assumes ok: "server_ok sv" and h: "server_handle_init x buffer from fd sv = (sv', rc)"
  shows "hs_frame sv sv'"
  using h
proof (cases rule: handle_init_cases)
  case (stopped sv1 m)
  have f: "hs_frame sv sv1"
    using authenticate_props [OF ok stopped(1)] by (simp add: hs_frame_def)
  have "hs_frame sv1 (upd k (server_log_stale_handshake x) sv1)" for k
    using quiet_upd_ok [OF hs_frameD(1) [OF f], of "server_log_stale_handshake x" k] stale_same by (simp add: hs_frame_def)
  then show ?thesis
    using stopped(3) f hs_frame_trans by auto
next
  case (unplaced sv1 hs key payload cid ip auto fresh)
  have f: "hs_frame sv sv1"
    using authenticate_props [OF ok unplaced(1)] by (simp add: hs_frame_def)
  show ?thesis
    using entry_for_props(1) [OF hs_frameD(1) [OF f] unplaced(4)] hs_frame_trans [OF f] by (simp add: entry_result_def)
next
  case (placed sv1 hs key payload cid ip auto fresh sv2 i)
  have f: "hs_frame sv sv1"
    using authenticate_props [OF ok placed(1)] by (simp add: hs_frame_def)
  have e: "hs_frame sv1 sv2" "i < max_clients sv2" "sc_active (client sv2 i)"
    using entry_for_props(1) [OF hs_frameD(1) [OF f] placed(3)] by (auto simp: entry_result_def hs_frame_def)
  show ?thesis
    using init_register_frame(1) [OF hs_frameD(1) [OF e(1)] e(2,3) request_allowed(1) [OF placed(2)] placed(4)]
      hs_frame_trans f e(1) by blast
qed

lemma handle_init_live:
  assumes ok: "server_ok sv" and fd: "fd < 0" and room: "no_eviction x sv"
    and h: "server_handle_init x buffer from fd sv = (sv', rc)" and j: "j < max_clients sv" "live (client sv j)"
  shows "live_kept (client sv j) (client sv' j) \<and> (rc \<noteq> 0 \<longrightarrow> same_kept (client sv j) (client sv' j))"
proof -
  have first: "hs_frame sv sv1 \<and> (\<forall>k. same_kept (client sv k) (client sv1 k)) \<and> no_eviction x sv1"
    if "init_authenticate x buffer from sv = (sv1, m)" for sv1 m
  proof -
    note p = authenticate_props [OF ok that]
    have "sc_active (client sv1 k) = sc_active (client sv k)" for k
      using p by (simp add: same_kept_def live_kept_def)
    then show ?thesis
      using p room by (auto simp: hs_frame_def no_eviction_def server_pool_holding_def)
  qed
  have entry: "live_same sv1 sv2 \<and> live (client sv1 j) \<and> entry_result sv1 sv2 r fresh"
    if "init_authenticate x buffer from sv = (sv1, m)" "server_entry_for x key cid ip auto from fd sv1 = (sv2, r, fresh)"
    for sv1 m key cid ip auto sv2 r fresh
    using first [OF that(1)] entry_for_props [OF _ that(2)] fd j(2) same_kept_live hs_frameD(1) by blast
  from h show ?thesis
  proof (cases rule: handle_init_cases)
    case (stopped sv1 m)
    have "same_kept (client sv1 j) (client (upd k (server_log_stale_handshake x) sv1) j)" for k
      by (simp add: nth_update stale_same)
    then have "same_kept (client sv j) (client sv' j)"
      using first [OF stopped(1)] stopped(3) same_kept_trans by blast
    then show ?thesis
      by (simp add: same_kept_def)
  next
    case (unplaced sv1 hs key payload cid ip auto fresh)
    have "same_kept (client sv j) (client sv' j)"
      using entry [OF unplaced(1,4)] first [OF unplaced(1)] j(1) hs_frameD(2) same_kept_trans
      unfolding live_same_def by metis
    then show ?thesis
      by (simp add: same_kept_def)
  next
    case (placed sv1 hs key payload cid ip auto fresh sv2 i)
    note f = first [OF placed(1)] and e = entry [OF placed(1,3)]
    have sv2: "same_kept (client sv j) (client sv2 j)"
      using f e j(1) hs_frameD(2) same_kept_trans unfolding live_same_def by metis
    then have lv: "live (client sv2 j)"
      using same_kept_live j(2) by blast
    have i: "server_ok sv2" "i < max_clients sv2" "sc_active (client sv2 i)" "fresh \<longrightarrow> i \<noteq> j"
      using e lv by (auto simp: entry_result_def hs_frame_def)
    obtain c where c: "sv_clients sv' = (sv_clients sv2)[i := c]"
      "fd < 0 \<and> live (client sv2 i) \<and> \<not> fresh \<longrightarrow> live_kept (client sv2 i) c \<and> (rc \<noteq> 0 \<longrightarrow> same_kept (client sv2 i) c)"
      using init_register_frame(2) [OF i(1-3) request_allowed(1) [OF placed(2)] placed(4)] by blast
    have "live_kept (client sv2 j) (client sv' j) \<and> (rc \<noteq> 0 \<longrightarrow> same_kept (client sv2 j) (client sv' j))"
      using c lv i(2,4) fd by (cases "i = j") auto
    then show ?thesis
      using sv2 live_kept_trans same_kept_trans by (metis same_kept_def)
  qed
qed

end
