(* ===== verification/Forward.thy ===== *)
theory Forward
  imports Handshake
begin

text \<open>
  Data packets of \<open>src/server.c\<close>: \<open>server_handle_data\<close> (find the session, open the packet, promote
  a new session, answer a keepalive, check the source address, isolate clients),
  \<open>server_forward_packet\<close> (to a client's session or to the tunnel) and \<open>server_handle_packet\<close>.
\<close>

subsection \<open>The session a packet names\<close>

datatype which_session = CUR | NEXT | PREV

fun sess :: "which_session \<Rightarrow> server_client \<Rightarrow> session" where
  "sess CUR c = sc_cur c"
| "sess NEXT c = sc_next c"
| "sess PREV c = sc_prev c"

fun set_sess :: "which_session \<Rightarrow> session \<Rightarrow> server_client \<Rightarrow> server_client" where
  "set_sess CUR s c = c\<lparr>sc_cur := s\<rparr>"
| "set_sess NEXT s c = c\<lparr>sc_next := s\<rparr>"
| "set_sess PREV s c = c\<lparr>sc_prev := s\<rparr>"

text \<open>The low half of the index is the slot number plus one.\<close>

definition data_session :: "srv_ctx \<Rightarrow> server \<Rightarrow> u32 \<Rightarrow> (nat \<times> which_session) option" where
  "data_session x sv idx =
     (let slot1 = unat (idx AND 0xFFFF); c = client sv (slot1 - 1)
      in if slot1 = 0 \<or> slot1 > max_clients sv \<or> \<not> sc_active c then None
         else if s_valid (sc_cur c) \<and> s_local_index (sc_cur c) = idx then Some (slot1 - 1, CUR)
         else if s_valid (sc_next c) \<and> s_local_index (sc_next c) = idx then Some (slot1 - 1, NEXT)
         else if s_valid (sc_prev c) \<and> s_local_index (sc_prev c) = idx \<and> x_now x \<le> sc_prev_until c then Some (slot1 - 1, PREV)
         else None)"

subsection \<open>To a client or to the tunnel\<close>

text \<open>\<open>packet_write\<close>: the backend answers \<open>x_tun\<close>.\<close>

definition tun_write :: "srv_ctx \<Rightarrow> bytes \<Rightarrow> server \<Rightarrow> server \<times> int" where
  "tun_write x packet sv = (sv\<lparr>sv_sent := sv_sent sv @ [Sent_tun packet]\<rparr>, x_tun x)"

definition count_tx :: "nat \<Rightarrow> nat \<Rightarrow> server \<Rightarrow> server" where
  "count_tx i len sv = upd i (\<lambda>c. c\<lparr>sc_tx_packets := sc_tx_packets c + 1, sc_tx_bytes := sc_tx_bytes c + of_nat len\<rparr>) sv"

definition server_forward_packet :: "srv_ctx \<Rightarrow> bytes \<Rightarrow> u32 \<Rightarrow> server \<Rightarrow> server \<times> int" where
  "server_forward_packet x packet dst_ip sv =
     (case server_find_by_ip sv dst_ip of
        None \<Rightarrow> tun_write x packet sv
      | Some k \<Rightarrow>
          if \<not> s_valid (sc_cur (client sv k)) then (sv, - 1)
          else case session_seal (x_mc x) (sc_cur (client sv k)) packet (TUN_PACKET_MAX + V2_OVERHEAD) of
                 (s, None) \<Rightarrow> (sv, - 1)
               | (s, Some out) \<Rightarrow>
                   (let sv1 = upd k (\<lambda>c. c\<lparr>sc_cur := s\<rparr>) sv
                    in if sc_tcp_fd (client sv1 k) \<ge> 0
                       then (case tcp_frame x (sc_tcp_fd (client sv1 k)) out sv1 of
                               (sv2, rc, accepted) \<Rightarrow> (if accepted then count_tx k (length packet) sv2 else sv2, rc))
                       else (case server_send x k out sv1 of
                               (sv2, rc) \<Rightarrow> (if rc = 0 then count_tx k (length packet) sv2 else sv2, rc))))"

subsection \<open>\<open>server_handle_data\<close>\<close>

definition server_client_isolation :: "srv_ctx \<Rightarrow> bool" where
  "server_client_isolation x \<longleftrightarrow> x_isolation x \<or> g_client_isolation (x_globals x)"

text \<open>The client's first packet on its new session: it becomes current, with its pending address.\<close>

definition data_promote :: "srv_ctx \<Rightarrow> nat \<Rightarrow> server \<Rightarrow> server" where
  "data_promote x i sv =
     (let sv1 = upd i (\<lambda>c. c\<lparr>sc_prev := sc_cur c, sc_prev_until := x_now x + V2_PREV_SESSION_GRACE, sc_prev_ip := sc_ip c,
                             sc_cur := sc_next c, sc_next := session_wipe (sc_next c)\<rparr>) sv;
          pending = sc_pending_ip (client sv1 i)
      in if pending = 0 then sv1
         else let sv2 = upd i (\<lambda>c. c\<lparr>sc_pending_ip := 0\<rparr>) (server_set_ip x i pending sv1);
                  t = sv_leases sv2
              in sv2\<lparr>sv_leases := server_lease_drop (server_lease_by_ip t (sc_ip (client sv2 i))) t\<rparr>)"

definition data_seen :: "srv_ctx \<Rightarrow> nat \<Rightarrow> sockaddr_in \<Rightarrow> int \<Rightarrow> nat \<Rightarrow> server \<Rightarrow> server" where
  "data_seen x i from fd len sv =
     upd i (\<lambda>c. c\<lparr>sc_last_seen := x_now x, sc_last_data := x_now x, sc_rx_packets := sc_rx_packets c + 1,
                  sc_rx_bytes := sc_rx_bytes c + of_nat len\<rparr>)
       (if fd < 0 \<and> \<not> net_sockaddr_equal (sc_addr (client sv i)) from then server_set_addr x i from sv else sv)"

definition data_answer :: "srv_ctx \<Rightarrow> nat \<Rightarrow> server \<Rightarrow> server" where
  "data_answer x i sv =
     (case session_seal (x_mc x) (sc_cur (client sv i)) [] V2_OVERHEAD of
        (s, None) \<Rightarrow> sv
      | (s, Some ka) \<Rightarrow>
          (let sv1 = upd i (\<lambda>c. c\<lparr>sc_cur := s\<rparr>) sv;
               (sv2, accepted) = (if sc_tcp_fd (client sv1 i) \<ge> 0
                                  then (case tcp_frame x (sc_tcp_fd (client sv1 i)) ka sv1 of (sv2, rc, accepted) \<Rightarrow> (sv2, accepted))
                                  else (case server_send x i ka sv1 of (sv2, rc) \<Rightarrow> (sv2, rc = 0)))
           in if accepted then upd i (\<lambda>c. c\<lparr>sc_tx_packets := sc_tx_packets c + 1\<rparr>) sv2 else sv2))"

definition data_forward :: "srv_ctx \<Rightarrow> nat \<Rightarrow> which_session \<Rightarrow> bytes \<Rightarrow> server \<Rightarrow> server \<times> int" where
  "data_forward x i w plain sv =
     (case ipv4_parse_endpoints plain of
        None \<Rightarrow> (sv, 0)
      | Some (src_ip, dst_ip) \<Rightarrow>
          (let c = client sv i; own_ip = (if w = PREV \<and> sc_prev_ip c \<noteq> 0 then sc_prev_ip c else sc_ip c)
           in if own_ip = 0 \<or> src_ip \<noteq> own_ip then (sv, - 1)
              else if server_client_isolation x \<and> server_find_by_ip sv dst_ip \<notin> {None, Some i}
                   then (upd i (\<lambda>c. c\<lparr>sc_isolation_drops := sc_isolation_drops c + 1\<rparr>)
                           (sv\<lparr>sv_isolation_drops := sv_isolation_drops sv + 1\<rparr>), 0)
              else server_forward_packet x plain dst_ip sv))"

definition server_handle_data :: "srv_ctx \<Rightarrow> bytes \<Rightarrow> sockaddr_in \<Rightarrow> int \<Rightarrow> server \<Rightarrow> server \<times> int" where
  "server_handle_data x buffer from fd sv =
     (case data_session x sv (v2_data_receiver buffer) of
        None \<Rightarrow> (sv, - 1)
      | Some (i, w) \<Rightarrow>
          if fd \<ge> 0 \<and> sc_tcp_fd (client sv i) \<noteq> fd then (sv, - 1)
          else case session_open (x_mc x) (sess w (client sv i)) buffer TUN_PACKET_MAX of
                 (s, None) \<Rightarrow> (sv, - 1)
               | (s, Some plain) \<Rightarrow>
                   (let sv1 = upd i (set_sess w s) sv;
                        sv2 = (if w = NEXT then data_promote x i sv1 else sv1);
                        sv3 = data_seen x i from fd (length plain) sv2
                    in if plain = [] then (data_answer x i sv3, 0) else data_forward x i w plain sv3))"

definition server_handle_packet :: "srv_ctx \<Rightarrow> bytes \<Rightarrow> sockaddr_in \<Rightarrow> int \<Rightarrow> server \<Rightarrow> server \<times> int" where
  "server_handle_packet x buffer from fd sv =
     (if buffer = [] then (sv, - 1)
      else if v2_packet_type buffer = V2_TYPE_INIT then server_handle_init x buffer from fd sv
      else if v2_packet_type buffer = V2_TYPE_DATA then server_handle_data x buffer from fd sv
      else (sv, - 1))"


subsection \<open>Frames\<close>

lemma tcp_frame_props:
  assumes "tcp_frame x fd data sv = (sv', rc, acc)"
  shows "sv_clients sv' = sv_clients sv" "server_ok sv' = server_ok sv" "sv_tunnel_ip sv' = sv_tunnel_ip sv"
    "sv_leases sv' = sv_leases sv"
    "\<exists>out. sv_sent sv' = sv_sent sv @ [Sent_tcp fd out]"
  using assms by (auto simp: tcp_frame_def split: prod.splits)

lemma server_send_props:
  assumes "server_send x i data sv = (sv', rc)"
  shows "sv_clients sv' = sv_clients sv" "server_ok sv' = server_ok sv" "sv_tunnel_ip sv' = sv_tunnel_ip sv"
    "sv_leases sv' = sv_leases sv"
  using assms by (auto simp: server_send_def udp_send_def tcp_frame_def split: prod.splits if_splits)

text \<open>What sending to a client changes in its entry: the send counter of its session and statistics.\<close>

definition untraffic :: "server_client \<Rightarrow> server_client" where
  "untraffic c = c\<lparr>sc_cur := (sc_cur c)\<lparr>s_send_n := 0\<rparr>, sc_tx_packets := 0, sc_tx_bytes := 0, sc_isolation_drops := 0\<rparr>"

definition traffic :: "server_client \<Rightarrow> server_client \<Rightarrow> bool" where
  "traffic c c' \<longleftrightarrow> untraffic c' = untraffic c"

lemma trafficI:
  "traffic c (c\<lparr>sc_cur := (sc_cur c)\<lparr>s_send_n := n\<rparr>\<rparr>)"
  "traffic c (c\<lparr>sc_tx_packets := p\<rparr>)" "traffic c (c\<lparr>sc_tx_packets := p, sc_tx_bytes := b\<rparr>)" "traffic c (c\<lparr>sc_isolation_drops := d\<rparr>)"
  "traffic c c"
  by (cases c; simp add: traffic_def untraffic_def)+

lemma traffic_trans: "traffic a b \<Longrightarrow> traffic b c \<Longrightarrow> traffic a c"
  by (simp add: traffic_def)

lemma traffic_fields:
  assumes "traffic c c'"
  shows "client_keys c' = client_keys c" "sc_active c' = sc_active c" "sc_client_id c' = sc_client_id c" "sc_ip c' = sc_ip c" "sc_next c' = sc_next c"
    "sc_prev c' = sc_prev c" "sc_prev_until c' = sc_prev_until c" "sc_prev_ip c' = sc_prev_ip c" "sc_pending_ip c' = sc_pending_ip c"
    "sc_addr c' = sc_addr c" "sc_tcp_fd c' = sc_tcp_fd c" "sc_registered c' = sc_registered c" "sc_psk_key c' = sc_psk_key c"
    "s_valid (sc_cur c') = s_valid (sc_cur c)" "s_local_index (sc_cur c') = s_local_index (sc_cur c)" "s_replay (sc_cur c') = s_replay (sc_cur c)"
    "s_k_send (sc_cur c') = s_k_send (sc_cur c)" "s_k_recv (sc_cur c') = s_k_recv (sc_cur c)" "s_remote_index (sc_cur c') = s_remote_index (sc_cur c)"
proof -
  have eq: "untraffic c' = untraffic c"
    using assms by (simp add: traffic_def)
  have keys: "client_keys (untraffic d) = client_keys d" for d
    by (simp add: untraffic_def client_keys_def)
  show "client_keys c' = client_keys c"
    using arg_cong [OF eq, of client_keys] by (simp add: keys)
  show "sc_active c' = sc_active c"
    using arg_cong [OF eq, of sc_active] by (simp add: untraffic_def)
  show "sc_client_id c' = sc_client_id c"
    using arg_cong [OF eq, of sc_client_id] by (simp add: untraffic_def)
  show "sc_ip c' = sc_ip c"
    using arg_cong [OF eq, of sc_ip] by (simp add: untraffic_def)
  show "sc_next c' = sc_next c"
    using arg_cong [OF eq, of sc_next] by (simp add: untraffic_def)
  show "sc_prev c' = sc_prev c"
    using arg_cong [OF eq, of sc_prev] by (simp add: untraffic_def)
  show "sc_prev_until c' = sc_prev_until c"
    using arg_cong [OF eq, of sc_prev_until] by (simp add: untraffic_def)
  show "sc_prev_ip c' = sc_prev_ip c"
    using arg_cong [OF eq, of sc_prev_ip] by (simp add: untraffic_def)
  show "sc_pending_ip c' = sc_pending_ip c"
    using arg_cong [OF eq, of sc_pending_ip] by (simp add: untraffic_def)
  show "sc_addr c' = sc_addr c"
    using arg_cong [OF eq, of sc_addr] by (simp add: untraffic_def)
  show "sc_tcp_fd c' = sc_tcp_fd c"
    using arg_cong [OF eq, of sc_tcp_fd] by (simp add: untraffic_def)
  show "sc_registered c' = sc_registered c"
    using arg_cong [OF eq, of sc_registered] by (simp add: untraffic_def)
  show "sc_psk_key c' = sc_psk_key c"
    using arg_cong [OF eq, of sc_psk_key] by (simp add: untraffic_def)
  show "s_valid (sc_cur c') = s_valid (sc_cur c)"
    using arg_cong [OF eq, of "\<lambda>d. s_valid (sc_cur d)"] by (simp add: untraffic_def)
  show "s_local_index (sc_cur c') = s_local_index (sc_cur c)"
    using arg_cong [OF eq, of "\<lambda>d. s_local_index (sc_cur d)"] by (simp add: untraffic_def)
  show "s_replay (sc_cur c') = s_replay (sc_cur c)"
    using arg_cong [OF eq, of "\<lambda>d. s_replay (sc_cur d)"] by (simp add: untraffic_def)
  show "s_k_send (sc_cur c') = s_k_send (sc_cur c)"
    using arg_cong [OF eq, of "\<lambda>d. s_k_send (sc_cur d)"] by (simp add: untraffic_def)
  show "s_k_recv (sc_cur c') = s_k_recv (sc_cur c)"
    using arg_cong [OF eq, of "\<lambda>d. s_k_recv (sc_cur d)"] by (simp add: untraffic_def)
  show "s_remote_index (sc_cur c') = s_remote_index (sc_cur c)"
    using arg_cong [OF eq, of "\<lambda>d. s_remote_index (sc_cur d)"] by (simp add: untraffic_def)
qed

text \<open>A step that only sends.\<close>

definition sends_only :: "server \<Rightarrow> server \<Rightarrow> bool" where
  "sends_only sv sv' \<longleftrightarrow> hs_frame sv sv' \<and> sv_leases sv' = sv_leases sv \<and> (\<forall>j<max_clients sv. traffic (client sv j) (client sv' j))"

lemma sends_onlyD: "sends_only sv sv' \<Longrightarrow> server_ok sv'" "sends_only sv sv' \<Longrightarrow> max_clients sv' = max_clients sv"
  "sends_only sv sv' \<Longrightarrow> j < max_clients sv \<Longrightarrow> traffic (client sv j) (client sv' j)"
  by (simp_all add: sends_only_def hs_frame_def)

lemma sends_only_trans:
  assumes ab: "sends_only a b" and bc: "sends_only b c"
  shows "sends_only a c"
proof -
  have "traffic (client a j) (client c j)" if "j < max_clients a" for j
    by (rule traffic_trans [OF sends_onlyD(3) [OF ab that] sends_onlyD(3) [OF bc]]) (use that sends_onlyD(2) [OF ab] in simp)
  then show ?thesis
    using ab bc hs_frame_trans by (simp add: sends_only_def) blast
qed

lemma sends_only_same: "server_ok sv \<Longrightarrow> server_ok sv' \<Longrightarrow> sv_clients sv' = sv_clients sv \<Longrightarrow> sv_leases sv' = sv_leases sv \<Longrightarrow>
    sv_tunnel_ip sv' = sv_tunnel_ip sv \<Longrightarrow> sends_only sv sv'"
  by (simp add: sends_only_def hs_frame_def trafficI(5))

lemma sends_only_upd:
  assumes ok: "server_ok sv" and t: "\<And>c. traffic c (f c)"
  shows "sends_only sv (upd i f sv)"
proof -
  have "server_ok (upd i f sv)"
    by (rule quiet_upd_ok [OF ok]) (use traffic_fields(1-3) [OF t] in simp_all)
  then show ?thesis
    using t by (simp add: sends_only_def hs_frame_def nth_update trafficI(5))
qed

lemma sends_only_seal:
  assumes ok: "server_ok sv" and s: "session_seal mc (sc_cur (client sv i)) p n = (s, Some out)"
  shows "sends_only sv (upd i (\<lambda>c. c\<lparr>sc_cur := s\<rparr>) sv)"
proof -
  have eq: "s = (sc_cur (client sv i))\<lparr>s_send_n := s_send_n (sc_cur (client sv i)) + 1\<rparr>"
    by (rule session_seal_SomeD(2) [OF s])
  have "upd i (\<lambda>c. c\<lparr>sc_cur := s\<rparr>) sv = upd i (\<lambda>c. c\<lparr>sc_cur := (sc_cur c)\<lparr>s_send_n := s_send_n s\<rparr>\<rparr>) sv"
    by (simp add: upd_def eq)
  then show ?thesis
    using sends_only_upd [OF ok trafficI(1)] by simp
qed

lemma count_tx_only: "server_ok sv \<Longrightarrow> sends_only sv (count_tx i len sv)"
  unfolding count_tx_def by (rule sends_only_upd) (simp_all add: trafficI)

lemma forward_only:
  assumes ok: "server_ok sv" and f: "server_forward_packet x packet dst sv = (sv', rc)"
  shows "sends_only sv sv'"
proof (cases "server_find_by_ip sv dst")
  case None
  then have "sv' = sv\<lparr>sv_sent := sv_sent sv @ [Sent_tun packet]\<rparr>"
    using f by (simp add: server_forward_packet_def tun_write_def)
  then show ?thesis
    using ok by (simp add: sends_only_same)
next
  case (Some k)
  obtain s r where s: "session_seal (x_mc x) (sc_cur (client sv k)) packet (TUN_PACKET_MAX + V2_OVERHEAD) = (s, r)"
    by fastforce
  have same: "sends_only sv sv"
    by (simp add: ok sends_only_same)
  show ?thesis
  proof (cases "\<not> s_valid (sc_cur (client sv k)) \<or> r = None")
    case True
    then have "sv' = sv"
      using f s by (auto simp: server_forward_packet_def Some split: if_splits)
    then show ?thesis using same by simp
  next
    case False
    then obtain out where out: "r = Some out"
      by blast
    let ?s1 = "upd k (\<lambda>c. c\<lparr>sc_cur := s\<rparr>) sv"
    have s1: "sends_only sv ?s1"
      by (rule sends_only_seal [OF ok s [unfolded out]])
    have net: "sends_only ?s1 s2" if "sv_clients s2 = sv_clients ?s1" "server_ok s2 = server_ok ?s1" "sv_leases s2 = sv_leases ?s1"
        "sv_tunnel_ip s2 = sv_tunnel_ip ?s1" for s2
      using that sends_onlyD(1) [OF s1] by (intro sends_only_same) simp_all
    have cnt: "sends_only sv s2 \<Longrightarrow> sends_only sv (count_tx k len s2)" for s2 len
      using sends_only_trans count_tx_only sends_onlyD(1) by simp
    obtain s2 rc2 acc where t: "tcp_frame x (sc_tcp_fd (client ?s1 k)) out ?s1 = (s2, rc2, acc)"
      by (rule prod_cases3)
    obtain s3 rc3 where u: "server_send x k out ?s1 = (s3, rc3)"
      by fastforce
    have "sends_only sv s2" "sends_only sv s3"
      using sends_only_trans [OF s1 net] tcp_frame_props [OF t] server_send_props [OF u] by blast+
    then show ?thesis
      using f s False t u cnt unfolding server_forward_packet_def Some option.case out prod.case Let_def
      by (auto split: if_splits)
  qed
qed

lemma data_answer_only:
  assumes ok: "server_ok sv"
  shows "sends_only sv (data_answer x i sv)"
proof -
  obtain s r where s: "session_seal (x_mc x) (sc_cur (client sv i)) [] V2_OVERHEAD = (s, r)"
    by fastforce
  show ?thesis
  proof (cases r)
    case None
    then show ?thesis using s ok by (simp add: data_answer_def sends_only_same)
  next
    case (Some ka)
    let ?s1 = "upd i (\<lambda>c. c\<lparr>sc_cur := s\<rparr>) sv"
    have s1: "sends_only sv ?s1"
      by (rule sends_only_seal [OF ok s [unfolded Some]])
    obtain s2 rc2 acc where t: "tcp_frame x (sc_tcp_fd (client ?s1 i)) ka ?s1 = (s2, rc2, acc)"
      by (rule prod_cases3)
    obtain s3 rc3 where u: "server_send x i ka ?s1 = (s3, rc3)"
      by fastforce
    have net: "sends_only ?s1 s2" if "sv_clients s2 = sv_clients ?s1" "server_ok s2 = server_ok ?s1" "sv_leases s2 = sv_leases ?s1"
        "sv_tunnel_ip s2 = sv_tunnel_ip ?s1" for s2
      using that sends_onlyD(1) [OF s1] by (intro sends_only_same) simp_all
    have n: "sends_only sv s2" "sends_only sv s3"
      using sends_only_trans [OF s1 net] tcp_frame_props [OF t] server_send_props [OF u] by blast+
    have cnt: "sends_only sv s2 \<Longrightarrow> sends_only sv (if b then upd i (\<lambda>c. c\<lparr>sc_tx_packets := sc_tx_packets c + 1\<rparr>) s2 else s2)" for s2 b
      using sends_only_trans sends_only_upd [OF sends_onlyD(1) trafficI(2)] by simp
    have "data_answer x i sv = (case (if sc_tcp_fd (client ?s1 i) \<ge> 0 then (s2, acc) else (s3, rc3 = 0)) of (sv2, accepted) \<Rightarrow>
        if accepted then upd i (\<lambda>c. c\<lparr>sc_tx_packets := sc_tx_packets c + 1\<rparr>) sv2 else sv2)"
      unfolding data_answer_def s Some prod.case option.case Let_def t u by simp
    then show ?thesis
      using cnt [OF n(1)] cnt [OF n(2)] by (auto split: if_splits)
  qed
qed

lemma data_forward_only:
  assumes ok: "server_ok sv" and f: "data_forward x i w plain sv = (sv', rc)"
  shows "sends_only sv sv'"
proof -
  have same: "sends_only sv sv"
    by (simp add: ok sends_only_same)
  let ?d = "sv\<lparr>sv_isolation_drops := sv_isolation_drops sv + 1\<rparr>"
  have "sends_only sv ?d"
    using ok by (intro sends_only_same) simp_all
  moreover have "sends_only ?d (upd i (\<lambda>c. c\<lparr>sc_isolation_drops := sc_isolation_drops c + 1\<rparr>) ?d)"
    by (rule sends_only_upd) (simp_all add: ok trafficI)
  ultimately have drop: "sends_only sv (upd i (\<lambda>c. c\<lparr>sc_isolation_drops := sc_isolation_drops c + 1\<rparr>) ?d)"
    by (rule sends_only_trans)
  show ?thesis
    using f same drop forward_only [OF ok] unfolding data_forward_def Let_def
    by (auto split: option.splits prod.splits if_splits)
qed

subsection \<open>A packet that opens\<close>

lemma data_session_Some:
  assumes "data_session x sv idx = Some (i, w)"
  shows "i < max_clients sv" "sc_active (client sv i)" "s_local_index (sess w (client sv i)) = idx" "s_valid (sess w (client sv i))"
    "w = NEXT \<Longrightarrow> \<not> (s_valid (sc_cur (client sv i)) \<and> s_local_index (sc_cur (client sv i)) = idx)"
    "w = PREV \<Longrightarrow> \<not> (s_valid (sc_cur (client sv i)) \<and> s_local_index (sc_cur (client sv i)) = idx) \<and>
       \<not> (s_valid (sc_next (client sv i)) \<and> s_local_index (sc_next (client sv i)) = idx) \<and> x_now x \<le> sc_prev_until (client sv i)"
    "i = unat (idx AND 0xFFFF) - 1" "unat (idx AND 0xFFFF) \<noteq> 0"
  using assms unfolding data_session_def Let_def by (auto split: if_splits)

definition promoted :: "srv_ctx \<Rightarrow> server_client \<Rightarrow> server_client" where
  "promoted x c = c\<lparr>sc_prev := sc_cur c, sc_prev_until := x_now x + V2_PREV_SESSION_GRACE, sc_prev_ip := sc_ip c, sc_cur := sc_next c,
     sc_next := session_zero, sc_ip := (if sc_pending_ip c = 0 then sc_ip c else sc_pending_ip c), sc_pending_ip := 0\<rparr>"

lemma promote_props:
  assumes ok: "server_ok sv" and i: "i < max_clients sv" "sc_active (client sv i)"
  shows "hs_frame sv (data_promote x i sv)"
    and "sv_clients (data_promote x i sv) = (sv_clients sv)[i := promoted x (client sv i)]"
    and "sc_pending_ip (client sv i) \<noteq> 0 \<Longrightarrow> sv_leases (data_promote x i sv) =
      server_lease_drop (server_lease_by_ip (sv_leases sv) (sc_pending_ip (client sv i))) (sv_leases sv)"
    and "sc_pending_ip (client sv i) = 0 \<Longrightarrow> sv_leases (data_promote x i sv) = sv_leases sv"
    and "sv_sent (data_promote x i sv) = sv_sent sv"
proof -
  let ?c = "client sv i" and ?p = "sc_pending_ip (client sv i)"
  define f :: "server_client \<Rightarrow> server_client" where
    "f = (\<lambda>c. c\<lparr>sc_prev := sc_cur c, sc_prev_until := x_now x + V2_PREV_SESSION_GRACE, sc_prev_ip := sc_ip c,
                             sc_cur := sc_next c, sc_next := session_wipe (sc_next c)\<rparr>)"
  let ?s1 = "upd i f sv"
  have ok1: "server_ok ?s1"
    by (rule upd_ok [OF ok]) (use i server_okD(3) [OF ok i(1)] in \<open>auto simp: f_def client_keys_def\<close>)
  have c1: "i < max_clients ?s1" "sc_active (client ?s1 i)" "client ?s1 i = f ?c" "sc_pending_ip (client ?s1 i) = ?p"
    using i by (simp_all add: f_def)
  let ?s2 = "server_set_ip x i ?p ?s1"
  note s2 = set_ip_frame [OF ok1 c1(1,2), of x ?p]
  have e2: "sv_leases ?s2 = sv_leases sv" "sv_tunnel_ip ?s2 = sv_tunnel_ip sv" "sv_sent ?s2 = sv_sent sv"
    using entry_setD(3,7,5) [OF set_ip_entry [OF server_okD(1) [OF ok1] c1(1,2), of ?p x]] by simp_all
  let ?s3 = "upd i (\<lambda>c. c\<lparr>sc_pending_ip := 0\<rparr>) ?s2"
  have ok3: "server_ok ?s3"
    by (rule upd_ok [OF hs_frameD(1) [OF s2(1)]]) (use server_okD(3) [OF hs_frameD(1) [OF s2(1)]] in \<open>auto simp: client_keys_def\<close>)
  let ?t = "server_lease_drop (server_lease_by_ip (sv_leases sv) ?p) (sv_leases sv)"
  have t: "lease_ok ?t"
    by (rule server_lease_drop_ok [OF server_okD(2) [OF ok]]) (use by_ip_Some_iff [OF server_okD(2) [OF ok]] in blast)
  have eq: "data_promote x i sv = (if ?p = 0 then ?s1 else ?s3\<lparr>sv_leases := ?t\<rparr>)"
    using s2(2) e2 c1 i unfolding data_promote_def f_def [symmetric] Let_def c1(4) by simp
  show "sv_clients (data_promote x i sv) = (sv_clients sv)[i := promoted x ?c]"
    unfolding eq using s2(2) i by (cases ?c) (simp add: f_def promoted_def session_wipe_def)
  show "hs_frame sv (data_promote x i sv)"
    unfolding eq using ok1 ok3 s2(2) e2 t by (simp add: hs_frame_def server_ok_def)
  show "sv_sent (data_promote x i sv) = sv_sent sv"
    unfolding eq using e2(3) by simp
  show "?p \<noteq> 0 \<Longrightarrow> sv_leases (data_promote x i sv) = ?t" "?p = 0 \<Longrightarrow> sv_leases (data_promote x i sv) = sv_leases sv"
    unfolding eq by simp_all
qed

lemma seen_props:
  assumes ok: "server_ok sv" and i: "i < max_clients sv" "sc_active (client sv i)"
  shows "hs_frame sv (data_seen x i from fd len sv)" and "sv_leases (data_seen x i from fd len sv) = sv_leases sv"
    and "sv_sent (data_seen x i from fd len sv) = sv_sent sv"
    and "sv_clients (data_seen x i from fd len sv) = (sv_clients sv)[i := (client sv i)
      \<lparr>sc_addr := (if fd < 0 then from else sc_addr (client sv i)), sc_last_seen := x_now x, sc_last_data := x_now x,
       sc_rx_packets := sc_rx_packets (client sv i) + 1, sc_rx_bytes := sc_rx_bytes (client sv i) + of_nat len\<rparr>]"
proof -
  let ?s = "if fd < 0 \<and> \<not> net_sockaddr_equal (sc_addr (client sv i)) from then server_set_addr x i from sv else sv"
  note e = set_addr_entry [OF server_okD(1) [OF ok] i, of "from" x]
  have s: "hs_frame sv ?s" "sv_leases ?s = sv_leases sv" "sv_sent ?s = sv_sent sv"
    using hs_frame_entry [OF ok e] server_okD(3) [OF ok] entry_setD(3,5) [OF e] hs_frame_refl [OF ok] by simp_all
  have c: "sv_clients ?s = (sv_clients sv)[i := (client sv i)\<lparr>sc_addr := (if fd < 0 then from else sc_addr (client sv i))\<rparr>]"
  proof (cases "sc_addr (client sv i) = from")
    case True
    then have "(client sv i)\<lparr>sc_addr := from\<rparr> = client sv i"
      by (cases "client sv i") simp
    then have "(sv_clients sv)[i := (client sv i)\<lparr>sc_addr := from\<rparr>] = sv_clients sv"
      by (simp only: list_update_id)
    then show ?thesis
      using True by (simp add: net_sockaddr_equal_eq)
  next
    case False
    then show ?thesis using entry_setD(2) [OF e] by (simp add: net_sockaddr_equal_eq)
  qed
  define f :: "server_client \<Rightarrow> server_client" where
    "f = (\<lambda>c. c\<lparr>sc_last_seen := x_now x, sc_last_data := x_now x, sc_rx_packets := sc_rx_packets c + 1, sc_rx_bytes := sc_rx_bytes c + of_nat len\<rparr>)"
  have eq: "data_seen x i from fd len sv = upd i f ?s"
    by (simp add: data_seen_def f_def)
  have "server_ok (upd i f ?s)"
    by (rule quiet_upd_ok [OF hs_frameD(1) [OF s(1)]]) (simp_all add: f_def client_keys_def)
  then show "hs_frame sv (data_seen x i from fd len sv)" and "sv_leases (data_seen x i from fd len sv) = sv_leases sv"
    and "sv_sent (data_seen x i from fd len sv) = sv_sent sv"
    unfolding eq using s by (simp_all add: hs_frame_def)
  show "sv_clients (data_seen x i from fd len sv) = (sv_clients sv)[i := (client sv i)
      \<lparr>sc_addr := (if fd < 0 then from else sc_addr (client sv i)), sc_last_seen := x_now x, sc_last_data := x_now x,
       sc_rx_packets := sc_rx_packets (client sv i) + 1, sc_rx_bytes := sc_rx_bytes (client sv i) + of_nat len\<rparr>]"
    unfolding eq using c i(1) by (simp add: f_def)
qed

text \<open>The entry once the packet is open, before the answer or the forwarding.\<close>

definition opened :: "srv_ctx \<Rightarrow> which_session \<Rightarrow> session \<Rightarrow> sockaddr_in \<Rightarrow> int \<Rightarrow> nat \<Rightarrow> server_client \<Rightarrow> server_client" where
  "opened x w s from fd len c =
     (let c1 = set_sess w s c; c2 = (if w = NEXT then promoted x c1 else c1)
      in c2\<lparr>sc_addr := (if fd < 0 then from else sc_addr c2), sc_last_seen := x_now x, sc_last_data := x_now x,
            sc_rx_packets := sc_rx_packets c2 + 1, sc_rx_bytes := sc_rx_bytes c2 + of_nat len\<rparr>)"

definition data_opened :: "srv_ctx \<Rightarrow> nat \<Rightarrow> which_session \<Rightarrow> session \<Rightarrow> sockaddr_in \<Rightarrow> int \<Rightarrow> nat \<Rightarrow> server \<Rightarrow> server" where
  "data_opened x i w s from fd len sv =
     (let sv1 = upd i (set_sess w s) sv in data_seen x i from fd len (if w = NEXT then data_promote x i sv1 else sv1))"

lemma set_sess_fields [simp]:
  "sc_active (set_sess w s c) = sc_active c" "sc_client_id (set_sess w s c) = sc_client_id c" "sc_ip (set_sess w s c) = sc_ip c"
  "sc_pending_ip (set_sess w s c) = sc_pending_ip c" "sc_prev_ip (set_sess w s c) = sc_prev_ip c" "sess w (set_sess w s c) = s"
  "sc_tcp_fd (set_sess w s c) = sc_tcp_fd c" "sc_addr (set_sess w s c) = sc_addr c"
  by (cases w; simp)+

lemma data_opened_props:
  assumes ok: "server_ok sv" and i: "i < max_clients sv" "sc_active (client sv i)" and v: "s_valid s = s_valid (sess w (client sv i))"
  shows "hs_frame sv (data_opened x i w s from fd len sv)"
    and "sv_clients (data_opened x i w s from fd len sv) = (sv_clients sv)[i := opened x w s from fd len (client sv i)]"
    and "sv_sent (data_opened x i w s from fd len sv) = sv_sent sv"
    and "w = NEXT \<Longrightarrow> sc_pending_ip (client sv i) \<noteq> 0 \<Longrightarrow> sv_leases (data_opened x i w s from fd len sv) =
      server_lease_drop (server_lease_by_ip (sv_leases sv) (sc_pending_ip (client sv i))) (sv_leases sv)"
proof -
  let ?s1 = "upd i (set_sess w s) sv"
  have "client_keys (set_sess w s (client sv i)) = client_keys (client sv i)"
    using v by (cases w) (simp_all add: client_keys_def)
  then have "server_ok ?s1"
    by (intro upd_ok [OF ok]) (use i server_okD(3) [OF ok i(1)] in simp_all)
  then have s1: "hs_frame sv ?s1" "i < max_clients ?s1" "sc_active (client ?s1 i)"
    using i by (simp_all add: hs_frame_def)
  let ?s2 = "if w = NEXT then data_promote x i ?s1 else ?s1"
  note p = promote_props [OF hs_frameD(1) [OF s1(1)] s1(2,3), of x]
  have s2: "hs_frame sv ?s2" "sv_clients ?s2 = (sv_clients sv)[i := if w = NEXT then promoted x (set_sess w s (client sv i)) else set_sess w s (client sv i)]"
    using s1(1) hs_frame_trans [OF s1(1) p(1)] p(2) i by (cases "w = NEXT"; simp)+
  have b: "i < max_clients ?s2" "sc_active (client ?s2 i)"
    using s2(2) i by (simp_all add: promoted_def)
  note q = seen_props [OF hs_frameD(1) [OF s2(1)] b, of x "from" fd len]
  show "hs_frame sv (data_opened x i w s from fd len sv)"
    using hs_frame_trans [OF s2(1) q(1)] unfolding data_opened_def Let_def .
  show "sv_clients (data_opened x i w s from fd len sv) = (sv_clients sv)[i := opened x w s from fd len (client sv i)]"
    using q(4) s2(2) i(1) by (cases "w = NEXT") (simp_all add: data_opened_def opened_def Let_def)
  show "sv_sent (data_opened x i w s from fd len sv) = sv_sent sv"
    using q(3) p(5) by (cases "w = NEXT") (simp_all add: data_opened_def Let_def)
  assume "w = NEXT" "sc_pending_ip (client sv i) \<noteq> 0"
  then show "sv_leases (data_opened x i w s from fd len sv) =
      server_lease_drop (server_lease_by_ip (sv_leases sv) (sc_pending_ip (client sv i))) (sv_leases sv)"
    using q(2) p(3) i(1) by (simp add: data_opened_def Let_def)
qed

lemma handle_data_opens:
  assumes "data_session x sv (v2_data_receiver buffer) = Some (i, w)" and "fd < 0 \<or> sc_tcp_fd (client sv i) = fd"
    and "session_open (x_mc x) (sess w (client sv i)) buffer TUN_PACKET_MAX = (s, Some plain)"
  shows "server_handle_data x buffer from fd sv =
    (if plain = [] then (data_answer x i (data_opened x i w s from fd 0 sv), 0)
     else data_forward x i w plain (data_opened x i w s from fd (length plain) sv))"
  using assms by (auto simp: server_handle_data_def data_opened_def Let_def)

lemma handle_data_cases:
  assumes "server_handle_data x buffer from fd sv = (sv', rc)"
  obtains (dropped) "sv' = sv" and "rc = - 1"
  | (taken) i w s plain where "data_session x sv (v2_data_receiver buffer) = Some (i, w)" and "fd < 0 \<or> sc_tcp_fd (client sv i) = fd"
      and "session_open (x_mc x) (sess w (client sv i)) buffer TUN_PACKET_MAX = (s, Some plain)"
      and "plain = [] \<Longrightarrow> sv' = data_answer x i (data_opened x i w s from fd 0 sv) \<and> rc = 0"
      and "plain \<noteq> [] \<Longrightarrow> data_forward x i w plain (data_opened x i w s from fd (length plain) sv) = (sv', rc)"
proof (cases "data_session x sv (v2_data_receiver buffer)")
  case None
  then show thesis using assms dropped by (simp add: server_handle_data_def)
next
  case (Some q)
  obtain i w where q: "q = (i, w)"
    by fastforce
  obtain s r where r: "session_open (x_mc x) (sess w (client sv i)) buffer TUN_PACKET_MAX = (s, r)"
    by fastforce
  note e = assms [unfolded server_handle_data_def Some q option.case prod.case r]
  show thesis
  proof (cases "(fd \<ge> 0 \<and> sc_tcp_fd (client sv i) \<noteq> fd) \<or> r = None")
    case True
    then show thesis using e dropped by (auto split: if_splits)
  next
    case False
    then obtain plain where p: "r = Some plain" and f: "\<not> (fd \<ge> 0 \<and> sc_tcp_fd (client sv i) \<noteq> fd)"
      by blast
    note e1 = e [unfolded if_not_P [OF f] p option.case]
    show thesis
      using taken [OF Some [unfolded q] _ r [unfolded p]] e1 f
      by (cases "plain = []") (auto simp: data_opened_def Let_def)
  qed
qed

lemma handle_data_frame:
  assumes ok: "server_ok sv" and h: "server_handle_data x buffer from fd sv = (sv', rc)"
  shows "hs_frame sv sv'"
  using h
proof (cases rule: handle_data_cases)
  case dropped
  then show ?thesis using ok by (simp add: hs_frame_refl)
next
  case (taken i w s plain)
  note d = data_session_Some [OF taken(1)]
  note od = data_opened_props [OF ok d(1,2) session_open_fields(1) [OF taken(3)], of x "from" fd]
  have "sends_only (data_opened x i w s from fd (length plain) sv) sv'"
    using taken(4,5) data_answer_only [OF hs_frameD(1) [OF od(1) [of 0]], of x i]
      data_forward_only [OF hs_frameD(1) [OF od(1) [of "length plain"]], of x i w plain sv' rc]
    by (cases "plain = []") auto
  then show ?thesis
    using hs_frame_trans [OF od(1)] unfolding sends_only_def by blast
qed

lemma handle_packet_frame:
  assumes "server_ok sv" and "server_handle_packet x buffer from fd sv = (sv', rc)"
  shows "hs_frame sv sv'"
  using assms handle_init_frame handle_data_frame hs_frame_refl
  by (auto simp: server_handle_packet_def split: if_splits)

subsection \<open>What is sent\<close>

lemma forward_sent:
  assumes "server_forward_packet x packet dst sv = (sv', rc)"
  shows "\<exists>out. sv_sent sv' = sv_sent sv @ out \<and> (\<forall>p. Sent_tun p \<in> set out \<longrightarrow> p = packet \<and> server_find_by_ip sv dst = None)"
  using assms unfolding server_forward_packet_def tun_write_def server_send_def udp_send_def tcp_frame_def count_tx_def Let_def
  by (auto split: option.splits if_splits prod.splits)

lemma answer_sent: "\<exists>out. sv_sent (data_answer x i sv) = sv_sent sv @ out \<and> (\<forall>p. Sent_tun p \<notin> set out)"
proof -
  obtain s r where s: "session_seal (x_mc x) (sc_cur (client sv i)) [] V2_OVERHEAD = (s, r)"
    by fastforce
  let ?s1 = "upd i (\<lambda>c. c\<lparr>sc_cur := s\<rparr>) sv"
  have "\<exists>out. sv_sent s2 = sv_sent ?s1 @ out \<and> (\<forall>p. Sent_tun p \<notin> set out)" if "tcp_frame x fd ka ?s1 = (s2, rc, acc)" for fd ka s2 rc acc
    using that by (auto simp: tcp_frame_def split: prod.splits)
  moreover have "\<exists>out. sv_sent s2 = sv_sent ?s1 @ out \<and> (\<forall>p. Sent_tun p \<notin> set out)" if "server_send x i ka ?s1 = (s2, rc)" for ka s2 rc
    using that by (auto simp: server_send_def udp_send_def tcp_frame_def split: prod.splits if_splits)
  ultimately show ?thesis
    unfolding data_answer_def s prod.case Let_def
    by (auto split: option.splits if_splits prod.splits)
qed


subsection \<open>Properties\<close>

lemma replay_again:
  assumes rel: "session_rel s S" and o: "session_open mc s b sz = (s', Some p)" and again: "s_replay t = s_replay s'"
    and b': "packet_counter b' = packet_counter b"
  shows "session_open mc' t b' sz' = (t, None)"
proof -
  have "session_rel t (insert (packet_counter b) S)"
    using session_open_rel(2) [OF rel o] again by (simp add: session_rel_def)
  then have "\<not> replay_check (s_replay t) (read_le64 (drop 9 b'))"
    using replay_check_iff b' by (simp add: session_rel_def replay_fresh_def)
  then show ?thesis
    by (simp add: session_open_def Let_def)
qed


lemma find_by_ip_cong:
  assumes "srv_idx_inv a" and "srv_idx_inv b" and m: "max_clients b = max_clients a"
    and k: "\<And>k. k < max_clients a \<Longrightarrow> sc_active (client b k) = sc_active (client a k) \<and> sc_ip (client b k) = sc_ip (client a k) \<and>
      sc_pending_ip (client b k) = sc_pending_ip (client a k) \<and> sc_prev_ip (client b k) = sc_prev_ip (client a k) \<and>
      s_valid (sc_prev (client b k)) = s_valid (sc_prev (client a k))"
  shows "server_find_by_ip b ip = server_find_by_ip a ip"
proof -
  have e: "match_ip b ip = match_ip a ip" "match_cur_ip b ip = match_cur_ip a ip"
    using m k by (auto simp: match_ip_def match_cur_ip_def fun_eq_iff)
  show ?thesis
    unfolding find_by_ip_scan [OF assms(1)] find_by_ip_scan [OF assms(2)] m e by (rule refl)
qed

lemma sends_find_by_ip:
  assumes ok: "server_ok a" and s: "sends_only a b"
  shows "server_find_by_ip b ip = server_find_by_ip a ip"
  by (rule find_by_ip_cong [OF server_okD(1) [OF ok] server_okD(1) [OF sends_onlyD(1) [OF s]] sends_onlyD(2) [OF s]])
    (use traffic_fields [OF sends_onlyD(3) [OF s]] in simp)

lemma data_forward_cases:
  assumes "data_forward x i w plain sv = (sv', rc)"
  obtains (quiet) "sv' = sv"
  | (isolated) "sv' = upd i (\<lambda>c. c\<lparr>sc_isolation_drops := sc_isolation_drops c + 1\<rparr>)
      (sv\<lparr>sv_isolation_drops := sv_isolation_drops sv + 1\<rparr>)"
  | (passed) src dst where "ipv4_parse_endpoints plain = Some (src, dst)" and "src \<noteq> 0"
      and "src = (let c = client sv i in if w = PREV \<and> sc_prev_ip c \<noteq> 0 then sc_prev_ip c else sc_ip c)"
      and "server_client_isolation x \<Longrightarrow> server_find_by_ip sv dst \<in> {None, Some i}"
      and "server_forward_packet x plain dst sv = (sv', rc)"
proof (cases "ipv4_parse_endpoints plain")
  case None
  then show thesis using assms quiet by (simp add: data_forward_def)
next
  case (Some q)
  obtain src dst where q: "q = (src, dst)"
    by fastforce
  let ?own = "let c = client sv i in if w = PREV \<and> sc_prev_ip c \<noteq> 0 then sc_prev_ip c else sc_ip c"
  note e = assms [unfolded data_forward_def Some q option.case prod.case]
  show thesis
  proof (cases "?own = 0 \<or> src \<noteq> ?own")
    case True
    then show thesis using e quiet unfolding Let_def by simp
  next
    case False
    show thesis
    proof (cases "server_client_isolation x \<and> server_find_by_ip sv dst \<notin> {None, Some i}")
      case True
      then show thesis using e False isolated unfolding Let_def by simp
    next
      case N: False
      have "server_forward_packet x plain dst sv = (sv', rc)"
        using e False N unfolding Let_def by (simp only: if_not_P if_False simp_thms)
      then show thesis
        using passed [OF Some [unfolded q]] False N by auto
    qed
  qed
qed

text \<open>C11: what reaches the tunnel is the payload of a packet that opened in a session of the table, and
  its source address is the tunnel address of that client (that of its previous session for a
  packet of the previous session); its destination is no client's.\<close>

theorem data_tunnel_source:
  assumes ok: "server_ok sv" and h: "server_handle_data x b from fd sv = (sv', rc)"
  shows "\<exists>out. sv_sent sv' = sv_sent sv @ out \<and> (\<forall>p. Sent_tun p \<in> set out \<longrightarrow>
    (\<exists>i w s src dst. data_session x sv (v2_data_receiver b) = Some (i, w) \<and>
       session_open (x_mc x) (sess w (client sv i)) b TUN_PACKET_MAX = (s, Some p) \<and>
       ipv4_parse_endpoints p = Some (src, dst) \<and> src \<noteq> 0 \<and>
       src = (let c = client sv' i in if w = PREV \<and> sc_prev_ip c \<noteq> 0 then sc_prev_ip c else sc_ip c) \<and>
       server_find_by_ip sv' dst = None))"
  using h
proof (cases rule: handle_data_cases)
  case dropped
  then show ?thesis by auto
next
  case (taken i w s plain)
  note D = data_session_Some [OF taken(1)]
  note O = data_opened_props [OF ok D(1,2) session_open_fields(1) [OF taken(3)], of x "from" fd]
  let ?o = "data_opened x i w s from fd (length plain) sv"
  show ?thesis
  proof (cases "plain = []")
    case True
    then show ?thesis
      using taken(4) answer_sent [of x i ?o] O(3) by auto
  next
    case False
    note f = taken(5) [OF False]
    note so = data_forward_only [OF hs_frameD(1) [OF O(1)] f]
    note T = traffic_fields [OF sends_onlyD(3) [OF so, of i]]
    have ii: "i < max_clients ?o"
      using O(2) D(1) by simp
    have none: "server_find_by_ip sv' dst = server_find_by_ip ?o dst" for dst
      by (rule sends_find_by_ip [OF hs_frameD(1) [OF O(1)] so])
    from f show ?thesis
    proof (cases rule: data_forward_cases)
      case (passed src dst)
      obtain out where out: "sv_sent sv' = sv_sent ?o @ out" "\<forall>p. Sent_tun p \<in> set out \<longrightarrow> p = plain \<and> server_find_by_ip ?o dst = None"
        using forward_sent [OF passed(5)] by blast
      have "src = (let c = client sv' i in if w = PREV \<and> sc_prev_ip c \<noteq> 0 then sc_prev_ip c else sc_ip c)"
        unfolding Let_def T(4) [OF ii] T(8) [OF ii] using passed(3) unfolding Let_def .
      then show ?thesis
        using out O(3) taken(1,3) passed(1,2) none by (intro exI [of _ out]) auto
    qed (use O(3) in simp_all)
  qed
qed

lemma answer_others:
  assumes "k \<noteq> i"
  shows "client (data_answer x i sv) k = client sv k"
proof -
  obtain s r where s: "session_seal (x_mc x) (sc_cur (client sv i)) [] V2_OVERHEAD = (s, r)"
    by fastforce
  let ?s1 = "upd i (\<lambda>c. c\<lparr>sc_cur := s\<rparr>) sv"
  have one: "client ?s1 k = client sv k" "client (upd i f s2) k = client s2 k" for f s2
    using assms by simp_all
  show ?thesis
  proof (cases r)
    case None
    then show ?thesis using s by (simp add: data_answer_def)
  next
    case (Some ka)
    obtain s2 rc2 acc where t: "tcp_frame x (sc_tcp_fd (client ?s1 i)) ka ?s1 = (s2, rc2, acc)"
      by (rule prod_cases3)
    obtain s3 rc3 where u: "server_send x i ka ?s1 = (s3, rc3)"
      by fastforce
    have "client s2 k = client sv k" "client s3 k = client sv k"
      using tcp_frame_props(1) [OF t] server_send_props(1) [OF u] one(1) by simp_all
    moreover have "data_answer x i sv = (case (if sc_tcp_fd (client ?s1 i) \<ge> 0 then (s2, acc) else (s3, rc3 = 0)) of (sv2, accepted) \<Rightarrow>
        if accepted then upd i (\<lambda>c. c\<lparr>sc_tx_packets := sc_tx_packets c + 1\<rparr>) sv2 else sv2)"
      unfolding data_answer_def s Some prod.case option.case Let_def t u by simp
    ultimately show ?thesis
      using one(2) by (auto split: if_splits)
  qed
qed

text \<open>C9: with client isolation a packet of one client touches no other client: its session seals
  nothing, nothing is sent to it.\<close>

theorem data_isolation:
  assumes ok: "server_ok sv" and iso: "server_client_isolation x" and h: "server_handle_data x b from fd sv = (sv', rc)"
    and d: "data_session x sv (v2_data_receiver b) = Some (i, w)" and k: "k < max_clients sv" "k \<noteq> i"
  shows "client sv' k = client sv k"
  using h
proof (cases rule: handle_data_cases)
  case dropped
  then show ?thesis by simp
next
  case (taken j u s plain)
  have j: "j = i" "u = w"
    using taken(1) d by simp_all
  note D = data_session_Some [OF taken(1)]
  note O = data_opened_props [OF ok D(1,2) session_open_fields(1) [OF taken(3)], of x "from" fd]
  let ?o = "data_opened x i w s from fd (length plain) sv"
  have o_k: "client ?o k = client sv k"
    using O(2) k by (simp add: j)
  have fwd: "client s2 k = client ?o k" if "server_forward_packet x plain dst ?o = (s2, r)" "server_find_by_ip ?o dst \<in> {None, Some i}" for dst s2 r
    using that k(2) tcp_frame_props(1) server_send_props(1) unfolding server_forward_packet_def tun_write_def Let_def count_tx_def
    by (auto split: option.splits if_splits prod.splits)
  show ?thesis
  proof (cases "plain = []")
    case True
    have "client (data_answer x i ?o) k = client ?o k"
      by (rule answer_others [OF k(2)])
    then show ?thesis
      using taken(4) [OF True] o_k True by (simp add: j)
  next
    case False
    have f: "data_forward x i w plain ?o = (sv', rc)"
      using taken(5) [OF False] by (simp add: j)
    from f have "client sv' k = client ?o k"
    proof (cases rule: data_forward_cases)
      case (passed src dst)
      then show ?thesis using fwd iso by blast
    qed (use k(2) in simp_all)
    then show ?thesis
      using o_k by simp
  qed
qed

text \<open>The first packet on a new session makes it the current one: the old one keeps receiving for
  \<open>V2_PREV_SESSION_GRACE\<close> seconds under the old address, the offered address becomes the client's
  and is leased to nobody any more.\<close>

lemma data_promotes_session:
  assumes ok: "server_ok sv" and d: "data_session x sv (v2_data_receiver b) = Some (i, NEXT)"
    and fd: "fd < 0 \<or> sc_tcp_fd (client sv i) = fd"
    and o1: "session_open (x_mc x) (sc_next (client sv i)) b TUN_PACKET_MAX = (s, Some plain)"
    and h: "server_handle_data x b from fd sv = (sv', rc)"
  shows "let c = client sv i; c' = client sv' i
    in (sc_cur c')\<lparr>s_send_n := 0\<rparr> = s\<lparr>s_send_n := 0\<rparr> \<and> \<not> s_valid (sc_next c') \<and>
       sc_prev c' = sc_cur c \<and> sc_prev_until c' = x_now x + V2_PREV_SESSION_GRACE \<and> sc_prev_ip c' = sc_ip c \<and>
       sc_pending_ip c' = 0 \<and> sc_ip c' = (if sc_pending_ip c = 0 then sc_ip c else sc_pending_ip c) \<and>
       (sc_pending_ip c \<noteq> 0 \<longrightarrow> server_lease_by_ip (sv_leases sv') (sc_pending_ip c) = None)"
proof -
  note D = data_session_Some [OF d]
  have o2: "session_open (x_mc x) (sess NEXT (client sv i)) b TUN_PACKET_MAX = (s, Some plain)"
    using o1 by simp
  note O = data_opened_props [OF ok D(1,2) session_open_fields(1) [OF o2], of x "from" fd "length plain"]
  let ?o = "data_opened x i NEXT s from fd (length plain) sv" and ?p = "sc_pending_ip (client sv i)"
  have so: "sends_only ?o sv'"
    using h [unfolded handle_data_opens [OF d fd o2]] data_answer_only data_forward_only hs_frameD(1) [OF O(1)]
    by (cases "plain = []") auto
  have i: "i < max_clients ?o"
    using O(2) D(1) by simp
  have tr: "traffic (opened x NEXT s from fd (length plain) (client sv i)) (client sv' i)"
    using sends_onlyD(3) [OF so i] O(2) D(1) by simp
  have cur: "(sc_cur (client sv' i))\<lparr>s_send_n := 0\<rparr> = s\<lparr>s_send_n := 0\<rparr>"
    using arg_cong [OF tr [unfolded traffic_def], of sc_cur] by (simp add: untraffic_def opened_def promoted_def Let_def)
  have lease: "server_lease_by_ip (sv_leases sv') ?p = None" if p: "?p \<noteq> 0"
  proof (rule ccontr)
    let ?t = "sv_leases sv"
    have l: "lease_ok ?t"
      by (rule server_okD(2) [OF ok])
    have t: "sv_leases sv' = server_lease_drop (server_lease_by_ip ?t ?p) ?t"
      using so O(4) [OF refl p] by (simp add: sends_only_def)
    have l': "lease_ok (sv_leases sv')"
      by (rule server_okD(2) [OF sends_onlyD(1) [OF so]])
    assume "server_lease_by_ip (sv_leases sv') ?p \<noteq> None"
    then obtain k where "server_lease_by_ip (sv_leases sv') ?p = Some k"
      by blast
    then have k: "k < length (lt_leases ?t)" "l_ip (lt_leases (sv_leases sv') ! k) = ?p"
      using by_ip_Some_iff [OF l'] by (simp_all add: t server_lease_drop_nth(2))
    have "l_ip (lt_leases ?t ! k) = ?p"
      using k(2) p by (simp add: t server_lease_drop_nth(1) lease_zero_def split: if_splits)
    then have "server_lease_by_ip ?t ?p = Some k"
      using by_ip_Some_iff [OF l] k(1) p by simp
    then show False
      using k(1,2) p by (simp add: t server_lease_drop_nth(1) lease_zero_def split: if_splits)
  qed
  show ?thesis
    using cur lease traffic_fields [OF tr] by (simp add: Let_def opened_def promoted_def session_zero_def)
qed

text \<open>C10: a packet that one client sends to another through the server arrives: what the first sealed
  with its session, from its own address to that of the second, the second opens unchanged from
  what the server sends it.\<close>

theorem relay_delivers:
  assumes mc: "mono_ok (x_mc x)" and ok: "server_ok sv"
    and d: "data_session x sv (s_remote_index a) = Some (i, CUR)" and pa: "session_peer a (sc_cur (client sv i))"
    and ra: "session_rel (sc_cur (client sv i)) S" "replay_fresh S (unat (s_send_n a))"
    and seal: "session_seal (x_mc x) a p n = (a', Some pkt)" and len: "length p \<le> TUN_PACKET_MAX"
    and ip: "ipv4_parse_endpoints p = Some (src, dst)" "src = sc_ip (client sv i)" "src \<noteq> 0"
    and iso: "\<not> server_client_isolation x"
    and k: "server_find_by_ip sv dst = Some k" "k \<noteq> i" and pb: "session_peer (sc_cur (client sv k)) b"
    and rb: "session_rel b T" "replay_fresh T (unat (s_send_n (sc_cur (client sv k))))"
    and udp: "fd < 0" "sc_tcp_fd (client sv k) < 0" "\<not> x_tcp x" "x_udp x"
  shows "\<exists>sv' out b'. server_handle_data x pkt from fd sv = (sv', 0) \<and>
    sv_sent sv' = sv_sent sv @ [Sent_udp (sc_addr (client sv k)) out] \<and>
    session_open (x_mc x) b out TUN_PACKET_MAX = (b', Some p)"
proof -
  have recv: "v2_data_receiver pkt = s_remote_index a"
    by (rule session_seal_packet(2) [OF mc seal])
  obtain s where o1: "session_open (x_mc x) (sess CUR (client sv i)) pkt TUN_PACKET_MAX = (s, Some p)"
    using session_open_sealed [OF mc pa seal ra len] by simp
  note D = data_session_Some [OF d]
  note O = data_opened_props [OF ok D(1,2) session_open_fields(1) [OF o1], of x "from" fd "length p"]
  let ?o = "data_opened x i CUR s from fd (length p) sv" and ?ck = "sc_cur (client sv k)"
  have p: "p \<noteq> []"
    using ip(1) by (auto simp: ipv4_parse_endpoints_def)
  have h: "server_handle_data x pkt from fd sv = data_forward x i CUR p ?o"
    using handle_data_opens [OF d [folded recv] _ o1, of fd "from"] udp(1) p by simp
  have cl: "sv_clients ?o = (sv_clients sv)[i := opened x CUR s from fd (length p) (client sv i)]"
    by (rule O(2))
  have km: "k < max_clients sv" "client ?o k = client sv k"
    using find_by_ip_Some(1) [OF server_okD(1) [OF ok] k(1)] k(2) cl by (simp_all add: match_ip_def)
  have own: "sc_ip (client ?o i) = sc_ip (client sv i)"
    using cl D(1) by (simp add: opened_def Let_def)
  have find: "server_find_by_ip ?o dst = Some k"
    unfolding k(1) [symmetric]
    by (rule find_by_ip_cong [OF server_okD(1) [OF ok] server_okD(1) [OF hs_frameD(1) [OF O(1)]] hs_frameD(2) [OF O(1)]])
      (use cl in \<open>auto simp: nth_update opened_def Let_def\<close>)
  have fwd: "data_forward x i CUR p ?o = server_forward_packet x p dst ?o"
    using ip iso own by (simp add: data_forward_def)
  have vk: "s_valid ?ck" "unat (s_send_n ?ck) < 2 ^ 60"
    using pb rb(2) by (simp_all add: session_peer_def replay_fresh_def)
  obtain s2 out where s2: "session_seal (x_mc x) ?ck p (TUN_PACKET_MAX + V2_OVERHEAD) = (s2, Some out)"
    using session_seal_Some_iff [of "x_mc x" ?ck p "TUN_PACKET_MAX + V2_OVERHEAD"] vk len by auto
  have "server_forward_packet x p dst ?o =
      (count_tx k (length p) ((upd k (\<lambda>c. c\<lparr>sc_cur := s2\<rparr>) ?o)\<lparr>sv_sent := sv_sent ?o @ [Sent_udp (sc_addr (client sv k)) out]\<rparr>), 0)"
    using vk s2 udp km cl D(1) by (simp add: server_forward_packet_def find Let_def server_send_def udp_send_def)
  moreover have "\<exists>b'. session_open (x_mc x) b out TUN_PACKET_MAX = (b', Some p)"
    using session_open_sealed [OF mc pb s2 rb len] by blast
  ultimately show ?thesis
    using h fwd O(3) by (auto simp: count_tx_def)
qed


text \<open>Two clients with a session each; \<open>demo_end j\<close> is the other end of client \<open>j\<close>'s.\<close>

definition demo_session :: "nat \<Rightarrow> session" where
  "demo_session j = session_init (0x00010001 + of_nat j) (7 + of_nat j) (replicate 32 (of_nat j)) (replicate 32 (of_nat j + 8)) 1000"

definition demo_end :: "nat \<Rightarrow> session" where
  "demo_end j = session_init (7 + of_nat j) (0x00010001 + of_nat j) (replicate 32 (of_nat j + 8)) (replicate 32 (of_nat j)) 1000"

definition demo_ip2 :: u32 where
  "demo_ip2 = 0x0300C80A"

definition demo_pair :: server where
  "demo_pair = server_set_ip demo_ctx 1 demo_ip2
     (upd 1 (\<lambda>_. client_wiped\<lparr>sc_active := True, sc_registered := True, sc_cur := demo_session 1\<rparr>)
       (upd 0 (\<lambda>c. c\<lparr>sc_cur := demo_session 0\<rparr>) demo_client))"

lemma demo_pair_ok:
  "server_ok demo_pair"
  "sv_clients demo_pair = [client_wiped\<lparr>sc_active := True, sc_registered := True, sc_auto := True, sc_last_seen := 1000,
      sc_client_id := ''cam'', sc_ip := demo_ip, sc_cur := demo_session 0\<rparr>,
    client_wiped\<lparr>sc_active := True, sc_registered := True, sc_cur := demo_session 1, sc_ip := demo_ip2\<rparr>]"
proof -
  let ?a = "upd 0 (\<lambda>c. c\<lparr>sc_cur := demo_session 0\<rparr>) demo_client"
  let ?c = "client_wiped\<lparr>sc_active := True, sc_registered := True, sc_cur := demo_session 1\<rparr>"
  let ?b = "upd 1 (\<lambda>_. ?c) ?a"
  have a: "server_ok ?a"
    by (rule quiet_upd_ok [OF demo_client_ok(1)]) (simp_all add: client_keys_def)
  have b: "server_ok ?b"
    by (rule wipe_ok [OF a]) (simp_all add: client_wiped_def client_zero_def client_keys_def addr_is_set_def addr_zero_def session_zero_def)
  have c: "1 < max_clients ?b" "sc_active (client ?b 1)"
    by (simp_all add: demo_client_ok(2))
  note s = set_ip_frame [OF b c, of demo_ctx demo_ip2]
  show "server_ok demo_pair"
    unfolding demo_pair_def by (rule hs_frameD(1) [OF s(1)])
  show "sv_clients demo_pair = [client_wiped\<lparr>sc_active := True, sc_registered := True, sc_auto := True, sc_last_seen := 1000,
      sc_client_id := ''cam'', sc_ip := demo_ip, sc_cur := demo_session 0\<rparr>,
    client_wiped\<lparr>sc_active := True, sc_registered := True, sc_cur := demo_session 1, sc_ip := demo_ip2\<rparr>]"
    using s(2) by (simp add: demo_pair_def demo_client_ok(2))
qed

lemma demo_session_facts:
  "session_peer (demo_end j) (demo_session j)" "session_peer (demo_session j) (demo_end j)"
  "session_rel (demo_session j) {}" "session_rel (demo_end j) {}" "replay_fresh {} (unat (s_send_n (demo_session j)))"
  "replay_fresh {} (unat (s_send_n (demo_end j)))" "s_local_index (demo_session j) = 0x00010001 + of_nat j"
  "s_remote_index (demo_end j) = 0x00010001 + of_nat j" "s_valid (demo_session j)" "s_send_n (demo_end j) = 0"
  unfolding demo_session_def demo_end_def
  by (simp_all add: session_rel_init) (simp_all add: session_peer_def session_init_def session_zero_def replay_fresh_def)

lemma demo_pair_session: "data_session x demo_pair 0x00010001 = Some (0, CUR)"
  by (simp add: data_session_def demo_pair_ok(2) demo_session_facts)

text \<open>A datagram from the first client to the second, as the first one seals it.\<close>

definition demo_payload :: bytes where
  "demo_payload = [0x45, 0, 0, 20, 0, 0, 0, 0, 64, 17, 0, 0, 10, 200, 0, 2, 10, 200, 0, 3]"

definition demo_packet :: bytes where
  "demo_packet = the (snd (session_seal toy_mono (demo_end 0) demo_payload 2000))"

lemma demo_payload_ip: "ipv4_parse_endpoints demo_payload = Some (demo_ip, demo_ip2)"
  by (simp add: ipv4_parse_endpoints_def demo_payload_def load_le32_def demo_ip_def demo_ip2_def)

lemma demo_packet_sealed: "\<exists>a'. session_seal toy_mono (demo_end 0) demo_payload 2000 = (a', Some demo_packet)"
proof -
  have "\<exists>s' pkt. session_seal toy_mono (demo_end 0) demo_payload 2000 = (s', Some pkt)"
    unfolding session_seal_Some_iff using demo_session_facts(1) [of 0] demo_session_facts(10) [of 0]
    by (simp add: session_peer_def V2_OVERHEAD_def V2_DATA_HDR_def NOISE_TAGLEN_def demo_payload_def)
  then show ?thesis
    by (auto simp: demo_packet_def)
qed

lemma demo_packet_open:
  "v2_data_receiver demo_packet = 0x00010001"
  "\<exists>s. session_open toy_mono (demo_session 0) demo_packet TUN_PACKET_MAX = (s, Some demo_payload)"
proof -
  obtain a' where s: "session_seal toy_mono (demo_end 0) demo_payload 2000 = (a', Some demo_packet)"
    using demo_packet_sealed by blast
  show "v2_data_receiver demo_packet = 0x00010001"
    using session_seal_packet(2) [OF toy_mono_ok s] demo_session_facts(8) [of 0] by simp
  show "\<exists>s. session_open toy_mono (demo_session 0) demo_packet TUN_PACKET_MAX = (s, Some demo_payload)"
    using session_open_sealed [OF toy_mono_ok demo_session_facts(1) s demo_session_facts(3) demo_session_facts(6), of TUN_PACKET_MAX]
    by (simp add: TUN_PACKET_MAX_def demo_payload_def)
qed

lemma demo_mc: "x_mc demo_ctx = toy_mono" "x_mc (demo_ctx\<lparr>x_isolation := b\<rparr>) = toy_mono"
  by (simp_all add: demo_ctx_def)

lemma demo_find2: "server_find_by_ip demo_pair demo_ip2 = Some 1"
proof -
  have "match_cur_ip demo_pair demo_ip2 1" "\<not> match_cur_ip demo_pair demo_ip2 0"
    by (simp_all add: match_cur_ip_def demo_pair_ok(2) demo_ip_def demo_ip2_def)
  then have "scan_first (max_clients demo_pair) (match_cur_ip demo_pair demo_ip2) = Some 1"
    by (simp add: scan_first_def demo_pair_ok(2) numeral_2_eq_2)
  then show ?thesis
    by (simp add: find_by_ip_scan [OF server_okD(1) [OF demo_pair_ok(1)]])
qed

lemma demo_data: "\<exists>s. session_open (x_mc (demo_ctx\<lparr>x_isolation := b\<rparr>)) (sess CUR (client demo_pair 0)) demo_packet TUN_PACKET_MAX = (s, Some demo_payload)"
  using demo_packet_open(2) by (simp add: demo_mc demo_pair_ok(2))


theorem data_tunnel_source_witness:
  "\<exists>sv' rc out. server_handle_data demo_ctx demo_packet addr_zero (- 1) demo_pair = (sv', rc) \<and>
     sv_sent sv' = sv_sent demo_pair @ out \<and> (\<forall>p. Sent_tun p \<in> set out \<longrightarrow> (\<exists>src dst. ipv4_parse_endpoints p = Some (src, dst) \<and> src \<noteq> 0))"
proof -
  obtain sv' rc where h: "server_handle_data demo_ctx demo_packet addr_zero (- 1) demo_pair = (sv', rc)"
    by fastforce
  show ?thesis
    using h data_tunnel_source [OF demo_pair_ok(1) h] by blast
qed

theorem data_isolation_witness:
  "\<exists>sv' rc. server_handle_data (demo_ctx\<lparr>x_isolation := True\<rparr>) demo_packet addr_zero (- 1) demo_pair = (sv', rc) \<and>
     client sv' 1 = client demo_pair 1"
proof -
  let ?x = "demo_ctx\<lparr>x_isolation := True\<rparr>"
  obtain sv' rc where h: "server_handle_data ?x demo_packet addr_zero (- 1) demo_pair = (sv', rc)"
    by fastforce
  have "data_session ?x demo_pair (v2_data_receiver demo_packet) = Some (0, CUR)"
    by (simp add: demo_packet_open(1) demo_pair_session)
  then show ?thesis
    using h data_isolation [OF demo_pair_ok(1) _ h, of 0 CUR 1] by (simp add: server_client_isolation_def demo_pair_ok(2))
qed


theorem relay_delivers_witness:
  "\<exists>sv' out b'. server_handle_data demo_ctx demo_packet addr_zero (- 1) demo_pair = (sv', 0) \<and>
     sv_sent sv' = sv_sent demo_pair @ [Sent_udp addr_zero out] \<and> session_open toy_mono (demo_end 1) out TUN_PACKET_MAX = (b', Some demo_payload)"
proof -
  obtain a' where s: "session_seal toy_mono (demo_end 0) demo_payload 2000 = (a', Some demo_packet)"
    using demo_packet_sealed by blast
  have iso: "\<not> server_client_isolation demo_ctx"
    by (simp add: server_client_isolation_def demo_ctx_def config_server_db_reset_def globals_zero_def)
  have mc: "mono_ok (x_mc demo_ctx)"
    by (simp add: demo_mc toy_mono_ok)
  have seal: "session_seal (x_mc demo_ctx) (demo_end 0) demo_payload 2000 = (a', Some demo_packet)"
    using s by (simp add: demo_mc)
  have env: "\<not> x_tcp demo_ctx" "x_udp demo_ctx" "sc_tcp_fd client_wiped = - 1" "sc_addr client_wiped = addr_zero"
    by (simp_all add: demo_ctx_def client_wiped_def client_zero_def)
  have d: "data_session demo_ctx demo_pair (s_remote_index (demo_end 0)) = Some (0, CUR)"
    using demo_pair_session demo_session_facts(8) [of 0] by simp
  show ?thesis
    using relay_delivers [where x = demo_ctx and sv = demo_pair and a = "demo_end 0" and i = 0 and S = "{}" and p = demo_payload
        and n = 2000 and pkt = demo_packet and src = demo_ip and dst = demo_ip2 and k = 1 and b = "demo_end 1" and T = "{}" and fd = "- 1",
        OF mc demo_pair_ok(1) d _ _ _ seal _ demo_payload_ip _ _ iso demo_find2]
      demo_session_facts env
    by (simp add: demo_pair_ok(2) demo_mc TUN_PACKET_MAX_def demo_payload_def demo_ip_def)
qed


end
