(* ===== verification/Client.thy ===== *)
theory Client
  imports Forward
begin

text \<open>
  The client of \<open>src/client.c\<close>: the handshake with its retries, the sessions, keepalives, the
  detection of a lost link and the reconnect, and \<open>camex_client_reconfigure\<close> of \<open>src/camex.c\<close>, which
  applies a changed CONFIG to the live tunnel.
\<close>

subsection \<open>State\<close>

record client_state =
  cs_hs :: noise_hs
  cs_hs_pending :: bool
  cs_hs_index :: u32
  cs_hs_started :: int
  cs_hs_sent :: int
  cs_cur :: session
  cs_prev :: session
  cs_prev_until :: int
  cs_last_recv :: int
  cs_last_keepalive :: int
  cs_config_received :: bool
  cs_established :: bool
  cs_confirm_pending :: bool

definition client_state_init :: client_state where
  "client_state_init = \<lparr>cs_hs = noise_zero, cs_hs_pending = False, cs_hs_index = 0, cs_hs_started = 0, cs_hs_sent = 0,
     cs_cur = session_zero, cs_prev = session_zero, cs_prev_until = 0, cs_last_recv = 0, cs_last_keepalive = 0,
     cs_config_received = False, cs_established = False, cs_confirm_pending = False\<rparr>"

text \<open>What the client does to the world, in order: bytes given to a socket, a packet for the tunnel,
  the tunnel opened (address, MTU, routes) or closed, a route set or removed.\<close>

datatype act = Net_sent int bytes | Net_closed int | Tun_packet bytes | Tun_open string int "string list" bool
  | Tun_closed | Route string string bool bool

record client_proc =
  cl_state :: client_state
  cl_backoff :: nat
  cl_recv :: tcp_recv_state
  cl_cfg :: camex_config
  cl_reconnect_at :: int
  cl_link_up :: bool
  cl_fd :: int
  cl_tun_up :: bool
  cl_reconfig_pending :: bool
  cl_net :: "tcp_pending list"
  cl_acts :: "act list"

text \<open>
  The clock, the keys, and what the system answers in one event: random bytes, the socket, sends,
  the tunnel backend and the route commands.
\<close>

record client_ctx =
  y_now :: int
  y_crypto :: camex_crypto
  y_mc :: monocypher
  y_clock :: "u64 \<times> u32"
  y_seed :: "bytes option"
  y_index_rnd :: "nat \<Rightarrow> bytes option"
  y_sndbuf :: bool
  y_rs1 :: "send_result list"
  y_rs2 :: "send_result list"
  y_udp :: "bytes \<Rightarrow> bool"
  y_socket :: int
  y_rekey_env :: int
  y_inherited :: bool
  y_host_routes :: bool
  y_open :: "camex_config \<Rightarrow> bool"
  y_route :: "string \<Rightarrow> bool \<Rightarrow> bool"
  y_tun :: int

abbreviation on_state :: "(client_state \<Rightarrow> client_state) \<Rightarrow> client_proc \<Rightarrow> client_proc" where
  "on_state f c \<equiv> c\<lparr>cl_state := f (cl_state c)\<rparr>"

definition client_act :: "act \<Rightarrow> client_proc \<Rightarrow> client_proc" where
  "client_act a c = c\<lparr>cl_acts := cl_acts c @ [a]\<rparr>"

definition client_wipe :: "client_proc \<Rightarrow> client_proc" where
  "client_wipe c = on_state (\<lambda>s. s\<lparr>cs_hs := noise_zero, cs_cur := session_wipe (cs_cur s), cs_prev := session_wipe (cs_prev s),
     cs_hs_pending := False\<rparr>) c"

subsection \<open>The socket\<close>

definition net_client_send :: "client_ctx \<Rightarrow> bytes \<Rightarrow> client_proc \<Rightarrow> client_proc \<times> int" where
  "net_client_send y data c =
     (if c_tcp (cl_cfg c)
      then (case net_tcp_send_frame_ex (y_sndbuf y) (y_rs1 y) (y_rs2 y) (cl_fd c) data (cl_net c) of
              (rc, accepted, ps, out) \<Rightarrow> (client_act (Net_sent (cl_fd c) out) (c\<lparr>cl_net := ps\<rparr>), rc))
      else if cl_fd c < 0 \<or> \<not> y_udp y data then (c, - 1)
      else (client_act (Net_sent (cl_fd c) data) c, 0))"

definition client_net_close :: "client_proc \<Rightarrow> client_proc" where
  "client_net_close c =
     (if cl_fd c \<ge> 0 then client_act (Net_closed (cl_fd c)) (c\<lparr>cl_net := net_tcp_close (cl_fd c) (cl_net c), cl_fd := - 1\<rparr>) else c)"

text \<open>\<open>client_socket_create\<close>: the system gives a connected socket, or none.\<close>

definition client_socket_create :: "client_ctx \<Rightarrow> client_proc \<Rightarrow> client_proc \<times> int" where
  "client_socket_create y c = (if y_socket y < 0 then (c, - 1) else (c\<lparr>cl_fd := y_socket y\<rparr>, 0))"

subsection \<open>The handshake\<close>

text \<open>The INIT packet around message 1.\<close>

definition init_packet :: "monocypher \<Rightarrow> bytes \<Rightarrow> u32 \<Rightarrow> bytes \<Rightarrow> bytes" where
  "init_packet mc server_pub index m =
     (let packet = CAMEX_MAGIC @ [V2_TYPE_INIT] @ v2_write_u32 index @ m in packet @ v2_mac1 mc server_pub packet)"

definition client_send_init :: "client_ctx \<Rightarrow> client_proc \<Rightarrow> client_proc \<times> int" where
  "client_send_init y c =
     (let ctx = y_crypto y
      in if \<not> cc_has_server_pub ctx \<or> \<not> cc_has_global ctx then (c, - 1)
         else case proto_build_register (cl_cfg c) CAMEX_CONTROL_MAX of
                None \<Rightarrow> (c, - 1)
              | Some message \<Rightarrow>
         (case y_seed y of
            None \<Rightarrow> (c, - 1)
          | Some seed \<Rightarrow>
              (let hs = noise_init_initiator (y_mc y) CAMEX_NOISE_PROLOGUE (cc_server_pub ctx);
                   index = v2_new_index (y_index_rnd y);
                   c1 = on_state (\<lambda>s. s\<lparr>cs_hs := hs, cs_hs_index := index\<rparr>) c
               in if index = 0 then (c1, - 1)
                  else case noise_write_msg1 (y_mc y) hs (cc_psk_key ctx) seed
                         (v2_timestamp (fst (y_clock y)) (snd (y_clock y)) @ str_bytes message)
                         (NOISE_MSG_OVERHEAD + V2_TIMESTAMP_LEN + CAMEX_CONTROL_MAX) of
                         (hs1, None) \<Rightarrow> (on_state (\<lambda>s. s\<lparr>cs_hs := hs1\<rparr>) c1, - 1)
                       | (hs1, Some m) \<Rightarrow>
                           (case net_client_send y (init_packet (y_mc y) (cc_server_pub ctx) index m)
                               (on_state (\<lambda>s. s\<lparr>cs_hs := hs1, cs_hs_pending := True, cs_hs_sent := y_now y\<rparr>) c1) of
                              (c2, rc) \<Rightarrow> (c2, if rc < 0 then - 1 else 0)))))"

definition client_start_handshake :: "client_ctx \<Rightarrow> client_proc \<Rightarrow> client_proc \<times> int" where
  "client_start_handshake y c = client_send_init y (on_state (\<lambda>s. s\<lparr>cs_hs_started := y_now y\<rparr>) c)"

subsection \<open>A changed CONFIG\<close>

definition client_open_tunnel :: "client_ctx \<Rightarrow> camex_config \<Rightarrow> client_proc \<Rightarrow> client_proc \<times> bool" where
  "client_open_tunnel y cfg c =
     (if parse_local_cidr (c_local_cidr cfg) 16 16 = None then (c, False)
      else (client_act (Tun_open (c_local_cidr cfg) (c_mtu cfg) (c_route_cidrs cfg) (y_open y cfg)) (c\<lparr>cl_tun_up := y_open y cfg\<rparr>),
            y_open y cfg))"

text \<open>The number of routes that failed.\<close>

fun set_routes :: "client_ctx \<Rightarrow> string \<Rightarrow> bool \<Rightarrow> string list \<Rightarrow> client_proc \<Rightarrow> client_proc \<times> nat" where
  "set_routes y gateway add [] c = (c, 0)"
| "set_routes y gateway add (r # rs) c =
     (case set_routes y gateway add rs (client_act (Route r gateway add (y_route y r add)) c) of
        (c1, failed) \<Rightarrow> (c1, if y_route y r add then failed else failed + 1))"

definition client_set_routes :: "client_ctx \<Rightarrow> camex_config \<Rightarrow> bool \<Rightarrow> client_proc \<Rightarrow> client_proc \<times> nat" where
  "client_set_routes y cfg add c =
     (if \<not> y_host_routes y \<or> c_gateway_ip cfg = [] then (c, 0) else set_routes y (c_gateway_ip cfg) add (c_route_cidrs cfg) c)"

definition client_config_same :: "camex_config \<Rightarrow> camex_config \<Rightarrow> bool" where
  "client_config_same a b \<longleftrightarrow> c_local_cidr a = c_local_cidr b \<and> c_gateway_ip a = c_gateway_ip b \<and> c_mtu a = c_mtu b \<and>
     c_route_cidrs a = c_route_cidrs b"

definition packet_closed :: "client_proc \<Rightarrow> client_proc" where
  "packet_closed c = client_act Tun_closed (c\<lparr>cl_tun_up := False\<rparr>)"

definition camex_client_reconfigure :: "client_ctx \<Rightarrow> camex_config \<Rightarrow> client_proc \<Rightarrow> client_proc \<times> int" where
  "camex_client_reconfigure y new c =
     (let old = cl_cfg c; was_open = cl_tun_up c
      in case parse_local_cidr (c_local_cidr new) 16 16 of
           None \<Rightarrow> (c, - 1)
         | Some (ip, mk) \<Rightarrow>
             if was_open \<and> y_inherited y then (c, - 1)
             else if was_open \<and> client_config_same old new
             then (case client_set_routes y old True c of
                     (c1, failed) \<Rightarrow> (c1\<lparr>cl_reconfig_pending := (failed \<noteq> 0)\<rparr>, if failed \<noteq> 0 then - 1 else 0))
             else
               (let c1 = (if was_open then fst (client_set_routes y old False c) else c)
                in case client_open_tunnel y new (packet_closed c1) of
                     (c2, False) \<Rightarrow>
                       (case client_open_tunnel y old c2 of
                          (c3, False) \<Rightarrow> (c3\<lparr>cl_reconfig_pending := True\<rparr>, - 1)
                        | (c3, True) \<Rightarrow>
                            (case client_set_routes y old True c3 of
                               (c4, failed) \<Rightarrow> (c4\<lparr>cl_reconfig_pending := (failed \<noteq> 0)\<rparr>, - 1)))
                   | (c2, True) \<Rightarrow>
                       (let cfg = old\<lparr>c_local_cidr := c_local_cidr new, c_local_ip := ip, c_gateway_ip := c_gateway_ip new,
                                      c_mtu := c_mtu new, c_route_cidrs := c_route_cidrs new\<rparr>
                        in case client_set_routes y cfg True (c2\<lparr>cl_cfg := cfg\<rparr>) of
                             (c3, failed) \<Rightarrow> (c3\<lparr>cl_reconfig_pending := (failed \<noteq> 0)\<rparr>, if failed \<noteq> 0 then - 1 else 0))))"

definition client_check_config_change :: "client_ctx \<Rightarrow> bytes \<Rightarrow> client_proc \<Rightarrow> client_proc" where
  "client_check_config_change y payload c =
     (if length payload \<ge> CAMEX_CONTROL_MAX then c
      else case proto_parse_config (cstr payload) (cl_cfg c) of
             None \<Rightarrow> c
           | Some probe \<Rightarrow>
               if cl_reconfig_pending c \<or> \<not> client_config_same probe (cl_cfg c)
               then fst (camex_client_reconfigure y probe c) else c)"

definition client_apply_config_response :: "bytes \<Rightarrow> client_proc \<Rightarrow> client_proc \<times> int" where
  "client_apply_config_response payload c =
     (if length payload \<ge> CAMEX_CONTROL_MAX then (c, - 1)
      else case proto_parse_config (cstr payload) (cl_cfg c) of
             None \<Rightarrow> (c, - 1)
           | Some cfg \<Rightarrow>
               (let cfg1 = (case parse_local_cidr (c_local_cidr cfg) 16 16 of None \<Rightarrow> cfg | Some (ip, mk) \<Rightarrow> cfg\<lparr>c_local_ip := ip\<rparr>)
                in (on_state (\<lambda>s. s\<lparr>cs_config_received := True\<rparr>) (c\<lparr>cl_cfg := cfg1\<rparr>), 0)))"

subsection \<open>Packets from the server\<close>

definition client_confirm :: "client_ctx \<Rightarrow> client_proc \<Rightarrow> client_proc" where
  "client_confirm y c =
     (case session_seal (y_mc y) (cs_cur (cl_state c)) [] V2_OVERHEAD of
        (s, None) \<Rightarrow> c
      | (s, Some ka) \<Rightarrow>
          on_state (\<lambda>st. st\<lparr>cs_last_keepalive := y_now y\<rparr>) (fst (net_client_send y ka (on_state (\<lambda>st. st\<lparr>cs_cur := s\<rparr>) c))))"

definition client_new_session :: "client_ctx \<Rightarrow> u32 \<Rightarrow> bytes \<Rightarrow> bytes \<Rightarrow> client_state \<Rightarrow> client_state" where
  "client_new_session y server_index c1 c2 s =
     (let s1 = s\<lparr>cs_hs := noise_zero, cs_hs_pending := False, cs_prev := session_wipe (cs_prev s)\<rparr>;
          s2 = (if s_valid (cs_cur s) then s1\<lparr>cs_prev := cs_cur s, cs_prev_until := y_now y + V2_PREV_SESSION_GRACE\<rparr> else s1)
      in s2\<lparr>cs_cur := session_init (cs_hs_index s) server_index c1 c2 (y_now y), cs_last_recv := y_now y,
            cs_established := True, cs_confirm_pending := True\<rparr>)"

definition client_handle_resp :: "client_ctx \<Rightarrow> bytes \<Rightarrow> client_proc \<Rightarrow> client_proc \<times> int" where
  "client_handle_resp y buffer c =
     (let st = cl_state c; server_index = v2_read_u32 (drop 5 buffer)
      in if \<not> cs_hs_pending st \<or> v2_read_u32 (drop 9 buffer) \<noteq> cs_hs_index st then (c, - 1)
         else case noise_read_msg2 (y_mc y) (cs_hs st) (drop V2_RESP_HDR buffer) (CAMEX_CONTROL_MAX - 1) of
                (hs, None) \<Rightarrow> (c, - 1)
              | (hs, Some payload) \<Rightarrow>
                  (case (if \<not> c_auto_config (cl_cfg c) then (c, 0)
                         else if \<not> cs_config_received st then client_apply_config_response payload c
                         else (client_check_config_change y payload c, 0)) of
                     (c1, rc) \<Rightarrow>
                       if rc \<noteq> 0 then (c1, - 1)
                       else case noise_split (y_mc y) hs of
                              (k1, k2) \<Rightarrow>
                                (client_confirm y (on_state (client_new_session y server_index k1 k2) (c1\<lparr>cl_backoff := 0\<rparr>)), 0)))"

definition client_write_tun :: "client_ctx \<Rightarrow> bytes \<Rightarrow> client_proc \<Rightarrow> client_proc \<times> int" where
  "client_write_tun y plain c = (client_act (Tun_packet plain) c, y_tun y)"

definition client_handle_data :: "client_ctx \<Rightarrow> bytes \<Rightarrow> client_proc \<Rightarrow> client_proc \<times> int" where
  "client_handle_data y buffer c =
     (let st = cl_state c; idx = v2_data_receiver buffer;
          cur = (s_valid (cs_cur st) \<and> idx = s_local_index (cs_cur st));
          prev = (\<not> cur \<and> s_valid (cs_prev st) \<and> idx = s_local_index (cs_prev st) \<and> y_now y \<le> cs_prev_until st)
      in if \<not> cur \<and> \<not> prev then (c, - 1)
         else case session_open (y_mc y) (if cur then cs_cur st else cs_prev st) buffer TUN_PACKET_MAX of
                (s, None) \<Rightarrow> (c, - 1)
              | (s, Some plain) \<Rightarrow>
                  (let st1 = (if cur then st\<lparr>cs_cur := s\<rparr> else st\<lparr>cs_prev := s\<rparr>);
                       st2 = st1\<lparr>cs_last_recv := y_now y, cs_confirm_pending := (cs_confirm_pending st \<and> \<not> cur)\<rparr>;
                       c1 = c\<lparr>cl_state := st2, cl_backoff := 0\<rparr>
                   in if plain = [] then (c1, 0) else client_write_tun y plain c1))"

definition client_handle_net_packet :: "client_ctx \<Rightarrow> bytes \<Rightarrow> client_proc \<Rightarrow> client_proc \<times> int" where
  "client_handle_net_packet y buffer c =
     (if v2_packet_type buffer = V2_TYPE_RESP then client_handle_resp y buffer c
      else if v2_packet_type buffer = V2_TYPE_DATA then client_handle_data y buffer c
      else (c, - 1))"

definition client_handle_tun_packet :: "client_ctx \<Rightarrow> bytes \<Rightarrow> client_proc \<Rightarrow> client_proc \<times> int" where
  "client_handle_tun_packet y buffer c =
     (if buffer = [] \<or> length buffer > TUN_PACKET_MAX then (c, - 1)
      else if \<not> s_valid (cs_cur (cl_state c)) then (c, 0)
      else case session_seal (y_mc y) (cs_cur (cl_state c)) buffer (TUN_PACKET_MAX + V2_OVERHEAD) of
             (s, None) \<Rightarrow> (c, - 1)
           | (s, Some packet) \<Rightarrow> net_client_send y packet (on_state (\<lambda>st. st\<lparr>cs_cur := s\<rparr>) c))"

subsection \<open>Reconnect and the periodic tick\<close>

definition CAMEX_RECONNECT_INTERVAL :: nat where "CAMEX_RECONNECT_INTERVAL = 5"
definition CAMEX_KEEPALIVE_MAX :: int where "CAMEX_KEEPALIVE_MAX = int CAMEX_CLIENT_TIMEOUT_MIN div 3"

definition reconnect_delay :: "nat \<Rightarrow> nat" where
  "reconnect_delay backoff = (let delay = push_bit backoff CAMEX_RECONNECT_INTERVAL in if delay > 60 then 60 else delay)"

definition client_reconnect :: "client_ctx \<Rightarrow> client_proc \<Rightarrow> client_proc" where
  "client_reconnect y c =
     (let c0 = on_state (\<lambda>s. s\<lparr>cs_established := False\<rparr>) (client_wipe ((client_net_close c)\<lparr>cl_recv := recv_zero\<rparr>))
      in case client_socket_create y c0 of
           (c1, rc) \<Rightarrow>
             if rc \<noteq> 0
             then on_state (\<lambda>s. s\<lparr>cs_last_recv := 0\<rparr>)
                    (c1\<lparr>cl_backoff := (if cl_backoff c1 < 4 then cl_backoff c1 + 1 else cl_backoff c1),
                        cl_reconnect_at := y_now y + int (reconnect_delay (cl_backoff c1))\<rparr>)
             else (case client_start_handshake y
                          (on_state (\<lambda>s. s\<lparr>cs_last_recv := y_now y, cs_last_keepalive := y_now y\<rparr>) (c1\<lparr>cl_reconnect_at := 0\<rparr>)) of
                     (c2, rc2) \<Rightarrow>
                       if rc2 \<noteq> 0
                       then on_state (\<lambda>s. s\<lparr>cs_last_recv := 0\<rparr>)
                              ((client_net_close c2)\<lparr>cl_reconnect_at := y_now y + int CAMEX_RECONNECT_INTERVAL\<rparr>)
                       else c2\<lparr>cl_link_up := True\<rparr>))"

text \<open>\<open>y_rekey_env\<close>: \<open>CAMEX_REKEY_AFTER\<close>, 0 when unset.\<close>

definition client_rekey_after :: "client_ctx \<Rightarrow> int" where
  "client_rekey_after y = (if 5 \<le> y_rekey_env y \<and> y_rekey_env y \<le> V2_REKEY_AFTER_TIME then y_rekey_env y else V2_REKEY_AFTER_TIME)"

definition client_keepalive_interval :: "camex_config \<Rightarrow> int" where
  "client_keepalive_interval cfg =
     (if c_keepalive cfg = 0 then CAMEX_KEEPALIVE_MAX
      else let half = c_server_timeout cfg div 2;
               cap1 = (if half < 1 then 1 else half);
               cap = (if cap1 > CAMEX_KEEPALIVE_MAX then CAMEX_KEEPALIVE_MAX else cap1)
           in if c_keepalive cfg < cap then c_keepalive cfg else cap)"

definition client_loss_after :: "camex_config \<Rightarrow> int" where
  "client_loss_after cfg = c_server_timeout cfg + (if c_keepalive cfg = 0 then client_keepalive_interval cfg else 0)"

definition client_link_lost :: "client_ctx \<Rightarrow> client_proc \<Rightarrow> bool" where
  "client_link_lost y c \<longleftrightarrow> (let s = cl_state c in
     cs_established s \<and> cs_last_recv s > 0 \<and> y_now y - cs_last_recv s \<ge> client_loss_after (cl_cfg c) \<or>
     \<not> cs_established s \<and> cs_hs_pending s \<and> y_now y - cs_hs_started s \<ge> c_server_timeout (cl_cfg c))"

definition client_rekey_lost :: "client_ctx \<Rightarrow> client_proc \<Rightarrow> bool" where
  "client_rekey_lost y c \<longleftrightarrow> (let s = cl_state c in
     cs_established s \<and> cs_hs_pending s \<and> y_now y - cs_hs_started s \<ge> V2_REKEY_TIMEOUT)"

definition client_rekey_due :: "client_ctx \<Rightarrow> client_proc \<Rightarrow> bool" where
  "client_rekey_due y c \<longleftrightarrow> (let s = cl_state c in
     s_valid (cs_cur s) \<and> \<not> cs_hs_pending s \<and>
     (y_now y - s_created (cs_cur s) \<ge> client_rekey_after y \<or> s_send_n (cs_cur s) \<ge> V2_REKEY_AFTER_MSGS))"

definition client_keepalive_due :: "client_ctx \<Rightarrow> client_proc \<Rightarrow> bool" where
  "client_keepalive_due y c \<longleftrightarrow> (let s = cl_state c in
     s_valid (cs_cur s) \<and>
     y_now y - cs_last_keepalive s \<ge>
       (if cs_confirm_pending s then V2_HANDSHAKE_RETRY else client_keepalive_interval (cl_cfg c)))"

definition client_keepalive :: "client_ctx \<Rightarrow> client_proc \<Rightarrow> client_proc" where
  "client_keepalive y c =
     on_state (\<lambda>s. s\<lparr>cs_last_keepalive := y_now y\<rparr>)
       (case session_seal (y_mc y) (cs_cur (cl_state c)) [] V2_OVERHEAD of
          (s, None) \<Rightarrow> c
        | (s, Some packet) \<Rightarrow> fst (net_client_send y packet (on_state (\<lambda>st. st\<lparr>cs_cur := s\<rparr>) c)))"

definition client_dropped :: "client_proc \<Rightarrow> client_proc" where
  "client_dropped c = on_state (\<lambda>s. s\<lparr>cs_last_recv := 0\<rparr>) (c\<lparr>cl_link_up := False\<rparr>)"

definition client_tick :: "client_ctx \<Rightarrow> client_proc \<Rightarrow> client_proc" where
  "client_tick y c =
     (if cl_fd c < 0 \<or> cl_reconnect_at c > 0
      then (if cl_reconnect_at c = 0 \<or> y_now y - cl_reconnect_at c \<ge> 0 then client_reconnect y c else c)
      else if client_link_lost y c \<or> client_rekey_lost y c then client_reconnect y (client_dropped c)
      else case (if cs_hs_pending (cl_state c) \<and> y_now y - cs_hs_sent (cl_state c) \<ge> V2_HANDSHAKE_RETRY
                 then client_send_init y c else (c, 0)) of
             (c1, rc) \<Rightarrow>
               if rc \<noteq> 0 then (client_net_close c1)\<lparr>cl_reconnect_at := 0\<rparr>
               else let c2 = (if client_rekey_due y c1 then fst (client_start_handshake y c1) else c1)
                    in if client_keepalive_due y c2 then client_keepalive y c2 else c2)"

subsection \<open>Sending\<close>

lemma net_client_send_props:
  assumes "net_client_send y data c = (c', rc)"
  shows "cl_state c' = cl_state c" "cl_backoff c' = cl_backoff c" "cl_recv c' = cl_recv c" "cl_cfg c' = cl_cfg c"
    "cl_reconnect_at c' = cl_reconnect_at c" "cl_link_up c' = cl_link_up c" "cl_fd c' = cl_fd c" "cl_tun_up c' = cl_tun_up c"
    "cl_reconfig_pending c' = cl_reconfig_pending c"
  using assms by (auto simp: net_client_send_def client_act_def split: if_splits prod.splits)

text \<open>What a handshake attempt leaves alone.\<close>

definition handshake_frame :: "client_proc \<Rightarrow> client_proc \<Rightarrow> bool" where
  "handshake_frame c c' \<longleftrightarrow> cs_cur (cl_state c') = cs_cur (cl_state c) \<and> cs_prev (cl_state c') = cs_prev (cl_state c) \<and>
     cs_last_recv (cl_state c') = cs_last_recv (cl_state c) \<and> cs_last_keepalive (cl_state c') = cs_last_keepalive (cl_state c) \<and>
     cs_established (cl_state c') = cs_established (cl_state c) \<and> cs_confirm_pending (cl_state c') = cs_confirm_pending (cl_state c) \<and>
     cs_config_received (cl_state c') = cs_config_received (cl_state c) \<and> cs_prev_until (cl_state c') = cs_prev_until (cl_state c) \<and>
     cl_cfg c' = cl_cfg c \<and> cl_fd c' = cl_fd c \<and> cl_reconnect_at c' = cl_reconnect_at c \<and> cl_backoff c' = cl_backoff c \<and>
     cl_tun_up c' = cl_tun_up c \<and> cl_link_up c' = cl_link_up c"

lemma send_init_frame:
  assumes "client_send_init y c = (c', rc)"
  shows "handshake_frame c c'" and "rc = 0 \<Longrightarrow> cs_hs_pending (cl_state c') \<and> cs_hs_sent (cl_state c') = y_now y"
    and "cs_hs_started (cl_state c') = cs_hs_started (cl_state c)" and "rc \<le> 0"
proof -
  have "handshake_frame c c' \<and> (rc = 0 \<longrightarrow> cs_hs_pending (cl_state c') \<and> cs_hs_sent (cl_state c') = y_now y) \<and>
      cs_hs_started (cl_state c') = cs_hs_started (cl_state c) \<and> rc \<le> 0"
    using assms net_client_send_props unfolding client_send_init_def Let_def handshake_frame_def
    by (auto split: if_splits option.splits prod.splits)
  then show "handshake_frame c c'" "rc = 0 \<Longrightarrow> cs_hs_pending (cl_state c') \<and> cs_hs_sent (cl_state c') = y_now y"
    "cs_hs_started (cl_state c') = cs_hs_started (cl_state c)" "rc \<le> 0"
    by blast+
qed

lemma start_handshake_frame:
  assumes "client_start_handshake y c = (c', rc)"
  shows "handshake_frame c c'" and "rc = 0 \<Longrightarrow> cs_hs_pending (cl_state c')"
  using send_init_frame [OF assms [unfolded client_start_handshake_def]] by (simp_all add: handshake_frame_def)

text \<open>What sealing and sending a keepalive leaves alone.\<close>

lemma confirm_props:
  shows "cs_hs_index (cl_state (client_confirm y c)) = cs_hs_index (cl_state c)"
    and "cl_cfg (client_confirm y c) = cl_cfg c" and "cl_fd (client_confirm y c) = cl_fd c"
    and "cs_established (cl_state (client_confirm y c)) = cs_established (cl_state c)"
    and "cs_prev (cl_state (client_confirm y c)) = cs_prev (cl_state c)"
    and "(cs_cur (cl_state (client_confirm y c)))\<lparr>s_send_n := 0\<rparr> = (cs_cur (cl_state c))\<lparr>s_send_n := 0\<rparr>"
proof -
  obtain s r where s: "session_seal (y_mc y) (cs_cur (cl_state c)) [] V2_OVERHEAD = (s, r)"
    by fastforce
  obtain c2 rc where n: "net_client_send y (the r) (on_state (\<lambda>st. st\<lparr>cs_cur := s\<rparr>) c) = (c2, rc)"
    by fastforce
  have eq: "client_confirm y c = (if r = None then c else on_state (\<lambda>st. st\<lparr>cs_last_keepalive := y_now y\<rparr>) c2)"
    using n by (cases r) (simp_all add: client_confirm_def s)
  have cur: "r \<noteq> None \<Longrightarrow> s\<lparr>s_send_n := 0\<rparr> = (cs_cur (cl_state c))\<lparr>s_send_n := 0\<rparr>"
    using session_seal_SomeD(2) s by fastforce
  show "cs_hs_index (cl_state (client_confirm y c)) = cs_hs_index (cl_state c)"
    "cl_cfg (client_confirm y c) = cl_cfg c" "cl_fd (client_confirm y c) = cl_fd c"
    "cs_established (cl_state (client_confirm y c)) = cs_established (cl_state c)"
    "cs_prev (cl_state (client_confirm y c)) = cs_prev (cl_state c)"
    "(cs_cur (cl_state (client_confirm y c)))\<lparr>s_send_n := 0\<rparr> = (cs_cur (cl_state c))\<lparr>s_send_n := 0\<rparr>"
    unfolding eq using cur net_client_send_props [OF n] by simp_all
qed

lemma keepalive_props:
  shows "cs_last_keepalive (cl_state (client_keepalive y c)) = y_now y" and "cl_fd (client_keepalive y c) = cl_fd c"
    and "s_valid (cs_cur (cl_state (client_keepalive y c))) = s_valid (cs_cur (cl_state c))"
    and "cl_cfg (client_keepalive y c) = cl_cfg c"
proof -
  obtain s r where s: "session_seal (y_mc y) (cs_cur (cl_state c)) [] V2_OVERHEAD = (s, r)"
    by fastforce
  obtain c2 rc where n: "net_client_send y (the r) (on_state (\<lambda>st. st\<lparr>cs_cur := s\<rparr>) c) = (c2, rc)"
    by fastforce
  have eq: "client_keepalive y c = on_state (\<lambda>s. s\<lparr>cs_last_keepalive := y_now y\<rparr>) (if r = None then c else c2)"
    using n by (cases r) (simp_all add: client_keepalive_def s)
  have cur: "r \<noteq> None \<Longrightarrow> s_valid s = s_valid (cs_cur (cl_state c))"
    using session_seal_SomeD(2) s by fastforce
  show "cs_last_keepalive (cl_state (client_keepalive y c)) = y_now y" "cl_fd (client_keepalive y c) = cl_fd c"
    "s_valid (cs_cur (cl_state (client_keepalive y c))) = s_valid (cs_cur (cl_state c))"
    "cl_cfg (client_keepalive y c) = cl_cfg c"
    unfolding eq using cur net_client_send_props [OF n] by simp_all
qed

subsection \<open>Properties\<close>

text \<open>C12: whatever arrives, the client's state, its configuration and its tunnel change only by a packet
  that authenticates: a response to the handshake it is waiting for, or data that opens in one of
  its sessions.\<close>

theorem client_authenticated_only:
  assumes "client_handle_net_packet y b c = (c', rc)" and "c' \<noteq> c"
  shows "v2_packet_type b = V2_TYPE_RESP \<and> cs_hs_pending (cl_state c) \<and> v2_read_u32 (drop 9 b) = cs_hs_index (cl_state c) \<and>
       (\<exists>hs payload. noise_read_msg2 (y_mc y) (cs_hs (cl_state c)) (drop V2_RESP_HDR b) (CAMEX_CONTROL_MAX - 1) = (hs, Some payload)) \<or>
     v2_packet_type b = V2_TYPE_DATA \<and>
       (\<exists>s plain. session_open (y_mc y) (cs_cur (cl_state c)) b TUN_PACKET_MAX = (s, Some plain) \<or>
          session_open (y_mc y) (cs_prev (cl_state c)) b TUN_PACKET_MAX = (s, Some plain) \<and> y_now y \<le> cs_prev_until (cl_state c))"
proof -
  have r: "cs_hs_pending (cl_state c) \<and> v2_read_u32 (drop 9 b) = cs_hs_index (cl_state c) \<and>
       (\<exists>hs payload. noise_read_msg2 (y_mc y) (cs_hs (cl_state c)) (drop V2_RESP_HDR b) (CAMEX_CONTROL_MAX - 1) = (hs, Some payload))"
    if h: "client_handle_resp y b c = (c', rc)"
  proof -
    obtain hs p where n: "noise_read_msg2 (y_mc y) (cs_hs (cl_state c)) (drop V2_RESP_HDR b) (CAMEX_CONTROL_MAX - 1) = (hs, p)"
      by fastforce
    have "p \<noteq> None" "cs_hs_pending (cl_state c)" "v2_read_u32 (drop 9 b) = cs_hs_index (cl_state c)"
      using h assms(2) n by (cases p; auto simp: client_handle_resp_def Let_def split: if_splits)+
    then show ?thesis
      using n by blast
  qed
  have d: "\<exists>s plain. session_open (y_mc y) (cs_cur (cl_state c)) b TUN_PACKET_MAX = (s, Some plain) \<or>
          session_open (y_mc y) (cs_prev (cl_state c)) b TUN_PACKET_MAX = (s, Some plain) \<and> y_now y \<le> cs_prev_until (cl_state c)"
    if h: "client_handle_data y b c = (c', rc)"
  proof -
    let ?cur = "s_valid (cs_cur (cl_state c)) \<and> v2_data_receiver b = s_local_index (cs_cur (cl_state c))"
    obtain s p where s: "session_open (y_mc y) (if ?cur then cs_cur (cl_state c) else cs_prev (cl_state c)) b TUN_PACKET_MAX = (s, p)"
      by fastforce
    have g: "?cur \<or> y_now y \<le> cs_prev_until (cl_state c)"
      using h assms(2) by (auto simp: client_handle_data_def Let_def split: if_splits)
    have "p \<noteq> None"
      using h assms(2) s unfolding client_handle_data_def Let_def by (cases p) (auto split: if_splits)
    then show ?thesis
      using s g by (cases ?cur) auto
  qed
  show ?thesis
    using assms r d unfolding client_handle_net_packet_def by (auto split: if_splits)
qed

text \<open>A reconnect always leads on: afterwards a handshake waits for its answer on the new socket, or
  the next attempt is due within a minute; the number of doublings stays bounded.\<close>

lemma reconnect_leads_on:
  assumes "cl_backoff c \<le> 4" and "y_now y > 0"
  shows "let c' = client_reconnect y c
    in cl_backoff c' \<le> 4 \<and>
      (cl_fd c' \<ge> 0 \<and> cl_reconnect_at c' = 0 \<and> cs_hs_pending (cl_state c') \<and> cl_link_up c' \<or>
       cl_fd c' < 0 \<and> y_now y < cl_reconnect_at c' \<and> cl_reconnect_at c' \<le> y_now y + 60)"
proof -
  let ?c0 = "on_state (\<lambda>s. s\<lparr>cs_established := False\<rparr>) (client_wipe ((client_net_close c)\<lparr>cl_recv := recv_zero\<rparr>))"
  have c0: "cl_fd ?c0 < 0" "cl_backoff ?c0 = cl_backoff c"
    by (simp_all add: client_wipe_def client_net_close_def client_act_def)
  have delay: "0 < reconnect_delay n \<and> reconnect_delay n \<le> 60" for n
    by (simp add: reconnect_delay_def Let_def CAMEX_RECONNECT_INTERVAL_def push_bit_eq_mult)
  show ?thesis
  proof (cases "y_socket y < 0")
    case True
    then have s: "client_socket_create y ?c0 = (?c0, - 1)"
      by (simp add: client_socket_create_def)
    show ?thesis
      unfolding client_reconnect_def Let_def s using c0 assms(1) delay [of "cl_backoff c"] by simp
  next
    case False
    let ?c1 = "?c0\<lparr>cl_fd := y_socket y\<rparr>"
    have s: "client_socket_create y ?c0 = (?c1, 0)"
      using False by (simp add: client_socket_create_def)
    let ?h = "on_state (\<lambda>s. s\<lparr>cs_last_recv := y_now y, cs_last_keepalive := y_now y\<rparr>) (?c1\<lparr>cl_reconnect_at := 0\<rparr>)"
    obtain c2 rc where h: "client_start_handshake y ?h = (c2, rc)"
      by fastforce
    have f: "cl_fd c2 = y_socket y" "cl_reconnect_at c2 = 0" "cl_backoff c2 = cl_backoff c"
      using start_handshake_frame(1) [OF h] c0(2) by (simp_all add: handshake_frame_def)
    show ?thesis
    proof (cases "rc = 0")
      case True
      then show ?thesis
        using f start_handshake_frame(2) [OF h True] assms(1) False h
        unfolding client_reconnect_def Let_def s prod.case by simp
    next
      case F: False
      then show ?thesis
        using f assms(1) False h unfolding client_reconnect_def Let_def s prod.case
        by (simp add: client_net_close_def client_act_def CAMEX_RECONNECT_INTERVAL_def)
    qed
  qed
qed

lemma set_routes_props:
  assumes "set_routes y g add rs c = (c', n)"
  shows "cl_cfg c' = cl_cfg c" "cl_tun_up c' = cl_tun_up c" "cl_state c' = cl_state c" "cl_fd c' = cl_fd c"
    "cl_reconnect_at c' = cl_reconnect_at c"
  using assms by (induction rs arbitrary: c n) (auto simp: client_act_def split: prod.splits)

lemma client_set_routes_props:
  assumes "client_set_routes y cfg add c = (c', n)"
  shows "cl_cfg c' = cl_cfg c" "cl_tun_up c' = cl_tun_up c" "cl_state c' = cl_state c" "cl_fd c' = cl_fd c"
    "cl_reconnect_at c' = cl_reconnect_at c"
  using assms set_routes_props unfolding client_set_routes_def by (auto split: if_splits)

lemma open_tunnel_props:
  assumes "client_open_tunnel y cfg c = (c', b)"
  shows "cl_cfg c' = cl_cfg c" "b \<Longrightarrow> cl_tun_up c'" "cl_tun_up c' \<Longrightarrow> b \<or> cl_tun_up c" "cl_state c' = cl_state c" "cl_fd c' = cl_fd c"
    "cl_reconnect_at c' = cl_reconnect_at c"
  using assms by (auto simp: client_open_tunnel_def client_act_def split: if_splits)

lemma reconfigure_props:
  assumes r: "camex_client_reconfigure y new c = (c', rc)"
  shows "(cl_cfg c' = cl_cfg c \<or> client_config_same (cl_cfg c') new) \<and> cl_state c' = cl_state c \<and>
    (rc = 0 \<longrightarrow> client_config_same (cl_cfg c') new \<and> cl_tun_up c' \<and> \<not> cl_reconfig_pending c') \<and>
    (cl_tun_up c \<and> \<not> cl_tun_up c' \<longrightarrow> cl_reconfig_pending c' \<and> cl_cfg c' = cl_cfg c) \<and>
    cl_fd c' = cl_fd c \<and> cl_reconnect_at c' = cl_reconnect_at c \<and> c_auto_config (cl_cfg c') = c_auto_config (cl_cfg c)"
proof (cases "parse_local_cidr (c_local_cidr new) 16 16")
  case None
  then show ?thesis using r by (simp add: camex_client_reconfigure_def Let_def)
next
  case (Some q)
  obtain ip mk where q: "q = (ip, mk)"
    by fastforce
  consider "cl_tun_up c" "y_inherited y" | "cl_tun_up c" "\<not> y_inherited y" "client_config_same (cl_cfg c) new"
    | "\<not> (cl_tun_up c \<and> y_inherited y)" "\<not> (cl_tun_up c \<and> client_config_same (cl_cfg c) new)"
    by blast
  then show ?thesis
  proof cases
    case 1
    then show ?thesis using r Some q by (simp add: camex_client_reconfigure_def Let_def)
  next
    case 2
    obtain c1 failed where s: "client_set_routes y (cl_cfg c) True c = (c1, failed)"
      by fastforce
    then show ?thesis
      using r Some q 2 client_set_routes_props [OF s] by (auto simp: camex_client_reconfigure_def Let_def)
  next
    case 3
    let ?c1 = "if cl_tun_up c then fst (client_set_routes y (cl_cfg c) False c) else c"
    have c1: "cl_cfg (packet_closed ?c1) = cl_cfg c" "cl_state (packet_closed ?c1) = cl_state c" "\<not> cl_tun_up (packet_closed ?c1)"
      "cl_fd (packet_closed ?c1) = cl_fd c" "cl_reconnect_at (packet_closed ?c1) = cl_reconnect_at c"
      using client_set_routes_props [of y "cl_cfg c" False c] by (auto simp: packet_closed_def client_act_def) (metis prod.collapse)+
    obtain c2 b where o2: "client_open_tunnel y new (packet_closed ?c1) = (c2, b)"
      by fastforce
    note p2 = open_tunnel_props [OF o2]
    obtain c3 b3 where o3: "client_open_tunnel y (cl_cfg c) c2 = (c3, b3)"
      by fastforce
    note p3 = open_tunnel_props [OF o3]
    obtain c4 f4 where s4: "client_set_routes y (cl_cfg c) True c3 = (c4, f4)"
      by fastforce
    note p4 = client_set_routes_props [OF s4]
    let ?cfg = "(cl_cfg c)\<lparr>c_local_cidr := c_local_cidr new, c_local_ip := ip, c_gateway_ip := c_gateway_ip new,
                                      c_mtu := c_mtu new, c_route_cidrs := c_route_cidrs new\<rparr>"
    obtain c5 f5 where s5: "client_set_routes y ?cfg True (c2\<lparr>cl_cfg := ?cfg\<rparr>) = (c5, f5)"
      by fastforce
    note p5 = client_set_routes_props [OF s5]
    have "(c', rc) = (if b then (c5\<lparr>cl_reconfig_pending := (f5 \<noteq> 0)\<rparr>, if f5 \<noteq> 0 then - 1 else 0)
        else if b3 then (c4\<lparr>cl_reconfig_pending := (f4 \<noteq> 0)\<rparr>, - 1) else (c3\<lparr>cl_reconfig_pending := True\<rparr>, - 1))"
      using r [symmetric] 3 unfolding camex_client_reconfigure_def Let_def Some q option.case prod.case if_not_P [OF 3(1)] if_not_P [OF 3(2)] o2
      by (cases b; cases b3; simp add: o3 s4 s5)
    then show ?thesis
      using c1 p2 p3 p4 p5 by (auto simp: client_config_same_def split: if_splits)
  qed
qed


lemma config_change_state: "cl_state (client_check_config_change y payload c) = cl_state c"
proof -
  have "cl_state (fst (camex_client_reconfigure y new c)) = cl_state c" for new
    using reconfigure_props [OF surjective_pairing [of "camex_client_reconfigure y new c"]] by simp
  then show ?thesis
    by (simp add: client_check_config_change_def split: option.splits)
qed

text \<open>An idle client is heard often enough: after a tick its last keepalive is younger than its
  interval, which is at least a second and at most a third of the shortest time after which any
  server configuration expires a silent client.\<close>

lemma keepalive_in_time:
  assumes up: "cl_fd c \<ge> 0" "cl_reconnect_at c \<le> 0" "\<not> client_link_lost y c" "\<not> client_rekey_lost y c"
    and v: "s_valid (cs_cur (cl_state c))" and cfg: "0 \<le> c_keepalive (cl_cfg c)"
    and g: "globals_wf (x_globals x)" "x_timeout_env x \<le> 0"
  shows "(let c' = client_tick y c in cl_fd c' < 0 \<or> y_now y - cs_last_keepalive (cl_state c') < client_keepalive_interval (cl_cfg c) \<or>
      cs_confirm_pending (cl_state c') \<and> y_now y - cs_last_keepalive (cl_state c') < V2_HANDSHAKE_RETRY) \<and>
    1 \<le> client_keepalive_interval (cl_cfg c) \<and>
    3 * client_keepalive_interval (cl_cfg c) \<le> server_client_timeout x"
proof -
  let ?int = "client_keepalive_interval (cl_cfg c)"
  have i: "1 \<le> ?int" "?int \<le> 20"
    using cfg by (auto simp: client_keepalive_interval_def CAMEX_KEEPALIVE_MAX_def CAMEX_CLIENT_TIMEOUT_MIN_def Let_def)
  obtain c1 rc where c1: "(if cs_hs_pending (cl_state c) \<and> y_now y - cs_hs_sent (cl_state c) \<ge> V2_HANDSHAKE_RETRY
                 then client_send_init y c else (c, 0)) = (c1, rc)"
    by fastforce
  have f1: "handshake_frame c c1"
    using c1 send_init_frame(1) by (auto simp: handshake_frame_def split: if_splits)
  let ?c2 = "if client_rekey_due y c1 then fst (client_start_handshake y c1) else c1"
  have f2: "handshake_frame c1 ?c2"
    using start_handshake_frame(1) [of y c1] by (auto simp: handshake_frame_def intro: prod.collapse) (metis prod.collapse)+
  have t: "client_tick y c = (if rc \<noteq> 0 then (client_net_close c1)\<lparr>cl_reconnect_at := 0\<rparr>
      else if client_keepalive_due y ?c2 then client_keepalive y ?c2 else ?c2)"
    unfolding client_tick_def c1 using up by (simp add: Let_def)
  have closed: "cl_fd (client_net_close c1) < 0"
    by (simp add: client_net_close_def client_act_def)
  define c3 where "c3 = (if client_keepalive_due y ?c2 then client_keepalive y ?c2 else ?c2)"
  have cfg2: "cl_cfg ?c2 = cl_cfg c" "s_valid (cs_cur (cl_state ?c2))"
    using f1 f2 v by (simp_all add: handshake_frame_def)
  have alive: "y_now y - cs_last_keepalive (cl_state c3) < ?int \<or>
      cs_confirm_pending (cl_state c3) \<and> y_now y - cs_last_keepalive (cl_state c3) < V2_HANDSHAKE_RETRY"
  proof (cases "client_keepalive_due y ?c2")
    case True
    then show ?thesis
      using i keepalive_props(1) by (simp add: c3_def)
  next
    case False
    then show ?thesis
      using cfg2 unfolding c3_def if_not_P [OF False] client_keepalive_due_def Let_def by (auto split: if_splits)
  qed
  have "3 * ?int \<le> server_client_timeout x"
    using i g by (auto simp: server_client_timeout_def globals_wf_def CAMEX_CLIENT_TIMEOUT_MIN_def CAMEX_CLIENT_TIMEOUT_def)
  then show ?thesis
    using alive closed i(1) unfolding t c3_def [symmetric] Let_def by simp
qed

subsection \<open>Witnesses\<close>

definition demo_proc :: client_proc where
  "demo_proc = \<lparr>cl_state = client_state_init\<lparr>cs_cur := demo_session 0\<rparr>, cl_backoff = 0, cl_recv = recv_zero, cl_cfg = some_client,
     cl_reconnect_at = 0, cl_link_up = True, cl_fd = 5, cl_tun_up = True, cl_reconfig_pending = False, cl_net = [], cl_acts = []\<rparr>"

definition demo_client_ctx :: client_ctx where
  "demo_client_ctx = \<lparr>y_now = 1000, y_crypto = crypto_zero, y_mc = toy_mono, y_clock = (1000, 0), y_seed = Some (replicate 32 3),
     y_index_rnd = (\<lambda>_. Some [0, 0, 0, 9]), y_sndbuf = True, y_rs1 = [], y_rs2 = [], y_udp = (\<lambda>_. True), y_socket = - 1,
     y_rekey_env = 0, y_inherited = False, y_host_routes = True, y_open = (\<lambda>_. True), y_route = (\<lambda>_ _. True), y_tun = 0\<rparr>"

theorem client_authenticated_only_witness:
  "\<exists>c' rc. client_handle_net_packet demo_client_ctx demo_packet demo_proc = (c', rc) \<and> c' \<noteq> demo_proc \<and>
     (\<exists>s plain. session_open toy_mono (demo_session 0) demo_packet TUN_PACKET_MAX = (s, Some plain) \<or>
        session_open toy_mono session_zero demo_packet TUN_PACKET_MAX = (s, Some plain))"
proof -
  obtain s where s: "session_open toy_mono (demo_session 0) demo_packet TUN_PACKET_MAX = (s, Some demo_payload)"
    using demo_packet_open(2) by blast
  have t: "v2_packet_type demo_packet = V2_TYPE_DATA" "V2_TYPE_DATA \<noteq> V2_TYPE_RESP"
    using session_open_SomeD(2) [OF s] by (simp_all add: V2_TYPE_DATA_def V2_TYPE_RESP_def)
  have d: "client_handle_net_packet demo_client_ctx demo_packet demo_proc = client_handle_data demo_client_ctx demo_packet demo_proc"
    using t by (simp add: client_handle_net_packet_def)
  have acts: "cl_acts (fst (client_handle_data demo_client_ctx demo_packet demo_proc)) = [Tun_packet demo_payload]"
    using s demo_packet_open(1) demo_session_facts(7) [of 0] demo_session_facts(9) [of 0]
    by (simp add: client_handle_data_def demo_proc_def demo_client_ctx_def client_write_tun_def client_act_def demo_payload_def Let_def)
  obtain c' rc where h: "client_handle_net_packet demo_client_ctx demo_packet demo_proc = (c', rc)"
    by fastforce
  have "c' \<noteq> demo_proc"
  proof -
    have "cl_acts c' = [Tun_packet demo_payload]" "cl_acts demo_proc = []"
      using acts h unfolding d by (simp_all add: demo_proc_def)
    then show ?thesis by auto
  qed
  then show ?thesis
    using h client_authenticated_only [OF h] t
    by (auto simp: demo_proc_def demo_client_ctx_def client_state_init_def)
qed




end
