(* ===== verification/Endtoend.thy ===== *)
theory Endtoend
  imports Client
begin

text \<open>
  The two ends together: the client's INIT through the server and back (\<open>client_send_init\<close> and
  \<open>client_handle_resp\<close> of \<open>src/client.c\<close>, \<open>server_handle_init\<close> of \<open>src/server.c\<close>), and when the
  server accepts one.
\<close>


subsection \<open>The INIT packet\<close>

lemma init_packet_parts:
  assumes "mono_ok mc"
  shows "length (init_packet mc pub index m) = V2_INIT_HDR + length m + V2_MAC_LEN"
    and "drop V2_INIT_HDR (take (length (init_packet mc pub index m) - V2_MAC_LEN) (init_packet mc pub index m)) = m"
    and "v2_read_u32 (drop 5 (init_packet mc pub index m)) = index"
    and "crypto_verify 16 (v2_mac1 mc pub (take (length (init_packet mc pub index m) - V2_MAC_LEN) (init_packet mc pub index m)))
           (drop (length (init_packet mc pub index m) - V2_MAC_LEN) (init_packet mc pub index m))"
    and "NOISE_MSG_OVERHEAD + V2_TIMESTAMP_LEN \<le> length m \<Longrightarrow> v2_packet_type (init_packet mc pub index m) = V2_TYPE_INIT"
proof -
  let ?b = "CAMEX_MAGIC @ [V2_TYPE_INIT] @ v2_write_u32 index @ m"
  have mac: "length (v2_mac1 mc pub ?b) = V2_MAC_LEN"
    by (simp add: v2_mac1_def Let_def mono_okD [OF assms])
  have p: "init_packet mc pub index m = ?b @ v2_mac1 mc pub ?b"
    by (simp add: init_packet_def Let_def)
  have b: "length ?b = V2_INIT_HDR + length m" "drop V2_INIT_HDR ?b = m"
    by (simp_all add: CAMEX_MAGIC_def V2_INIT_HDR_def)
  show l: "length (init_packet mc pub index m) = V2_INIT_HDR + length m + V2_MAC_LEN"
    using b(1) mac unfolding p by simp
  have k: "length (init_packet mc pub index m) - V2_MAC_LEN = length ?b"
    using b(1) l by simp
  have td: "take (length xs) (xs @ z) = xs" "drop (length xs) (xs @ z) = z" for xs z :: bytes
    by simp_all
  have parts: "take (length (init_packet mc pub index m) - V2_MAC_LEN) (init_packet mc pub index m) = ?b"
    "drop (length (init_packet mc pub index m) - V2_MAC_LEN) (init_packet mc pub index m) = v2_mac1 mc pub ?b"
    unfolding k unfolding p by (rule td)+
  show "drop V2_INIT_HDR (take (length (init_packet mc pub index m) - V2_MAC_LEN) (init_packet mc pub index m)) = m"
    unfolding parts by (rule b(2))
  show "crypto_verify 16 (v2_mac1 mc pub (take (length (init_packet mc pub index m) - V2_MAC_LEN) (init_packet mc pub index m)))
           (drop (length (init_packet mc pub index m) - V2_MAC_LEN) (init_packet mc pub index m))"
    unfolding parts by (simp add: crypto_verify_def)
  show "v2_read_u32 (drop 5 (init_packet mc pub index m)) = index"
    unfolding p by (simp add: CAMEX_MAGIC_def)
  show "v2_packet_type (init_packet mc pub index m) = V2_TYPE_INIT" if "NOISE_MSG_OVERHEAD + V2_TIMESTAMP_LEN \<le> length m"
    using that l unfolding p by (simp add: v2_packet_type_def CAMEX_MAGIC_def)
qed

text \<open>What a client that sent an INIT remembers.\<close>

lemma client_sent_init:
  assumes "client_send_init y c = (c1, 0)"
  obtains message seed m where "proto_build_register (cl_cfg c) CAMEX_CONTROL_MAX = Some message" and "y_seed y = Some seed"
    and "noise_write_msg1 (y_mc y) (noise_init_initiator (y_mc y) CAMEX_NOISE_PROLOGUE (cc_server_pub (y_crypto y)))
           (cc_psk_key (y_crypto y)) seed (v2_timestamp (fst (y_clock y)) (snd (y_clock y)) @ str_bytes message)
           (NOISE_MSG_OVERHEAD + V2_TIMESTAMP_LEN + CAMEX_CONTROL_MAX) = (cs_hs (cl_state c1), Some m)"
    and "cs_hs_pending (cl_state c1)" and "cs_hs_index (cl_state c1) = v2_new_index (y_index_rnd y)"
    and "\<not> c_tcp (cl_cfg c) \<Longrightarrow> cl_acts c1 = cl_acts c @ [Net_sent (cl_fd c) (init_packet (y_mc y) (cc_server_pub (y_crypto y)) (cs_hs_index (cl_state c1)) m)]"
proof -
  let ?ctx = "y_crypto y" and ?i = "v2_new_index (y_index_rnd y)"
  obtain message seed where ms: "proto_build_register (cl_cfg c) CAMEX_CONTROL_MAX = Some message" "y_seed y = Some seed"
    and g: "\<not> (\<not> cc_has_server_pub ?ctx \<or> \<not> cc_has_global ?ctx)" and i: "?i \<noteq> 0"
    using assms by (auto simp: client_send_init_def Let_def split: if_splits option.splits)
  note e = assms [unfolded client_send_init_def Let_def ms option.case if_not_P [OF g] if_not_P [OF i]]
  obtain hs r where w: "noise_write_msg1 (y_mc y) (noise_init_initiator (y_mc y) CAMEX_NOISE_PROLOGUE (cc_server_pub ?ctx))
           (cc_psk_key ?ctx) seed (v2_timestamp (fst (y_clock y)) (snd (y_clock y)) @ str_bytes message)
           (NOISE_MSG_OVERHEAD + V2_TIMESTAMP_LEN + CAMEX_CONTROL_MAX) = (hs, r)"
    by fastforce
  obtain m where r: "r = Some m"
    using e [unfolded w prod.case] by (cases r) auto
  let ?c0 = "on_state (\<lambda>s. s\<lparr>cs_hs := hs, cs_hs_pending := True, cs_hs_sent := y_now y\<rparr>)
     (on_state (\<lambda>s. s\<lparr>cs_hs := noise_init_initiator (y_mc y) CAMEX_NOISE_PROLOGUE (cc_server_pub ?ctx), cs_hs_index := ?i\<rparr>) c)"
  obtain c2 rc where n: "net_client_send y (init_packet (y_mc y) (cc_server_pub ?ctx) ?i m) ?c0 = (c2, rc)"
    by fastforce
  have c2: "c2 = c1" "\<not> rc < 0"
    using e [unfolded w r prod.case option.case n] by (simp_all split: if_splits)
  note f = net_client_send_props [OF n [unfolded c2(1)]]
  have acts: "cl_acts c1 = cl_acts c @ [Net_sent (cl_fd c) (init_packet (y_mc y) (cc_server_pub ?ctx) ?i m)]" if "\<not> c_tcp (cl_cfg c)"
    using n that c2 by (auto simp: net_client_send_def client_act_def split: if_splits)
  show thesis
    by (rule that [OF ms, of m]) (simp_all add: f w r acts)
qed

subsection \<open>The server's answer\<close>

text \<open>The server's end of a handshake that succeeded and was answered with a datagram.\<close>

lemma init_send_udp:
  assumes "init_send x i from resp sv = (sv', rc)" and "\<not> rc < 0" and "last (sv_sent sv') = Sent_udp to r"
  shows "r = resp \<and> to = from"
  using assms unfolding init_send_def udp_send_def tcp_frame_def by (auto split: if_splits prod.splits)

lemma init_done_fields:
  "sv_sent (init_done x i cid auto sv) = sv_sent sv"
  "sc_cur (client (init_done x i cid auto sv) i) = sc_cur (client sv i)"
  "sc_next (client (init_done x i cid auto sv) i) = sc_next (client sv i)"
  by (cases "i < max_clients sv"; simp add: init_done_def Let_def list_update_beyond)+

lemma init_msg2_Some:
  assumes "init_msg2 x hs si ci reply = Some (resp, c1, c2)"
  obtains seed hs2 m2 where "noise_write_msg2 (x_mc x) hs seed (str_bytes reply) (NOISE_MSG_OVERHEAD + CAMEX_CONTROL_MAX) = (hs2, Some m2)"
    and "noise_split (x_mc x) hs2 = (c1, c2)"
    and "resp = CAMEX_MAGIC @ [V2_TYPE_RESP] @ v2_write_u32 si @ v2_write_u32 ci @ m2"
  using assms unfolding init_msg2_def by (auto split: option.splits if_splits prod.splits)

lemma build_fits:
  "proto_build_register cfg n = Some m \<Longrightarrow> length m < n" "proto_build_config w p n = Some m \<Longrightarrow> length m < n"
  by (auto simp: proto_build_register_def proto_build_config_def simp del: append_fields.simps dest!: append_fields_Some split: if_splits)

lemma init_reply_fits:
  assumes "init_reply x i cid ip auto sv = (sv', Some reply)"
  shows "length reply < CAMEX_CONTROL_MAX"
proof -
  have "length m < CAMEX_CONTROL_MAX" if "proto_build_config w p CAMEX_CONTROL_MAX = Some m" for w p m
    using that by (rule build_fits(2))
  moreover have "length manual_reply < CAMEX_CONTROL_MAX"
    by code_simp
  ultimately show ?thesis
    using assms unfolding init_reply_def server_build_config_def Let_def by (auto split: if_splits option.splits prod.splits)
qed

lemma handle_init_answer:
  assumes ok: "server_ok sv" and ks: "ks_ok (x_ks x)"
    and h: "server_handle_init x buffer from fd sv = (sv', 0)" and sent: "last (sv_sent sv') = Sent_udp to resp"
  obtains i sv1 hs key payload hs2 reply seed m2 si c1 c2 where "i < max_clients sv'" and "sc_psk_key (client sv' i) = key"
    and "init_authenticate x buffer from sv = (sv1, Some (hs, key, payload))"
    and "noise_write_msg2 (x_mc x) hs seed (str_bytes reply) (NOISE_MSG_OVERHEAD + CAMEX_CONTROL_MAX) = (hs2, Some m2)"
    and "noise_split (x_mc x) hs2 = (c1, c2)"
    and "resp = CAMEX_MAGIC @ [V2_TYPE_RESP] @ v2_write_u32 si @ v2_write_u32 (v2_read_u32 (drop 5 buffer)) @ m2"
    and "session_init si (v2_read_u32 (drop 5 buffer)) c2 c1 (x_now x) \<in> {sc_cur (client sv' i), sc_next (client sv' i)}"
    and "to = from" and "length reply < CAMEX_CONTROL_MAX"
  using h
proof (cases rule: handle_init_cases)
  case (placed sv1 hs key payload cid ip auto fresh sv2 i)
  have f: "hs_frame sv sv1"
    using authenticate_props [OF ok placed(1)] by (simp add: hs_frame_def)
  have i: "server_ok sv2" "i < max_clients sv2" "sc_active (client sv2 i)"
    using entry_for_props(1) [OF hs_frameD(1) [OF f] placed(3)] by (auto simp: entry_result_def hs_frame_def)
  note cid = request_allowed(1) [OF placed(2)]
  note r = init_register_frame [OF i cid placed(4)]
  have c: "i < max_clients sv'" "sc_psk_key (client sv' i) = key"
    using r i(2) by auto
  note E = init_entry_props [OF i cid, of x auto "from" fd]
  show thesis
    using placed(4)
  proof (cases rule: init_register_cases)
    case (made s1 reply resp0 c1 c2 s3 rc3)
    have rc3: "\<not> rc3 < 0"
      using made(4) by fastforce
    have s: "resp0 = resp" "to = from"
      using init_send_udp [OF made(3) rc3, of to resp] made(5) [OF rc3] sent by (simp_all add: init_done_fields)
    have cl: "sv_clients s3 = sv_clients (upd i (init_session (x_now x) (server_new_index x i s1) (v2_read_u32 (drop 5 buffer))
             c1 c2 key (take V2_TIMESTAMP_LEN payload)) s1)"
      by (rule init_send_props(1) [OF made(3)])
    have "max_clients s3 = max_clients s1"
      using cl by simp
    moreover have "max_clients sv' = max_clients s3"
      using made(5) [OF rc3] by (simp add: init_done_def Let_def)
    ultimately have i1: "i < max_clients s1"
      using c(1) by simp
    have ss: "session_init (server_new_index x i s1) (v2_read_u32 (drop 5 buffer)) c2 c1 (x_now x) \<in> {sc_cur (client sv' i), sc_next (client sv' i)}"
      using made(5) [OF rc3] cl i1 by (simp add: init_done_fields init_session_def Let_def)
    obtain seed hs2 m2 where m2: "noise_write_msg2 (x_mc x) hs seed (str_bytes reply) (NOISE_MSG_OVERHEAD + CAMEX_CONTROL_MAX) = (hs2, Some m2)"
        "noise_split (x_mc x) hs2 = (c1, c2)"
        "resp0 = CAMEX_MAGIC @ [V2_TYPE_RESP] @ v2_write_u32 (server_new_index x i s1) @ v2_write_u32 (v2_read_u32 (drop 5 buffer)) @ m2"
      using init_msg2_Some [OF made(2)] by metis
    show thesis
      by (rule that [OF c placed(1) m2(1,2) m2(3) [unfolded s(1)] ss s(2) init_reply_fits [OF made(1)]])
  qed simp_all
qed simp_all


definition opens_message :: "srv_ctx \<Rightarrow> bytes \<Rightarrow> bytes \<Rightarrow> bool" where
  "opens_message x packet key \<longleftrightarrow>
     (let base = noise_init_responder (x_mc x) CAMEX_NOISE_PROLOGUE (cc_server_priv (x_crypto x)) (cc_server_pub (x_crypto x));
          msg = drop V2_INIT_HDR (take (length packet - V2_MAC_LEN) packet)
      in case noise_msg1_es (x_mc x) base msg of
           None \<Rightarrow> False
         | Some es \<Rightarrow> snd (noise_read_msg1 (x_mc x) base key es msg (V2_TIMESTAMP_LEN + CAMEX_CONTROL_MAX - 1)) \<noteq> None)"

lemma resp_parts:
  fixes si ci :: u32 and m :: bytes
  defines "p \<equiv> CAMEX_MAGIC @ [V2_TYPE_RESP] @ v2_write_u32 si @ v2_write_u32 ci @ m"
  shows "v2_read_u32 (drop 5 p) = si" and "v2_read_u32 (drop 9 p) = ci" and "drop V2_RESP_HDR p = m"
    and "NOISE_MSG_OVERHEAD \<le> length m \<Longrightarrow> v2_packet_type p = V2_TYPE_RESP"
  unfolding p_def
  by (simp_all add: CAMEX_MAGIC_def V2_RESP_HDR_def v2_packet_type_def V2_TYPE_RESP_def V2_TYPE_INIT_def)

text \<open>The client's end.\<close>

lemma client_takes_answer:
  assumes p: "cs_hs_pending (cl_state c)" and auto: "c_auto_config (cl_cfg c) \<longrightarrow> cs_config_received (cl_state c)"
    and r: "noise_read_msg2 (y_mc y) (cs_hs (cl_state c)) m (CAMEX_CONTROL_MAX - 1) = (hs, Some payload)"
    and k: "noise_split (y_mc y) hs = (k1, k2)" and len: "NOISE_MSG_OVERHEAD \<le> length m"
    and resp: "resp = CAMEX_MAGIC @ [V2_TYPE_RESP] @ v2_write_u32 si @ v2_write_u32 (cs_hs_index (cl_state c)) @ m"
  shows "\<exists>c'. client_handle_net_packet y resp c = (c', 0) \<and> cs_established (cl_state c') \<and>
    (cs_cur (cl_state c'))\<lparr>s_send_n := 0\<rparr> = session_init (cs_hs_index (cl_state c)) si k1 k2 (y_now y)"
proof -
  define c1 where "c1 = (if \<not> c_auto_config (cl_cfg c) then c else client_check_config_change y payload c)"
  have c1: "(if \<not> c_auto_config (cl_cfg c) then (c, 0)
     else if \<not> cs_config_received (cl_state c) then client_apply_config_response payload c
     else (client_check_config_change y payload c, 0)) = (c1, 0)" "cl_state c1 = cl_state c"
    using auto config_change_state by (auto simp: c1_def)
  define c2 where "c2 = on_state (client_new_session y si k1 k2) (c1\<lparr>cl_backoff := 0\<rparr>)"
  have "client_handle_net_packet y resp c = (client_confirm y c2, 0)"
    using p r k c1 resp_parts [where si = si and ci = "cs_hs_index (cl_state c)" and m = m] len
    by (simp add: client_handle_net_packet_def client_handle_resp_def Let_def resp c2_def)
  moreover have "cs_established (cl_state (client_confirm y c2))"
    by (simp add: confirm_props c2_def client_new_session_def Let_def)
  moreover have "(cs_cur (cl_state (client_confirm y c2)))\<lparr>s_send_n := 0\<rparr> = session_init (cs_hs_index (cl_state c)) si k1 k2 (y_now y)"
    unfolding confirm_props(6) by (simp add: c2_def c1(2) client_new_session_def Let_def session_init_def session_zero_def)
  ultimately show ?thesis
    by blast
qed

lemma peers_of_init:
  assumes "c\<lparr>s_send_n := 0\<rparr> = session_init ci si k1 k2 now"
  shows "session_peer c (session_init si ci k2 k1 now') \<and> session_peer (session_init si ci k2 k1 now') c \<and> session_rel c {}"
  using arg_cong [OF assms, of s_valid] arg_cong [OF assms, of s_k_send] arg_cong [OF assms, of s_k_recv]
    arg_cong [OF assms, of s_local_index] arg_cong [OF assms, of s_remote_index] arg_cong [OF assms, of s_replay]
  by (simp add: session_peer_def session_rel_def session_init_def session_zero_def replay_rel_zero)

lemma ends_agree:
  assumes "mono_ok (x_mc x)" and "y_mc y = x_mc x" and "y_mc y' = x_mc x"
    and "cc_server_pub (x_crypto x) = mc_x25519_public_key (x_mc x) (cc_server_priv (x_crypto x))"
    and "cc_server_pub (y_crypto y) = cc_server_pub (x_crypto x)"
    and "\<And>sv1 hs key payload. init_authenticate x packet from sv = (sv1, Some (hs, key, payload)) \<Longrightarrow> key = cc_psk_key (y_crypto y)"
    and "client_send_init y c = (c1, 0)" and "\<not> c_tcp (cl_cfg c)" and "cl_acts c1 = cl_acts c @ [Net_sent fd packet]"
    and "c_auto_config (cl_cfg c) \<longrightarrow> cs_config_received (cl_state c)"
    and "server_ok sv" and "ks_ok (x_ks x)"
    and "server_handle_packet x packet from sfd sv = (sv', 0)" and "last (sv_sent sv') = Sent_udp to resp"
  shows "to = from \<and> (\<exists>c2 i s. client_handle_net_packet y' resp c1 = (c2, 0) \<and> cs_established (cl_state c2) \<and>
    i < max_clients sv' \<and> sc_psk_key (client sv' i) = cc_psk_key (y_crypto y) \<and> s \<in> {sc_cur (client sv' i), sc_next (client sv' i)} \<and>
    session_peer (cs_cur (cl_state c2)) s \<and> session_peer s (cs_cur (cl_state c2)) \<and>
    session_rel s {} \<and> session_rel (cs_cur (cl_state c2)) {})"
proof -
  obtain message seed m where ms: "proto_build_register (cl_cfg c) CAMEX_CONTROL_MAX = Some message"
    and w: "noise_write_msg1 (y_mc y) (noise_init_initiator (y_mc y) CAMEX_NOISE_PROLOGUE (cc_server_pub (y_crypto y)))
           (cc_psk_key (y_crypto y)) seed (v2_timestamp (fst (y_clock y)) (snd (y_clock y)) @ str_bytes message)
           (NOISE_MSG_OVERHEAD + V2_TIMESTAMP_LEN + CAMEX_CONTROL_MAX) = (cs_hs (cl_state c1), Some m)"
    and pending: "cs_hs_pending (cl_state c1)"
    and acts: "cl_acts c1 = cl_acts c @ [Net_sent (cl_fd c) (init_packet (y_mc y) (cc_server_pub (y_crypto y)) (cs_hs_index (cl_state c1)) m)]"
    using client_sent_init [OF assms(7)] assms(8) by metis
  let ?mc = "x_mc x" and ?p = "v2_timestamp (fst (y_clock y)) (snd (y_clock y)) @ str_bytes message"
  let ?base = "noise_init_responder ?mc CAMEX_NOISE_PROLOGUE (cc_server_priv (x_crypto x)) (cc_server_pub (x_crypto x))"
  have packet: "packet = init_packet ?mc (cc_server_pub (x_crypto x)) (cs_hs_index (cl_state c1)) m"
    using acts assms(9) by (simp add: assms(2,5))
  have ts: "length (v2_timestamp a b) = V2_TIMESTAMP_LEN" for a b
    by (simp add: v2_timestamp_def Let_def V2_TIMESTAMP_LEN_def)
  have len: "length m = NOISE_MSG_OVERHEAD + length ?p"
    using noise_write_length(1) [OF _ w] assms(1,2) by simp
  note I = init_packet_parts [OF assms(1), where pub = "cc_server_pub (x_crypto x)" and index = "cs_hs_index (cl_state c1)" and m = m, folded packet]
  have h: "server_handle_init x packet from sfd sv = (sv', 0)"
    using assms(13) I(5) len ts by (auto simp: server_handle_packet_def split: if_splits)
  obtain i sv1 hs key payload hs2 reply seed2 m2 si k1 k2 where i: "i < max_clients sv'" "sc_psk_key (client sv' i) = key"
    and a: "init_authenticate x packet from sv = (sv1, Some (hs, key, payload))"
    and w2: "noise_write_msg2 ?mc hs seed2 (str_bytes reply) (NOISE_MSG_OVERHEAD + CAMEX_CONTROL_MAX) = (hs2, Some m2)"
    and k: "noise_split ?mc hs2 = (k1, k2)"
    and resp: "resp = CAMEX_MAGIC @ [V2_TYPE_RESP] @ v2_write_u32 si @ v2_write_u32 (cs_hs_index (cl_state c1)) @ m2"
    and s: "session_init si (cs_hs_index (cl_state c1)) k2 k1 (x_now x) \<in> {sc_cur (client sv' i), sc_next (client sv' i)}"
    and to: "to = from" and fits: "length reply < CAMEX_CONTROL_MAX"
    using handle_init_answer [OF assms(11,12) h assms(14)] unfolding I(3) by metis
  obtain es where es: "noise_msg1_es ?mc ?base m = Some es"
    "noise_read_msg1 ?mc ?base key es m (V2_TIMESTAMP_LEN + CAMEX_CONTROL_MAX - 1) = (hs, Some payload)"
    using authenticate_found(1) [OF assms(12) a] unfolding I(2) by blast
  have key: "key = cc_psk_key (y_crypto y)"
    by (rule assms(6) [OF a])
  have psz: "length ?p \<le> V2_TIMESTAMP_LEN + CAMEX_CONTROL_MAX - 1"
    using build_fits(1) [OF ms] ts by (simp add: str_bytes_def)
  obtain es' b' where b': "noise_msg1_es ?mc ?base m = Some es'"
    "noise_read_msg1 ?mc ?base (cc_psk_key (y_crypto y)) es' m (V2_TIMESTAMP_LEN + CAMEX_CONTROL_MAX - 1) = (b', Some ?p)"
    "hs_shared (cs_hs (cl_state c1)) = hs_shared b'" "hs_initiator (cs_hs (cl_state c1))"
    "hs_re b' = mc_x25519_public_key ?mc (hs_e_priv (cs_hs (cl_state c1)))"
    using read_write_msg1 [OF assms(1) hs_shared_init [where priv = "cc_server_priv (x_crypto x)"] _ _ _ w [unfolded assms(2,5)] psz]
    by (auto simp: noise_init_fields assms(4))
  have hs: "b' = hs"
    using b'(1,2) es key by simp
  have "length (str_bytes reply) \<le> CAMEX_CONTROL_MAX - 1"
    using fits by (simp add: str_bytes_def)
  then obtain a' where a': "noise_read_msg2 ?mc (cs_hs (cl_state c1)) m2 (CAMEX_CONTROL_MAX - 1) = (a', Some (str_bytes reply))"
    "hs_shared a' = hs_shared hs2"
    using read_write_msg2 [OF assms(1) b'(3) [unfolded hs] b'(4) b'(5) [unfolded hs] w2] by blast
  have f: "handshake_frame c c1"
    by (rule send_init_frame(1) [OF assms(7)])
  obtain c2 where c2: "client_handle_net_packet y' resp c1 = (c2, 0)" "cs_established (cl_state c2)"
    "(cs_cur (cl_state c2))\<lparr>s_send_n := 0\<rparr> = session_init (cs_hs_index (cl_state c1)) si k1 k2 (y_now y')"
    using client_takes_answer [OF pending, of y' m2 a' "str_bytes reply" k1 k2 resp si] a' k hs_shared_split [OF a'(2)] resp
      noise_write_length(2) [OF assms(1) w2] f assms(3,10) by (auto simp: handshake_frame_def)
  let ?s = "session_init si (cs_hs_index (cl_state c1)) k2 k1 (x_now x)"
  have "session_peer (cs_cur (cl_state c2)) ?s \<and> session_peer ?s (cs_cur (cl_state c2)) \<and> session_rel (cs_cur (cl_state c2)) {}"
    by (rule peers_of_init [OF c2(3)])
  then show ?thesis
    using to c2(1,2) i key s session_rel_init by blast
qed

subsection \<open>When a handshake is accepted\<close>

text \<open>A budget nobody used in this second.\<close>

definition quiet_shares :: "int \<Rightarrow> budget \<Rightarrow> bool" where
  "quiet_shares now b \<longleftrightarrow> (\<forall>s\<in>set (bg_shares b). sh_window s = now \<longrightarrow> sh_handshakes s = 0)"

lemma quiet_share_of:
  assumes "quiet_shares now b" and "server_share_of mc fresh now key net b = (b', k)"
  shows "quiet_shares now b'"
proof -
  have "bg_shares (share_key fresh b) = bg_shares b"
    by (simp add: share_key_def split: option.splits)
  then have "bg_shares b' = bg_shares b \<or> (\<exists>i s. bg_shares b' = (bg_shares b)[i := s] \<and> sh_handshakes s = 0)"
    using assms(2) by (fastforce simp: server_share_of_def Let_def split: sum.splits option.splits)
  then show ?thesis
    using assms(1) by (auto simp: quiet_shares_def dest!: set_update_subset_insert [THEN subsetD])
qed

lemma handshake_admitted:
  assumes inv: "budget_inv ks b" and quiet: "quiet_shares now b" and new: "\<not> src_looked_up src"
    and zero: "bg_handshakes b = 0" "bg_unknown_handshakes b = 0"
  shows "\<exists>src' b'. server_handshake_budget mc fresh now src b = (0, src', b') \<and> src_known src' = src_known src"
proof (cases "src_known src")
  case (Some k)
  then show ?thesis
    using zero by (simp add: server_handshake_budget_def SERVER_HANDSHAKES_PER_SEC_def)
next
  case None
  obtain src1 b1 where sh: "server_source_shares mc fresh now src b = (src1, b1)"
    by fastforce
  have S: "source_ok b1 now src1" "src_known src1 = None"
    using source_shares_props [OF inv _ sh] new None by simp_all
  have q: "quiet_shares now b1"
    using sh quiet new by (auto simp: server_source_shares_def dest: quiet_share_of split: prod.splits if_splits)
  have "\<not> share_at b1 k sh_handshakes n" if "slot_for b1 now net k" "n > 0" for k net n
    using that q by (auto simp: share_at_def slot_for_def quiet_shares_def split: option.splits)
  then have "\<not> share_at b1 (src_addr src1) sh_handshakes (SERVER_SRC_SHARE SERVER_HANDSHAKES_PER_SEC)"
    "\<not> share_at b1 (src_net src1) sh_handshakes (SERVER_NET_SHARE SERVER_HANDSHAKES_PER_SEC)"
    using S(1) by (auto simp: source_ok_def SERVER_SRC_SHARE_def SERVER_NET_SHARE_def SERVER_HANDSHAKES_PER_SEC_def)
  then show ?thesis
    using sh None S(2) zero
    by (simp add: server_handshake_budget_def SERVER_HANDSHAKES_PER_SEC_def SERVER_UNKNOWN_SHARE_def Let_def)
qed

lemma find_budget:
  "server_find_by_ip (sv\<lparr>sv_budget := b\<rparr>) a = server_find_by_ip sv a"
  "server_find_by_addr (sv\<lparr>sv_budget := b\<rparr>) from = server_find_by_addr sv from"
proof -
  have m: "match_ip (sv\<lparr>sv_budget := b\<rparr>) a = match_ip sv a" "match_cur_ip (sv\<lparr>sv_budget := b\<rparr>) a = match_cur_ip sv a"
    "match_addr (sv\<lparr>sv_budget := b\<rparr>) from = match_addr sv from"
    by (simp_all add: match_ip_def match_cur_ip_def match_addr_def fun_eq_iff)
  show "server_find_by_ip (sv\<lparr>sv_budget := b\<rparr>) a = server_find_by_ip sv a"
    "server_find_by_addr (sv\<lparr>sv_budget := b\<rparr>) from = server_find_by_addr sv from"
    unfolding server_find_by_ip_def server_find_by_addr_def m by (simp_all split: option.split)
qed

lemma authenticate_accepts:
  assumes mc: "mono_ok (x_mc x)" and key: "cc_has_server_key (x_crypto x)"
    and p: "packet = init_packet (x_mc x) (cc_server_pub (x_crypto x)) index m"
    and far: "server_find_by_addr sv from = None"
    and b: "budget_inv ks (sv_budget sv)" "quiet_shares (x_now x) (sv_budget sv)" "bg_window (sv_budget sv) \<noteq> x_now x"
    and ks: "ks_entries (x_ks x) = e # es" "kse_owner e = []" "\<not> kse_locked e"
    and r: "noise_msg1_es (x_mc x) base m = Some s" "noise_read_msg1 (x_mc x) base (kse_psk_key e) s m (V2_TIMESTAMP_LEN + CAMEX_CONTROL_MAX - 1) = (hs, Some payload)"
      "base = noise_init_responder (x_mc x) CAMEX_NOISE_PROLOGUE (cc_server_priv (x_crypto x)) (cc_server_pub (x_crypto x))"
    and len: "V2_TIMESTAMP_LEN \<le> length payload"
  shows "\<exists>b. init_authenticate x packet from sv = (sv\<lparr>sv_budget := b\<rparr>, Some (hs, kse_psk_key e, payload))"
proof -
  let ?b = "server_budget_window (x_now x) (sv_budget sv)"
  have far': "server_find_by_addr (sv\<lparr>sv_budget := c\<rparr>) from = None" for c
    using far by (simp add: find_budget)
  have k: "server_source_for x from sv = (sv\<lparr>sv_budget := ?b\<rparr>, source_new (ntohl (sin_addr from)) None)"
    using far' by (simp add: server_source_for_def server_known_source_def)
  have "quiet_shares (x_now x) ?b" "bg_handshakes ?b = 0" "bg_unknown_handshakes ?b = 0"
    using b by (simp_all add: server_budget_window_def quiet_shares_def)
  moreover have "budget_inv ks ?b"
    by (rule budget_inv_window [OF b(1)])
  ultimately obtain src' b' where h: "server_handshake_budget (x_mc x) (x_share_rnd x) (x_now x) (source_new (ntohl (sin_addr from)) None) ?b = (0, src', b')"
      "src_known src' = None"
    using handshake_admitted [of ks ?b "x_now x" "source_new (ntohl (sin_addr from)) None"] by (fastforce simp: source_new_def)
  have o: "trial_order (x_ks x) None = 0 # map (trial_key None 1) [1..<length (ks_entries (x_ks x))]"
  proof -
    have "[0..<length (ks_entries (x_ks x))] = 0 # [1..<length (ks_entries (x_ks x))]"
      unfolding ks(1) by (subst upt_conv_Cons) simp_all
    then show ?thesis
      using ks(1,2) by (simp add: trial_order_def trial_key_def)
  qed
  note I = init_packet_parts [OF mc, where pub = "cc_server_pub (x_crypto x)" and index = index and m = m, folded p]
  have t: "key_trials x base s m None (trial_order (x_ks x) None) src' (sv\<lparr>sv_budget := b'\<rparr>) = (sv\<lparr>sv_budget := b'\<rparr>, Some (hs, kse_psk_key e, payload))"
    unfolding o using ks r(2) by simp
  have "init_authenticate x packet from sv = (sv\<lparr>sv_budget := b'\<rparr>, Some (hs, kse_psk_key e, payload))"
    using key I(4) k h r(1) t len unfolding init_authenticate_def Let_def I(2) r(3) [symmetric] by simp
  then show ?thesis
    by blast
qed

lemma write_msg2_goes:
  assumes "\<not> hs_initiator hs" and "dh mc (take NOISE_DHLEN seed) (hs_re hs) \<noteq> None"
    and "length p + NOISE_MSG_OVERHEAD \<le> n"
  shows "\<exists>hs' m. noise_write_msg2 mc hs seed p n = (hs', Some m)"
  using assms by (auto simp: noise_write_msg2_def noise_keypair_def frame_simps Let_def split: prod.splits)

text \<open>A new entry gets its session and its answer, when the system provides randomness and sends.\<close>

lemma register_accepts:
  assumes ok: "server_ok sv" and i: "i < max_clients sv" "sc_active (client sv i)" and n: "max_clients sv \<le> CAMEX_MAX_CLIENTS_LIMIT"
    and cid: "length cid < CAMEX_CLIENT_ID_LEN"
    and fresh: "\<not> s_valid (sc_cur (client sv i))" "\<not> s_valid (sc_next (client sv i))" "\<not> s_valid (sc_prev (client sv i))"
      "sc_tcp_fd (client sv i) < 0"
    and env: "x_udp x" "x_seed x = Some seed" "v2_new_index (x_index_rnd x 0) \<noteq> 0"
    and hs: "\<not> hs_initiator hs" "dh (x_mc x) (take NOISE_DHLEN seed) (hs_re hs) \<noteq> None"
  shows "\<exists>sv' resp. init_register x buffer (hs, key, payload) cid ip False from (- 1) i fr sv = (sv', 0) \<and> last (sv_sent sv') = Sent_udp from resp"
proof -
  let ?s0 = "init_entry x i cid False from (- 1) sv"
  let ?s1 = "upd i (\<lambda>c. c\<lparr>sc_pending_ip := 0\<rparr>) ?s0"
  note E = init_entry_props(2) [OF ok i cid, of x False "from" "- 1"]
  have c: "client ?s1 i = (client sv i)\<lparr>sc_addr := from, sc_last_seen := x_now x, sc_auto := False, sc_client_id := cid, sc_pending_ip := 0\<rparr>"
    and i1: "i < max_clients ?s1"
    using E i(1) fresh(1) by simp_all
  have reply: "init_reply x i cid ip False ?s0 = (?s1, Some manual_reply)"
    by (simp add: init_reply_def)
  let ?si = "(v2_new_index (x_index_rnd x 0) AND 0xFFFF0000) OR (of_nat i + 1)"
  have "\<not> index_used (client ?s1 i) w" for w
    using fresh unfolding c by (simp add: index_used_def)
  then have si: "server_new_index x i ?s1 = ?si"
    using env(3) by (simp add: server_new_index_def numeral_eq_Suc Let_def)
  have "unat (of_nat (i + 1) :: u32) = i + 1"
    by (rule unat_small) (use i(1) n in \<open>simp add: CAMEX_MAX_CLIENTS_LIMIT_def\<close>)
  then have "(of_nat (i + 1) :: u32) \<noteq> 0"
    by (metis Suc_eq_plus1 nat.simps(3) unat_0)
  then have si0: "?si \<noteq> 0"
    by (simp add: or_eq_0_iff add.commute)
  have "length manual_reply + NOISE_MSG_OVERHEAD \<le> NOISE_MSG_OVERHEAD + CAMEX_CONTROL_MAX"
    by code_simp
  then obtain hs' m where m: "noise_write_msg2 (x_mc x) hs seed (str_bytes manual_reply) (NOISE_MSG_OVERHEAD + CAMEX_CONTROL_MAX) = (hs', Some m)"
    using write_msg2_goes [OF hs, of "str_bytes manual_reply" "NOISE_MSG_OVERHEAD + CAMEX_CONTROL_MAX"] by (auto simp: str_bytes_def)
  obtain c1 c2 where k: "noise_split (x_mc x) hs' = (c1, c2)"
    by fastforce
  let ?ci = "v2_read_u32 (drop 5 buffer)"
  let ?resp = "CAMEX_MAGIC @ [V2_TYPE_RESP] @ v2_write_u32 ?si @ v2_write_u32 ?ci @ m"
  let ?s2 = "upd i (init_session (x_now x) ?si ?ci c1 c2 key (take V2_TIMESTAMP_LEN payload)) ?s1"
  have m2: "init_msg2 x hs ?si ?ci manual_reply = Some (?resp, c1, c2)"
    using env(2) si0 m k by (simp add: init_msg2_def)
  have "sc_tcp_fd (client ?s2 i) < 0"
    using i1 fresh(4) E i(1) by (simp add: init_session_def Let_def)
  then have send: "init_send x i from ?resp ?s2 = (?s2\<lparr>sv_sent := sv_sent ?s2 @ [Sent_udp from ?resp]\<rparr>, 0)"
    using env(1) by (simp add: init_send_def udp_send_def)
  have "init_register x buffer (hs, key, payload) cid ip False from (- 1) i fr sv
      = (init_done x i cid False (?s2\<lparr>sv_sent := sv_sent ?s2 @ [Sent_udp from ?resp]\<rparr>), 0)"
    unfolding init_register_def Let_def prod.case reply option.case si m2 send by simp
  then show ?thesis
    by (simp add: init_done_fields)
qed

text \<open>A manual client that comes from nowhere known and asks for an address nobody has.\<close>

lemma entry_manual_new:
  assumes ok: "server_ok sv" and a: "inet_pton ip = Some a"
    and none: "server_find_by_ip sv a = None" "server_find_by_addr sv from = None" "server_lease_by_ip (sv_leases sv) a = None"
    and slot: "alloc_free_slot sv = Some i"
  shows "\<exists>sv'. server_entry_for x key cid ip False from fd sv = (sv', Some i, True) \<and> server_ok sv' \<and> max_clients sv' = max_clients sv \<and>
    i < max_clients sv \<and> client sv' i = client_wiped\<lparr>sc_active := True, sc_ip := a\<rparr>"
proof -
  obtain sv1 where al: "server_alloc_client x sv = (sv1, Some i)"
    using alloc_free_slot_Some [OF slot] slot that by (cases "sv_clients sv") (simp_all add: server_alloc_client_def)
  note A = alloc_frame [OF ok al]
  have i: "i < max_clients sv" "client sv1 i = client_wiped\<lparr>sc_active := True\<rparr>" "server_ok sv1" "max_clients sv1 = max_clients sv"
    using A(3) hs_frameD [OF A(1)] by simp_all
  have e: "server_entry_for x key cid ip False from fd sv = (server_set_ip x i a sv1, Some i, True)"
    using a none al by (simp add: server_entry_for_def entry_manual_def manual_refused_def Let_def)
  have act: "i < max_clients sv1" "sc_active (client sv1 i)"
    using i by simp_all
  note S = set_ip_frame [OF i(3) act, of x a]
  show ?thesis
    using e hs_frameD [OF S(1)] S(2) i act by simp
qed

text \<open>The REGISTER of a manual client, as the server reads it.\<close>

lemma register_request:
  assumes "sends_ok cfg" and "\<not> c_auto_config cfg" and "CHR 0x00 \<notin> set (c_local_ip cfg) \<union> set (c_client_id cfg)"
    and "server_register_allowed x key (c_client_id cfg) (c_local_ip cfg) False = Some cid"
  shows "\<exists>message. proto_build_register cfg CAMEX_CONTROL_MAX = Some message \<and>
    init_request x key (v2_timestamp s u @ str_bytes message) = Some (cid, c_local_ip cfg, False)"
proof -
  let ?m = "message_of (register_words cfg)"
  have b: "proto_build_register cfg CAMEX_CONTROL_MAX = Some ?m"
    using register_message_length [OF assms(1)] by (intro build_register_words) (simp add: CAMEX_CONTROL_MAX_def)
  have "CHR 0x00 \<notin> set ?m"
    using assms(3) by (auto simp: message_of_def register_words_def CAMEX_CTRL_WORD_def)
  then have "cstr (drop V2_TIMESTAMP_LEN (v2_timestamp s u @ str_bytes ?m)) = ?m"
    using cstr_bytes(1) by (simp add: v2_timestamp_def Let_def V2_TIMESTAMP_LEN_def)
  then show ?thesis
    using b register_round_trip [OF assms(1) refl] assms(2,4) by (simp add: init_request_def reg_empty_def)
qed

text \<open>The whole way: a manual client with the global key gets its answer.\<close>

lemma new_client_accepted:
  assumes mc: "mono_ok (x_mc x)" and same: "y_mc y = x_mc x" "cc_server_pub (y_crypto y) = cc_server_pub (x_crypto x)"
    and server: "cc_has_server_key (x_crypto x)" "cc_server_pub (x_crypto x) = mc_x25519_public_key (x_mc x) (cc_server_priv (x_crypto x))"
    and ks: "ks_entries (x_ks x) = e # es" "kse_owner e = []" "\<not> kse_locked e" "kse_psk_key e = cc_psk_key (y_crypto y)"
    and init: "client_send_init y c = (c1, 0)" "\<not> c_tcp (cl_cfg c)" "cl_acts c1 = cl_acts c @ [Net_sent fd packet]"
    and cfg: "sends_ok (cl_cfg c)" "\<not> c_auto_config (cl_cfg c)" "CHR 0x00 \<notin> set (c_local_ip (cl_cfg c)) \<union> set (c_client_id (cl_cfg c))"
    and may: "server_register_allowed x (cc_psk_key (y_crypto y)) (c_client_id (cl_cfg c)) (c_local_ip (cl_cfg c)) False = Some cid"
      "inet_pton (c_local_ip (cl_cfg c)) = Some a"
    and ok: "server_ok sv" and n: "max_clients sv \<le> CAMEX_MAX_CLIENTS_LIMIT"
    and none: "server_find_by_ip sv a = None" "server_find_by_addr sv from = None" "server_lease_by_ip (sv_leases sv) a = None"
    and slot: "alloc_free_slot sv = Some i"
    and quiet: "budget_inv k (sv_budget sv)" "quiet_shares (x_now x) (sv_budget sv)" "bg_window (sv_budget sv) \<noteq> x_now x"
    and env: "x_udp x" "x_seed x = Some seed" "v2_new_index (x_index_rnd x 0) \<noteq> 0"
      "dh (x_mc x) (take NOISE_DHLEN seed) (mc_x25519_public_key (x_mc x) (hs_e_priv (cs_hs (cl_state c1)))) \<noteq> None"
  shows "\<exists>sv' resp. server_handle_packet x packet from (- 1) sv = (sv', 0) \<and> last (sv_sent sv') = Sent_udp from resp"
    and "init_authenticate x packet from sv = (sv1, Some (hs', key, payload)) \<Longrightarrow> key = cc_psk_key (y_crypto y)"
proof -
  let ?ip = "c_local_ip (cl_cfg c)" and ?m = "message_of (register_words (cl_cfg c))"
  obtain message where reg: "proto_build_register (cl_cfg c) CAMEX_CONTROL_MAX = Some message"
      "init_request x (kse_psk_key e) (v2_timestamp (fst (y_clock y)) (snd (y_clock y)) @ str_bytes message) = Some (cid, ?ip, False)"
    using register_request [OF cfg may(1)] by (auto simp: ks(4))
  note pton = may(2)
  obtain message' seed' m where ms: "proto_build_register (cl_cfg c) CAMEX_CONTROL_MAX = Some message'"
    and w: "noise_write_msg1 (y_mc y) (noise_init_initiator (y_mc y) CAMEX_NOISE_PROLOGUE (cc_server_pub (y_crypto y)))
           (cc_psk_key (y_crypto y)) seed' (v2_timestamp (fst (y_clock y)) (snd (y_clock y)) @ str_bytes message')
           (NOISE_MSG_OVERHEAD + V2_TIMESTAMP_LEN + CAMEX_CONTROL_MAX) = (cs_hs (cl_state c1), Some m)"
    and acts: "cl_acts c1 = cl_acts c @ [Net_sent (cl_fd c) (init_packet (y_mc y) (cc_server_pub (y_crypto y)) (cs_hs_index (cl_state c1)) m)]"
    using client_sent_init [OF init(1)] init(2) by metis
  have msg: "message' = message"
    using ms reg(1) by simp
  let ?mc = "x_mc x" and ?p = "v2_timestamp (fst (y_clock y)) (snd (y_clock y)) @ str_bytes message"
  let ?base = "noise_init_responder ?mc CAMEX_NOISE_PROLOGUE (cc_server_priv (x_crypto x)) (cc_server_pub (x_crypto x))"
  have packet: "packet = init_packet ?mc (cc_server_pub (x_crypto x)) (cs_hs_index (cl_state c1)) m"
    using acts init(3) by (simp add: same)
  have ts: "length (v2_timestamp a b) = V2_TIMESTAMP_LEN" for a b
    by (simp add: v2_timestamp_def Let_def V2_TIMESTAMP_LEN_def)
  have psz: "length ?p \<le> V2_TIMESTAMP_LEN + CAMEX_CONTROL_MAX - 1"
    using build_fits(1) [OF reg(1)] ts by (simp add: str_bytes_def)
  obtain s hs where r: "noise_msg1_es ?mc ?base m = Some s"
    "noise_read_msg1 ?mc ?base (kse_psk_key e) s m (V2_TIMESTAMP_LEN + CAMEX_CONTROL_MAX - 1) = (hs, Some ?p)"
    "\<not> hs_initiator hs" "hs_re hs = mc_x25519_public_key ?mc (hs_e_priv (cs_hs (cl_state c1)))"
    using read_write_msg1 [OF mc hs_shared_init [where priv = "cc_server_priv (x_crypto x)"] _ _ _ w [unfolded same msg] psz]
    by (auto simp: noise_init_fields server(2) ks(4))
  have "V2_TIMESTAMP_LEN \<le> length ?p"
    using ts by simp
  then obtain b where au: "init_authenticate x packet from sv = (sv\<lparr>sv_budget := b\<rparr>, Some (hs, kse_psk_key e, ?p))"
    using authenticate_accepts [OF mc server(1) packet none(2) quiet ks(1-3) r(1,2) refl] by blast
  let ?sv = "sv\<lparr>sv_budget := b\<rparr>"
  have ok': "server_ok ?sv"
    using authenticate_props [OF ok au] by simp
  have none': "server_find_by_ip ?sv a = None" "server_find_by_addr ?sv from = None" "server_lease_by_ip (sv_leases ?sv) a = None"
    using none by (simp_all add: find_budget)
  have slot': "alloc_free_slot ?sv = Some i"
    using slot by (simp add: alloc_free_slot_def)
  obtain sv2 where e2: "server_entry_for x (kse_psk_key e) cid ?ip False from (- 1) ?sv = (sv2, Some i, True)" "server_ok sv2"
    "max_clients sv2 = max_clients sv" "i < max_clients sv" "client sv2 i = client_wiped\<lparr>sc_active := True, sc_ip := a\<rparr>"
    using entry_manual_new [OF ok' pton none' slot', of x "kse_psk_key e" cid "- 1"] by (elim exE conjE) (rule that, simp_all)
  have new: "i < max_clients sv2" "sc_active (client sv2 i)" "max_clients sv2 \<le> CAMEX_MAX_CLIENTS_LIMIT"
    "\<not> s_valid (sc_cur (client sv2 i))" "\<not> s_valid (sc_next (client sv2 i))" "\<not> s_valid (sc_prev (client sv2 i))"
    "sc_tcp_fd (client sv2 i) < 0"
    using e2 n by (simp_all add: client_wiped_def client_zero_def session_zero_def)
  obtain sv' resp where g: "init_register x packet (hs, kse_psk_key e, ?p) cid ?ip False from (- 1) i True sv2 = (sv', 0)"
      "last (sv_sent sv') = Sent_udp from resp"
    using register_accepts [OF e2(2) new(1-3) request_allowed(1) [OF reg(2)] new(4-7) env(1-3) r(3) env(4) [folded r(4)], of packet "kse_psk_key e" ?p ?ip "from" True] by blast
  have own: "init_owner ?sv cid ?ip False = None"
    using pton none' by (simp add: init_owner_def)
  have h: "server_handle_init x packet from (- 1) sv = (sv', 0)"
    unfolding server_handle_init_def au prod.case option.case reg(2) own e2(1) g(1) by simp
  have "v2_packet_type packet = V2_TYPE_INIT"
    using init_packet_parts(5) [OF mc, where pub = "cc_server_pub (x_crypto x)" and index = "cs_hs_index (cl_state c1)" and m = m, folded packet]
      noise_write_length(1) [OF mc w [unfolded same]] ts by simp
  moreover from this have "packet \<noteq> []"
    by (auto simp: v2_packet_type_def V2_TYPE_INIT_def)
  ultimately show "\<exists>sv' resp. server_handle_packet x packet from (- 1) sv = (sv', 0) \<and> last (sv_sent sv') = Sent_udp from resp"
    using h g(2) by (simp add: server_handle_packet_def)
  show "key = cc_psk_key (y_crypto y)" if "init_authenticate x packet from sv = (sv1, Some (hs', key, payload))"
    using that ks(4) by (simp add: au)
qed

subsection \<open>Properties\<close>

text \<open>C2: the client and the server agree after a handshake: when the server accepts the INIT a client
  sent, and no other key of its keystore opens it, the client accepts the answer, and its current session and the
  new session of the client's entry, which now has the client's key, are each other's ends.\<close>

theorem handshake_end_to_end:
  assumes "mono_ok (x_mc x)" and "y_mc y = x_mc x" and "y_mc y' = x_mc x"
    and "cc_server_pub (x_crypto x) = mc_x25519_public_key (x_mc x) (cc_server_priv (x_crypto x))"
    and "cc_server_pub (y_crypto y) = cc_server_pub (x_crypto x)"
    and "\<forall>e\<in>set (ks_entries (x_ks x)). opens_message x packet (kse_psk_key e) \<longrightarrow> kse_psk_key e = cc_psk_key (y_crypto y)"
    and "client_send_init y c = (c1, 0)" and "\<not> c_tcp (cl_cfg c)" and "cl_acts c1 = cl_acts c @ [Net_sent fd packet]"
    and "c_auto_config (cl_cfg c) \<longrightarrow> cs_config_received (cl_state c)"
    and "server_ok sv" and "ks_ok (x_ks x)"
    and "server_handle_packet x packet from sfd sv = (sv', 0)" and "last (sv_sent sv') = Sent_udp to resp"
  shows "to = from \<and> (\<exists>c2 i s. client_handle_net_packet y' resp c1 = (c2, 0) \<and> cs_established (cl_state c2) \<and>
    i < max_clients sv' \<and> sc_psk_key (client sv' i) = cc_psk_key (y_crypto y) \<and> s \<in> {sc_cur (client sv' i), sc_next (client sv' i)} \<and>
    session_peer (cs_cur (cl_state c2)) s \<and> session_peer s (cs_cur (cl_state c2)) \<and>
    session_rel s {} \<and> session_rel (cs_cur (cl_state c2)) {})"
proof (rule ends_agree [OF assms(1-5) _ assms(7-14)])
  fix sv1 hs key payload
  assume a: "init_authenticate x packet from sv = (sv1, Some (hs, key, payload))"
  obtain es where es: "noise_msg1_es (x_mc x) (noise_init_responder (x_mc x) CAMEX_NOISE_PROLOGUE (cc_server_priv (x_crypto x)) (cc_server_pub (x_crypto x)))
      (drop V2_INIT_HDR (take (length packet - V2_MAC_LEN) packet)) = Some es"
    "noise_read_msg1 (x_mc x) (noise_init_responder (x_mc x) CAMEX_NOISE_PROLOGUE (cc_server_priv (x_crypto x)) (cc_server_pub (x_crypto x)))
       key es (drop V2_INIT_HDR (take (length packet - V2_MAC_LEN) packet)) (V2_TIMESTAMP_LEN + CAMEX_CONTROL_MAX - 1) = (hs, Some payload)"
    using authenticate_found(1) [OF assms(12) a] by blast
  obtain e where e: "e \<in> set (ks_entries (x_ks x))" "key = kse_psk_key e"
    using authenticate_found(2) [OF assms(12) a] by blast
  have "opens_message x packet key"
    using es by (simp add: opens_message_def Let_def)
  then show "key = cc_psk_key (y_crypto y)"
    using assms(6) e by simp
qed


text \<open>C8: a handshake that succeeds leaves an active, registered entry whose key read message 1 and may
  be used under the client ID the entry has, labelled with the timestamp of the message.\<close>

theorem handshake_registers:
  assumes "server_ok sv" and "ks_ok (x_ks x)" and "server_handle_init x buffer from fd sv = (sv', 0)"
  shows "\<exists>i<max_clients sv'. let c = client sv' i;
        base = noise_init_responder (x_mc x) CAMEX_NOISE_PROLOGUE (cc_server_priv (x_crypto x)) (cc_server_pub (x_crypto x));
        msg = drop V2_INIT_HDR (take (length buffer - V2_MAC_LEN) buffer)
    in sc_active c \<and> sc_registered c \<and> key_allowed (x_ks x) (sc_psk_key c) (sc_client_id c) \<and>
       (\<exists>es hs payload. noise_msg1_es (x_mc x) base msg = Some es \<and>
          noise_read_msg1 (x_mc x) base (sc_psk_key c) es msg (V2_TIMESTAMP_LEN + CAMEX_CONTROL_MAX - 1) = (hs, Some payload) \<and>
          sc_hs_ts c = take V2_TIMESTAMP_LEN payload)"
  using assms(3)
proof (cases rule: handle_init_cases)
  case (placed sv1 hs key payload cid ip auto fresh sv2 i)
  have f: "hs_frame sv sv1"
    using authenticate_props [OF assms(1) placed(1)] by (simp add: hs_frame_def)
  have i: "server_ok sv2" "i < max_clients sv2" "sc_active (client sv2 i)"
    using entry_for_props(1) [OF hs_frameD(1) [OF f] placed(3)] by (auto simp: entry_result_def hs_frame_def)
  note r = init_register_frame [OF i request_allowed(1) [OF placed(2)] placed(4)]
  have c: "i < max_clients sv'" "sc_active (client sv' i)" "sc_registered (client sv' i)" "sc_client_id (client sv' i) = cid"
    "sc_psk_key (client sv' i) = key" "sc_hs_ts (client sv' i) = take V2_TIMESTAMP_LEN payload"
    using r i(2) by auto
  obtain w where "server_register_allowed x key w ip auto = Some cid"
    using request_allowed(2) [OF placed(2)] by blast
  then have "key_allowed (x_ks x) key cid"
    using register_allowed [OF assms(2)] authenticate_found(1) [OF assms(2) placed(1)] by blast
  then show ?thesis
    using authenticate_found(1) [OF assms(2) placed(1)] c unfolding Let_def by blast
qed simp_all

text \<open>A server with the global key and an empty table, and a manual client that wants 10.200.0.2.\<close>

definition pair_srv :: srv_ctx where
  "pair_srv = demo_ctx\<lparr>x_ks := global_ks, x_crypto := global_ctx\<lparr>cc_has_server_key := True,
     cc_server_priv := replicate 32 5, cc_server_pub := replicate 32 5\<rparr>\<rparr>"

definition pair_cli :: client_ctx where
  "pair_cli = demo_client_ctx\<lparr>y_crypto := global_ctx\<lparr>cc_has_server_pub := True, cc_server_pub := replicate 32 5\<rparr>\<rparr>"

definition pair_proc :: client_proc where
  "pair_proc = demo_proc\<lparr>cl_cfg := some_client\<lparr>c_auto_config := False, c_client_id := []\<rparr>, cl_state := client_state_init\<rparr>"

lemma pair_env:
  "y_crypto pair_cli = global_ctx\<lparr>cc_has_server_pub := True, cc_server_pub := replicate 32 5\<rparr>" "y_mc pair_cli = toy_mono"
  "y_seed pair_cli = Some (replicate 32 3)" "y_udp pair_cli p" "\<not> c_tcp (cl_cfg pair_proc)" "cl_fd pair_proc = 5"
  "\<not> c_auto_config (cl_cfg pair_proc)" "c_local_ip (cl_cfg pair_proc) = ''10.200.0.2''" "c_client_id (cl_cfg pair_proc) = []"
  "x_crypto pair_srv = global_ctx\<lparr>cc_has_server_key := True, cc_server_priv := replicate 32 5, cc_server_pub := replicate 32 5\<rparr>"
  "x_mc pair_srv = toy_mono" "x_ks pair_srv = global_ks" "x_udp pair_srv" "x_seed pair_srv = Some (replicate 32 1)" "x_now pair_srv = 1000"
  "x_index_rnd pair_srv n = (\<lambda>_. Some [1, 2, 3, 4])" "x_db pair_srv = config_server_db_reset" "y_index_rnd pair_cli = (\<lambda>_. Some [0, 0, 0, 9])"
  by (simp_all add: pair_cli_def pair_srv_def demo_client_ctx_def demo_ctx_def pair_proc_def demo_proc_def some_client_def)

lemma pair_values:
  "v2_new_index (\<lambda>_. Some [0, 0, 0, 9]) = 9" "v2_new_index (\<lambda>_. Some [1, 2, 3, 4]) \<noteq> 0"
  "alloc_free_slot demo_server = Some 0" "server_lease_by_ip (sv_leases demo_server) demo_ip = None"
  by code_simp+

lemma pair_sends: "sends_ok (cl_cfg pair_proc)"
  using some_client_sends by (simp add: sends_ok_def pair_proc_def some_client_def)

lemma pair_pton: "inet_pton ''10.200.0.2'' = Some demo_ip"
proof -
  have "''10.200.0.2'' = inet_ntop demo_ip"
    by (simp add: inet_ntop_def demo_ip_def addr_byte_def dec.simps digit_def) code_simp
  then show ?thesis
    by simp
qed

lemma pair_init:
  obtains c1 packet where "client_send_init pair_cli pair_proc = (c1, 0)" and "cl_acts c1 = cl_acts pair_proc @ [Net_sent 5 packet]"
    and "hs_e_priv (cs_hs (cl_state c1)) = replicate 32 3" and "v2_packet_type packet = V2_TYPE_INIT"
proof -
  let ?m = "message_of (register_words (cl_cfg pair_proc))"
  have b: "proto_build_register (cl_cfg pair_proc) CAMEX_CONTROL_MAX = Some ?m"
    using register_message_length [OF pair_sends] by (intro build_register_words) (simp add: CAMEX_CONTROL_MAX_def)
  let ?hs = "noise_init_initiator toy_mono CAMEX_NOISE_PROLOGUE (replicate 32 5)" and ?p = "v2_timestamp (fst (y_clock pair_cli)) (snd (y_clock pair_cli)) @ str_bytes ?m"
  have "length ?p \<le> V2_TIMESTAMP_LEN + CAMEX_CONTROL_MAX"
    using build_fits(1) [OF b] by (simp add: str_bytes_def v2_timestamp_def Let_def V2_TIMESTAMP_LEN_def)
  then have n: "\<not> (\<not> hs_initiator ?hs \<or> NOISE_MSG_OVERHEAD + V2_TIMESTAMP_LEN + CAMEX_CONTROL_MAX < NOISE_MSG_OVERHEAD \<or>
      length ?p > NOISE_MSG_OVERHEAD + V2_TIMESTAMP_LEN + CAMEX_CONTROL_MAX - NOISE_MSG_OVERHEAD)"
    by (simp add: noise_init_fields)
  have kp: "noise_keypair toy_mono (replicate 32 3) = (replicate 32 3, replicate 32 3)" and d: "dh toy_mono (replicate 32 3) (replicate 32 5) = Some (replicate 32 8)"
    by (simp_all add: noise_keypair_def NOISE_DHLEN_def toy_mono_def dh_def crypto_verify_def)
  obtain hs m where w: "noise_write_msg1 toy_mono ?hs (replicate 32 7) (replicate 32 3) ?p (NOISE_MSG_OVERHEAD + V2_TIMESTAMP_LEN + CAMEX_CONTROL_MAX) = (hs, Some m)"
    "hs_e_priv hs = replicate 32 3"
    using d unfolding noise_write_msg1_def if_not_P [OF n] kp
    by (simp add: frame_simps noise_init_fields encrypt_and_hash_def Let_def)
  obtain c1 where "client_send_init pair_cli pair_proc = (c1, 0)" "cl_acts c1 = cl_acts pair_proc @ [Net_sent 5 (init_packet toy_mono (replicate 32 5) 9 m)]"
    "cs_hs (cl_state c1) = hs"
    using w by (simp add: client_send_init_def pair_env pair_values b global_ctx_def net_client_send_def client_act_def Let_def)
  moreover have "v2_packet_type (init_packet toy_mono (replicate 32 5) 9 m) = V2_TYPE_INIT"
    using noise_write_length(1) [OF toy_mono_ok w(1)] by (intro init_packet_parts(5) toy_mono_ok) (simp add: v2_timestamp_def Let_def V2_TIMESTAMP_LEN_def)
  ultimately show thesis
    using that w(2) by simp
qed

lemma demo_server_empty:
  "server_find_by_ip demo_server a = None" "server_find_by_addr demo_server from = None" "sv_budget demo_server = budget_start"
proof -
  show "server_find_by_ip demo_server a = None" "server_find_by_addr demo_server from = None"
    using server_okD(1) [OF demo_server_ok(1)]
    by (simp_all add: find_by_ip_scan find_by_addr_scan scan_first_def demo_server_ok(2) match_ip_def match_cur_ip_def match_addr_def
        client_wiped_def client_zero_def numeral_2_eq_2)
  show "sv_budget demo_server = budget_start"
    by code_simp
qed

lemma pair_allowed: "server_register_allowed pair_srv (replicate 32 7) [] ''10.200.0.2'' False = Some []"
proof -
  have "ks_find_key global_ks (replicate 32 7) None None = Some 0 \<or> ks_find_key global_ks (replicate 32 7) None None = None"
    using global_ks_ok by (cases "ks_find_key global_ks (replicate 32 7) None None")
      (auto simp: ks_ok_def ks_find_key_scan dest: scan_firstD)
  then have "config_ks_owner global_ks (replicate 32 7) = []"
    by (auto simp: config_ks_owner_def global_ks_ok(2))
  moreover have "profile_owner_of_ip pair_srv demo_ip = None"
    unfolding profile_owner_of_ip_def pair_env by code_simp
  ultimately show ?thesis
    by (simp add: server_register_allowed_def pair_env pair_pton Let_def)
qed

lemma pair_quiet:
  "budget_inv n (sv_budget demo_server)" "quiet_shares 1000 (sv_budget demo_server)" "bg_window (sv_budget demo_server) \<noteq> 1000"
  unfolding demo_server_empty by (rule budget_inv_start) (simp_all add: quiet_shares_def budget_start_def)

lemma toy_keys:
  "mc_x25519_public_key toy_mono (replicate 32 b) = replicate 32 b"
  "dh toy_mono (replicate (min NOISE_DHLEN 32) 1) (replicate 32 3) = Some (replicate 32 4)"
  by (simp_all add: toy_mono_def dh_def crypto_verify_def NOISE_DHLEN_def)

lemma pair_connects:
  assumes "client_send_init pair_cli pair_proc = (c1, 0)" and "cl_acts c1 = cl_acts pair_proc @ [Net_sent 5 packet]"
    and "hs_e_priv (cs_hs (cl_state c1)) = replicate 32 3"
  shows "\<exists>sv' resp. server_handle_packet pair_srv packet addr_zero (- 1) demo_server = (sv', 0) \<and> last (sv_sent sv') = Sent_udp addr_zero resp"
  by (rule new_client_accepted [where x = pair_srv and y = pair_cli and ?c1.0 = c1 and e = "\<lparr>kse_psk_key = replicate 32 7, kse_owner = [], kse_locked = False\<rparr>" and es = "[]" and c = pair_proc and fd = 5
        and a = demo_ip and i = 0 and k = 1 and seed = "replicate 32 1" and cid = "[]"])
    (use assms pair_allowed in \<open>simp_all add: pair_env pair_values pair_sends pair_pton toy_mono_ok global_ks_ok global_ctx_def demo_server_ok
       demo_server_empty(1,2) pair_quiet toy_keys CAMEX_MAX_CLIENTS_LIMIT_def\<close>)


theorem handshake_end_to_end_witness:
  "\<exists>c1 packet sv' resp c2. client_send_init pair_cli pair_proc = (c1, 0) \<and>
     server_handle_packet pair_srv packet addr_zero (- 1) demo_server = (sv', 0) \<and> client_handle_net_packet pair_cli resp c1 = (c2, 0)"
proof -
  obtain c1 packet where i: "client_send_init pair_cli pair_proc = (c1, 0)" "cl_acts c1 = cl_acts pair_proc @ [Net_sent 5 packet]"
    "hs_e_priv (cs_hs (cl_state c1)) = replicate 32 3" "v2_packet_type packet = V2_TYPE_INIT"
    by (rule pair_init)
  obtain sv' resp where h: "server_handle_packet pair_srv packet addr_zero (- 1) demo_server = (sv', 0)" "last (sv_sent sv') = Sent_udp addr_zero resp"
    using pair_connects [OF i(1-3)] by blast
  show ?thesis
    using handshake_end_to_end [where x = pair_srv and y' = pair_cli, OF _ _ _ _ _ _ i(1) _ i(2) _ _ _ h] i h
    by (simp add: pair_env toy_mono_ok global_ks_ok global_ctx_def demo_server_ok toy_keys) blast
qed

theorem handshake_registers_witness:
  "\<exists>c1 packet sv'. client_send_init pair_cli pair_proc = (c1, 0) \<and> cl_acts c1 = cl_acts pair_proc @ [Net_sent 5 packet] \<and>
     server_handle_init pair_srv packet addr_zero (- 1) demo_server = (sv', 0) \<and> (\<exists>i<max_clients sv'. sc_active (client sv' i) \<and> sc_registered (client sv' i))"
proof -
  obtain c1 packet where i: "client_send_init pair_cli pair_proc = (c1, 0)" "cl_acts c1 = cl_acts pair_proc @ [Net_sent 5 packet]"
    "hs_e_priv (cs_hs (cl_state c1)) = replicate 32 3" "v2_packet_type packet = V2_TYPE_INIT"
    by (rule pair_init)
  obtain sv' where h: "server_handle_packet pair_srv packet addr_zero (- 1) demo_server = (sv', 0)"
    using pair_connects [OF i(1-3)] by blast
  then have "server_handle_init pair_srv packet addr_zero (- 1) demo_server = (sv', 0)"
    using i(4) by (simp add: server_handle_packet_def split: if_splits)
  note r = this
  have "\<exists>i<max_clients sv'. sc_active (client sv' i) \<and> sc_registered (client sv' i)"
    using handshake_registers [OF demo_server_ok(1) _ r] by (auto simp: pair_env global_ks_ok Let_def)
  with r show ?thesis
    using i(1,2) by blast
qed

end
