(* ===== verification/Serverloop.thy ===== *)
theory Serverloop
  imports Endtoend
begin

section \<open>The server's event loop\<close>

text \<open>
  The server side of \<open>camex_run()\<close> in camex.c, one pass at a time: pending TCP sends flushed, datagrams or
  connections and frames taken, packets of the tunnel forwarded, silent clients expired, and the reload of the
  configuration with its rollback.  What the system calls give (readiness, received bytes, accepted connections,
  the clock) is the argument of a pass, so a run is any sequence of passes.  Shown: accepting a connection never
  lets unregistered ones crowd out the others, a reload happens as a whole or not at all, and the invariants of
  all parts hold after every run.  The control socket, logging and signals are not part of a pass.
\<close>

subsection \<open>State\<close>

text \<open>
  The server process: the table, the configuration, the keystore and the keys, the key cache, whether the
  global key came from the command line, the tunnel's address and \<open>accept_paused_until\<close>.
\<close>

record server_proc =
  sp_sv :: server
  sp_db :: server_db
  sp_ks :: keystore
  sp_crypto :: camex_crypto
  sp_keys :: key_state
  sp_psk_from_cli :: bool
  sp_cidr :: string
  sp_accept_paused :: int

definition proc_ctx :: "int \<Rightarrow> server_proc \<Rightarrow> srv_ctx \<Rightarrow> srv_ctx" where
  "proc_ctx now p x = x\<lparr>x_now := now, x_db := sp_db p, x_ks := sp_ks p, x_crypto := sp_crypto p\<rparr>"

subsection \<open>TCP connections\<close>

definition CAMEX_TCP_PREAUTH_MAX :: nat where "CAMEX_TCP_PREAUTH_MAX = 32"
definition CAMEX_TCP_PREAUTH_PER_IP :: nat where "CAMEX_TCP_PREAUTH_PER_IP = 4"
definition CAMEX_TCP_PREAUTH_GRACE :: int where "CAMEX_TCP_PREAUTH_GRACE = 2"

definition preauth :: "server_client \<Rightarrow> bool" where
  "preauth c \<longleftrightarrow> sc_active c \<and> \<not> sc_tcp_fd c < 0 \<and> \<not> sc_registered c"

definition preauth_slots :: "server \<Rightarrow> nat list" where
  "preauth_slots sv = filter (\<lambda>i. preauth (client sv i)) [0..<max_clients sv]"

definition preauth_from :: "u32 \<Rightarrow> server \<Rightarrow> nat list" where
  "preauth_from a sv = filter (\<lambda>i. sin_addr (sc_addr (client sv i)) = a) (preauth_slots sv)"

text \<open>The oldest one past the grace period.\<close>

definition preauth_oldest :: "int \<Rightarrow> server \<Rightarrow> nat option" where
  "preauth_oldest now sv =
     foldl (\<lambda>old i. if now - sc_connected_at (client sv i) \<ge> CAMEX_TCP_PREAUTH_GRACE \<and>
                      (case old of None \<Rightarrow> True | Some o' \<Rightarrow> sc_connected_at (client sv i) < sc_connected_at (client sv o'))
                    then Some i else old) None (preauth_slots sv)"

definition preauth_max :: "server \<Rightarrow> nat" where
  "preauth_max sv =
     (let half = max_clients sv div 2; m = (if half < CAMEX_TCP_PREAUTH_MAX then half else CAMEX_TCP_PREAUTH_MAX)
      in if m = 0 then 1 else m)"

definition tcp_place :: "srv_ctx \<Rightarrow> int \<Rightarrow> sockaddr_in \<Rightarrow> server \<Rightarrow> server" where
  "tcp_place x fd peer sv =
     (case List.find (\<lambda>i. \<not> sc_active (client sv i)) [0..<max_clients sv] of
        None \<Rightarrow> close_tcp fd sv
      | Some i \<Rightarrow>
          server_set_addr x i peer
            (upd i (\<lambda>_. client_zero\<lparr>sc_tcp_fd := fd, sc_last_seen := x_now x, sc_connected_at := x_now x, sc_active := True\<rparr>) sv))"

definition tcp_accepted :: "srv_ctx \<Rightarrow> int \<Rightarrow> sockaddr_in \<Rightarrow> bool \<Rightarrow> server \<Rightarrow> server" where
  "tcp_accepted x fd peer nonblocking sv =
     (if fd \<ge> int FD_SETSIZE then close_tcp fd sv
      else if \<not> nonblocking then close_tcp fd sv
      else if length (preauth_from (sin_addr peer) sv) \<ge> CAMEX_TCP_PREAUTH_PER_IP then close_tcp fd sv
      else if length (preauth_slots sv) \<ge> preauth_max sv
      then (case preauth_oldest (x_now x) sv of
              None \<Rightarrow> close_tcp fd sv
            | Some i \<Rightarrow> tcp_place x fd peer (upd i (\<lambda>_. client_zero) (close_tcp (sc_tcp_fd (client sv i)) sv)))
      else tcp_place x fd peer sv)"

text \<open>What \<open>accept\<close> gives: a connection, an error to retry, one to wait a second for; nothing more at the end.\<close>

datatype accept_result = Accepted int sockaddr_in bool | Accept_retry | Accept_error

fun drain_tcp_server_accept :: "srv_ctx \<Rightarrow> accept_result list \<Rightarrow> int \<Rightarrow> server \<Rightarrow> server \<times> int" where
  "drain_tcp_server_accept x [] paused sv = (sv, paused)"
| "drain_tcp_server_accept x (Accepted fd peer nonblocking # rs) paused sv =
     drain_tcp_server_accept x rs paused (tcp_accepted x fd peer nonblocking sv)"
| "drain_tcp_server_accept x (Accept_retry # rs) paused sv = drain_tcp_server_accept x rs paused sv"
| "drain_tcp_server_accept x (Accept_error # rs) paused sv = (sv, x_now x + 1)"

definition slot_of_fd :: "int \<Rightarrow> server \<Rightarrow> nat option" where
  "slot_of_fd fd sv = List.find (\<lambda>i. sc_active (client sv i) \<and> sc_tcp_fd (client sv i) = fd) [0..<max_clients sv]"

text \<open>\<open>buffer\<close>: the function's stack buffer, \<open>sock\<close>: what the socket has to read.\<close>

definition drain_tcp_client_read :: "srv_ctx \<Rightarrow> bytes \<Rightarrow> arrival list \<Rightarrow> int \<Rightarrow> server \<Rightarrow> server" where
  "drain_tcp_client_read x buffer sock fd sv =
     (case slot_of_fd fd sv of
        None \<Rightarrow> close_tcp fd sv
      | Some i \<Rightarrow>
          (case net_tcp_recv_frame (TUN_PACKET_MAX + V2_OVERHEAD) buffer (sc_recv (client sv i)) sock of
             (status, len, buffer', st, sock') \<Rightarrow>
               (let sv1 = upd i (\<lambda>c. c\<lparr>sc_recv := st\<rparr>) sv
                in if status = Waiting then sv1
                   else if status = Broken then server_end_client x i sv1
                   else fst (server_handle_packet x (take len buffer') (sc_addr (client sv i)) fd sv1))))"

subsection \<open>Datagrams and the tunnel\<close>

text \<open>
  Every packet with the environment of its handling; an empty datagram ends the loop, as
  \<open>recvfrom\<close> gives 0 for it.
\<close>

fun drain_udp_packets :: "(srv_ctx \<times> bytes \<times> sockaddr_in) list \<Rightarrow> int \<Rightarrow> server_proc \<Rightarrow> server_proc" where
  "drain_udp_packets [] now p = p"
| "drain_udp_packets ((x, packet, from) # rs) now p =
     (if packet = [] then p
      else drain_udp_packets rs now
        (p\<lparr>sp_sv := fst (server_handle_packet (proc_ctx now p x) (take (TUN_PACKET_MAX + V2_OVERHEAD) packet) from (- 1) (sp_sv p))\<rparr>))"

definition TUN_DRAIN_BUDGET :: nat where "TUN_DRAIN_BUDGET = 64"

definition tun_packet :: "srv_ctx \<Rightarrow> bytes \<Rightarrow> server \<Rightarrow> server" where
  "tun_packet x packet sv =
     (case ipv4_parse_endpoints packet of
        None \<Rightarrow> sv
      | Some (src, dst) \<Rightarrow> fst (server_forward_packet x packet dst sv))"

fun handle_tun_packet :: "nat \<Rightarrow> (srv_ctx \<times> bytes) list \<Rightarrow> int \<Rightarrow> server_proc \<Rightarrow> server_proc" where
  "handle_tun_packet 0 rs now p = p"
| "handle_tun_packet (Suc budget) [] now p = p"
| "handle_tun_packet (Suc budget) ((x, packet) # rs) now p =
     (if packet = [] then p
      else handle_tun_packet budget rs now (p\<lparr>sp_sv := tun_packet (proc_ctx now p x) packet (sp_sv p)\<rparr>))"

subsection \<open>Reload\<close>

record reload_env =
  re_cfg :: cfg_env
  re_file :: "(unit + string) option"
  re_psk :: "key_env \<times> bytes option"
  re_alloc :: "nat \<Rightarrow> bool"
  re_mem :: "u32 \<Rightarrow> bool"
  re_kenv :: "nat \<Rightarrow> key_env \<times> bytes option"

abbreviation set_globals :: "(server_globals \<Rightarrow> server_globals) \<Rightarrow> server_proc \<Rightarrow> server_proc" where
  "set_globals f p \<equiv> p\<lparr>sp_db := (sp_db p)\<lparr>db_globals := f (db_globals (sp_db p))\<rparr>\<rparr>"

text \<open>The global key of the new configuration; False: out of memory.\<close>

definition reload_global_key :: "monocypher \<Rightarrow> reload_env \<Rightarrow> server_proc \<Rightarrow> server_proc \<times> bool" where
  "reload_global_key mc e p =
     (if sp_psk_from_cli p then (set_globals (\<lambda>g. g\<lparr>g_psk := []\<rparr>) p, True)
      else if g_psk (db_globals (sp_db p)) \<noteq> []
      then (case crypto_init mc (fst (re_psk e)) (snd (re_psk e)) (g_psk (db_globals (sp_db p))) (sp_keys p) (sp_crypto p) of
              (keys, ctx, r) \<Rightarrow>
                (set_globals (\<lambda>g. g\<lparr>g_psk := []\<rparr>)
                   (p\<lparr>sp_keys := keys, sp_crypto := (if r = Some KEY_ERR_BAD then crypto_drop_global ctx else ctx)\<rparr>),
                 r \<noteq> Some KEY_ERR_NOMEM))
      else (p\<lparr>sp_crypto := (if cc_has_global (sp_crypto p) then crypto_drop_global (sp_crypto p) else sp_crypto p)\<rparr>, True))"

definition reload_rollback :: "server_proc \<Rightarrow> bool \<Rightarrow> server_proc \<Rightarrow> server_proc" where
  "reload_rollback saved rebuilt p =
     p\<lparr>sp_db := sp_db saved, sp_ks := (if rebuilt then sp_ks saved else sp_ks p),
       sp_crypto := crypto_restore_ctx (sp_crypto saved) (sp_crypto p), sp_keys := key_cache_drop_new (sp_keys p)\<rparr>"

definition reload_apply :: "srv_ctx \<Rightarrow> int \<Rightarrow> server_proc \<Rightarrow> server_proc" where
  "reload_apply x now p =
     (let y = proc_ctx now p x
      in p\<lparr>sp_sv := server_check_pool (sp_cidr p)
             (server_revalidate_profile_addresses y (server_revalidate_unknown_clients y (server_revalidate_keys y (sp_sv p)))),
           sp_keys := key_cache_sweep (sp_keys p)\<rparr>)"

definition camex_reload :: "srv_ctx \<Rightarrow> int \<Rightarrow> reload_env \<Rightarrow> server_proc \<Rightarrow> server_proc \<times> bool" where
  "camex_reload x now e p =
     (case config_db_load_file (re_cfg e) (re_file e) of
        (db, loaded) \<Rightarrow>
          (let p1 = p\<lparr>sp_keys := key_cache_mark (sp_keys p), sp_db := db\<rparr>
           in if \<not> loaded then (reload_rollback p False p1, False)
              else case reload_global_key (x_mc x) e p1 of
                     (p2, ok) \<Rightarrow>
                       (let p3 = set_globals (\<lambda>g. g\<lparr>g_server_key := []\<rparr>) p2
                        in if \<not> ok then (reload_rollback p False p3, False)
                           else case config_build_keystore (x_mc x) (re_alloc e) (re_mem e) (re_kenv e) (sp_crypto p3) (sp_db p3) (sp_keys p3) of
                                  (ks, db', keys, r) \<Rightarrow>
                                    (let p4 = p3\<lparr>sp_ks := ks, sp_db := db', sp_keys := keys\<rparr>
                                     in if r \<noteq> KS_OK then (reload_rollback p True p4, False)
                                        else (reload_apply x now p4, True)))))"

subsection \<open>A pass of the loop\<close>

text \<open>
  What a pass finds: the time, the descriptors \<open>select\<close> reported, the datagrams or the new connections and
  the readable clients, the packets of the tunnel, and a reload when one was asked for.
\<close>

record pass_env =
  pe_x :: srv_ctx
  pe_now :: int
  pe_ready :: bool
  pe_writable :: "int set"
  pe_flush :: "int \<Rightarrow> send_result list"
  pe_udp :: "(srv_ctx \<times> bytes \<times> sockaddr_in) list"
  pe_accepts :: "accept_result list"
  pe_reads :: "int \<Rightarrow> (srv_ctx \<times> bytes \<times> arrival list) option"
  pe_tun :: "(srv_ctx \<times> bytes) list"
  pe_reload :: "reload_env option"

definition flush_writable :: "pass_env \<Rightarrow> server \<Rightarrow> server" where
  "flush_writable e sv =
     (case net_tcp_flush_writable (pe_flush e) (pe_writable e) (sv_net sv) of
        (ps, outs) \<Rightarrow> sv\<lparr>sv_net := ps, sv_sent := sv_sent sv @ map (\<lambda>(fd, out). Sent_tcp fd out) outs\<rparr>)"

definition tcp_read_slot :: "pass_env \<Rightarrow> server_proc \<Rightarrow> nat \<Rightarrow> server_proc" where
  "tcp_read_slot e p i =
     (let c = client (sp_sv p) i
      in if \<not> sc_active c \<or> sc_tcp_fd c < 0 then p
         else case pe_reads e (sc_tcp_fd c) of
                None \<Rightarrow> p
              | Some (x, buffer, sock) \<Rightarrow>
                  p\<lparr>sp_sv := drain_tcp_client_read (proc_ctx (pe_now e) p x) buffer sock (sc_tcp_fd c) (sp_sv p)\<rparr>)"

definition pass_tcp :: "pass_env \<Rightarrow> server_proc \<Rightarrow> server_proc" where
  "pass_tcp e p =
     (case (if pe_now e \<ge> sp_accept_paused p
            then drain_tcp_server_accept (proc_ctx (pe_now e) p (pe_x e)) (pe_accepts e) (sp_accept_paused p) (sp_sv p)
            else (sp_sv p, sp_accept_paused p)) of
        (sv, paused) \<Rightarrow>
          foldl (tcp_read_slot e) (p\<lparr>sp_sv := sv, sp_accept_paused := paused\<rparr>) [0..<max_clients sv])"

definition pass_io :: "pass_env \<Rightarrow> server_proc \<Rightarrow> server_proc" where
  "pass_io e p =
     (let p1 = p\<lparr>sp_sv := flush_writable e (sp_sv p)\<rparr>;
          p2 = (if x_tcp (pe_x e) then pass_tcp e p1 else drain_udp_packets (pe_udp e) (pe_now e) p1)
      in handle_tun_packet TUN_DRAIN_BUDGET (pe_tun e) (pe_now e) p2)"

definition server_pass :: "pass_env \<Rightarrow> server_proc \<Rightarrow> server_proc" where
  "server_pass e p =
     (let p1 = (if pe_ready e then pass_io e p else p);
          p2 = p1\<lparr>sp_sv := server_expire_clients (proc_ctx (pe_now e) p1 (pe_x e)) (sp_sv p1)\<rparr>
      in case pe_reload e of
           None \<Rightarrow> p2
         | Some r \<Rightarrow> fst (camex_reload (pe_x e) (pe_now e) r p2))"


subsection \<open>The table stays sound\<close>

lemma find_slot_Some: "List.find P [0..<n] = Some i \<Longrightarrow> i < n \<and> P i"
  by (auto simp: find_Some_iff)

definition placed_client :: "srv_ctx \<Rightarrow> int \<Rightarrow> sockaddr_in \<Rightarrow> server_client" where
  "placed_client x fd peer = client_zero\<lparr>sc_tcp_fd := fd, sc_last_seen := x_now x, sc_connected_at := x_now x, sc_active := True, sc_addr := peer\<rparr>"

lemma tcp_place_cases:
  assumes "server_ok sv"
  shows "server_ok (tcp_place x fd peer sv) \<and> max_clients (tcp_place x fd peer sv) = max_clients sv \<and>
    (sv_clients (tcp_place x fd peer sv) = sv_clients sv \<or>
     (\<exists>i<max_clients sv. \<not> sc_active (client sv i) \<and> sv_clients (tcp_place x fd peer sv) = (sv_clients sv)[i := placed_client x fd peer]))"
proof (cases "List.find (\<lambda>i. \<not> sc_active (client sv i)) [0..<max_clients sv]")
  case None
  then show ?thesis using assms by (simp add: tcp_place_def)
next
  case (Some i)
  let ?c = "client_zero\<lparr>sc_tcp_fd := fd, sc_last_seen := x_now x, sc_connected_at := x_now x, sc_active := True\<rparr>"
  let ?s = "upd i (\<lambda>_. ?c) sv"
  have i: "i < max_clients sv" "\<not> sc_active (client sv i)"
    using find_slot_Some [OF Some] by simp_all
  have ok: "server_ok ?s"
    by (rule wipe_ok [OF assms]) (simp_all add: client_zero_def client_keys_def addr_is_set_def addr_zero_def session_zero_def)
  have e: "entry_set i (\<lambda>c. c\<lparr>sc_addr := peer\<rparr>) ?s (server_set_addr x i peer ?s)"
    using i by (intro set_addr_entry server_okD(1) [OF ok]) simp_all
  have "sv_clients (tcp_place x fd peer sv) = (sv_clients sv)[i := placed_client x fd peer]"
    using i entry_setD(2) [OF e] by (simp add: tcp_place_def Some placed_client_def client_zero_def)
  then show ?thesis
    using i entry_set_ok [OF ok e] by (auto simp: tcp_place_def Some client_zero_def CAMEX_CLIENT_ID_LEN_def)
qed

lemmas tcp_place_props = tcp_place_cases [THEN conjunct1] tcp_place_cases [THEN conjunct2, THEN conjunct1]

lemma zero_ok: "server_ok sv \<Longrightarrow> server_ok (upd i (\<lambda>_. client_zero) sv)"
  by (rule wipe_ok) (simp_all add: client_zero_def client_keys_def addr_is_set_def addr_zero_def session_zero_def)

lemma tcp_accepted_props:
  assumes "server_ok sv"
  shows "server_ok (tcp_accepted x fd peer nb sv) \<and> max_clients (tcp_accepted x fd peer nb sv) = max_clients sv"
  using assms tcp_place_props zero_ok by (auto simp: tcp_accepted_def split: option.split)

lemma drain_accept_props:
  assumes "server_ok sv" and "drain_tcp_server_accept x rs paused sv = (sv', paused')"
  shows "server_ok sv' \<and> max_clients sv' = max_clients sv"
  using assms(2,1) tcp_accepted_props
  by (induction x rs paused sv rule: drain_tcp_server_accept.induct) auto

lemma slot_of_fd_Some: "slot_of_fd fd sv = Some i \<Longrightarrow> i < max_clients sv \<and> sc_active (client sv i) \<and> sc_tcp_fd (client sv i) = fd"
  unfolding slot_of_fd_def by (drule find_slot_Some) simp

lemma drain_read_props:
  assumes ok: "server_ok sv"
  shows "server_ok (drain_tcp_client_read x buffer sock fd sv) \<and> max_clients (drain_tcp_client_read x buffer sock fd sv) = max_clients sv"
proof (cases "slot_of_fd fd sv")
  case None
  then show ?thesis using ok by (simp add: drain_tcp_client_read_def)
next
  case (Some i)
  have i: "i < max_clients sv"
    using slot_of_fd_Some [OF Some] by simp
  obtain status len buffer' st sock' where r: "net_tcp_recv_frame (TUN_PACKET_MAX + V2_OVERHEAD) buffer (sc_recv (client sv i)) sock = (status, len, buffer', st, sock')"
    by (rule prod_cases5)
  let ?s = "upd i (\<lambda>c. c\<lparr>sc_recv := st\<rparr>) sv"
  have s: "server_ok ?s" "max_clients ?s = max_clients sv"
    by (rule quiet_upd_ok [OF ok]; simp add: client_keys_def) simp
  obtain sv' rc where h: "server_handle_packet x (take len buffer') (sc_addr (client sv i)) fd ?s = (sv', rc)"
    by fastforce
  show ?thesis
    using s i end_client_props(1,3) handle_packet_frame [OF s(1) h] h r
    by (simp add: drain_tcp_client_read_def Some Let_def hs_frame_def)
qed

lemma tun_packet_props:
  assumes "server_ok sv"
  shows "server_ok (tun_packet x packet sv) \<and> max_clients (tun_packet x packet sv) = max_clients sv"
  using sends_onlyD(1,2) [OF forward_only [OF assms surjective_pairing]] assms
  by (simp add: tun_packet_def split: option.split prod.split)

lemma flush_writable_props: "server_ok (flush_writable e sv) = server_ok sv" "sv_clients (flush_writable e sv) = sv_clients sv"
  by (simp_all add: flush_writable_def server_ok_def split: prod.split)

subsection \<open>Reload\<close>

lemma check_pool_props: "server_ok (server_check_pool cidr sv) = server_ok sv" "sv_clients (server_check_pool cidr sv) = sv_clients sv"
  by (auto simp: server_check_pool_def server_ok_def Let_def split: option.split prod.split)

lemma reload_apply_props:
  assumes "server_ok (sp_sv p)"
  shows "server_ok (sp_sv (reload_apply x now p)) \<and> max_clients (sp_sv (reload_apply x now p)) = max_clients (sp_sv p)"
proof -
  let ?y = "proc_ctx now p x"
  note k = revalidate_ok(1) [OF assms, of ?y]
  note u = revalidate_ok(2) [OF conjunct1 [OF k], of ?y]
  note a = revalidate_ok(3) [OF conjunct1 [OF u], of ?y]
  show ?thesis
    using k u a by (simp add: reload_apply_def Let_def check_pool_props)
qed


lemma wipe_psks_props:
  "db_wf db \<Longrightarrow> db_wf (wipe_profile_psks db)" "ips_ok db n \<Longrightarrow> ips_ok (wipe_profile_psks db) n"
  "db_globals (wipe_profile_psks db) = db_globals db" "length (db_clients (wipe_profile_psks db)) = length (db_clients db)"
proof -
  have w: "profile_wf (p\<lparr>p_psk := []\<rparr>)" if "profile_wf p" for p
    using that by (simp add: profile_wf_def)
  show "db_wf db \<Longrightarrow> db_wf (wipe_profile_psks db)"
    using w by (auto simp: db_wf_def db_ids_ok_def wipe_profile_psks_def client_wf_def)
  have "profile_addr (c\<lparr>sp_profile := (sp_profile c)\<lparr>p_psk := []\<rparr>\<rparr>) = profile_addr c" for c
    by (simp add: profile_addr_def)
  then have "ip_entry_ok x m (c\<lparr>sp_profile := (sp_profile c)\<lparr>p_psk := []\<rparr>\<rparr>) i = ip_entry_ok x m c i" for x m c i
    by (simp add: ip_entry_ok_def split: option.split)
  then show "ips_ok db n \<Longrightarrow> ips_ok (wipe_profile_psks db) n"
    by (simp add: ips_ok_def wipe_profile_psks_def)
  show "db_globals (wipe_profile_psks db) = db_globals db" "length (db_clients (wipe_profile_psks db)) = length (db_clients db)"
    by (simp_all add: wipe_profile_psks_def)
qed

lemma globals_loaded:
  assumes "loaded_ok db"
  shows "loaded_ok (db\<lparr>db_globals := (db_globals db)\<lparr>g_psk := k\<rparr>\<rparr>)" "loaded_ok (db\<lparr>db_globals := (db_globals db)\<lparr>g_server_key := k\<rparr>\<rparr>)"
  using assms by (auto simp: loaded_ok_def db_wf_def db_ids_ok_def ips_ok_def globals_wf_def)

lemma kept_entries: "kept_from U st \<Longrightarrow> keystore_entries mc kenv i cs st = (st', r) \<Longrightarrow> kept_from U st'"
proof (induction cs arbitrary: i st st' r)
  case (Cons c cs)
  show ?case
  proof (cases "\<not> sp_active c \<or> p_psk (sp_profile c) = []")
    case True
    then show ?thesis using Cons by (auto split: if_splits)
  next
    case False
    obtain st1 q where d: "key_from_psk mc (fst (kenv i)) (snd (kenv i)) (p_psk (sp_profile c)) st = (st1, q)" by fastforce
    then have k: "kept_from U st1"
      using kept_from_psk [OF Cons.prems(1)] by (metis fst_conv)
    obtain st2 es where e: "keystore_entries mc kenv (Suc i) cs st1 = (st2, es)" by fastforce
    have "st' = st1 \<or> st' = st2"
      using Cons.prems(2) False d e by (auto simp: derive_psk_key_def Let_def split: sum.splits key_err.splits option.splits)
    then show ?thesis
      using k Cons.IH [OF k e] by auto
  qed
qed simp

lemma kept_build:
  "kept_from U st \<Longrightarrow> config_build_keystore mc alloc mem kenv ctx db st = (ks, db', st', r) \<Longrightarrow> kept_from U st'"
  unfolding config_build_keystore_def Let_def
  by (auto dest: kept_entries split: if_splits prod.splits bool.splits option.splits)

lemma build_wiped: "config_build_keystore mc alloc mem kenv ctx db st = (ks, db', st', r) \<Longrightarrow> db' = wipe_profile_psks db"
  unfolding config_build_keystore_def Let_def by (auto split: if_splits prod.splits bool.splits option.splits)

lemma build_ks_ok:
  assumes "db_wf db" and "config_build_keystore mc alloc mem kenv ctx db st = (ks, db', st', r)" and "r \<noteq> KS_NOMEM"
  shows "ks_ok ks"
proof (cases "cc_ready ctx")
  case True
  then show ?thesis using build_keystore_ok [OF assms(1,2) _ assms(3)] by blast
next
  case False
  then have "ks = ks_zero" using assms(2) by (simp add: config_build_keystore_def Let_def)
  then show ?thesis by (simp add: ks_zero_ok)
qed

lemma reload_global_key_props:
  assumes "reload_global_key mc e p = (p', ok)"
  shows "sp_sv p' = sp_sv p" "sp_ks p' = sp_ks p" "loaded_ok (sp_db p) \<Longrightarrow> loaded_ok (sp_db p')"
    "kept_from U (sp_keys p) \<Longrightarrow> kept_from U (sp_keys p')" "sp_cidr p' = sp_cidr p" "sp_psk_from_cli p' = sp_psk_from_cli p"
    "sp_accept_paused p' = sp_accept_paused p"
proof -
  have c: "kept_from U k'" if "crypto_init mc env seed psk k ctx = (k', ctx', r)" "kept_from U k" for env seed psk k ctx k' ctx' r
    using that kept_from_psk [OF that(2), of mc env seed psk] by (auto simp: crypto_init_def derive_psk_key_def Let_def split: if_splits prod.splits sum.splits)
  show "sp_sv p' = sp_sv p" "sp_ks p' = sp_ks p" "sp_cidr p' = sp_cidr p" "sp_psk_from_cli p' = sp_psk_from_cli p" "sp_accept_paused p' = sp_accept_paused p"
    using assms by (auto simp: reload_global_key_def split: if_splits prod.splits)
  show "kept_from U (sp_keys p) \<Longrightarrow> kept_from U (sp_keys p')"
    using assms c by (auto simp: reload_global_key_def split: if_splits prod.splits)
  show "loaded_ok (sp_db p) \<Longrightarrow> loaded_ok (sp_db p')"
    using assms by (auto simp: reload_global_key_def globals_loaded split: if_splits prod.splits)
qed

text \<open>A reload ends in one of two ways.\<close>

lemma reload_cases:
  assumes r: "camex_reload x now e p = (p', ok)" and keys: "length (k_cache (sp_keys p)) = KEY_CACHE_SIZE"
  obtains (kept) "\<not> ok" and "sp_sv p' = sp_sv p" and "sp_db p' = sp_db p" and "sp_ks p' = sp_ks p" and "sp_crypto p' = sp_crypto p"
      and "cached (sp_keys p') \<subseteq> cached (sp_keys p)" and "length (k_cache (sp_keys p')) = KEY_CACHE_SIZE"
  | (applied) p4 where "ok" and "p' = reload_apply x now p4" and "sp_sv p4 = sp_sv p" and "ks_ok (sp_ks p4)"
      and "loaded_ok (sp_db p4)" and "snd (config_db_load_file (re_cfg e) (re_file e))" and "length (k_cache (sp_keys p4)) = KEY_CACHE_SIZE"
      and "\<not> cc_ready (sp_crypto p4) \<or> \<not> list_all kse_locked (ks_entries (sp_ks p4))"
proof -
  obtain db loaded where l: "config_db_load_file (re_cfg e) (re_file e) = (db, loaded)" by fastforce
  let ?p1 = "p\<lparr>sp_keys := key_cache_mark (sp_keys p), sp_db := db\<rparr>" and ?U = "cached (sp_keys p)"
  have k1: "kept_from ?U (sp_keys ?p1)"
    using kept_from_mark [OF keys] by simp
  have drop: "cached (key_cache_drop_new k) \<subseteq> ?U \<and> length (k_cache (key_cache_drop_new k)) = KEY_CACHE_SIZE" if "kept_from ?U k" for k
    using cached_drop_new [OF that] that by (simp add: key_cache_drop_new_def kept_from_def)
  note e1 = r [unfolded camex_reload_def l Let_def prod.case]
  show thesis
  proof (cases loaded)
    case False
    then show thesis
      using e1 drop [OF k1] by (intro kept) (auto simp: reload_rollback_def crypto_restore_ctx_def)
  next
    case True
    have db: "loaded_ok db"
      using config_load_ok [OF l] True by simp
    obtain p2 g where g: "reload_global_key (x_mc x) e ?p1 = (p2, g)" by fastforce
    note G = reload_global_key_props [OF g]
    let ?p3 = "set_globals (\<lambda>g. g\<lparr>g_server_key := []\<rparr>) p2"
    have p3: "loaded_ok (sp_db ?p3)" "kept_from ?U (sp_keys ?p3)" "sp_sv ?p3 = sp_sv p"
      using G(1,3) G(4) [OF k1] db globals_loaded(2) by simp_all
    show thesis
    proof (cases g)
      case False
      then show thesis
        using e1 True g drop [OF p3(2)] p3(3) G(2) by (intro kept) (auto simp: reload_rollback_def crypto_restore_ctx_def)
    next
      case g2: True
      obtain ks db' keys' q where b: "config_build_keystore (x_mc x) (re_alloc e) (re_mem e) (re_kenv e) (sp_crypto ?p3) (sp_db ?p3) (sp_keys ?p3) = (ks, db', keys', q)"
        by (rule prod_cases4)
      have k: "kept_from ?U keys'"
        by (rule kept_build [OF p3(2) b])
      let ?p4 = "?p3\<lparr>sp_ks := ks, sp_db := db', sp_keys := keys'\<rparr>"
      note e2 = e1 [unfolded g prod.case g2 b]
      show thesis
      proof (cases "q = KS_OK")
        case False
        then show thesis
          using e2 True g2 drop [OF k] p3(3) by (intro kept) (auto simp: reload_rollback_def crypto_restore_ctx_def)
      next
        case ok: True
        have "ks_ok ks"
          using build_ks_ok [OF _ b] p3(1) ok by (simp add: loaded_ok_def)
        moreover have "loaded_ok db'"
          using build_wiped [OF b] p3(1) wipe_psks_props by (simp add: loaded_ok_def)
        moreover have "\<not> cc_ready (sp_crypto ?p4) \<or> \<not> list_all kse_locked (ks_entries ks)"
          using b ok unfolding config_build_keystore_def Let_def by (auto split: if_splits prod.splits bool.splits option.splits)
        moreover have "length (k_cache keys') = KEY_CACHE_SIZE"
          using k by (simp add: kept_from_def)
        ultimately show thesis
          using e2 True g2 ok p3(3) l by (intro applied [of ?p4]) simp_all
      qed
    qed
  qed
qed


subsection \<open>Every session's replay window is well-formed\<close>

definition replay_ok :: "session \<Rightarrow> bool" where
  "replay_ok s \<longleftrightarrow> (\<exists>S. session_rel s S)"

definition sess_ok :: "server_client \<Rightarrow> bool" where
  "sess_ok c \<longleftrightarrow> replay_ok (sc_cur c) \<and> replay_ok (sc_next c) \<and> replay_ok (sc_prev c)"

definition sessions_ok :: "server \<Rightarrow> bool" where
  "sessions_ok sv \<longleftrightarrow> (\<forall>c\<in>set (sv_clients sv). sess_ok c)"

named_theorems sess_intros

lemma replay_ok_fresh [simp, sess_intros]:
  "replay_ok session_zero" "replay_ok (session_wipe s)" "replay_ok (session_init li ri ks kr now)"
  using session_rel_init replay_rel_zero
  by (auto simp: replay_ok_def session_wipe_def session_rel_def session_zero_def session_init_def)

lemma replay_ok_open: "session_open mc s pkt sz = (s', Some p) \<Longrightarrow> replay_ok s \<Longrightarrow> replay_ok s'"
  unfolding replay_ok_def by (meson session_open_rel(2))

lemma sess_ok_fresh [simp]: "sess_ok client_wiped" "sess_ok client_zero" "sess_ok (client_wiped\<lparr>sc_active := b\<rparr>)"
  by (simp_all add: sess_ok_def client_wiped_def client_zero_def)

lemma sess_ok_fields [simp]:
  "sess_ok (c\<lparr>sc_addr := a\<rparr>) = sess_ok c" "sess_ok (c\<lparr>sc_ip := ip\<rparr>) = sess_ok c" "sess_ok (c\<lparr>sc_pending_ip := p\<rparr>) = sess_ok c"
  "sess_ok (c\<lparr>sc_tcp_fd := fd\<rparr>) = sess_ok c" "sess_ok (c\<lparr>sc_recv := r\<rparr>) = sess_ok c" "sess_ok (c\<lparr>sc_active := b\<rparr>) = sess_ok c"
  "sess_ok (c\<lparr>sc_client_id := w\<rparr>) = sess_ok c" "sess_ok (c\<lparr>sc_auto := b\<rparr>) = sess_ok c" "sess_ok (c\<lparr>sc_last_seen := t\<rparr>) = sess_ok c"
  "sess_ok (c\<lparr>sc_session_since := t\<rparr>) = sess_ok c" "sess_ok (c\<lparr>sc_connected_at := t\<rparr>) = sess_ok c" "sess_ok (c\<lparr>sc_registered := b\<rparr>) = sess_ok c"
  "sess_ok (c\<lparr>sc_psk_key := k\<rparr>) = sess_ok c" "sess_ok (c\<lparr>sc_hs_ts := ts\<rparr>) = sess_ok c" "sess_ok (c\<lparr>sc_prev_ip := ip\<rparr>) = sess_ok c"
  "sess_ok (c\<lparr>sc_registered_at := t\<rparr>) = sess_ok c" "sess_ok (c\<lparr>sc_last_hs := t\<rparr>) = sess_ok c" "sess_ok (c\<lparr>sc_handshakes := n\<rparr>) = sess_ok c"
  "sess_ok (c\<lparr>sc_stale_quiet := n\<rparr>) = sess_ok c" "sess_ok (c\<lparr>sc_stale_logged := t\<rparr>) = sess_ok c"
  by (simp_all add: sess_ok_def)

lemma sess_ok_next: "sess_ok c \<Longrightarrow> replay_ok s \<Longrightarrow> sess_ok (c\<lparr>sc_next := s\<rparr>)" "sess_ok c \<Longrightarrow> replay_ok s \<Longrightarrow> sess_ok (c\<lparr>sc_cur := s\<rparr>)"
  "sess_ok c \<Longrightarrow> replay_ok s \<Longrightarrow> sess_ok (c\<lparr>sc_prev := s\<rparr>)"
  by (simp_all add: sess_ok_def)

lemma sessions_same: "sv_clients sv' = sv_clients sv \<Longrightarrow> sessions_ok sv' = sessions_ok sv"
  by (simp add: sessions_ok_def)

lemma sessions_set: "sessions_ok sv \<Longrightarrow> sv_clients sv' = (sv_clients sv)[i := c] \<Longrightarrow> sess_ok c \<Longrightarrow> sessions_ok sv'"
  unfolding sessions_ok_def by (auto dest: set_update_subset_insert [THEN subsetD])

lemma sessions_at: "sessions_ok sv \<Longrightarrow> i < max_clients sv \<Longrightarrow> sess_ok (client sv i)"
  by (simp add: sessions_ok_def)

lemma sessions_all: "(\<And>i. i < max_clients sv \<Longrightarrow> sess_ok (client sv i)) \<Longrightarrow> sessions_ok sv"
  by (auto simp: sessions_ok_def in_set_conv_nth)

lemma sessions_upd:
  assumes "sessions_ok sv" and "\<And>c. sess_ok c \<Longrightarrow> sess_ok (f c)"
  shows "sessions_ok (upd i f sv)"
proof (cases "i < max_clients sv")
  case True
  then show ?thesis
    using assms sessions_at by (intro sessions_set [OF assms(1)]) (auto simp: upd_def)
next
  case False
  then have "sv_clients (upd i f sv) = sv_clients sv"
    by (simp add: list_update_beyond)
  then show ?thesis
    using assms(1) by (rule sessions_same [THEN iffD2])
qed

lemma sessions_frames [simp]:
  "sessions_ok (close_tcp fd sv) = sessions_ok sv" "sessions_ok (sv\<lparr>sv_budget := b\<rparr>) = sessions_ok sv"
  "sessions_ok (sv\<lparr>sv_leases := l\<rparr>) = sessions_ok sv" "sessions_ok (sv\<lparr>sv_isolation_drops := d\<rparr>) = sessions_ok sv"
  "sessions_ok (sv\<lparr>sv_expire_check := t\<rparr>) = sessions_ok sv" "sessions_ok (flush_writable e sv) = sessions_ok sv"
  "sessions_ok (server_check_pool cidr sv) = sessions_ok sv"
  by (rule sessions_same; simp add: flush_writable_props check_pool_props)+

lemma sessions_fold: "sessions_ok sv \<Longrightarrow> (\<And>s i. sessions_ok s \<Longrightarrow> sessions_ok (step s i)) \<Longrightarrow> sessions_ok (foldl step sv is)"
  by (induction "is" arbitrary: sv) simp_all

lemma sessions_end: "sessions_ok sv \<Longrightarrow> sessions_ok (server_end_client x i sv)"
  by (rule sessions_set [OF _ end_client_props(1)]) simp_all

lemma sessions_alloc: "server_ok sv \<Longrightarrow> sessions_ok sv \<Longrightarrow> server_alloc_client x sv = (sv', r) \<Longrightarrow> sessions_ok sv'"
  using alloc_client_props [of sv x sv' r] by (auto split: option.splits intro: sessions_set)

lemma sessions_set_ip: "server_ok sv \<Longrightarrow> i < max_clients sv \<Longrightarrow> sc_active (client sv i) \<Longrightarrow> sessions_ok sv \<Longrightarrow> sessions_ok (server_set_ip x i a sv)"
  by (rule sessions_set [OF _ set_ip_frame(2)]) (simp_all add: sessions_at)

lemma sessions_again: "sessions_ok sv \<Longrightarrow> sessions_ok (entry_again i from fd sv)"
proof -
  have a: "sessions_ok (server_adopt_tcp i fd s)" if "sessions_ok s" for s
  proof -
    have w: "sessions_ok (other_slot_wiped i fd s j)" if "sessions_ok s" for s j
      using that sessions_upd [OF that, of "\<lambda>c. client_wiped" j] by (simp add: other_slot_wiped_def)
    let ?t = "foldl (other_slot_wiped i fd) s [0..<max_clients s]"
    have "sessions_ok ?t"
      by (rule sessions_fold [OF that w])
    then have "sessions_ok (upd i (\<lambda>c. c\<lparr>sc_tcp_fd := fd, sc_recv := recv_zero\<rparr>) (close_tcp (sc_tcp_fd (client ?t i)) ?t))"
      by (intro sessions_upd) simp_all
    then show ?thesis
      using that by (simp add: server_adopt_tcp_def Let_def)
  qed
  show "sessions_ok sv \<Longrightarrow> sessions_ok (entry_again i from fd sv)"
    using a [of sv] a [OF sessions_upd [of sv "\<lambda>c. c\<lparr>sc_session_since := 0\<rparr>" i]] by (simp add: entry_again_def)
qed

lemma sessions_entry:
  assumes ok: "server_ok sv" and s: "sessions_ok sv" and e: "server_entry_for x key cid ip auto from fd sv = (sv', r, fresh)"
  shows "sessions_ok sv'"
proof (cases auto)
  case True
  then have "sv' = sv \<or> (\<exists>i. sv' = entry_again i from fd sv) \<or> (\<exists>q. server_alloc_client x sv = (sv', q))"
    using e by (auto simp: server_entry_for_def entry_auto_def split: if_splits option.splits prod.splits)
  then show ?thesis
    using s sessions_again sessions_alloc [OF ok s] by auto
next
  case False
  then have e: "entry_manual x key cid ip from fd sv = (sv', r, fresh)"
    using e by (simp add: server_entry_for_def)
  from ok e show ?thesis
  proof (cases rule: entry_manual_cases)
    case (own h a)
    have "server_ok (entry_again h from fd sv)" "max_clients (entry_again h from fd sv) = max_clients sv"
      "sc_active (client (entry_again h from fd sv) h)"
      using entry_again_props(1,2) [OF ok own(1), of "from" fd] own(2) by (simp_all add: hs_frame_def)
    then show ?thesis
      using own sessions_again [OF s] by (simp add: sessions_set_ip)
  next
    case (new n a sv1)
    then show ?thesis
      using alloc_frame [OF ok new(1)] sessions_alloc [OF ok s new(1)] by (auto simp: hs_frame_def intro!: sessions_set_ip)
  qed (use s sessions_alloc [OF ok s] ok in \<open>auto intro: sessions_set_ip\<close>)
qed


lemma sessions_register:
  assumes ok: "server_ok sv" and i: "i < max_clients sv" "sc_active (client sv i)" and cid: "length cid < CAMEX_CLIENT_ID_LEN"
    and s: "sessions_ok sv" and e: "init_register x buffer (hs, key, payload) cid ip auto from fd i fresh sv = (sv', rc)"
  shows "sessions_ok sv'"
proof -
  let ?s0 = "init_entry x i cid auto from fd sv"
  note E = init_entry_props [OF ok i cid, of x auto "from" fd]
  have e0: "i < max_clients ?s0" "sc_active (client ?s0 i)" "server_ok ?s0" "sessions_ok ?s0"
    using E i s by (auto simp: hs_frameD sessions_at intro: sessions_set [OF s E(2)])
  have R: "sessions_ok s1 \<and> server_ok s1 \<and> i < max_clients s1 \<and> sc_active (client s1 i) \<and> max_clients s1 = max_clients sv"
    if r: "init_reply x i cid ip auto ?s0 = (s1, m)" for s1 m
  proof -
    obtain c where c: "sv_clients s1 = (sv_clients ?s0)[i := c]" "addr_keep (client ?s0 i) c"
      using init_reply_props(2) [OF e0(3,1,2) r] by blast
    then obtain a p where c2: "c = (client ?s0 i)\<lparr>sc_ip := a, sc_pending_ip := p\<rparr>"
      by (auto simp: addr_keep_def addr_change_def)
    have "sess_ok c"
      using sessions_at [OF e0(4,1)] unfolding c2 by (simp add: sess_ok_def)
    then show ?thesis
      using sessions_set [OF e0(4) c(1)] hs_frameD [OF init_reply_props(1) [OF e0(3,1,2) r]] c(1) e0(1,2) c2 E(2) by simp
  qed
  have F: "sessions_ok (init_fail x i fresh b old t)"
    if "sessions_ok t" "server_ok t" "i < max_clients t" "sc_active (client t i)" "\<And>c0. old = Some c0 \<Longrightarrow> sess_ok c0 \<and> client_keys c0 = client_keys (client t i)" for t b old
  proof (rule sessions_set [OF that(1) init_fail_props(2) [OF that(2-4)]])
    show "client_keys c0 = client_keys (client t i)" if "old = Some c0" for c0
      using \<open>\<And>c0. old = Some c0 \<Longrightarrow> sess_ok c0 \<and> client_keys c0 = client_keys (client t i)\<close> that by blast
    have "sess_ok (client t i)"
      by (rule sessions_at [OF that(1,3)])
    then show "sess_ok (if fresh then client_wiped else
      (case old of None \<Rightarrow> client t i
       | Some c0 \<Rightarrow> if s_valid (sc_cur c0) then (client t i)\<lparr>sc_next := sc_next c0\<rparr>
                    else (client t i)\<lparr>sc_cur := session_wipe (sc_cur (client t i))\<rparr>)
      \<lparr>sc_ip := ib_ip b, sc_pending_ip := ib_pending b, sc_registered := \<not> ib_first b, sc_psk_key := ib_psk b\<rparr>)"
      using that(5) by (auto simp: sess_ok_def client_wiped_def client_zero_def split: option.split)
  qed
  from e show ?thesis
  proof (cases rule: init_register_cases)
    case (refused s1 m)
    then show ?thesis
      using R [OF refused(1)] by (auto intro: F)
  next
    case (made s1 reply resp c1 c2 s3 rc3)
    note r = R [OF made(1)]
    let ?f = "init_session (x_now x) (server_new_index x i s1) (v2_read_u32 (drop 5 buffer)) c1 c2 key (take V2_TIMESTAMP_LEN payload)"
    note P = init_send_props [OF made(3)]
    have u: "sessions_ok (upd i ?f s1)" "server_ok (upd i ?f s1)"
      using r by (auto intro!: sessions_upd simp: init_session_def Let_def sess_ok_def) (rule quiet_upd_ok, simp_all)
    then have s3: "sessions_ok s3" "server_ok s3" "i < max_clients s3" "client s3 i = ?f (client s1 i)"
      using P(1,2) r sessions_same [OF P(1)] by simp_all
    have "sessions_ok (init_done x i cid auto s3)"
      using s3(1) by (auto simp: init_done_def Let_def intro!: sessions_upd)
    moreover have "sessions_ok (init_fail x i fresh (init_saved (client sv i)) (Some (client s1 i)) s3)"
      using s3 r sessions_at [of s1 i] by (intro F) simp_all
    ultimately show ?thesis
      using made(4,5) by (cases "rc3 < 0") simp_all
  qed
qed

lemma sessions_init:
  assumes ok: "server_ok sv" and s: "sessions_ok sv" and h: "server_handle_init x buffer from fd sv = (sv', rc)"
  shows "sessions_ok sv'"
proof -
  have a: "sessions_ok sv1 \<and> server_ok sv1" if m: "init_authenticate x buffer from sv = (sv1, m)" for sv1 m
  proof -
    note A = authenticate_props [OF ok m]
    have "sess_ok (client sv1 i)" if "i < max_clients sv1" for i
    proof -
      have "same_kept (client sv i) (client sv1 i)" "i < max_clients sv"
        using A that by auto
      then show ?thesis
        using sessions_at [OF s, of i] by (simp add: sess_ok_def same_kept_def live_kept_def)
    qed
    then show ?thesis
      using A by (simp add: sessions_all)
  qed
  from h show ?thesis
  proof (cases rule: handle_init_cases)
    case (stopped sv1 m)
    then show ?thesis
      using a [OF stopped(1)] by (auto simp: server_log_stale_handshake_def intro!: sessions_upd)
  next
    case (unplaced sv1 hs key payload cid ip auto fresh)
    then show ?thesis
      using a [OF unplaced(1)] sessions_entry by blast
  next
    case (placed sv1 hs key payload cid ip auto fresh sv2 i)
    note A = a [OF placed(1)]
    have "server_ok sv2" "i < max_clients sv2" "sc_active (client sv2 i)"
      using entry_for_props(1) [OF conjunct2 [OF A] placed(3)] by (auto simp: entry_result_def hs_frame_def)
    then show ?thesis
      by (rule sessions_register [OF _ _ _ request_allowed(1) [OF placed(2)] _ placed(4)])
        (rule sessions_entry [OF conjunct2 [OF A] conjunct1 [OF A] placed(3)])
  qed
qed

lemma sessions_sends:
  assumes "sends_only sv sv'" and "sessions_ok sv"
  shows "sessions_ok sv'"
proof (rule sessions_all)
  fix i
  assume "i < max_clients sv'"
  then have i: "i < max_clients sv" "traffic (client sv i) (client sv' i)"
    using sends_onlyD [OF assms(1)] by simp_all
  then show "sess_ok (client sv' i)"
    using sessions_at [OF assms(2) i(1)] traffic_fields [OF i(2)] by (simp add: sess_ok_def replay_ok_def session_rel_def)
qed

lemma sessions_data:
  assumes ok: "server_ok sv" and s: "sessions_ok sv" and h: "server_handle_data x buffer from fd sv = (sv', rc)"
  shows "sessions_ok sv'"
  using h
proof (cases rule: handle_data_cases)
  case dropped
  then show ?thesis using s by simp
next
  case (taken i w t plain)
  note d = data_session_Some [OF taken(1)]
  note od = data_opened_props [OF ok d(1,2) session_open_fields(1) [OF taken(3)], of x "from" fd]
  have c: "sess_ok (client sv i)"
    by (rule sessions_at [OF s d(1)])
  then have "replay_ok t"
    using replay_ok_open [OF taken(3)] by (cases w) (simp_all add: sess_ok_def)
  then have "sess_ok (opened x w t from fd len (client sv i))" for len
    using c by (cases w) (simp_all add: opened_def promoted_def Let_def sess_ok_def)
  then have o': "sessions_ok (data_opened x i w t from fd len sv)" for len
    by (rule sessions_set [OF s od(2)])
  show ?thesis
  proof (cases "plain = []")
    case True
    then show ?thesis
      using taken(4) sessions_sends [OF data_answer_only [OF hs_frameD(1) [OF od(1)]] o'] by simp
  next
    case False
    then show ?thesis
      using sessions_sends [OF data_forward_only [OF hs_frameD(1) [OF od(1)] taken(5)] o'] by simp
  qed
qed

lemma sessions_packet:
  assumes "server_ok sv" and "sessions_ok sv"
  shows "sessions_ok (fst (server_handle_packet x buffer from fd sv))"
  using assms sessions_init [OF assms surjective_pairing] sessions_data [OF assms surjective_pairing]
  by (simp add: server_handle_packet_def)

lemma sessions_accept:
  assumes "server_ok sv" and "sessions_ok sv"
  shows "sessions_ok (tcp_accepted x fd peer nb sv)"
proof -
  have p: "sessions_ok (tcp_place x fd peer s)" if "server_ok s" "sessions_ok s" for s
  proof -
    have "sess_ok (placed_client x fd peer)"
      by (simp add: placed_client_def)
    then show ?thesis
      using tcp_place_cases [OF that(1), of x fd peer] that(2) sessions_same sessions_set by metis
  qed
  have "sessions_ok (upd i (\<lambda>_. client_zero) (close_tcp fd' sv))" for i fd'
    by (rule sessions_upd) (simp_all add: assms)
  then show ?thesis
    using assms p zero_ok by (auto simp: tcp_accepted_def split: option.split)
qed

lemma sessions_drain: "server_ok sv \<Longrightarrow> sessions_ok sv \<Longrightarrow> drain_tcp_server_accept x rs paused sv = (sv', paused') \<Longrightarrow> sessions_ok sv'"
  using sessions_accept tcp_accepted_props by (induction x rs paused sv rule: drain_tcp_server_accept.induct) auto

lemma sessions_read:
  assumes ok: "server_ok sv" and s: "sessions_ok sv"
  shows "sessions_ok (drain_tcp_client_read x buffer sock fd sv)"
proof (cases "slot_of_fd fd sv")
  case None
  then show ?thesis using s by (simp add: drain_tcp_client_read_def)
next
  case (Some i)
  obtain status len buffer' st sock' where r: "net_tcp_recv_frame (TUN_PACKET_MAX + V2_OVERHEAD) buffer (sc_recv (client sv i)) sock = (status, len, buffer', st, sock')"
    by (rule prod_cases5)
  let ?s = "upd i (\<lambda>c. c\<lparr>sc_recv := st\<rparr>) sv"
  have "server_ok ?s" "sessions_ok ?s"
    using quiet_upd_ok [OF ok, of "\<lambda>c. c\<lparr>sc_recv := st\<rparr>" i] sessions_upd [OF s] by (simp_all add: client_keys_def)
  then show ?thesis
    using r sessions_packet sessions_end by (simp add: drain_tcp_client_read_def Some Let_def)
qed

lemma sessions_expired: "sessions_ok sv \<Longrightarrow> sessions_ok (server_expire_clients x sv)"
proof -
  have "sessions_ok (expire_one x now s i)" if s: "sessions_ok s" for now s i
  proof -
    have "sessions_ok (upd i (sessions_expire now) s)"
      by (rule sessions_upd [OF s]) (auto simp: sessions_expire_def Let_def sess_ok_def)
    then show ?thesis
      using s sessions_end by (simp add: expire_one_def Let_def)
  qed
  then show "sessions_ok sv \<Longrightarrow> sessions_ok (server_expire_clients x sv)"
    by (auto simp: server_expire_clients_def Let_def intro: sessions_fold)
qed

lemma sessions_revalidate:
  assumes "sessions_ok sv"
  shows "sessions_ok (server_revalidate_keys x sv)" "sessions_ok (server_revalidate_unknown_clients x sv)"
    "sessions_ok (server_revalidate_profile_addresses x sv)"
proof -
  have "sessions_ok (key_ends x s i)" "sessions_ok (unknown_ends x s i)" if "sessions_ok s" for s i
    using that sessions_end by (simp_all add: key_ends_def unknown_ends_def Let_def)
  moreover have "sessions_ok (address_ends x s i)" if s: "sessions_ok s" for s i
  proof -
    have "sessions_ok (upd i (\<lambda>c. c\<lparr>sc_pending_ip := 0, sc_next := session_wipe (sc_next c)\<rparr>) s)"
      by (rule sessions_upd [OF s]) (simp add: sess_ok_def)
    moreover have "sessions_ok (server_drop_entry i t)" if "sessions_ok t" for t
      by (rule sessions_set [OF that drop_entry_props(1)]) simp
    ultimately show ?thesis
      using s by (simp add: address_ends_def Let_def)
  qed
  ultimately show "sessions_ok (server_revalidate_keys x sv)" "sessions_ok (server_revalidate_unknown_clients x sv)"
    "sessions_ok (server_revalidate_profile_addresses x sv)"
    using assms by (auto simp: server_revalidate_keys_def server_revalidate_unknown_clients_def server_revalidate_profile_addresses_def intro: sessions_fold)
qed


subsection \<open>Properties\<close>

lemma preauth_slots_card: "length (preauth_slots sv) = card {i. i < max_clients sv \<and> preauth (client sv i)}"
  "length (preauth_from a sv) = card {i. i < max_clients sv \<and> preauth (client sv i) \<and> sin_addr (sc_addr (client sv i)) = a}"
  by (auto simp: preauth_slots_def preauth_from_def distinct_card [symmetric] intro!: arg_cong [where f = card])

lemma preauth_oldest_Some:
  assumes "preauth_oldest now sv = Some i"
  shows "i < max_clients sv \<and> preauth (client sv i) \<and> now - sc_connected_at (client sv i) \<ge> CAMEX_TCP_PREAUTH_GRACE"
proof -
  have "foldl (\<lambda>old i. if now - sc_connected_at (client sv i) \<ge> CAMEX_TCP_PREAUTH_GRACE \<and>
                      (case old of None \<Rightarrow> True | Some o' \<Rightarrow> sc_connected_at (client sv i) < sc_connected_at (client sv o'))
                    then Some i else old) old is = Some j \<Longrightarrow>
        old = Some j \<or> j \<in> set is \<and> now - sc_connected_at (client sv j) \<ge> CAMEX_TCP_PREAUTH_GRACE" for old "is" j
    by (induction "is" arbitrary: old) (fastforce split: if_splits)+
  from this [OF assms [unfolded preauth_oldest_def]] show ?thesis
    by (simp add: preauth_slots_def)
qed

text \<open>One entry more, or one instead of another.\<close>

lemma place_counts:
  assumes "server_ok sv" and t: "t = tcp_place x fd peer sv"
  shows "length (preauth_slots t) \<le> Suc (length (preauth_slots sv))"
    and "length (preauth_from a t) \<le> length (preauth_from a sv) + (if a = sin_addr peer then 1 else 0)"
    and "i < max_clients sv \<Longrightarrow> client t i = client sv i \<or> \<not> sc_active (client sv i)"
proof -
  have "sv_clients t = sv_clients sv \<or> (\<exists>k<max_clients sv. \<not> sc_active (client sv k) \<and> sv_clients t = (sv_clients sv)[k := placed_client x fd peer])"
    using tcp_place_cases [OF assms(1)] by (simp add: t)
  then obtain k where k: "\<forall>i<max_clients sv. i \<noteq> k \<longrightarrow> client t i = client sv i" "max_clients t = max_clients sv"
      "sv_clients t = sv_clients sv \<or> \<not> sc_active (client sv k) \<and> k < max_clients sv \<and> client t k = placed_client x fd peer"
    by (metis length_list_update nth_list_update_eq nth_list_update_neq)
  have a: "sin_addr (sc_addr (placed_client x fd peer)) = sin_addr peer"
    by (simp add: placed_client_def)
  have "card {i. i < max_clients t \<and> preauth (client t i)} \<le> card (insert k {i. i < max_clients sv \<and> preauth (client sv i)})"
    using k(1,2) by (intro card_mono) auto
  then show "length (preauth_slots t) \<le> Suc (length (preauth_slots sv))"
    unfolding preauth_slots_card by (rule le_trans) (rule card_insert_le_m1, simp_all)
  have "{i. i < max_clients t \<and> preauth (client t i) \<and> sin_addr (sc_addr (client t i)) = a} \<subseteq>
      (if a = sin_addr peer then insert k else id) {i. i < max_clients sv \<and> preauth (client sv i) \<and> sin_addr (sc_addr (client sv i)) = a}"
  proof
    fix j
    assume j: "j \<in> {i. i < max_clients t \<and> preauth (client t i) \<and> sin_addr (sc_addr (client t i)) = a}"
    then have "j = k \<and> a = sin_addr peer \<or> client t j = client sv j"
      using k a by (cases "j = k") auto
    then show "j \<in> (if a = sin_addr peer then insert k else id) {i. i < max_clients sv \<and> preauth (client sv i) \<and> sin_addr (sc_addr (client sv i)) = a}"
      using j k(2) by auto
  qed
  from card_mono [OF _ this] show "length (preauth_from a t) \<le> length (preauth_from a sv) + (if a = sin_addr peer then 1 else 0)"
    unfolding preauth_slots_card by (auto split: if_splits intro: le_trans [OF _ card_insert_le_m1])
  show "i < max_clients sv \<Longrightarrow> client t i = client sv i \<or> \<not> sc_active (client sv i)"
    using k by metis
qed

text \<open>C18: unregistered TCP connections cannot crowd out the others: accepting one leaves at most half of the
  slots (32 at most, 1 at least) or as many as there were, and at most four from one address or as many as there
  were; and no entry changes but a free slot, and one unregistered connection that is past its grace period.\<close>

theorem accept_bounded:
  assumes "server_ok sv" and "sv' = tcp_accepted x fd peer nonblocking sv"
  shows "length (preauth_slots sv') \<le> max (length (preauth_slots sv)) (preauth_max sv) \<and>
    length (preauth_from a sv') \<le> max (length (preauth_from a sv)) CAMEX_TCP_PREAUTH_PER_IP \<and>
    (\<forall>i<max_clients sv. client sv' i = client sv i \<or> \<not> sc_active (client sv i) \<or>
       preauth (client sv i) \<and> x_now x - sc_connected_at (client sv i) \<ge> CAMEX_TCP_PREAUTH_GRACE)"
proof -
  have max: "preauth_max (close_tcp fd' s) = preauth_max s" for fd' s
    by (simp add: preauth_max_def)
  consider "sv' = close_tcp fd sv" | "sv' = tcp_place x fd peer sv" "length (preauth_slots sv) < preauth_max sv"
      "length (preauth_from (sin_addr peer) sv) < CAMEX_TCP_PREAUTH_PER_IP"
    | o' where "preauth_oldest (x_now x) sv = Some o'" "sv' = tcp_place x fd peer (upd o' (\<lambda>_. client_zero) (close_tcp (sc_tcp_fd (client sv o')) sv))"
      "length (preauth_from (sin_addr peer) sv) < CAMEX_TCP_PREAUTH_PER_IP"
  proof (cases "fd \<ge> int FD_SETSIZE \<or> \<not> nonblocking \<or> length (preauth_from (sin_addr peer) sv) \<ge> CAMEX_TCP_PREAUTH_PER_IP")
    case True
    then show thesis using that(1) by (auto simp: assms(2) tcp_accepted_def)
  next
    case False
    then have e: "sv' = (if length (preauth_slots sv) \<ge> preauth_max sv
      then (case preauth_oldest (x_now x) sv of
              None \<Rightarrow> close_tcp fd sv
            | Some i \<Rightarrow> tcp_place x fd peer (upd i (\<lambda>_. client_zero) (close_tcp (sc_tcp_fd (client sv i)) sv)))
      else tcp_place x fd peer sv)"
      by (simp add: assms(2) tcp_accepted_def)
    show thesis
      using that e False by (cases "length (preauth_slots sv) \<ge> preauth_max sv"; cases "preauth_oldest (x_now x) sv") (simp_all add: not_le)
  qed
  then show ?thesis
  proof cases
    case 1
    then show ?thesis by (simp add: preauth_slots_card)
  next
    case 2
    note P = place_counts [OF assms(1) 2(1)]
    show ?thesis
      using P(1) P(2) [of a] 2(2,3) by (intro conjI allI impI) (use P(3) in \<open>auto split: if_splits\<close>)
  next
    case (3 o')
    let ?s = "upd o' (\<lambda>_. client_zero) (close_tcp (sc_tcp_fd (client sv o')) sv)"
    note O = preauth_oldest_Some [OF 3(1)]
    have ok: "server_ok ?s"
      by (rule zero_ok) (simp add: assms(1))
    have z: "\<not> preauth client_zero" "\<not> sc_active client_zero"
      by (simp_all add: preauth_def client_zero_def)
    have cl: "client ?s i = (if i = o' then client_zero else client sv i)" "max_clients ?s = max_clients sv" for i
      using O by (simp_all add: nth_list_update)
    have "{i. i < max_clients ?s \<and> preauth (client ?s i)} = {i. i < max_clients sv \<and> preauth (client sv i)} - {o'}"
      using z cl by auto
    then have n: "Suc (length (preauth_slots ?s)) = length (preauth_slots sv)"
      using O unfolding preauth_slots_card by (simp only: card_Suc_Diff1 finite_Collect_conjI finite_Collect_less_nat mem_Collect_eq simp_thms)
    have "length (preauth_from a ?s) \<le> length (preauth_from a sv)"
      unfolding preauth_slots_card using z cl by (intro card_mono) (auto split: if_splits)
    note P = place_counts [OF ok 3(2)]
    have "client sv' i = client sv i \<or> \<not> sc_active (client sv i) \<or>
        preauth (client sv i) \<and> x_now x - sc_connected_at (client sv i) \<ge> CAMEX_TCP_PREAUTH_GRACE" if "i < max_clients sv" for i
    proof (cases "i = o'")
      case True
      then show ?thesis using O by simp
    next
      case False
      then show ?thesis using P(3) [of i] that cl(1) [of i] cl(2) by auto
    qed
    then show ?thesis
      using P(1) P(2) [of a] 3(3) n \<open>length (preauth_from a ?s) \<le> length (preauth_from a sv)\<close> by (cases "a = sin_addr peer") auto
  qed
qed


text \<open>The process as a whole.\<close>

definition proc_ok :: "server_proc \<Rightarrow> bool" where
  "proc_ok p \<longleftrightarrow> server_ok (sp_sv p) \<and> sessions_ok (sp_sv p) \<and> ks_ok (sp_ks p) \<and> loaded_ok (sp_db p) \<and>
     length (k_cache (sp_keys p)) = KEY_CACHE_SIZE"

text \<open>A part of the loop that changes the table only, and \<open>accept_paused_until\<close>.\<close>

lemma proc_ok_table: "proc_ok p \<Longrightarrow> server_ok s \<Longrightarrow> sessions_ok s \<Longrightarrow> proc_ok (p\<lparr>sp_sv := s\<rparr>)"
  "proc_ok (p\<lparr>sp_accept_paused := t\<rparr>) = proc_ok p"
  by (simp_all add: proc_ok_def)

lemma proc_okD: "proc_ok p \<Longrightarrow> server_ok (sp_sv p)" "proc_ok p \<Longrightarrow> sessions_ok (sp_sv p)"
  by (simp_all add: proc_ok_def)

lemma udp_ok: "proc_ok p \<Longrightarrow> proc_ok (drain_udp_packets rs now p)"
proof (induction rs now p rule: drain_udp_packets.induct)
  case (2 x packet "from" rs now p)
  have "proc_ok (p\<lparr>sp_sv := fst (server_handle_packet (proc_ctx now p x) (take (TUN_PACKET_MAX + V2_OVERHEAD) packet) from (- 1) (sp_sv p))\<rparr>)"
    using 2(2) proc_okD sessions_packet hs_frameD(1) [OF handle_packet_frame [OF _ surjective_pairing]] by (intro proc_ok_table) auto
  then show ?case
    using 2(1,2) by simp
qed simp

lemma tun_ok: "proc_ok p \<Longrightarrow> proc_ok (handle_tun_packet n rs now p)"
proof (induction n rs now p rule: handle_tun_packet.induct)
  case (3 budget x packet rs now p)
  have "sessions_ok (tun_packet y packet (sp_sv p))" for y
    using sessions_sends [OF forward_only [OF proc_okD(1) [OF 3(2)] surjective_pairing] proc_okD(2) [OF 3(2)]] proc_okD(2) [OF 3(2)]
    by (simp add: tun_packet_def split: option.split prod.split)
  then have "proc_ok (p\<lparr>sp_sv := tun_packet (proc_ctx now p x) packet (sp_sv p)\<rparr>)"
    using 3(2) proc_okD(1) tun_packet_props by (intro proc_ok_table) auto
  then show ?case
    using 3 by simp
qed simp_all

lemma read_slot_ok: "proc_ok p \<Longrightarrow> proc_ok (tcp_read_slot e p i)"
  using drain_read_props sessions_read proc_okD proc_ok_table(1)
  by (auto simp: tcp_read_slot_def Let_def split: option.split)

lemma pass_tcp_ok:
  assumes "proc_ok p"
  shows "proc_ok (pass_tcp e p)"
proof -
  have f: "proc_ok (foldl (tcp_read_slot e) q is)" if "proc_ok q" for q "is"
    using that by (induction "is" arbitrary: q) (simp_all add: read_slot_ok)
  obtain sv paused where a: "(if pe_now e \<ge> sp_accept_paused p
       then drain_tcp_server_accept (proc_ctx (pe_now e) p (pe_x e)) (pe_accepts e) (sp_accept_paused p) (sp_sv p)
       else (sp_sv p, sp_accept_paused p)) = (sv, paused)"
    by fastforce
  have "server_ok sv \<and> sessions_ok sv"
    using a proc_okD [OF assms] drain_accept_props sessions_drain by (auto split: if_splits)
  then have "proc_ok (p\<lparr>sp_sv := sv, sp_accept_paused := paused\<rparr>)"
    using assms by (simp add: proc_ok_def)
  then show ?thesis
    unfolding pass_tcp_def a prod.case by (rule f)
qed

lemma reload_ok:
  assumes "proc_ok p"
  shows "proc_ok (fst (camex_reload x now e p))"
proof -
  obtain p' ok where r: "camex_reload x now e p = (p', ok)" by fastforce
  have "proc_ok p'"
    using r assms [unfolded proc_ok_def, THEN conjunct2, THEN conjunct2, THEN conjunct2, THEN conjunct2]
  proof (cases rule: reload_cases)
    case kept
    then show ?thesis using assms by (simp add: proc_ok_def)
  next
    case (applied p4)
    have "server_ok (sp_sv p') \<and> sessions_ok (sp_sv p')"
      using reload_apply_props [of p4] proc_okD [OF assms] applied(2,3) sessions_revalidate
      by (simp add: reload_apply_def Let_def)
    then show ?thesis
      using applied(4,5,7) by (simp add: proc_ok_def applied(2)) (simp add: reload_apply_def key_cache_sweep_def Let_def)
  qed
  then show ?thesis by (simp add: r)
qed

lemma server_pass_ok: "proc_ok p \<Longrightarrow> proc_ok (server_pass e p)"
proof -
  assume p: "proc_ok p"
  have "proc_ok (p\<lparr>sp_sv := flush_writable e (sp_sv p)\<rparr>)"
    using p proc_okD [OF p] by (intro proc_ok_table) (simp_all add: flush_writable_props)
  then have "proc_ok (pass_io e p)"
    by (auto simp: pass_io_def Let_def intro!: tun_ok pass_tcp_ok udp_ok)
  then have 1: "proc_ok (if pe_ready e then pass_io e p else p)"
    using p by simp
  have "proc_ok (q\<lparr>sp_sv := server_expire_clients y (sp_sv q)\<rparr>)" if "proc_ok q" for q y
    using that proc_okD [OF that] expire_clients_ok(1) sessions_expired by (intro proc_ok_table)
  then show "proc_ok (server_pass e p)"
    using 1 reload_ok by (auto simp: server_pass_def Let_def split: option.split)
qed

interpretation server_loop: stepper "\<lambda>p e. server_pass e p" proc_ok
  by unfold_locales (rule server_pass_ok)


text \<open>C5: the server stays sound however long it runs.  After any passes of its loop, with any packets,
  connections, errors, times and reloads, an index lookup still finds what a scan of the table finds, every
  session of the table has a well-formed replay window, the lease table and the configuration are intact,
  and the keystore answers exactly from its entries.\<close>

theorem server_runs_sound:
  assumes "proc_ok p" and "q = foldl (\<lambda>p e. server_pass e p) p es"
  shows "server_find_by_addr (sp_sv q) a = scan_first (max_clients (sp_sv q)) (match_addr (sp_sv q) a) \<and>
    (w \<noteq> [] \<longrightarrow> server_find_by_client_id (sp_sv q) w = scan_first (max_clients (sp_sv q)) (match_id (sp_sv q) w)) \<and>
    (\<forall>c\<in>set (sv_clients (sp_sv q)). \<forall>s\<in>{sc_cur c, sc_next c, sc_prev c}. \<exists>S. session_rel s S) \<and>
    lease_ok (sv_leases (sp_sv q)) \<and> loaded_ok (sp_db q) \<and>
    (config_ks_contains (sp_ks q) k \<longleftrightarrow> (\<exists>e\<in>set (ks_entries (sp_ks q)). \<not> kse_locked e \<and> memeq32 (kse_psk_key e) k))"
proof -
  have q: "proc_ok q"
    unfolding assms(2) by (rule server_loop.inv_run [OF assms(1)])
  note ok = server_okD [OF proc_okD(1) [OF q]]
  have "\<forall>c\<in>set (sv_clients (sp_sv q)). \<forall>s\<in>{sc_cur c, sc_next c, sc_prev c}. \<exists>S. session_rel s S"
    using proc_okD(2) [OF q] by (simp add: sessions_ok_def sess_ok_def replay_ok_def)
  moreover have "ks_ok (sp_ks q)" "loaded_ok (sp_db q)"
    using q by (simp_all add: proc_ok_def)
  ultimately show ?thesis
    using find_by_addr_scan [OF ok(1)] find_by_id_scan [OF ok(1)] ks_queries(3) ok(2) by simp
qed

subsection \<open>Witnesses\<close>

definition demo_loop :: server_proc where
  "demo_loop = \<lparr>sp_sv = demo_server, sp_db = config_server_db_reset, sp_ks = global_ks, sp_crypto = crypto_zero,
     sp_keys = key_start, sp_psk_from_cli = False, sp_cidr = [], sp_accept_paused = 0\<rparr>"

lemma demo_loop_ok: "proc_ok demo_loop" "length (k_cache (sp_keys demo_loop)) = KEY_CACHE_SIZE"
proof -
  note db_reset_ok(2)
  moreover have "sessions_ok demo_server"
    by (simp add: sessions_ok_def demo_server_ok)
  moreover have "length (k_cache key_start) = KEY_CACHE_SIZE"
    by (simp add: key_start_def)
  ultimately show "proc_ok demo_loop" "length (k_cache (sp_keys demo_loop)) = KEY_CACHE_SIZE"
    by (simp_all add: proc_ok_def demo_loop_def demo_server_ok global_ks_ok)
qed

theorem accept_bounded_witness:
  "length (preauth_slots (tcp_accepted demo_ctx 7 addr_zero True demo_server)) \<le> 1"
proof -
  have "length (preauth_slots demo_server) = 0" "preauth_max demo_server = 1"
    by (simp_all add: preauth_slots_def preauth_def preauth_max_def CAMEX_TCP_PREAUTH_MAX_def demo_server_ok upt_rec)
  then show ?thesis
    using accept_bounded [OF demo_server_ok(1) refl, of demo_ctx 7 addr_zero True 0] by simp
qed

definition demo_reload :: reload_env where
  "demo_reload = \<lparr>re_cfg = cfg_env_ok, re_file = None, re_psk = (\<lparr>ke_malloc = True, ke_munlock = True, ke_malloc_unlocked = True\<rparr>, None),
     re_alloc = (\<lambda>n. True), re_mem = (\<lambda>n. True), re_kenv = (\<lambda>i. (\<lparr>ke_malloc = True, ke_munlock = True, ke_malloc_unlocked = True\<rparr>, None))\<rparr>"

lemma demo_reload_done:
  "camex_reload demo_ctx 1000 demo_reload (demo_loop\<lparr>sp_sv := s\<rparr>) =
     (reload_apply demo_ctx 1000 (demo_loop\<lparr>sp_sv := s, sp_ks := ks_zero, sp_keys := key_cache_mark key_start\<rparr>), True)"
  by (simp add: camex_reload_def demo_reload_def config_db_load_file_def reload_global_key_def config_build_keystore_def
      demo_loop_def crypto_zero_def config_server_db_reset_def db_zero_def globals_zero_def config_profile_reset_def wipe_profile_psks_def Let_def)


theorem server_runs_sound_witness:
  "\<forall>es. lease_ok (sv_leases (sp_sv (foldl (\<lambda>p e. server_pass e p) demo_loop es)))"
  using server_runs_sound [OF demo_loop_ok(1) refl] by blast

end
