(* ===== verification/Clientloop.thy ===== *)
theory Clientloop
  imports Serverloop
begin

section \<open>The client's event loop\<close>

text \<open>
  The client side of \<open>camex_run()\<close> in camex.c and \<open>client_wait_for_config()\<close> in client.c: the socket drained
  (a TCP frame or all datagrams), packets of the tunnel sent, the tick; before that, in auto mode, the wait for
  the first CONFIG, with its reconnects.  What the system answers is the argument of a pass, every packet has the
  environment of its handling.  Shown: a client that got under way never stands still, and the wait ends only
  with a configuration the tunnel can be opened with, which came in an authenticated answer.
\<close>

subsection \<open>Packets\<close>

text \<open>\<open>buffer\<close>: the function's stack buffer, \<open>sock\<close>: what the connection has to read.\<close>

definition client_recv_tcp :: "client_ctx \<Rightarrow> bytes \<Rightarrow> arrival list \<Rightarrow> client_proc \<Rightarrow> client_proc" where
  "client_recv_tcp y buffer sock c =
     (case net_tcp_recv_frame (TUN_PACKET_MAX + V2_OVERHEAD) buffer (cl_recv c) sock of
        (status, len, buffer', st, sock') \<Rightarrow>
          (let c1 = c\<lparr>cl_recv := st\<rparr>
           in if status = Filled then fst (client_handle_net_packet y (take len buffer') c1)
              else if status = Broken then client_net_close c1
              else c1))"

fun client_recv_udp :: "(client_ctx \<times> bytes) list \<Rightarrow> client_proc \<Rightarrow> client_proc" where
  "client_recv_udp [] c = c"
| "client_recv_udp ((y, packet) # ps) c =
     (if packet = [] then c
      else client_recv_udp ps (fst (client_handle_net_packet y (take (TUN_PACKET_MAX + V2_OVERHEAD) packet) c)))"

text \<open>A client stops at a packet its connection has no room for.\<close>

fun client_tun_packets :: "nat \<Rightarrow> (client_ctx \<times> bytes) list \<Rightarrow> client_proc \<Rightarrow> client_proc" where
  "client_tun_packets 0 ps c = c"
| "client_tun_packets (Suc budget) [] c = c"
| "client_tun_packets (Suc budget) ((y, packet) # ps) c =
     (if packet = [] then c
      else case client_handle_tun_packet y packet c of
             (c1, rc) \<Rightarrow> if rc = 1 then c1 else client_tun_packets budget ps c1)"

definition client_flush :: "(int \<Rightarrow> send_result list) \<Rightarrow> int set \<Rightarrow> client_proc \<Rightarrow> client_proc" where
  "client_flush rs writable c =
     (case net_tcp_flush_writable rs writable (cl_net c) of
        (ps, outs) \<Rightarrow> c\<lparr>cl_net := ps, cl_acts := cl_acts c @ map (\<lambda>(fd, out). Net_sent fd out) outs\<rparr>)"

subsection \<open>A pass of the loop\<close>

text \<open>
  What a pass finds: \<open>select\<close> reported something, the writable descriptors, the readable socket with what it
  holds, the packets of the tunnel, and the environment of the tick.
\<close>

record client_env =
  ve_y :: client_ctx
  ve_ready :: bool
  ve_writable :: "int set"
  ve_flush :: "int \<Rightarrow> send_result list"
  ve_readable :: bool
  ve_buffer :: bytes
  ve_sock :: "arrival list"
  ve_recv :: client_ctx
  ve_udp :: "(client_ctx \<times> bytes) list"
  ve_tun :: "(client_ctx \<times> bytes) list"

definition client_io :: "client_env \<Rightarrow> client_proc \<Rightarrow> client_proc" where
  "client_io e c =
     (let c1 = client_flush (ve_flush e) (ve_writable e) c;
          c2 = (if \<not> ve_readable e then c1
                else if c_tcp (cl_cfg c1) then client_recv_tcp (ve_recv e) (ve_buffer e) (ve_sock e) c1
                else client_recv_udp (ve_udp e) c1)
      in if cl_tun_up c2 then client_tun_packets TUN_DRAIN_BUDGET (ve_tun e) c2 else c2)"

definition client_pass :: "client_env \<Rightarrow> client_proc \<Rightarrow> client_proc" where
  "client_pass e c = client_tick (ve_y e) (if cl_fd c < 0 \<or> \<not> ve_ready e then c else client_io e c)"

subsection \<open>Waiting for the first CONFIG\<close>

text \<open>\<open>Wait_more\<close>: another turn, \<open>Wait_open\<close>: the given events end first.\<close>

datatype wait_result = Wait_more | Wait_open | Wait_stopped | Wait_config

definition client_socket_renewed :: "client_proc \<Rightarrow> client_proc" where
  "client_socket_renewed c = (client_net_close c)\<lparr>cl_recv := recv_zero\<rparr>"

text \<open>The attempts: still running after the pause, and the environment of the new socket.\<close>

fun client_wait_reconnect :: "(bool \<times> client_ctx) list \<Rightarrow> client_proc \<Rightarrow> client_proc \<times> wait_result" where
  "client_wait_reconnect [] c = (c, Wait_open)"
| "client_wait_reconnect ((running, y) # as) c =
     (let c0 = client_socket_renewed c
      in if \<not> running then (c0, Wait_stopped)
         else case client_socket_create y c0 of
                (c1, rc) \<Rightarrow>
                  if rc \<noteq> 0 then client_wait_reconnect as c1
                  else case client_start_handshake y c1 of
                         (c2, rc2) \<Rightarrow> if rc2 = 0 then (c2, Wait_config) else client_wait_reconnect as c2)"

text \<open>
  One turn: still running, its environment, what \<open>select\<close> answers with the writable descriptors, whether the
  socket is readable and what it holds, the attempts of a reconnect, and the time after it or after a packet.
\<close>

record wait_env =
  we_running :: bool
  we_y :: client_ctx
  we_select :: select_result
  we_writable :: "int set"
  we_flush :: "int \<Rightarrow> send_result list"
  we_readable :: bool
  we_buffer :: bytes
  we_sock :: "arrival list"
  we_packet :: bytes
  we_recv :: client_ctx
  we_attempts :: "(bool \<times> client_ctx) list"
  we_after :: int

definition WAIT_BUFFER :: nat where
  "WAIT_BUFFER = V2_RESP_HDR + NOISE_MSG_OVERHEAD + CAMEX_CONTROL_MAX"

text \<open>No answer for too long, or a handshake that cannot be sent again.\<close>

definition wait_renew :: "client_ctx \<Rightarrow> int \<Rightarrow> client_proc \<Rightarrow> client_proc \<times> bool" where
  "wait_renew y since c =
     (if cl_fd c < 0 \<or> y_now y - since \<ge> c_server_timeout (cl_cfg c) then (c, True)
      else if cs_hs_pending (cl_state c) \<and> y_now y - cs_hs_sent (cl_state c) \<ge> V2_HANDSHAKE_RETRY
      then (case client_send_init y c of (c1, rc) \<Rightarrow> (c1, rc \<noteq> 0))
      else (c, False))"

text \<open>What the socket holds: nothing complete, a broken connection, or a packet.\<close>

definition wait_read :: "wait_env \<Rightarrow> client_proc \<Rightarrow> client_proc \<times> recv_status \<times> bytes" where
  "wait_read e c =
     (if c_tcp (cl_cfg c)
      then (case net_tcp_recv_frame WAIT_BUFFER (we_buffer e) (cl_recv c) (we_sock e) of
              (status, len, buffer', st, sock') \<Rightarrow> (c\<lparr>cl_recv := st\<rparr>, status, take len buffer'))
      else (c, if we_packet e = [] then Waiting else Filled, take WAIT_BUFFER (we_packet e)))"

definition wait_done :: "client_proc \<Rightarrow> bool" where
  "wait_done c \<longleftrightarrow> cs_config_received (cl_state c) \<and> c_local_cidr (cl_cfg c) \<noteq> [] \<and> c_gateway_ip (cl_cfg c) \<noteq> []"

text \<open>A turn: the process, since when its socket is up, and how the turn ends.\<close>

definition wait_turn :: "wait_env \<Rightarrow> client_proc \<times> int \<Rightarrow> (client_proc \<times> int) \<times> wait_result" where
  "wait_turn e = (\<lambda>(c, since).
     let again = (\<lambda>c1. case client_wait_reconnect (we_attempts e) c1 of
                         (c2, r) \<Rightarrow> ((c2, we_after e), if r = Wait_config then Wait_more else r))
     in if \<not> we_running e then ((c, since), Wait_stopped)
        else case wait_renew (we_y e) since c of
               (c1, True) \<Rightarrow> again c1
             | (c1, False) \<Rightarrow>
                 (let c2 = (if we_select e = Sel_ready then client_flush (we_flush e) (we_writable e) c1 else c1)
                  in if we_select e = Sel_error then ((c2, since), Wait_stopped)
                     else if we_select e \<noteq> Sel_ready \<or> \<not> we_readable e then ((c2, since), Wait_more)
                     else case wait_read e c2 of
                            (c3, status, packet) \<Rightarrow>
                              if status = Broken then again c3
                              else if status = Waiting then ((c3, since), Wait_more)
                              else case client_handle_net_packet (we_recv e) packet c3 of
                                     (c4, rc) \<Rightarrow>
                                       if rc \<noteq> 0 then ((c4, since), Wait_more)
                                       else ((c4, we_after e), if wait_done c4 then Wait_config else Wait_more)))"

fun client_wait_for_config :: "wait_env list \<Rightarrow> client_proc \<times> int \<Rightarrow> (client_proc \<times> int) \<times> wait_result" where
  "client_wait_for_config [] s = (s, Wait_open)"
| "client_wait_for_config (e # es) s =
     (case wait_turn e s of
        (s', r) \<Rightarrow> if r = Wait_more then client_wait_for_config es s' else (s', r))"


subsection \<open>What every operation keeps\<close>

definition alive :: "client_proc \<Rightarrow> bool" where
  "alive c \<longleftrightarrow> cl_fd c < 0 \<or> cl_reconnect_at c > 0 \<or> s_valid (cs_cur (cl_state c)) \<or> cs_hs_pending (cl_state c)"

definition client_ok :: "client_proc \<Rightarrow> bool" where
  "client_ok c \<longleftrightarrow> replay_ok (cs_cur (cl_state c)) \<and> replay_ok (cs_prev (cl_state c)) \<and> alive c"

text \<open>Operations that touch no session, nor the socket.\<close>

lemma client_ok_same:
  assumes "client_ok c" and "cs_cur (cl_state c') = cs_cur (cl_state c)" and "cs_prev (cl_state c') = cs_prev (cl_state c)"
    and "cl_fd c' < 0 \<or> cl_fd c' = cl_fd c \<and> cl_reconnect_at c' = cl_reconnect_at c \<and>
      (s_valid (cs_cur (cl_state c)) \<or> cs_hs_pending (cl_state c) = cs_hs_pending (cl_state c') \<or> cs_hs_pending (cl_state c'))"
  shows "client_ok c'"
  using assms by (auto simp: client_ok_def alive_def)

lemma replay_ok_counter: "s\<lparr>s_send_n := 0\<rparr> = t\<lparr>s_send_n := 0\<rparr> \<Longrightarrow> replay_ok s = replay_ok t \<and> s_valid s = s_valid t"
  by (auto simp: replay_ok_def session_rel_def dest!: arg_cong [where f = "\<lambda>s. (s_replay s, s_valid s)"])

lemma seal_keeps:
  assumes "session_seal mc s p n = (t, r)"
  shows "replay_ok t = replay_ok s" "s_valid t = s_valid s"
proof -
  have "t\<lparr>s_send_n := 0\<rparr> = s\<lparr>s_send_n := 0\<rparr>"
    using assms session_seal_SomeD(2) session_seal_None by (cases r) fastforce+
  from replay_ok_counter [OF this] show "replay_ok t = replay_ok s" "s_valid t = s_valid s"
    by blast+
qed

lemma close_ok: "client_ok c \<Longrightarrow> client_ok (client_net_close c)"
  by (auto simp: client_ok_def alive_def client_net_close_def client_act_def)

lemma flush_ok: "client_ok c \<Longrightarrow> client_ok (client_flush rs w c)"
  by (auto simp: client_ok_def alive_def client_flush_def split: prod.split)

lemma send_ok: "client_ok c \<Longrightarrow> net_client_send y data c = (c', rc) \<Longrightarrow> client_ok c'"
  using net_client_send_props [of y data c c' rc] by (auto intro: client_ok_same)

text \<open>A sealed packet on its way.\<close>

lemma sealed_ok:
  assumes "client_ok c" and "session_seal mc (cs_cur (cl_state c)) p n = (s, r)"
  shows "client_ok (on_state (\<lambda>st. st\<lparr>cs_cur := s\<rparr>) c)"
  using assms seal_keeps [OF assms(2)] by (auto simp: client_ok_def alive_def)

lemma tun_packet_ok:
  assumes "client_ok c" and "client_handle_tun_packet y b c = (c', rc)"
  shows "client_ok c'"
proof -
  obtain s r where s: "session_seal (y_mc y) (cs_cur (cl_state c)) b (TUN_PACKET_MAX + V2_OVERHEAD) = (s, r)"
    by fastforce
  show ?thesis
    using assms sealed_ok [OF assms(1) s] send_ok unfolding client_handle_tun_packet_def s
    by (auto split: if_splits option.splits)
qed

lemma confirm_ok: "client_ok c \<Longrightarrow> client_ok (client_confirm y c)"
proof -
  assume c: "client_ok c"
  obtain s r where s: "session_seal (y_mc y) (cs_cur (cl_state c)) [] V2_OVERHEAD = (s, r)"
    by fastforce
  have "client_ok (on_state (\<lambda>st. st\<lparr>cs_last_keepalive := y_now y\<rparr>) d)" if "client_ok d" for d
    using that by (auto intro: client_ok_same)
  then show ?thesis
    using c send_ok [OF sealed_ok [OF c s] surjective_pairing] by (auto simp: client_confirm_def s split: option.split)
qed

lemma keepalive_ok: "client_ok c \<Longrightarrow> client_ok (client_keepalive y c)"
proof -
  assume c: "client_ok c"
  obtain s r where s: "session_seal (y_mc y) (cs_cur (cl_state c)) [] V2_OVERHEAD = (s, r)"
    by fastforce
  have "client_ok (on_state (\<lambda>st. st\<lparr>cs_last_keepalive := y_now y\<rparr>) d)" if "client_ok d" for d
    using that by (auto intro: client_ok_same)
  then show ?thesis
    using c send_ok [OF sealed_ok [OF c s] surjective_pairing] by (auto simp: client_keepalive_def s split: option.split)
qed

text \<open>A CONFIG is read into the configuration.\<close>

lemma apply_config_ok: "client_ok c \<Longrightarrow> client_apply_config_response p c = (c', rc) \<Longrightarrow> client_ok c'"
  by (auto simp: client_apply_config_response_def client_ok_def alive_def Let_def split: if_splits option.splits)

lemma config_change_frame:
  "cl_fd (client_check_config_change y p c) = cl_fd c" "cl_reconnect_at (client_check_config_change y p c) = cl_reconnect_at c"
proof -
  have "cl_fd (fst (camex_client_reconfigure y new c)) = cl_fd c \<and>
      cl_reconnect_at (fst (camex_client_reconfigure y new c)) = cl_reconnect_at c" for new
    using reconfigure_props [OF surjective_pairing [of "camex_client_reconfigure y new c"]] by simp
  then show "cl_fd (client_check_config_change y p c) = cl_fd c"
    "cl_reconnect_at (client_check_config_change y p c) = cl_reconnect_at c"
    by (simp_all add: client_check_config_change_def split: option.splits)
qed

lemma config_change_ok: "client_ok c \<Longrightarrow> client_ok (client_check_config_change y p c)"
  by (simp add: client_ok_def alive_def config_change_frame config_change_state)

lemma new_session_ok: "client_ok c \<Longrightarrow> client_ok (on_state (client_new_session y si k1 k2) c)"
proof -
  have "s_valid (session_init i r ks kr now)" for i r ks kr now
    by (simp add: session_init_def)
  then show "client_ok c \<Longrightarrow> client_ok (on_state (client_new_session y si k1 k2) c)"
    by (auto simp: client_ok_def alive_def client_new_session_def Let_def)
qed

lemma net_packet_ok:
  assumes "client_ok c" and "client_handle_net_packet y b c = (c', rc)"
  shows "client_ok c'"
proof -
  have resp: "client_ok c'" if h: "client_handle_resp y b c = (c', rc)"
  proof -
    obtain hs p where n: "noise_read_msg2 (y_mc y) (cs_hs (cl_state c)) (drop V2_RESP_HDR b) (CAMEX_CONTROL_MAX - 1) = (hs, p)"
      by fastforce
    obtain c1 rc1 where c1: "(if \<not> c_auto_config (cl_cfg c) then (c, 0)
        else if \<not> cs_config_received (cl_state c) then client_apply_config_response (the p) c
        else (client_check_config_change y (the p) c, 0)) = (c1, rc1)"
      by fastforce
    have ok1: "client_ok c1"
      using c1 assms(1) apply_config_ok config_change_ok by (auto split: if_splits)
    have "client_ok (client_confirm y (on_state (client_new_session y si k1 k2) (c1\<lparr>cl_backoff := 0\<rparr>)))" for si k1 k2
      using ok1 by (intro confirm_ok new_session_ok) (simp add: client_ok_def alive_def)
    then show ?thesis
      using h ok1 assms(1) c1 unfolding client_handle_resp_def Let_def n
      by (auto split: if_splits option.splits prod.splits)
  qed
  have data: "client_ok c'" if h: "client_handle_data y b c = (c', rc)"
  proof -
    let ?cur = "s_valid (cs_cur (cl_state c)) \<and> v2_data_receiver b = s_local_index (cs_cur (cl_state c))"
    obtain s p where s: "session_open (y_mc y) (if ?cur then cs_cur (cl_state c) else cs_prev (cl_state c)) b TUN_PACKET_MAX = (s, p)"
      by fastforce
    have "replay_ok s" if "p \<noteq> None"
      using that s assms(1) replay_ok_open by (cases ?cur) (auto simp: client_ok_def)
    then show ?thesis
      using h assms(1) s session_open_fields(1) [OF s] unfolding client_handle_data_def Let_def s
      by (auto simp: client_ok_def alive_def client_write_tun_def client_act_def split: if_splits option.splits)
  qed
  show ?thesis
    using assms resp data unfolding client_handle_net_packet_def by (auto split: if_splits)
qed

lemma udp_client_ok: "client_ok c \<Longrightarrow> client_ok (client_recv_udp ps c)"
  by (induction ps c rule: client_recv_udp.induct) (auto intro: net_packet_ok [OF _ surjective_pairing])

lemma tcp_client_ok: "client_ok c \<Longrightarrow> client_ok (client_recv_tcp y buffer sock c)"
proof -
  assume c: "client_ok c"
  have "client_ok (c\<lparr>cl_recv := st\<rparr>)" for st
    using c by (simp add: client_ok_def alive_def)
  then show ?thesis
    by (auto simp: client_recv_tcp_def Let_def split: prod.split intro: close_ok net_packet_ok [OF _ surjective_pairing])
qed

lemma tun_packets_ok: "client_ok c \<Longrightarrow> client_ok (client_tun_packets n ps c)"
proof (induction n ps c rule: client_tun_packets.induct)
  case (3 budget y packet ps c)
  obtain c1 rc where h: "client_handle_tun_packet y packet c = (c1, rc)" by fastforce
  show ?case
    using 3 tun_packet_ok [OF 3(2) h] h by simp
qed simp_all

text \<open>Whatever happens, a reconnect leads on.\<close>

lemma init_ok: "client_ok c \<Longrightarrow> client_send_init y c = (c', rc) \<Longrightarrow> rc = 0 \<or> s_valid (cs_cur (cl_state c)) \<Longrightarrow> client_ok c'"
  using send_init_frame(1,2) [of y c c' rc] by (auto simp: client_ok_def alive_def handshake_frame_def)

lemma reconnect_ok:
  assumes "client_ok c"
  shows "client_ok (client_reconnect y c)"
proof -
  let ?c0 = "on_state (\<lambda>s. s\<lparr>cs_established := False\<rparr>) (client_wipe ((client_net_close c)\<lparr>cl_recv := recv_zero\<rparr>))"
  have c0: "replay_ok (cs_cur (cl_state ?c0))" "replay_ok (cs_prev (cl_state ?c0))" "cl_fd ?c0 < 0"
    by (simp_all add: client_wipe_def client_net_close_def client_act_def)
  show ?thesis
  proof (cases "y_socket y < 0")
    case True
    then show ?thesis
      unfolding client_reconnect_def Let_def client_socket_create_def using c0 by (simp add: client_ok_def alive_def)
  next
    case False
    let ?h = "on_state (\<lambda>s. s\<lparr>cs_last_recv := y_now y, cs_last_keepalive := y_now y\<rparr>) (?c0\<lparr>cl_fd := y_socket y, cl_reconnect_at := 0\<rparr>)"
    obtain c2 rc where h: "client_start_handshake y ?h = (c2, rc)" by fastforce
    have "replay_ok (cs_cur (cl_state c2))" "replay_ok (cs_prev (cl_state c2))"
      using start_handshake_frame(1) [OF h] c0 by (simp_all add: handshake_frame_def)
    then show ?thesis
      using h False start_handshake_frame(2) [OF h] c0 unfolding client_reconnect_def Let_def client_socket_create_def
      by (simp add: client_ok_def alive_def client_net_close_def client_act_def)
  qed
qed

lemma start_ok: "client_ok c \<Longrightarrow> s_valid (cs_cur (cl_state c)) \<Longrightarrow> client_ok (fst (client_start_handshake y c))"
  using start_handshake_frame(1) [OF surjective_pairing [of "client_start_handshake y c"]]
  by (auto simp: client_ok_def alive_def handshake_frame_def)

lemma tick_ok:
  assumes c: "client_ok c"
  shows "client_ok (client_tick y c)"
proof -
  have d: "client_ok (client_dropped c)"
    using c by (auto simp: client_dropped_def client_ok_def alive_def)
  obtain c1 rc where c1: "(if cs_hs_pending (cl_state c) \<and> y_now y - cs_hs_sent (cl_state c) \<ge> V2_HANDSHAKE_RETRY
                 then client_send_init y c else (c, 0)) = (c1, rc)"
    by fastforce
  have f: "handshake_frame c c1"
    using c1 send_init_frame(1) by (auto simp: handshake_frame_def split: if_splits)
  have ok1: "rc = 0 \<Longrightarrow> client_ok c1"
    using c1 c init_ok by (auto split: if_splits)
  have closed: "client_ok ((client_net_close c1)\<lparr>cl_reconnect_at := 0\<rparr>)"
    using f c by (auto simp: client_ok_def alive_def handshake_frame_def client_net_close_def client_act_def)
  let ?c2 = "if client_rekey_due y c1 then fst (client_start_handshake y c1) else c1"
  have ok2: "rc = 0 \<Longrightarrow> client_ok ?c2"
    using ok1 start_ok by (auto simp: client_rekey_due_def Let_def)
  show ?thesis
    unfolding client_tick_def c1 using c d reconnect_ok closed ok2 keepalive_ok by (auto simp: Let_def)
qed

lemma client_pass_ok: "client_ok c \<Longrightarrow> client_ok (client_pass e c)"
  unfolding client_pass_def client_io_def Let_def
  by (auto intro!: tick_ok tun_packets_ok tcp_client_ok udp_client_ok flush_ok)

interpretation client_loop: stepper "\<lambda>c e. client_pass e c" client_ok
  by unfold_locales (rule client_pass_ok)


text \<open>A live client's tick acts, in time.\<close>

lemma reconnect_changes:
  "y_now y < cl_reconnect_at (client_reconnect y c) \<or>
   cl_reconnect_at (client_reconnect y c) = 0 \<and> cl_fd (client_reconnect y c) \<ge> 0 \<and> cs_last_recv (cl_state (client_reconnect y c)) = y_now y"
proof (cases "y_socket y < 0")
  case True
  then show ?thesis
    unfolding client_reconnect_def Let_def client_socket_create_def
    by (simp add: reconnect_delay_def CAMEX_RECONNECT_INTERVAL_def push_bit_eq_mult)
next
  case False
  let ?c0 = "on_state (\<lambda>s. s\<lparr>cs_established := False\<rparr>) (client_wipe ((client_net_close c)\<lparr>cl_recv := recv_zero\<rparr>))"
  let ?h = "on_state (\<lambda>s. s\<lparr>cs_last_recv := y_now y, cs_last_keepalive := y_now y\<rparr>) (?c0\<lparr>cl_fd := y_socket y, cl_reconnect_at := 0\<rparr>)"
  obtain c2 rc where h: "client_start_handshake y ?h = (c2, rc)" by fastforce
  show ?thesis
    using h False start_handshake_frame(1) [OF h] unfolding client_reconnect_def Let_def client_socket_create_def
    by (simp add: handshake_frame_def CAMEX_RECONNECT_INTERVAL_def)
qed

lemma send_init_started: "cs_hs_started (cl_state (fst (client_start_handshake y c))) = y_now y"
  using send_init_frame(3) [OF surjective_pairing] by (simp add: client_start_handshake_def)

lemma keepalive_started: "cs_hs_started (cl_state (client_keepalive y c)) = cs_hs_started (cl_state c)"
proof -
  obtain s r where s: "session_seal (y_mc y) (cs_cur (cl_state c)) [] V2_OVERHEAD = (s, r)"
    by fastforce
  show ?thesis
    using net_client_send_props(1) [OF surjective_pairing] by (simp add: client_keepalive_def s split: option.split)
qed

lemma alive_acts:
  assumes a: "alive c"
    and t: "cl_reconnect_at c \<le> y_now y" "cs_last_recv (cl_state c) < y_now y" "cs_hs_started (cl_state c) < y_now y"
      "cs_hs_started (cl_state c) + c_server_timeout (cl_cfg c) \<le> y_now y" "cs_hs_started (cl_state c) + V2_REKEY_TIMEOUT \<le> y_now y"
      "s_created (cs_cur (cl_state c)) + V2_REKEY_AFTER_TIME \<le> y_now y"
  shows "client_tick y c \<noteq> c"
proof -
  have r: "client_reconnect y d \<noteq> c" if "cl_fd c < 0 \<or> cl_reconnect_at c \<noteq> 0 \<or> cs_last_recv (cl_state c) \<noteq> y_now y" for d
    using reconnect_changes [of y d] that t(1) by auto
  consider "cl_fd c < 0 \<or> cl_reconnect_at c > 0" | "cl_fd c \<ge> 0" "cl_reconnect_at c \<le> 0" "client_link_lost y c \<or> client_rekey_lost y c"
    | "cl_fd c \<ge> 0" "cl_reconnect_at c \<le> 0" "\<not> (client_link_lost y c \<or> client_rekey_lost y c)"
    by linarith
  then show ?thesis
  proof cases
    case 1
    then show ?thesis using r [of c] t(1) by (auto simp: client_tick_def)
  next
    case 2
    then show ?thesis using r [of "client_dropped c"] t(2) by (auto simp: client_tick_def)
  next
    case 3
    have p: "\<not> cs_hs_pending (cl_state c)"
      using 3(3) t(4,5) by (auto simp: client_link_lost_def client_rekey_lost_def Let_def)
    then have v: "s_valid (cs_cur (cl_state c))"
      using a 3 by (simp add: alive_def)
    have due: "client_rekey_due y c"
      using p v t(6) by (auto simp: client_rekey_due_def client_rekey_after_def Let_def)
    let ?c2 = "fst (client_start_handshake y c)"
    have e: "client_tick y c = (if client_keepalive_due y ?c2 then client_keepalive y ?c2 else ?c2)"
      using 3 p due by (simp add: client_tick_def Let_def)
    have "cs_hs_started (cl_state (client_tick y c)) = y_now y"
      unfolding e by (simp add: keepalive_started send_init_started)
    then show ?thesis
      using t(3) by auto
  qed
qed

subsection \<open>Properties\<close>

text \<open>C14: a client that got under way never stands still: after any passes of its loop, with any packets, errors and
  failures, from some moment on every tick does something (it sends a handshake or opens a new connection, or
  schedules one), and both its sessions have a well-formed replay window.\<close>

theorem client_never_stands_still:
  assumes "client_ok c" and "q = foldl (\<lambda>c e. client_pass e c) c es"
  shows "(\<exists>t. \<forall>y. y_now y \<ge> t \<longrightarrow> client_tick y q \<noteq> q) \<and>
    (\<exists>S. session_rel (cs_cur (cl_state q)) S) \<and> (\<exists>S. session_rel (cs_prev (cl_state q)) S)"
proof -
  have q: "client_ok q"
    unfolding assms(2) by (rule client_loop.inv_run [OF assms(1)])
  let ?s = "cl_state q"
  let ?t = "Max {cl_reconnect_at q, cs_last_recv ?s + 1, cs_hs_started ?s + 1, cs_hs_started ?s + c_server_timeout (cl_cfg q),
    cs_hs_started ?s + V2_REKEY_TIMEOUT, s_created (cs_cur ?s) + V2_REKEY_AFTER_TIME}"
  have "\<forall>y. y_now y \<ge> ?t \<longrightarrow> client_tick y q \<noteq> q"
    using q by (intro allI impI alive_acts) (simp_all add: client_ok_def)
  then have "\<exists>t. \<forall>y. y_now y \<ge> t \<longrightarrow> client_tick y q \<noteq> q"
    by (rule exI)
  then show ?thesis
    using q by (simp add: client_ok_def replay_ok_def)
qed

text \<open>
  The end of \<open>camex_init()\<close> for a client: a manual one starts its handshake, whose failure is only logged.
\<close>

definition camex_client_start :: "client_ctx \<Rightarrow> client_proc \<Rightarrow> client_proc" where
  "camex_client_start y c =
     (if c_auto_config (cl_cfg c) then c else fst (client_start_handshake y c))\<lparr>cl_link_up := True\<rparr>"



subsection \<open>The wait for the first CONFIG\<close>

text \<open>A configuration the tunnel can be opened with.\<close>

definition cfg_usable :: "camex_config \<Rightarrow> bool" where
  "cfg_usable cfg \<longleftrightarrow> parse_local_cidr (c_local_cidr cfg) 16 16 \<noteq> None \<and> validate_ipv4 (c_gateway_ip cfg) \<and>
     length (c_route_cidrs cfg) \<le> CAMEX_MAX_ROUTES \<and> (\<forall>r\<in>set (c_route_cidrs cfg). validate_route_cidr r)"

definition wait_inv :: "client_proc \<Rightarrow> bool" where
  "wait_inv c \<longleftrightarrow> (cs_config_received (cl_state c) \<longrightarrow>
     cfg_usable (cl_cfg c) \<and> cs_established (cl_state c) \<and> s_valid (cs_cur (cl_state c)))"

lemma wait_inv_same:
  "wait_inv c \<Longrightarrow> cs_config_received (cl_state c') = cs_config_received (cl_state c) \<Longrightarrow> cl_cfg c' = cl_cfg c \<Longrightarrow>
    cs_established (cl_state c') = cs_established (cl_state c) \<Longrightarrow> s_valid (cs_cur (cl_state c')) = s_valid (cs_cur (cl_state c)) \<Longrightarrow> wait_inv c'"
  by (simp add: wait_inv_def)

lemma usable_same: "cfg_usable b \<Longrightarrow> client_config_same a b \<Longrightarrow> cfg_usable a"
  by (simp add: cfg_usable_def client_config_same_def)

lemma parsed_usable: "proto_parse_config m c = Some c' \<Longrightarrow> cfg_usable c'"
  using parse_config_sound [of m c c'] by (simp add: cfg_usable_def)

lemma config_change_usable: "cfg_usable (cl_cfg c) \<Longrightarrow> cfg_usable (cl_cfg (client_check_config_change y p c))"
proof -
  assume c: "cfg_usable (cl_cfg c)"
  have "cfg_usable (cl_cfg (fst (camex_client_reconfigure y new c)))" if "cfg_usable new" for new
    using reconfigure_props [OF surjective_pairing [of "camex_client_reconfigure y new c"]] c usable_same [OF that] by auto
  then show ?thesis
    using c parsed_usable by (auto simp: client_check_config_change_def split: option.split)
qed

lemma apply_usable:
  assumes "client_apply_config_response p c = (c', rc)"
  shows "rc = 0 \<Longrightarrow> cfg_usable (cl_cfg c')" "rc \<noteq> 0 \<Longrightarrow> c' = c"
proof -
  show "cfg_usable (cl_cfg c')" if "rc = 0"
  proof (cases "proto_parse_config (cstr p) (cl_cfg c)")
    case None
    then show ?thesis using assms that by (auto simp: client_apply_config_response_def split: if_splits)
  next
    case (Some cfg)
    then show ?thesis
      using assms that parsed_usable [OF Some]
      by (auto simp: client_apply_config_response_def cfg_usable_def Let_def split: if_splits option.splits)
  qed
  show "rc \<noteq> 0 \<Longrightarrow> c' = c"
    using assms by (auto simp: client_apply_config_response_def Let_def split: if_splits option.splits)
qed

lemma confirm_same: "cs_config_received (cl_state (client_confirm y c)) = cs_config_received (cl_state c)"
proof -
  obtain s r where s: "session_seal (y_mc y) (cs_cur (cl_state c)) [] V2_OVERHEAD = (s, r)"
    by fastforce
  show ?thesis
    using net_client_send_props(1) [OF surjective_pairing] by (simp add: client_confirm_def s split: option.split)
qed

lemma established_confirmed:
  assumes "cfg_usable (cl_cfg c)"
  shows "wait_inv (client_confirm y (on_state (client_new_session y si k1 k2) c))"
proof -
  have "s_valid (cs_cur (cl_state (on_state (client_new_session y si k1 k2) c)))" "cs_established (cl_state (on_state (client_new_session y si k1 k2) c))"
    by (simp_all add: client_new_session_def session_init_def Let_def)
  then show ?thesis
    using assms confirm_props(2,4) replay_ok_counter [OF confirm_props(6)] by (simp add: wait_inv_def)
qed

lemma net_packet_wait:
  assumes inv: "wait_inv c" and auto: "c_auto_config (cl_cfg c)" and h: "client_handle_net_packet y b c = (c', rc)"
  shows "wait_inv c'"
proof -
  have resp: "wait_inv c'" if h: "client_handle_resp y b c = (c', rc)"
  proof -
    obtain hs p where n: "noise_read_msg2 (y_mc y) (cs_hs (cl_state c)) (drop V2_RESP_HDR b) (CAMEX_CONTROL_MAX - 1) = (hs, p)"
      by fastforce
    obtain c1 rc1 where c1: "(if \<not> cs_config_received (cl_state c) then client_apply_config_response (the p) c
        else (client_check_config_change y (the p) c, 0)) = (c1, rc1)"
      by fastforce
    have fail: "c1 = c" if "rc1 \<noteq> 0"
      using c1 that apply_usable(2) by (auto split: if_splits)
    have ok: "cfg_usable (cl_cfg c1)" if "rc1 = 0"
    proof (cases "cs_config_received (cl_state c)")
      case True
      then show ?thesis
        using c1 inv config_change_usable by (auto simp: wait_inv_def)
    next
      case False
      then show ?thesis
        using c1 that apply_usable(1) by simp
    qed
    have done': "wait_inv (client_confirm y (on_state (client_new_session y si k1 k2) (c1\<lparr>cl_backoff := 0\<rparr>)))" if "rc1 = 0" for si k1 k2
      using ok that by (intro established_confirmed) simp
    show ?thesis
      using h inv c1 fail done' auto unfolding client_handle_resp_def Let_def n
      by (auto split: if_splits option.splits prod.splits)
  qed
  have data: "wait_inv c'" if h: "client_handle_data y b c = (c', rc)"
  proof -
    let ?cur = "s_valid (cs_cur (cl_state c)) \<and> v2_data_receiver b = s_local_index (cs_cur (cl_state c))"
    obtain s p where s: "session_open (y_mc y) (if ?cur then cs_cur (cl_state c) else cs_prev (cl_state c)) b TUN_PACKET_MAX = (s, p)"
      by fastforce
    show ?thesis
      using h inv s session_open_fields(1) [OF s] unfolding client_handle_data_def Let_def s
      by (auto simp: wait_inv_def client_write_tun_def client_act_def split: if_splits option.splits)
  qed
  show ?thesis
    using h inv resp data unfolding client_handle_net_packet_def by (auto split: if_splits)
qed

lemma frame_wait: "handshake_frame c c' \<Longrightarrow> wait_inv c = wait_inv c'"
  by (simp add: wait_inv_def handshake_frame_def)

lemma net_packet_auto:
  assumes "client_handle_net_packet y b c = (c', rc)"
  shows "c_auto_config (cl_cfg c') = c_auto_config (cl_cfg c)"
proof -
  have p: "c_auto_config cfg' = c_auto_config cfg" if "proto_parse_config m cfg = Some cfg'" for m cfg cfg'
    using parse_config_sound [OF that] by force
  have r: "c_auto_config (cl_cfg (client_check_config_change y p c)) = c_auto_config (cl_cfg c)" for p
    using reconfigure_props [OF surjective_pairing] by (simp add: client_check_config_change_def split: option.split)
  have a: "c_auto_config (cl_cfg (fst (client_apply_config_response p c))) = c_auto_config (cl_cfg c)" for p
    by (auto simp: client_apply_config_response_def Let_def split: option.split dest: p)
  have resp: "c_auto_config (cl_cfg c') = c_auto_config (cl_cfg c)" if h: "client_handle_resp y b c = (c', rc)"
  proof -
    obtain hs q where n: "noise_read_msg2 (y_mc y) (cs_hs (cl_state c)) (drop V2_RESP_HDR b) (CAMEX_CONTROL_MAX - 1) = (hs, q)"
      by fastforce
    obtain c1 rc1 where c1: "(if \<not> c_auto_config (cl_cfg c) then (c, 0)
         else if \<not> cs_config_received (cl_state c) then client_apply_config_response (the q) c
         else (client_check_config_change y (the q) c, 0)) = (c1, rc1)"
      by fastforce
    have "c_auto_config (cl_cfg c1) = c_auto_config (cl_cfg c)"
      using c1 r a [of "the q"] by (auto split: if_splits)
    then show ?thesis
      using h c1 confirm_props(2) unfolding client_handle_resp_def Let_def n
      by (auto split: if_splits option.splits prod.splits)
  qed
  have data: "cl_cfg c' = cl_cfg c" if "client_handle_data y b c = (c', rc)"
    using that by (auto simp: client_handle_data_def Let_def client_write_tun_def client_act_def split: if_splits option.splits prod.splits)
  show ?thesis
    using assms resp data unfolding client_handle_net_packet_def by (auto split: if_splits)
qed

text \<open>The parts of a turn keep the invariant and the mode.\<close>

definition wait_keeps :: "client_proc \<Rightarrow> client_proc \<Rightarrow> bool" where
  "wait_keeps c c' \<longleftrightarrow> (wait_inv c \<and> c_auto_config (cl_cfg c) \<longrightarrow> wait_inv c' \<and> c_auto_config (cl_cfg c'))"

lemma wait_keeps_trans: "wait_keeps c d \<Longrightarrow> wait_keeps d e \<Longrightarrow> wait_keeps c e"
  by (simp add: wait_keeps_def)

lemma wait_keeps_refl [simp]: "wait_keeps c c"
  by (simp add: wait_keeps_def)

lemma wait_keeps_ops:
  "wait_keeps c (client_net_close c)" "wait_keeps c (client_flush rs w c)" "wait_keeps c (c\<lparr>cl_recv := st\<rparr>)"
  "wait_keeps c (c\<lparr>cl_fd := fd\<rparr>)"
  by (auto simp: wait_keeps_def wait_inv_def client_net_close_def client_flush_def client_act_def split: prod.split)

lemma frame_keeps: "handshake_frame c c' \<Longrightarrow> wait_keeps c c'"
  using frame_wait [of c c'] by (simp add: wait_keeps_def handshake_frame_def)

lemma handshake_keeps: "client_start_handshake y c = (c', rc) \<Longrightarrow> wait_keeps c c'" "client_send_init y c = (c', rc) \<Longrightarrow> wait_keeps c c'"
  by (rule frame_keeps, erule start_handshake_frame(1)) (rule frame_keeps, erule send_init_frame(1))

lemma packet_keeps: "client_handle_net_packet y b c = (c', rc) \<Longrightarrow> wait_keeps c c'"
  unfolding wait_keeps_def by (auto dest: net_packet_auto intro: net_packet_wait)

lemma wait_reconnect_keeps: "client_wait_reconnect as c = (c', r) \<Longrightarrow> wait_keeps c c'"
proof (induction "as" c rule: client_wait_reconnect.induct)
  case (2 running y as c)
  let ?c0 = "client_socket_renewed c"
  have 0: "wait_keeps c ?c0"
    unfolding client_socket_renewed_def using wait_keeps_trans wait_keeps_ops by blast
  have 1: "wait_keeps c (?c0\<lparr>cl_fd := y_socket y\<rparr>)"
    by (rule wait_keeps_trans [OF 0]) (rule wait_keeps_ops)
  obtain c2 rc2 where h: "client_start_handshake y (?c0\<lparr>cl_fd := y_socket y\<rparr>) = (c2, rc2)" by fastforce
  have c2: "wait_keeps c c2"
    by (rule wait_keeps_trans [OF 1 handshake_keeps(1) [OF h]])
  show ?case
  proof (cases "\<not> running")
    case True
    then show ?thesis using 2 0 by simp
  next
    case F: False
    show ?thesis
    proof (cases "y_socket y < 0")
      case True
      then have "client_wait_reconnect as ?c0 = (c', r)"
        using 2(3) F by (simp add: client_socket_create_def Let_def)
      then have "wait_keeps ?c0 c'"
        using 2(1) [of ?c0] F True by (simp add: client_socket_create_def)
      then show ?thesis by (rule wait_keeps_trans [OF 0])
    next
      case False
      then have e: "(if rc2 = 0 then (c2, Wait_config) else client_wait_reconnect as c2) = (c', r)"
        using 2(3) F h by (simp add: client_socket_create_def Let_def)
      then show ?thesis
        using c2 wait_keeps_trans [OF c2] 2(2) [of ?c0 "?c0\<lparr>cl_fd := y_socket y\<rparr>" 0 c2 rc2] F False h
        by (auto simp: client_socket_create_def split: if_splits)
    qed
  qed
qed simp


lemma wait_renew_keeps: "wait_renew y since c = (c', b) \<Longrightarrow> wait_keeps c c'"
  using handshake_keeps(2) by (auto simp: wait_renew_def split: if_splits prod.splits)

lemma wait_read_keeps: "wait_read e c = (c', status, packet) \<Longrightarrow> wait_keeps c c'"
  using wait_keeps_ops(3) by (auto simp: wait_read_def split: if_splits prod.splits)

lemma wait_turn_keeps:
  assumes t: "wait_turn e (c, since) = ((c', since'), r)"
  shows "wait_keeps c c'" and "r = Wait_config \<Longrightarrow> wait_done c'"
proof -
  obtain c1 b where c1: "wait_renew (we_y e) since c = (c1, b)" by fastforce
  let ?c2 = "if we_select e = Sel_ready then client_flush (we_flush e) (we_writable e) c1 else c1"
  obtain c3 status packet where c3: "wait_read e ?c2 = (c3, status, packet)"
    by (rule prod_cases3)
  obtain c4 rc where c4: "client_handle_net_packet (we_recv e) packet c3 = (c4, rc)" by fastforce
  have k1: "wait_keeps c c1"
    by (rule wait_renew_keeps [OF c1])
  have k2: "wait_keeps c ?c2"
    by (rule wait_keeps_trans [OF k1]) (simp add: wait_keeps_ops)
  have k3: "wait_keeps c c3"
    by (rule wait_keeps_trans [OF k2 wait_read_keeps [OF c3]])
  have k4: "wait_keeps c c4"
    by (rule wait_keeps_trans [OF k3 packet_keeps [OF c4]])
  have again: "wait_keeps c c'" "r \<noteq> Wait_config"
    if "wait_keeps c d" "(case client_wait_reconnect (we_attempts e) d of
        (c2, r) \<Rightarrow> ((c2, we_after e), if r = Wait_config then Wait_more else r)) = ((c', since'), r)" for d
    using that(2) wait_keeps_trans [OF that(1) wait_reconnect_keeps] by (auto split: prod.splits if_splits)
  note e1 = t [unfolded wait_turn_def prod.case Let_def c1]
  consider "\<not> we_running e" | "we_running e" b | "we_running e" "\<not> b" "status = Broken" "we_select e = Sel_ready" "we_readable e"
    | "we_running e" "\<not> b" "we_select e \<noteq> Sel_ready \<or> \<not> we_readable e"
    | "we_running e" "\<not> b" "we_select e = Sel_ready" "we_readable e" "status \<noteq> Broken"
    by blast
  then have "wait_keeps c c' \<and> (r = Wait_config \<longrightarrow> wait_done c')"
  proof cases
    case 1
    then show ?thesis using e1 by simp
  next
    case 2
    then show ?thesis using e1 again [OF k1] by simp
  next
    case 3
    then show ?thesis using e1 again [OF k3] c3 by simp
  next
    case 4
    then show ?thesis using e1 k1 k2 by (auto split: if_splits)
  next
    case 5
    then show ?thesis using e1 k3 k4 c3 c4 by (auto split: if_splits)
  qed
  then show "wait_keeps c c'" "r = Wait_config \<Longrightarrow> wait_done c'"
    by simp_all
qed

lemma wait_keeps_run:
  "client_wait_for_config es (c, since) = ((c', since'), r) \<Longrightarrow> wait_keeps c c' \<and> (r = Wait_config \<longrightarrow> wait_done c')"
proof (induction es arbitrary: c since)
  case (Cons e es)
  obtain d s q where t: "wait_turn e (c, since) = ((d, s), q)"
    by (metis surj_pair)
  note T = wait_turn_keeps [OF t]
  show ?case
  proof (cases "q = Wait_more")
    case True
    then have "wait_keeps d c' \<and> (r = Wait_config \<longrightarrow> wait_done c')"
      using Cons.IH [of d s] Cons.prems t by simp
    then show ?thesis
      using wait_keeps_trans [OF T(1)] by blast
  next
    case False
    then show ?thesis
      using Cons.prems t T by auto
  qed
qed simp

text \<open>C15: the wait for the first CONFIG ends only with a configuration the tunnel can be opened with.  Whatever
  arrives, however often the client connects again: when \<open>client_wait_for_config()\<close> returns 0, a CONFIG was
  taken, its address, gateway and routes are well-formed, and a session is up.\<close>

theorem wait_ends_with_config:
  assumes "client_wait_for_config es (c, since) = ((c', since'), Wait_config)"
    and "\<not> cs_config_received (cl_state c)" and "c_auto_config (cl_cfg c)"
  shows "cs_config_received (cl_state c') \<and> parse_local_cidr (c_local_cidr (cl_cfg c')) 16 16 \<noteq> None \<and>
    validate_ipv4 (c_gateway_ip (cl_cfg c')) \<and> (\<forall>r\<in>set (c_route_cidrs (cl_cfg c')). validate_route_cidr r) \<and>
    cs_established (cl_state c') \<and> s_valid (cs_cur (cl_state c'))"
proof -
  have "wait_inv c'" "wait_done c'"
    using wait_keeps_run [OF assms(1)] assms(2,3) by (simp_all add: wait_keeps_def wait_inv_def)
  then show ?thesis
    by (simp add: wait_inv_def wait_done_def cfg_usable_def)
qed


text \<open>The answer of a server that has a CONFIG for this client.\<close>

lemma config_answer:
  assumes p: "cs_hs_pending (cl_state c)" and auto: "c_auto_config (cl_cfg c)" "\<not> cs_config_received (cl_state c)"
    and cid: "id_sendable cid" and prof: "profile_sendable p"
    and own: "c_client_id (cl_cfg c) = [] \<or> cid = [] \<or> strcaseeq (c_client_id (cl_cfg c)) cid"
    and reply: "proto_build_config cid p CAMEX_CONTROL_MAX = Some reply"
    and r: "noise_read_msg2 (y_mc y) (cs_hs (cl_state c)) m (CAMEX_CONTROL_MAX - 1) = (hs, Some (str_bytes reply))"
    and nul: "CHR 0x00 \<notin> set reply" and len: "NOISE_MSG_OVERHEAD \<le> length m"
    and resp: "resp = CAMEX_MAGIC @ [V2_TYPE_RESP] @ v2_write_u32 si @ v2_write_u32 (cs_hs_index (cl_state c)) @ m"
  shows "\<exists>c'. client_handle_net_packet y resp c = (c', 0) \<and> wait_done c' \<and> c_local_cidr (cl_cfg c') = p_local_cidr p \<and>
    c_gateway_ip (cl_cfg c') = p_gateway_ip p \<and> c_route_cidrs (cl_cfg c') = p_route_cidrs p"
proof -
  have m: "reply = message_of (config_words cid p)" "length reply < CAMEX_CONTROL_MAX"
    using build_config_words [OF config_message_length [OF cid prof]] config_message_length [OF cid prof] reply by simp_all
  have t: "cstr (str_bytes reply) = reply" "length (str_bytes reply) = length reply"
    by (rule cstr_bytes(1) [OF nul]) (simp add: str_bytes_def)
  let ?cfg = "(cl_cfg c)\<lparr>c_local_cidr := p_local_cidr p, c_gateway_ip := p_gateway_ip p, c_route_cidrs := p_route_cidrs p,
      c_mtu := (if p_mtu p > 0 then p_mtu p else c_mtu (cl_cfg c)), c_client_id := (if cid = [] then c_client_id (cl_cfg c) else cid)\<rparr>"
  have parse: "proto_parse_config reply (cl_cfg c) = Some ?cfg"
    unfolding m(1) by (rule config_round_trip [OF cid prof own])
  obtain ip mk where ip: "parse_local_cidr (p_local_cidr p) 16 16 = Some (ip, mk)"
    using parse_config_sound [OF parse] by auto
  let ?c1 = "on_state (\<lambda>s. s\<lparr>cs_config_received := True\<rparr>) (c\<lparr>cl_cfg := ?cfg\<lparr>c_local_ip := ip\<rparr>\<rparr>)"
  have a: "client_apply_config_response (str_bytes reply) c = (?c1, 0)"
    using m(2) by (simp add: client_apply_config_response_def t parse ip Let_def)
  obtain k1 k2 where k: "noise_split (y_mc y) hs = (k1, k2)" by fastforce
  define c2 where "c2 = on_state (client_new_session y si k1 k2) (?c1\<lparr>cl_backoff := 0\<rparr>)"
  have h: "client_handle_net_packet y resp c = (client_confirm y c2, 0)"
    using p auto r k a resp_parts [where si = si and ci = "cs_hs_index (cl_state c)" and m = m] len
    by (simp add: client_handle_net_packet_def client_handle_resp_def Let_def resp c2_def)
  have "cs_config_received (cl_state c2)"
    by (simp add: c2_def client_new_session_def Let_def)
  moreover have "p_local_cidr p \<noteq> []" "p_gateway_ip p \<noteq> []"
    using prof by (auto simp: profile_sendable_def word_text_def)
  moreover have "c_local_cidr (cl_cfg c2) = p_local_cidr p" "c_gateway_ip (cl_cfg c2) = p_gateway_ip p"
      "c_route_cidrs (cl_cfg c2) = p_route_cidrs p"
    by (simp_all add: c2_def)
  ultimately show ?thesis
    using h by (intro exI [of _ "client_confirm y c2"]) (simp add: wait_done_def confirm_props(2) confirm_same)
qed

lemma config_ends_wait:
  assumes "we_running e" and "we_select e = Sel_ready" and "we_readable e" and "\<not> c_tcp (cl_cfg c)"
    and "cl_fd c \<ge> 0" and "y_now (we_y e) - since < c_server_timeout (cl_cfg c)"
    and "y_now (we_y e) - cs_hs_sent (cl_state c) < V2_HANDSHAKE_RETRY"
    and "cs_hs_pending (cl_state c)" and "c_auto_config (cl_cfg c)" and "\<not> cs_config_received (cl_state c)"
    and "id_sendable cid" and "profile_sendable p"
    and "c_client_id (cl_cfg c) = [] \<or> cid = [] \<or> strcaseeq (c_client_id (cl_cfg c)) cid"
    and reply: "proto_build_config cid p CAMEX_CONTROL_MAX = Some reply" and "CHR 0x00 \<notin> set reply"
    and "noise_read_msg2 (y_mc (we_recv e)) (cs_hs (cl_state c)) m (CAMEX_CONTROL_MAX - 1) = (hs, Some (str_bytes reply))"
    and "length m = NOISE_MSG_OVERHEAD + length reply"
    and "we_packet e = CAMEX_MAGIC @ [V2_TYPE_RESP] @ v2_write_u32 si @ v2_write_u32 (cs_hs_index (cl_state c)) @ m"
  shows "\<exists>c'. client_wait_for_config (e # es) (c, since) = ((c', we_after e), Wait_config) \<and> c_local_cidr (cl_cfg c') = p_local_cidr p \<and>
    c_gateway_ip (cl_cfg c') = p_gateway_ip p \<and> c_route_cidrs (cl_cfg c') = p_route_cidrs p"
proof -
  have "length reply < CAMEX_CONTROL_MAX"
    using build_config_words [OF config_message_length [OF assms(11,12)]] config_message_length [OF assms(11,12)] reply by simp
  then have fits: "take WAIT_BUFFER (we_packet e) = we_packet e" "we_packet e \<noteq> []"
    by (simp_all add: assms(17,18) WAIT_BUFFER_def V2_RESP_HDR_def CAMEX_MAGIC_def)
  let ?c = "client_flush (we_flush e) (we_writable e) c"
  have s: "cl_state ?c = cl_state c" "cl_cfg ?c = cl_cfg c"
    by (simp_all add: client_flush_def split: prod.split)
  have "\<exists>c'. client_handle_net_packet (we_recv e) (we_packet e) ?c = (c', 0) \<and> wait_done c' \<and>
      c_local_cidr (cl_cfg c') = p_local_cidr p \<and> c_gateway_ip (cl_cfg c') = p_gateway_ip p \<and> c_route_cidrs (cl_cfg c') = p_route_cidrs p"
    by (rule config_answer [where cid = cid and reply = reply and m = m and hs = hs and si = si])
      (use assms in \<open>simp_all add: s\<close>)
  then obtain c' where h: "client_handle_net_packet (we_recv e) (we_packet e) ?c = (c', 0)" "wait_done c'"
      "c_local_cidr (cl_cfg c') = p_local_cidr p" "c_gateway_ip (cl_cfg c') = p_gateway_ip p" "c_route_cidrs (cl_cfg c') = p_route_cidrs p"
    by blast
  have "wait_renew (we_y e) since c = (c, False)"
    using assms(5-7) by (simp add: wait_renew_def)
  then have "wait_turn e (c, since) = ((c', we_after e), Wait_config)"
    using assms(1-4) h fits s by (simp add: wait_turn_def wait_read_def Let_def)
  then show ?thesis
    using h by simp
qed

text \<open>C16: the answer of the server ends the wait: when an auto client that waits for its first CONFIG gets a
  response to its handshake with the CONFIG built from a profile for its ID, the wait is over, and the client has
  exactly the address, the gateway and the routes of that profile.\<close>

theorem answer_ends_wait:
  assumes "we_running e" and "we_select e = Sel_ready" and "we_readable e" and "\<not> c_tcp (cl_cfg c)"
    and "cl_fd c \<ge> 0" and "y_now (we_y e) - since < c_server_timeout (cl_cfg c)"
    and "y_now (we_y e) - cs_hs_sent (cl_state c) < V2_HANDSHAKE_RETRY"
    and "cs_hs_pending (cl_state c)" and "c_auto_config (cl_cfg c)" and "\<not> cs_config_received (cl_state c)"
    and "id_sendable cid" and "profile_sendable p"
    and "c_client_id (cl_cfg c) = [] \<or> cid = [] \<or> strcaseeq (c_client_id (cl_cfg c)) cid"
    and reply: "proto_build_config cid p CAMEX_CONTROL_MAX = Some reply" and "CHR 0x00 \<notin> set reply"
    and "noise_read_msg2 (y_mc (we_recv e)) (cs_hs (cl_state c)) m (CAMEX_CONTROL_MAX - 1) = (hs, Some (str_bytes reply))"
    and "length m = NOISE_MSG_OVERHEAD + length reply"
    and "we_packet e = CAMEX_MAGIC @ [V2_TYPE_RESP] @ v2_write_u32 si @ v2_write_u32 (cs_hs_index (cl_state c)) @ m"
  shows "\<exists>c'. client_wait_for_config (e # es) (c, since) = ((c', we_after e), Wait_config) \<and> c_local_cidr (cl_cfg c') = p_local_cidr p \<and>
    c_gateway_ip (cl_cfg c') = p_gateway_ip p \<and> c_route_cidrs (cl_cfg c') = p_route_cidrs p"
  by (rule config_ends_wait [OF assms])


subsection \<open>Witnesses\<close>

lemma demo_proc_alive: "client_ok demo_proc"
  using demo_session_facts(3,9) [of 0] replay_ok_fresh(1)
  by (auto simp: client_ok_def alive_def demo_proc_def client_state_init_def replay_ok_def)

theorem client_never_stands_still_witness:
  "\<exists>t. \<forall>y. y_now y \<ge> t \<longrightarrow> client_tick y (client_tick demo_client_ctx demo_proc) \<noteq> client_tick demo_client_ctx demo_proc"
proof -
  let ?e = "\<lparr>ve_y = demo_client_ctx, ve_ready = False, ve_writable = {}, ve_flush = (\<lambda>_. []), ve_readable = False, ve_buffer = [],
     ve_sock = [], ve_recv = demo_client_ctx, ve_udp = [], ve_tun = []\<rparr>"
  have "foldl (\<lambda>c e. client_pass e c) demo_proc [?e] = client_tick demo_client_ctx demo_proc"
    by (simp add: client_pass_def)
  then show ?thesis
    using client_never_stands_still [OF demo_proc_alive refl, of "[?e]"] by auto
qed


text \<open>A client that sent its INIT at time 1000, and the answer of the server that has \<open>some_profile\<close> for it.\<close>

definition demo_waits :: client_proc where
  "demo_waits = demo_proc\<lparr>cl_tun_up := False, cl_state := client_state_init\<lparr>cs_hs_pending := True, cs_hs_index := 9, cs_hs_sent := 1000,
     cs_hs := (noise_init_initiator toy_mono CAMEX_NOISE_PROLOGUE (replicate 32 5))\<lparr>hs_e_priv := replicate 32 3\<rparr>\<rparr>\<rparr>"

definition demo_wait :: "bytes \<Rightarrow> wait_env" where
  "demo_wait packet = \<lparr>we_running = True, we_y = demo_client_ctx, we_select = Sel_ready, we_writable = {}, we_flush = (\<lambda>_. []),
     we_readable = True, we_buffer = [], we_sock = [], we_packet = packet, we_recv = demo_client_ctx, we_attempts = [], we_after = 1001\<rparr>"

lemma demo_reply:
  obtains reply m hs where "proto_build_config ''CAM-1'' some_profile CAMEX_CONTROL_MAX = Some reply" and "CHR 0x00 \<notin> set reply"
    and "noise_read_msg2 toy_mono (cs_hs (cl_state demo_waits)) m (CAMEX_CONTROL_MAX - 1) = (hs, Some (str_bytes reply))"
    and "length m = NOISE_MSG_OVERHEAD + length reply"
proof -
  let ?a = "cs_hs (cl_state demo_waits)" and ?b = "(noise_init_responder toy_mono CAMEX_NOISE_PROLOGUE (replicate 32 5) (replicate 32 5))\<lparr>hs_re := replicate 32 3\<rparr>"
  let ?reply = "message_of (config_words ''CAM-1'' some_profile)"
  have l: "length ?reply < CAMEX_CONTROL_MAX"
    by (rule config_message_length [OF cam_id(1) some_profile_sendable])
  obtain b' m where w: "noise_write_msg2 toy_mono ?b (replicate 32 1) (str_bytes ?reply) (length ?reply + NOISE_MSG_OVERHEAD) = (b', Some m)"
    using write_msg2_goes [of ?b toy_mono "replicate 32 1" "str_bytes ?reply" "length ?reply + NOISE_MSG_OVERHEAD"] toy_keys(2)
    by (auto simp: noise_init_fields str_bytes_def)
  have "hs_shared ?a = hs_shared ?b" "hs_initiator ?a" "hs_re ?b = mc_x25519_public_key toy_mono (hs_e_priv ?a)"
    using hs_shared_init [of toy_mono CAMEX_NOISE_PROLOGUE "replicate 32 5" "replicate 32 5"]
    by (simp_all add: demo_waits_def hs_shared_def noise_init_fields toy_keys)
  moreover have "length (str_bytes ?reply) \<le> CAMEX_CONTROL_MAX - 1"
    using l by (simp add: str_bytes_def)
  ultimately obtain hs where "noise_read_msg2 toy_mono ?a m (CAMEX_CONTROL_MAX - 1) = (hs, Some (str_bytes ?reply))"
    using read_write_msg2 [OF toy_mono_ok _ _ _ w, of ?a "CAMEX_CONTROL_MAX - 1"] by blast
  moreover have "length m = NOISE_MSG_OVERHEAD + length ?reply"
    using noise_write_length(2) [OF toy_mono_ok w] by (simp add: str_bytes_def)
  moreover have "CHR 0x00 \<notin> set ?reply"
    by code_simp
  ultimately show thesis
    using that build_config_words [OF l] by blast
qed

lemma demo_waits_fields:
  "cs_hs_pending (cl_state demo_waits)" "c_auto_config (cl_cfg demo_waits)" "\<not> cs_config_received (cl_state demo_waits)"
  "\<not> c_tcp (cl_cfg demo_waits)" "cl_fd demo_waits = 5" "cs_hs_sent (cl_state demo_waits) = 1000" "cs_hs_index (cl_state demo_waits) = 9"
  "cl_cfg demo_waits = some_client"
  by (simp_all add: demo_waits_def demo_proc_def some_client_def client_state_init_def)

theorem answer_ends_wait_witness:
  "\<exists>packet c'. client_wait_for_config [demo_wait packet] (demo_waits, 1000) = ((c', 1001), Wait_config) \<and>
     c_local_cidr (cl_cfg c') = ''10.200.0.2/24''"
proof -
  obtain reply m hs where r: "proto_build_config ''CAM-1'' some_profile CAMEX_CONTROL_MAX = Some reply" "CHR 0x00 \<notin> set reply"
    "noise_read_msg2 toy_mono (cs_hs (cl_state demo_waits)) m (CAMEX_CONTROL_MAX - 1) = (hs, Some (str_bytes reply))"
    "length m = NOISE_MSG_OVERHEAD + length reply"
    by (rule demo_reply)
  let ?p = "CAMEX_MAGIC @ [V2_TYPE_RESP] @ v2_write_u32 77 @ v2_write_u32 (cs_hs_index (cl_state demo_waits)) @ m"
  have "\<exists>c'. client_wait_for_config [demo_wait ?p] (demo_waits, 1000) = ((c', we_after (demo_wait ?p)), Wait_config) \<and>
      c_local_cidr (cl_cfg c') = p_local_cidr some_profile \<and> c_gateway_ip (cl_cfg c') = p_gateway_ip some_profile \<and>
      c_route_cidrs (cl_cfg c') = p_route_cidrs some_profile"
    by (rule answer_ends_wait [where cid = "''CAM-1''" and reply = reply and m = m and hs = hs and si = 77])
      (use r cam_id some_profile_sendable in \<open>simp_all add: demo_wait_def demo_client_ctx_def demo_waits_fields some_client_def V2_HANDSHAKE_RETRY_def\<close>)
  then show ?thesis
    unfolding some_profile_fields by (auto simp: demo_wait_def)
qed

theorem wait_ends_with_config_witness:
  "\<exists>packet c' t. client_wait_for_config [demo_wait packet] (demo_waits, 1000) = ((c', t), Wait_config) \<and> validate_ipv4 (c_gateway_ip (cl_cfg c'))"
proof -
  obtain reply m hs where r: "proto_build_config ''CAM-1'' some_profile CAMEX_CONTROL_MAX = Some reply" "CHR 0x00 \<notin> set reply"
    "noise_read_msg2 toy_mono (cs_hs (cl_state demo_waits)) m (CAMEX_CONTROL_MAX - 1) = (hs, Some (str_bytes reply))"
    "length m = NOISE_MSG_OVERHEAD + length reply"
    by (rule demo_reply)
  let ?p = "CAMEX_MAGIC @ [V2_TYPE_RESP] @ v2_write_u32 77 @ v2_write_u32 (cs_hs_index (cl_state demo_waits)) @ m"
  obtain c' t where "client_wait_for_config [demo_wait ?p] (demo_waits, 1000) = ((c', t), Wait_config)"
  proof -
    have "\<exists>c'. client_wait_for_config [demo_wait ?p] (demo_waits, 1000) = ((c', we_after (demo_wait ?p)), Wait_config) \<and>
        c_local_cidr (cl_cfg c') = p_local_cidr some_profile \<and> c_gateway_ip (cl_cfg c') = p_gateway_ip some_profile \<and>
        c_route_cidrs (cl_cfg c') = p_route_cidrs some_profile"
      by (rule config_ends_wait [where cid = "''CAM-1''" and reply = reply and m = m and hs = hs and si = 77])
        (use r cam_id some_profile_sendable in \<open>simp_all add: demo_wait_def demo_client_ctx_def demo_waits_fields some_client_def V2_HANDSHAKE_RETRY_def\<close>)
    then show thesis using that by blast
  qed
  then show ?thesis
    using wait_ends_with_config demo_waits_fields(2,3) by blast
qed

end
