(* ===== verification/Textbuf.thy ===== *)
theory Textbuf
  imports Cstring
begin

text \<open>
  Text buffers that grow: what the status answers of server.c and the texts of nginxmap.c share.  A buffer
  appends or, without memory, turns bad for good; a list of appends then gives the concatenation or a bad buffer.
\<close>

locale text_buffer =
  fixes add :: "string \<Rightarrow> 'b \<Rightarrow> 'b" and content :: "'b \<Rightarrow> string" and bad :: "'b \<Rightarrow> bool"
  assumes add_bad: "bad b \<Longrightarrow> bad (add t b)"
    and add_content: "\<not> bad (add t b) \<Longrightarrow> content (add t b) = content b @ t"
begin

text \<open>Appending several pieces.\<close>

definition adds :: "string list \<Rightarrow> 'b \<Rightarrow> 'b" where
  "adds ts b = fold add ts b"

lemma adds_simps [simp]: "adds [] b = b" "adds (t # ts) b = adds ts (add t b)"
  by (simp_all add: adds_def)

lemma adds_append: "adds (ts @ us) b = adds us (adds ts b)"
  by (simp add: adds_def)

lemma adds_bad: "bad b \<Longrightarrow> bad (adds ts b)"
  by (induction ts arbitrary: b) (auto intro: add_bad)

lemma adds_content: "\<not> bad (adds ts b) \<Longrightarrow> content (adds ts b) = content b @ concat ts"
proof (induction ts arbitrary: b)
  case (Cons t ts)
  have "\<not> bad (add t b)"
    using Cons.prems adds_bad by auto
  then show ?case
    using Cons by (simp add: add_content)
qed simp

text \<open>One piece after another from a list, each a list of appends.\<close>

lemma adds_each: "fold (\<lambda>x. adds (f x)) xs b = adds (concat (map f xs)) b"
  by (induction xs arbitrary: b) (simp_all add: adds_append)

lemma adds_good: "(\<And>t b. \<not> bad b \<Longrightarrow> \<not> bad (add t b)) \<Longrightarrow> \<not> bad b \<Longrightarrow> \<not> bad (adds ts b)"
  by (induction ts arbitrary: b) auto

end

text \<open>Doubling a capacity until something fits.\<close>

function double_until :: "nat \<Rightarrow> nat \<Rightarrow> nat" where
  "double_until need cap = (if 0 < cap \<and> cap < need then double_until need (2 * cap) else cap)"
  by pat_completeness auto
termination
  by (relation "measure (\<lambda>(need, cap). need - cap)") auto

declare double_until.simps [simp del]

lemma double_until:
  assumes "0 < cap"
  shows "need \<le> double_until need cap \<and> cap \<le> double_until need cap \<and> double_until need cap < max (2 * need) (cap + 1) \<and>
    (\<exists>k. double_until need cap = 2 ^ k * cap)"
  using assms
proof (induction need cap rule: double_until.induct)
  case (1 need cap)
  show ?case
  proof (cases "cap < need")
    case True
    then have s: "double_until need cap = double_until need (2 * cap)"
      using "1.prems" by (subst double_until.simps) simp
    obtain k where k: "double_until need (2 * cap) = 2 ^ k * (2 * cap)"
      using "1.IH" "1.prems" True by auto
    then have ex: "\<exists>k. double_until need (2 * cap) = 2 ^ k * cap"
      by (intro exI [of _ "Suc k"]) simp
    show ?thesis
      unfolding s using "1.IH" "1.prems" True ex by simp
  next
    case False
    then have "double_until need cap = cap"
      by (subst double_until.simps) simp
    then show ?thesis
      using False by (auto intro: exI [of _ 0])
  qed
qed

end
