(* ===== verification/Status.thy ===== *)
theory Status
  imports Clients Textbuf
begin

section \<open>What the server tells of its clients\<close>

text \<open>
  The answers of server.c to CLIENTS, CLIENTS NAMES and CLIENTS INDEX, and the fingerprint of the state that WAIT
  compares.  \<open>mem\<close> says whether \<open>realloc\<close> to a size succeeds.
\<close>

subsection \<open>The buffer\<close>

text \<open>\<open>sb_text\<close> is what \<open>p\<close> holds up to \<open>len\<close>.\<close>

record status_buf =
  sb_text :: string
  sb_cap :: nat
  sb_err :: bool

definition sb_zero :: status_buf where
  "sb_zero = \<lparr>sb_text = [], sb_cap = 0, sb_err = False\<rparr>"

definition sb_printf :: "(nat \<Rightarrow> bool) \<Rightarrow> string \<Rightarrow> status_buf \<Rightarrow> status_buf" where
  "sb_printf mem t b =
     (if sb_err b then b
      else if length t < sb_cap b - length (sb_text b) then b\<lparr>sb_text := sb_text b @ t\<rparr>
      else let cap = double_until (length (sb_text b) + length t + 1) (if sb_cap b = 0 then 4096 else sb_cap b * 2)
           in if mem cap then b\<lparr>sb_text := sb_text b @ t, sb_cap := cap\<rparr> else b\<lparr>sb_err := True\<rparr>)"

text \<open>The returned text, or NULL.\<close>

definition sb_done :: "status_buf \<Rightarrow> string option" where
  "sb_done b = (if sb_err b \<or> sb_cap b = 0 then None else Some (sb_text b))"

subsection \<open>Clients\<close>

definition TAB :: string where "TAB = [CHR 0x09]"
definition NL :: string where "NL = [CHR 0x0A]"

definition record_id_ok :: "string \<Rightarrow> bool" where
  "record_id_ok cid \<longleftrightarrow> list_all (\<lambda>c. \<not> ((of_char c :: nat) \<le> 0x20 \<or> (of_char c :: nat) = 0x7f)) cid"

definition age_s :: "int \<Rightarrow> int \<Rightarrow> int" where
  "age_s now t = (if now - t > 0 then now - t else 0)"

definition status_name :: "server_db \<Rightarrow> string \<Rightarrow> string option" where
  "status_name db client_id =
     (case (if client_id \<noteq> [] then config_db_find_client db client_id else None) of
        None \<Rightarrow> None
      | Some i \<Rightarrow> (if sp_name (db_clients db ! i) \<noteq> [] then Some (sp_name (db_clients db ! i)) else None))"

definition status_listed :: "server_client \<Rightarrow> bool" where
  "status_listed c \<longleftrightarrow> \<not> (\<not> sc_active c \<or> \<not> sc_registered c \<or> sc_client_id c = [] \<or> sc_ip c = 0)"

definition clients_line :: "bool \<Rightarrow> server_db \<Rightarrow> server_client \<Rightarrow> string" where
  "clients_line names db c =
     (let name = (if names then status_name db (sc_client_id c) else None)
      in sc_client_id c @ '' '' @ ip_text (ntohl (sc_ip c)) @ (if name \<noteq> None then '' '' else []) @
         (case name of Some n \<Rightarrow> n | None \<Rightarrow> []) @ NL)"

definition server_clients_list :: "(nat \<Rightarrow> bool) \<Rightarrow> bool \<Rightarrow> server_db \<Rightarrow> server \<Rightarrow> string option" where
  "server_clients_list mem names db sv =
     sb_done (fold (\<lambda>c b. if \<not> status_listed c \<or> \<not> record_id_ok (sc_client_id c) then b
                          else sb_printf mem (clients_line names db c) b)
               (sv_clients sv) (sb_printf mem [] sb_zero))"

text \<open>A live client of the index, in the pieces the code prints.\<close>

definition index_live :: "server_db \<Rightarrow> int \<Rightarrow> server_client \<Rightarrow> string list" where
  "index_live db now c =
     (let name = status_name db (sc_client_id c);
          last = (if sc_last_data c \<noteq> 0 then age_s now (sc_last_data c) else - 1);
          peer = (if sin_addr (sc_addr c) \<noteq> 0 then ip_text (ntohl (sin_addr (sc_addr c))) else ''-'');
          port = config_db_peer_port db (sc_client_id c)
      in [''L'' @ TAB @ sc_client_id c @ TAB @ ip_text (ntohl (sc_ip c)) @ TAB @
            (if config_db_find_client db (sc_client_id c) \<noteq> None then ''1'' else ''0'') @ TAB @
            dec (nat (if sc_session_since c \<noteq> 0 then age_s now (sc_session_since c) else 0)) @ TAB,
          (if last < 0 then ''-'' else dec (nat last)),
          TAB @ dec (nat (if sc_last_hs c \<noteq> 0 then age_s now (sc_last_hs c) else 0)) @ TAB @ dec (unat (sc_handshakes c)) @
            TAB @ dec (unat (sc_rx_bytes c)) @ TAB @ dec (unat (sc_tx_bytes c)),
          TAB @ peer @ TAB @ (if port > 0 then dec (nat port) else ''-''),
          (case name of Some n \<Rightarrow> TAB @ n | None \<Rightarrow> []) @ NL])"

definition index_offline :: "server_profile \<Rightarrow> string" where
  "index_offline p =
     ''O'' @ TAB @ sp_client_id p @ TAB @ (if sp_has_ip p then ip_text (ntohl (sp_ip_be p)) else ''-'') @
       (if sp_name p \<noteq> [] then TAB else []) @ sp_name p @ NL"

text \<open>A configured client that the table has, registered and with an address, is a live one.\<close>

definition index_connected :: "server \<Rightarrow> string \<Rightarrow> bool" where
  "index_connected sv client_id =
     (case server_find_by_client_id sv client_id of
        None \<Rightarrow> False
      | Some k \<Rightarrow> sc_registered (client sv k) \<and> sc_ip (client sv k) \<noteq> 0)"

definition server_clients_index :: "(nat \<Rightarrow> bool) \<Rightarrow> int \<Rightarrow> server_db \<Rightarrow> server \<Rightarrow> string option" where
  "server_clients_index mem now db sv =
     (let b1 = fold (\<lambda>c b. if \<not> status_listed c \<or> \<not> record_id_ok (sc_client_id c) then b
                           else fold (sb_printf mem) (index_live db now c) b)
                 (sv_clients sv) (sb_printf mem [] sb_zero);
          b2 = fold (\<lambda>p b. if \<not> sp_active p \<or> sp_client_id p = [] \<or> \<not> record_id_ok (sp_client_id p) then b
                           else if index_connected sv (sp_client_id p) then b
                           else sb_printf mem (index_offline p) b)
                 (db_clients db) b1
      in sb_done b2)"

subsection \<open>The fingerprint\<close>

definition FNV_PRIME :: u64 where "FNV_PRIME = 1099511628211"

definition state_mix :: "u64 \<Rightarrow> bytes \<Rightarrow> u64" where
  "state_mix h p = (fold (\<lambda>b h. (h XOR ucast b) * FNV_PRIME) p h XOR 0xff) * FNV_PRIME"

text \<open>The memory of a 32-bit field.\<close>

definition mem32 :: "u32 \<Rightarrow> bytes" where
  "mem32 a = map (\<lambda>i. of_nat (addr_byte a i)) [0, 1, 2, 3]"

definition state_client :: "server_db \<Rightarrow> server_client \<Rightarrow> bytes list" where
  "state_client db c =
     (if \<not> status_listed c then []
      else [str_bytes (sc_client_id c), mem32 (sc_ip c), mem32 (sin_addr (sc_addr c)),
            mem32 (word_of_int (config_db_peer_port db (sc_client_id c))),
            (case status_name db (sc_client_id c) of Some n \<Rightarrow> str_bytes n | None \<Rightarrow> [])])"

definition state_profile :: "server_profile \<Rightarrow> bytes list" where
  "state_profile p =
     (if \<not> sp_active p \<or> sp_client_id p = [] then []
      else [str_bytes (sp_client_id p), [if sp_has_ip p then 1 else 0], mem32 (sp_ip_be p), str_bytes (sp_name p)])"

definition server_state_hash :: "server_db \<Rightarrow> server \<Rightarrow> u64" where
  "server_state_hash db sv =
     fold (\<lambda>f h. state_mix h f)
       (str_bytes (g_domain (db_globals db)) # concat (map (state_client db) (sv_clients sv)) @ concat (map state_profile (db_clients db)))
       14695981039346656037"

end
