(* ===== verification/Nginxmap.thy ===== *)
theory Nginxmap
  imports Config Textbuf "HOL-Library.Monad_Syntax" "HOL-Library.Char_ord" "HOL-Library.List_Lexorder" "HOL-Library.Product_Lexorder"
begin

section \<open>The nginx map of the live clients\<close>

text \<open>
  nginxmap.c: the records a server answers with, read one by one, sorted, and printed as an nginx map.  \<open>mem\<close> and
  \<open>arr\<close> say whether \<open>realloc\<close> succeeds for the text and for the array of records; warnings are left out.
  \<open>qsort\<close> is an insertion sort: what the map says does not depend on the order of records that compare equal.
\<close>

subsection \<open>Text\<close>

record map_buf =
  mb_text :: string
  mb_cap :: nat
  mb_err :: bool

definition mb_zero :: map_buf where
  "mb_zero = \<lparr>mb_text = [], mb_cap = 0, mb_err = False\<rparr>"

definition buf_printf :: "(nat \<Rightarrow> bool) \<Rightarrow> string \<Rightarrow> map_buf \<Rightarrow> map_buf" where
  "buf_printf mem t b =
     (if mb_err b then b
      else if length (mb_text b) + length t + 1 > mb_cap b
      then let cap = double_until (length (mb_text b) + length t + 1) (if mb_cap b = 0 then 1024 else mb_cap b)
           in if mem cap then b\<lparr>mb_text := mb_text b @ t, mb_cap := cap\<rparr> else b\<lparr>mb_err := True\<rparr>
      else b\<lparr>mb_text := mb_text b @ t\<rparr>)"

interpretation mb: text_buffer "buf_printf mem" mb_text mb_err for mem
  by unfold_locales (auto simp: buf_printf_def Let_def split: if_splits)

definition nl :: string where "nl = [CHR 0x0A]"

text \<open>The sign of \<open>strcmp\<close>, which compares bytes.\<close>

fun strcmp :: "string \<Rightarrow> string \<Rightarrow> int" where
  "strcmp [] [] = 0"
| "strcmp [] (b # bs) = - 1"
| "strcmp (a # as) [] = 1"
| "strcmp (a # as) (b # bs) = (if a = b then strcmp as bs else if (of_char a :: nat) < of_char b then - 1 else 1)"

text \<open>\<open>%u.%u.%u.%u\<close> of an address in host order.\<close>

definition quad :: "u32 \<Rightarrow> string" where
  "quad a = dec (addr_byte a 3) @ ''.'' @ dec (addr_byte a 2) @ ''.'' @ dec (addr_byte a 1) @ ''.'' @ dec (addr_byte a 0)"

subsection \<open>Fields\<close>

text \<open>\<open>sscanf\<close>'s \<open>%3u\<close> where there are only digits and dots, and the dot after it.\<close>

definition scan_u3 :: "string \<Rightarrow> (nat \<times> string) option" where
  "scan_u3 s = (let d = takeWhile isdigit (take 3 s) in if d = [] then None else Some (digits_val d, drop (length d) s))"

definition scan_dot :: "string \<Rightarrow> string option" where
  "scan_dot s = (if s \<noteq> [] \<and> hd s = CHR ''.'' then Some (tl s) else None)"

definition require :: "bool \<Rightarrow> unit option" where
  "require b = (if b then Some () else None)"

definition parse_addr :: "string \<Rightarrow> u32 option" where
  "parse_addr a = do {
     require (list_all (\<lambda>c. isdigit c \<or> c = CHR ''.'') a);
     (b0, s) \<leftarrow> scan_u3 a;
     s \<leftarrow> scan_dot s;
     (b1, s) \<leftarrow> scan_u3 s;
     s \<leftarrow> scan_dot s;
     (b2, s) \<leftarrow> scan_u3 s;
     s \<leftarrow> scan_dot s;
     (b3, s) \<leftarrow> scan_u3 s;
     require (\<not> (s \<noteq> [] \<or> b0 > 255 \<or> b1 > 255 \<or> b2 > 255 \<or> b3 > 255));
     Some (push_bit 24 (of_nat b0) OR push_bit 16 (of_nat b1) OR push_bit 8 (of_nat b2) OR of_nat b3)
   }"

text \<open>The target written out anew.  \<open>strrchr\<close> finds the last colon.\<close>

definition valid_target :: "string \<Rightarrow> string option" where
  "valid_target t = do {
     require (CHR '':'' \<in> set t);
     let port_text = rev (takeWhile (\<lambda>c. c \<noteq> CHR '':'') (rev t));
     let host = take (length t - length port_text - 1) t;
     require (\<not> (host = [] \<or> length host > MAP_HOST_MAX));
     require (\<not> (port_text = [] \<or> length port_text > 5 \<or> \<not> list_all isdigit port_text));
     let (port, end', erange) = strtol port_text;
     require (\<not> (end' \<noteq> [] \<or> port < 1 \<or> port > 65535));
     a \<leftarrow> parse_addr host;
     Some (fit 32 (quad a @ '':'' @ dec (nat port)))
   }"

definition map_reserved :: "string \<Rightarrow> bool" where
  "map_reserved h \<longleftrightarrow> h = ''default'' \<or> h = ''hostnames'' \<or> h = ''include'' \<or> h = ''volatile''"

definition parse_num :: "string \<Rightarrow> nat \<Rightarrow> nat option" where
  "parse_num f maxv =
     (if f = [] \<or> \<not> list_all isdigit f \<or> length f > 20 then None
      else case strtoul f of (v, end', erange) \<Rightarrow> if \<not> erange \<and> end' = [] \<and> v \<le> maxv then Some v else None)"

text \<open>At most \<open>k + 1\<close> fields; the last one has the rest.\<close>

fun split_tabs :: "nat \<Rightarrow> string \<Rightarrow> string list" where
  "split_tabs 0 line = [line]"
| "split_tabs (Suc k) line =
     (if CHR 0x09 \<in> set line
      then takeWhile (\<lambda>c. c \<noteq> CHR 0x09) line # split_tabs k (tl (dropWhile (\<lambda>c. c \<noteq> CHR 0x09) line))
      else [line])"

text \<open>\<open>sscanf\<close>'s \<open>%ns\<close>.\<close>

definition scan_s :: "nat \<Rightarrow> string \<Rightarrow> (string \<times> string) option" where
  "scan_s n s =
     (let s1 = dropWhile isspace s
      in if s1 = [] then None else let w = takeWhile (\<lambda>c. \<not> isspace c) (take n s1) in Some (w, drop (length w) s1))"

subsection \<open>Records\<close>

record map_entry =
  me_host :: string
  me_addr :: u32
  me_addr_text :: string
  me_label :: string
  me_name :: string
  me_live :: bool
  me_conf :: bool
  me_since :: int
  me_last :: int
  me_hs_age :: int
  me_hs :: nat
  me_rx :: u64
  me_tx :: u64
  me_peer :: string
  me_peer_port :: int

definition entry_zero :: map_entry where
  "entry_zero = \<lparr>me_host = [], me_addr = 0, me_addr_text = [], me_label = [], me_name = [], me_live = True, me_conf = False,
     me_since = 0, me_last = - 1, me_hs_age = 0, me_hs = 0, me_rx = 0, me_tx = 0, me_peer = [], me_peer_port = 0\<rparr>"

text \<open>The fields of a record: its ID, its address (\<open>None\<close>: none), its name, and the entry so far.\<close>

type_synonym record_fields = "string \<times> u32 option \<times> string option \<times> map_entry"

definition map_fields :: "string \<Rightarrow> record_fields option" where
  "map_fields line = do {
     (cid, s) \<leftarrow> scan_s 63 line;
     (addr, s) \<leftarrow> scan_s 31 s;
     require (scan_s 1 s = None);
     a \<leftarrow> parse_addr addr;
     Some (cid, Some a, None, entry_zero)
   }"

definition live_fields :: "string list \<Rightarrow> map_entry option" where
  "live_fields f = do {
     v0 \<leftarrow> parse_num (f ! 3) 1;
     v1 \<leftarrow> parse_num (f ! 4) 0x7fffffff;
     v2 \<leftarrow> (if f ! 5 \<noteq> ''-'' then parse_num (f ! 5) 0x7fffffff else Some 0);
     v3 \<leftarrow> parse_num (f ! 6) 0x7fffffff;
     v4 \<leftarrow> parse_num (f ! 7) 0xffffffff;
     v5 \<leftarrow> parse_num (f ! 8) 0xffffffffffffffff;
     v6 \<leftarrow> parse_num (f ! 9) 0xffffffffffffffff;
     Some (entry_zero\<lparr>me_conf := (v0 \<noteq> 0), me_since := int v1, me_last := (if f ! 5 = ''-'' then - 1 else int v2),
       me_hs_age := int v3, me_hs := v4, me_rx := of_nat v5, me_tx := of_nat v6\<rparr>)
   }"

definition peer_fields :: "string list \<Rightarrow> map_entry \<Rightarrow> map_entry option" where
  "peer_fields f e = do {
     pa \<leftarrow> (if f ! 10 \<noteq> ''-'' then parse_addr (f ! 10) else Some 0);
     v7 \<leftarrow> (if f ! 11 \<noteq> ''-'' then do { v \<leftarrow> parse_num (f ! 11) 65535; require (v \<noteq> 0); Some v } else Some 0);
     Some (if f ! 10 \<noteq> ''-''
           then e\<lparr>me_peer := quad pa, me_peer_port := (if f ! 11 \<noteq> ''-'' then int v7 else 0)\<rparr> else e)
   }"

definition index_fields :: "string \<Rightarrow> record_fields option" where
  "index_fields line = do {
     let f = split_tabs 12 line;
     let n = length f;
     let live = (f ! 0 = ''L'');
     let peered = (live \<and> n \<ge> 12);
     require (\<not> (\<not> live \<and> f ! 0 \<noteq> ''O'' \<or> live \<and> n < 10 \<or> \<not> live \<and> n < 3 \<or> length (f ! 1) \<ge> 64 \<or>
       live \<and> n > 13 \<or> \<not> live \<and> n > 4));
     a \<leftarrow> (if f ! 2 = ''-'' \<and> \<not> live then Some None else do { a \<leftarrow> parse_addr (f ! 2); Some (Some a) });
     if live
     then do {
       e \<leftarrow> live_fields f;
       e \<leftarrow> (if peered then peer_fields f e else Some e);
       Some (f ! 1, a, if peered then (if n > 12 then Some (f ! 12) else None) else if n > 10 then Some (f ! 10) else None, e)
     }
     else Some (f ! 1, a, if n > 3 then Some (f ! 3) else None, entry_zero\<lparr>me_live := False, me_conf := True\<rparr>)
   }"

text \<open>\<open>domain\<close> is \<open>''''\<close> for NULL, \<open>index\<close> asks for the records of the start page.\<close>

definition parse_record :: "string \<Rightarrow> bool \<Rightarrow> string \<Rightarrow> map_entry option" where
  "parse_record domain index line = do {
     require (\<not> (line = [] \<or> length line \<ge> 512));
     (cid, addr, name, e) \<leftarrow> (if \<not> index then map_fields line else index_fields line);
     let label = map tolower cid;
     require (valid_label label);
     require (\<not> (domain \<noteq> [] \<and> length label + 1 + length domain > MAP_HOST_MAX));
     let host = (if domain \<noteq> [] then label @ ''.'' @ domain else label);
     Some (e\<lparr>me_label := label, me_host := map tolower host,
       me_addr := (case addr of Some a \<Rightarrow> a | None \<Rightarrow> 0), me_addr_text := (case addr of Some a \<Rightarrow> quad a | None \<Rightarrow> []),
       me_name := (case name of Some n \<Rightarrow> if n \<noteq> [] \<and> camex_name_valid n then n else [] | None \<Rightarrow> [])\<rparr>)
   }"

definition cmp_entry :: "map_entry \<Rightarrow> map_entry \<Rightarrow> int" where
  "cmp_entry x y =
     (let c = strcmp (me_host x) (me_host y)
      in if c \<noteq> 0 then c
         else if me_live x \<noteq> me_live y then (if me_live x then - 1 else 1)
         else if me_addr x \<noteq> me_addr y then (if me_addr x < me_addr y then - 1 else 1)
         else strcmp (me_name x) (me_name y))"

fun insert_by :: "('a \<Rightarrow> 'a \<Rightarrow> int) \<Rightarrow> 'a \<Rightarrow> 'a list \<Rightarrow> 'a list" where
  "insert_by cmp x [] = [x]"
| "insert_by cmp x (y # ys) = (if cmp x y \<le> 0 then x # y # ys else y # insert_by cmp x ys)"

definition qsort_by :: "('a \<Rightarrow> 'a \<Rightarrow> int) \<Rightarrow> 'a list \<Rightarrow> 'a list" where
  "qsort_by cmp xs = foldr (insert_by cmp) xs []"

text \<open>The loop over the text: \<open>None\<close> if it does not end, \<open>Some None\<close> without memory for the array.\<close>

partial_function (option) records_loop :: "(nat \<Rightarrow> bool) \<Rightarrow> string \<Rightarrow> bool \<Rightarrow> string \<Rightarrow> nat \<Rightarrow> map_entry list \<Rightarrow> map_entry list option option" where
  [code]: "records_loop arr domain index p cap es =
     (if p = [] then Some (Some es)
      else let ll = length (takeWhile (\<lambda>c. c \<noteq> CHR 0x0A) p);
               eol = (ll < length p);
               cap' = (if length es = cap then if cap = 0 then 64 else cap * 2 else cap)
           in if length es = cap \<and> \<not> arr cap' then Some None
              else records_loop arr domain index (drop (ll + (if eol then 1 else 0)) p) cap'
                     (case parse_record domain index (take ll p) of Some e \<Rightarrow> es @ [e] | None \<Rightarrow> es))"

definition parse_records :: "(nat \<Rightarrow> bool) \<Rightarrow> string \<Rightarrow> bool \<Rightarrow> string \<Rightarrow> map_entry list option option" where
  "parse_records arr domain index p =
     map_option (map_option (qsort_by cmp_entry)) (records_loop arr domain index p 0 [])"

subsection \<open>The map\<close>

definition map_line :: "int \<Rightarrow> map_entry \<Rightarrow> string" where
  "map_line port e =
     ''    '' @ [CHR 0x22] @ (if map_reserved (me_host e) then [CHR 0x5C] else []) @ me_host e @ [CHR 0x22] @ '' '' @
       me_addr_text e @ '':'' @ dec (nat port) @ '';'' @ nl"

text \<open>The entries after the one whose host is \<open>prev\<close>.\<close>

fun map_lines :: "(nat \<Rightarrow> bool) \<Rightarrow> int \<Rightarrow> string option \<Rightarrow> map_entry list \<Rightarrow> map_buf \<times> nat \<Rightarrow> map_buf \<times> nat" where
  "map_lines mem port prev [] s = s"
| "map_lines mem port prev (e # es) s =
     (if prev = Some (me_host e) then map_lines mem port (Some (me_host e)) es s
      else map_lines mem port (Some (me_host e)) es (buf_printf mem (map_line port e) (fst s), snd s + 1))"

definition map_head :: "string \<Rightarrow> string option \<Rightarrow> string list" where
  "map_head domain dflt =
     [''# camex --status --format nginx-map: generated, do not edit'' @ nl,
      ''# domain: '' @ (if domain \<noteq> [] then domain else ''(none)'') @ nl,
      ''map $host $camex_upstream {'' @ nl] @
     (case dflt of Some t \<Rightarrow> [''    default '' @ t @ '';'' @ nl] | None \<Rightarrow> [])"

text \<open>The map and the number of clients in it, or NULL (and 0).  \<open>dflt\<close> is \<open>''''\<close> for NULL.\<close>

definition nginx_map_format :: "(nat \<Rightarrow> bool) \<Rightarrow> (nat \<Rightarrow> bool) \<Rightarrow> string \<Rightarrow> string \<Rightarrow> int \<Rightarrow> string \<Rightarrow> (string \<times> nat) option" where
  "nginx_map_format mem arr lines domain port dflt =
     (let target = (if dflt \<noteq> [] then valid_target dflt else None)
      in if domain \<noteq> [] \<and> \<not> valid_hostname domain \<or> port < 1 \<or> port > 65535 \<or> dflt \<noteq> [] \<and> target = None then None
         else case parse_records arr domain False lines of
                Some (Some es) \<Rightarrow>
                  (case map_lines mem port None es (fold (buf_printf mem) (map_head domain target) mb_zero, 0) of
                     (b, count) \<Rightarrow> let out = buf_printf mem (''}'' @ nl) b in if mb_err out then None else Some (mb_text out, count))
              | _ \<Rightarrow> None)"

subsection \<open>The order of the records\<close>

lemma strcmp_order: "strcmp a b < 0 \<longleftrightarrow> a < b" "strcmp a b = 0 \<longleftrightarrow> a = b"
  by (induction a b rule: strcmp.induct) (auto simp: less_char_def)

lemma strcmp_le: "strcmp a b \<le> 0 \<longleftrightarrow> a \<le> b"
  using strcmp_order [of a b] by (auto simp: le_less order_le_less)

definition entry_key :: "map_entry \<Rightarrow> string \<times> bool \<times> u32 \<times> string" where
  "entry_key e = (me_host e, \<not> me_live e, me_addr e, me_name e)"

lemma cmp_entry_key: "cmp_entry x y \<le> 0 \<longleftrightarrow> entry_key x \<le> entry_key y"
  using strcmp_order [of "me_host x" "me_host y"] strcmp_le [of "me_name x" "me_name y"]
  by (auto simp: cmp_entry_def entry_key_def Let_def less_eq_prod_def less_prod_def)

text \<open>The sort is the library's.\<close>

lemma qsort_by_key:
  assumes "\<And>x y. cmp x y \<le> 0 \<longleftrightarrow> key x \<le> key y"
  shows "qsort_by cmp xs = sort_key key xs"
proof -
  have "insert_by cmp x ys = insort_key key x ys" for x ys
    by (induction ys) (simp_all add: assms)
  then have "insert_by cmp = insort_key key"
    by (intro ext)
  then show ?thesis
    by (simp add: qsort_by_def sort_key_def)
qed

subsection \<open>The records of a text\<close>

definition text_lines :: "string \<Rightarrow> string list" where
  "text_lines p = (let ls = split_on (CHR 0x0A) p in if last ls = [] then butlast ls else ls)"

lemma split_on_not_Nil [simp]: "split_on c p \<noteq> []"
  by (induction p) (auto split: list.split)

lemma split_on_break:
  "split_on c p = (if c \<in> set p then takeWhile (\<lambda>x. x \<noteq> c) p # split_on c (tl (dropWhile (\<lambda>x. x \<noteq> c) p)) else [p])"
  by (induction p) (auto split: list.split)

lemma text_lines_break:
  assumes "p \<noteq> []"
  shows "text_lines p = takeWhile (\<lambda>c. c \<noteq> CHR 0x0A) p #
    text_lines (drop (length (takeWhile (\<lambda>c. c \<noteq> CHR 0x0A) p) + (if length (takeWhile (\<lambda>c. c \<noteq> CHR 0x0A) p) < length p then 1 else 0)) p)"
proof -
  let ?n = "CHR 0x0A" and ?w = "takeWhile (\<lambda>c. c \<noteq> CHR 0x0A) p"
  have all: "?n \<in> set p \<longleftrightarrow> length ?w < length p"
  proof -
    have "length p = length ?w + length (dropWhile (\<lambda>c. c \<noteq> ?n) p)"
      by (metis length_append takeWhile_dropWhile_id)
    moreover have "dropWhile (\<lambda>c. c \<noteq> ?n) p = [] \<longleftrightarrow> ?n \<notin> set p"
      by (auto simp: dropWhile_eq_Nil_conv)
    ultimately show ?thesis
      by auto
  qed
  show ?thesis
  proof (cases "?n \<in> set p")
    case True
    have d: "drop (length ?w + 1) p = tl (dropWhile (\<lambda>c. c \<noteq> ?n) p)"
      by (simp add: dropWhile_eq_drop drop_Suc tl_drop)
    show ?thesis
      using True all unfolding text_lines_def split_on_break [of ?n p] by (simp add: d [simplified] Let_def)
  next
    case False
    then have w: "?w = p"
      unfolding takeWhile_eq_all_conv by blast
    show ?thesis
      using False assms unfolding w text_lines_def split_on_break [of ?n p] by (simp add: Let_def)
  qed
qed

lemma text_lines_Nil [simp]: "text_lines [] = []"
  by (simp add: text_lines_def)

lemma records_loop_ends:
  "\<exists>r. records_loop arr domain index p cap es = Some r \<and>
     (\<forall>rs. r = Some rs \<longrightarrow> rs = es @ List.map_filter (parse_record domain index) (text_lines p)) \<and> ((\<forall>n. arr n) \<longrightarrow> r \<noteq> None)"
proof (induction "length p" arbitrary: p cap es rule: less_induct)
  case less
  let ?ll = "length (takeWhile (\<lambda>c. c \<noteq> CHR 0x0A) p)"
  let ?rest = "drop (?ll + (if ?ll < length p then 1 else 0)) p"
  let ?cap = "if length es = cap then if cap = 0 then 64 else cap * 2 else cap"
  let ?es = "case parse_record domain index (take ?ll p) of Some e \<Rightarrow> es @ [e] | None \<Rightarrow> es"
  show ?case
  proof (cases "p = [] \<or> length es = cap \<and> \<not> arr ?cap")
    case True
    then show ?thesis
      by (subst (1) records_loop.simps) (auto simp: Let_def List.map_filter_simps)
  next
    case False
    have "?ll < length p \<or> ?ll = length p \<and> p \<noteq> []"
      using False length_takeWhile_le [of "\<lambda>c. c \<noteq> CHR 0x0A" p] by auto
    then have shorter: "length ?rest < length p"
      by auto
    have step: "records_loop arr domain index p cap es = records_loop arr domain index ?rest ?cap ?es"
    proof -
      have n: "p \<noteq> []" "\<not> (length es = cap \<and> \<not> arr ?cap)"
        by (rule contrapos_nn [OF False], erule disjI1) (rule contrapos_nn [OF False], erule disjI2)
      show ?thesis
        by (subst records_loop.simps) (simp only: Let_def if_not_P [OF n(1)] if_not_P [OF n(2)])
    qed
    have "takeWhile (\<lambda>c. c \<noteq> CHR 0x0A) p = take ?ll p"
      by (rule takeWhile_eq_take)
    then have lines: "text_lines p = take ?ll p # text_lines ?rest"
      using text_lines_break [of p] False by simp
    have f: "es @ List.map_filter (parse_record domain index) (text_lines p) =
        ?es @ List.map_filter (parse_record domain index) (text_lines ?rest)"
      unfolding lines by (simp add: List.map_filter_simps split: option.split)
    show ?thesis
      unfolding step f by (rule less [OF shorter])
  qed
qed

subsection \<open>The hosts\<close>

lemma tolower_idem [simp]: "tolower (tolower c) = tolower c"
proof -
  have "(of_char c :: nat) < 256"
    by simp
  then show ?thesis
    by (simp add: tolower_def)
qed

lemma map_tolower_idem [simp]: "map tolower (map tolower s) = map tolower s"
  by simp

lemma valid_label_chars: "valid_label l \<Longrightarrow> c \<in> set l \<Longrightarrow> isdigit c \<or> (97 \<le> (of_char c :: nat) \<and> (of_char c :: nat) \<le> 122) \<or> c = CHR ''-''"
  by (auto simp: valid_label_def list_all_iff Let_def isdigit_def)

lemma valid_label_no_dot: "valid_label l \<Longrightarrow> CHR ''.'' \<notin> set l"
  using valid_label_chars [of l "CHR ''.''"] by (auto simp: isdigit_def)

definition host_of :: "string \<Rightarrow> string \<Rightarrow> string" where
  "host_of domain cid = map tolower (if domain \<noteq> [] then cid @ ''.'' @ domain else cid)"

lemma host_of_valid:
  assumes "valid_label (map tolower cid)" and d: "domain = [] \<or> valid_hostname domain"
    and "domain \<noteq> [] \<longrightarrow> length cid + 1 + length domain \<le> MAP_HOST_MAX"
  shows "valid_hostname (host_of domain cid) \<and> map tolower (host_of domain cid) = host_of domain cid"
proof -
  have dot: "tolower (CHR ''.'') = CHR ''.''"
    by (simp add: tolower_def)
  have "length cid \<le> MAP_HOST_MAX"
    using assms(1) by (simp add: valid_label_def MAP_HOST_MAX_def)
  then show ?thesis
    using assms split_on_word [OF valid_label_no_dot [OF assms(1)]]
    by (auto simp: host_of_def valid_hostname_def dot valid_label_def simp flip: map_map)
qed

lemma quad_ntop: "quad a = inet_ntop (htonl a)"
proof -
  have "addr_byte (htonl a) 0 = addr_byte a 3" "addr_byte (htonl a) 1 = addr_byte a 2" "addr_byte (htonl a) 2 = addr_byte a 1"
    "addr_byte (htonl a) 3 = addr_byte a 0"
    by (simp_all only: htonl_def list.map addr_byte_load unat_byte)
  then show ?thesis
    by (simp add: quad_def inet_ntop_def)
qed

text \<open>What a record of the map says.\<close>

definition map_pair :: "string \<Rightarrow> string \<Rightarrow> (string \<times> u32) option" where
  "map_pair domain line = map_option (\<lambda>e. (me_host e, me_addr e)) (parse_record domain False line)"

lemma map_record:
  assumes "parse_record domain False line = Some e" and "domain = [] \<or> valid_hostname domain"
  shows "me_live e \<and> me_name e = [] \<and> me_addr_text e = quad (me_addr e) \<and> valid_hostname (me_host e) \<and>
    map tolower (me_host e) = me_host e"
proof -
  obtain cid a where f: "map_fields line = Some (cid, Some a, None, entry_zero)" and l: "valid_label (map tolower cid)"
    "domain \<noteq> [] \<longrightarrow> length cid + 1 + length domain \<le> MAP_HOST_MAX"
    and e: "me_live e" "me_name e = []" "me_addr_text e = quad (me_addr e)" "me_host e = host_of domain cid"
    using assms(1) unfolding parse_record_def require_def map_fields_def
    by (auto simp: Let_def host_of_def entry_zero_def split: if_splits Option.bind_splits)
  then show ?thesis
    using host_of_valid [OF l(1) assms(2) l(2)] by simp
qed

subsection \<open>The lines\<close>

text \<open>The first entry of each host.\<close>

fun first_of_host :: "string option \<Rightarrow> map_entry list \<Rightarrow> map_entry list" where
  "first_of_host prev [] = []"
| "first_of_host prev (e # es) =
     (if prev = Some (me_host e) then first_of_host (Some (me_host e)) es else e # first_of_host (Some (me_host e)) es)"

lemma map_lines_first:
  "map_lines mem port prev es (b, n) =
     (mb.adds mem (map (map_line port) (first_of_host prev es)) b, n + length (first_of_host prev es))"
  by (induction es arbitrary: prev b n) simp_all

definition host_le :: "map_entry \<Rightarrow> map_entry \<Rightarrow> bool" where
  "host_le x y \<longleftrightarrow> me_host x < me_host y \<or> me_host x = me_host y \<and> me_addr x \<le> me_addr y"

lemma first_of_host:
  assumes "sorted_wrt host_le es" and "\<forall>h. prev = Some h \<longrightarrow> (\<forall>e\<in>set es. h \<le> me_host e)"
  shows "sorted_wrt (<) (map me_host (first_of_host prev es)) \<and>
    me_host ` set (first_of_host prev es) = me_host ` set es - {h. prev = Some h} \<and>
    (\<forall>e\<in>set (first_of_host prev es). e \<in> set es \<and> (\<forall>e'\<in>set es. me_host e' = me_host e \<longrightarrow> me_addr e \<le> me_addr e'))"
  using assms
proof (induction es arbitrary: prev)
  case (Cons e es)
  let ?r = "first_of_host (Some (me_host e)) es"
  have le: "\<forall>x\<in>set es. me_host e \<le> me_host x" "\<forall>x\<in>set es. me_host x = me_host e \<longrightarrow> me_addr e \<le> me_addr x"
    using Cons.prems(1) by (auto simp: host_le_def)
  have IH: "sorted_wrt (<) (map me_host ?r)" "me_host ` set ?r = me_host ` set es - {me_host e}"
    "\<forall>x\<in>set ?r. x \<in> set es \<and> (\<forall>e'\<in>set es. me_host e' = me_host x \<longrightarrow> me_addr x \<le> me_addr e')"
    using Cons.IH [of "Some (me_host e)"] Cons.prems(1) le(1) by auto
  have gt: "\<forall>x\<in>set ?r. me_host e < me_host x"
    using IH(2) le(1) by (metis DiffD2 IH(3) image_eqI insertI1 order_neq_le_trans)
  have prev: "prev = Some h \<Longrightarrow> h \<noteq> me_host e \<Longrightarrow> h \<notin> me_host ` set es" for h
    using Cons.prems(2) le(1) by (auto simp: antisym)
  show ?case
  proof (cases "prev = Some (me_host e)")
    case True
    then show ?thesis
      using IH gt by auto
  next
    case False
    then have s: "first_of_host prev (e # es) = e # ?r"
      by simp
    have "me_host ` set (e # ?r) = me_host ` set (e # es) - {h. prev = Some h}"
      using IH(2) prev False by auto
    moreover have "\<forall>x\<in>set (e # ?r). x \<in> set (e # es) \<and> (\<forall>e'\<in>set (e # es). me_host e' = me_host x \<longrightarrow> me_addr x \<le> me_addr e')"
      using IH(3) gt le(2) by (auto simp: less_le)
    ultimately show ?thesis
      unfolding s using IH(1) gt by auto
  qed
qed simp

definition host_line :: "int \<Rightarrow> string \<Rightarrow> u32 \<Rightarrow> string" where
  "host_line port h a =
     ''    '' @ [CHR 0x22] @ (if map_reserved h then [CHR 0x5C] else []) @ h @ [CHR 0x22] @ '' '' @ quad a @ '':'' @ dec (nat port) @ '';'' @ nl"

text \<open>Every host once, in order, with its least address.\<close>

lemma first_of_host_lines:
  assumes s: "sorted_wrt host_le es" and t: "\<forall>e\<in>set es. me_addr_text e = quad (me_addr e)"
    and R: "R = (\<lambda>e. (me_host e, me_addr e)) ` set es"
  shows "map (map_line port) (first_of_host None es) =
      map (\<lambda>h. host_line port h (Min {a. (h, a) \<in> R})) (sorted_list_of_set (fst ` R))"
    and "length (first_of_host None es) = card (fst ` R)"
proof -
  let ?f = "first_of_host None es"
  have f: "sorted_wrt (<) (map me_host ?f)" "me_host ` set ?f = fst ` R"
    "\<And>e. e \<in> set ?f \<Longrightarrow> e \<in> set es \<and> (\<forall>e'\<in>set es. me_host e' = me_host e \<longrightarrow> me_addr e \<le> me_addr e')"
    using first_of_host [OF s, of None] by (auto simp: R image_image)
  have d: "sorted (map me_host ?f)" "distinct (map me_host ?f)"
    using f(1) by (auto simp: strict_sorted_iff)
  have hosts: "map me_host ?f = sorted_list_of_set (fst ` R)"
    using sorted_list_of_set.idem_if_sorted_distinct [OF d] f(2) by simp
  have "map_line port e = host_line port (me_host e) (Min {a. (me_host e, a) \<in> R})" if "e \<in> set ?f" for e
  proof -
    have "Min {a. (me_host e, a) \<in> R} = me_addr e"
    proof (rule Min_eqI)
      have "{a. (me_host e, a) \<in> R} \<subseteq> snd ` R"
        by force
      moreover have "finite (snd ` R)"
        unfolding R by simp
      ultimately show "finite {a. (me_host e, a) \<in> R}"
        by (rule finite_subset)
    qed (use f(3) [OF that] in \<open>auto simp: R\<close>)
    then show ?thesis
      using t f(3) [OF that] by (simp add: map_line_def host_line_def)
  qed
  then have "map (map_line port) ?f = map (\<lambda>h. host_line port h (Min {a. (h, a) \<in> R})) (map me_host ?f)"
    by simp
  then show "map (map_line port) ?f = map (\<lambda>h. host_line port h (Min {a. (h, a) \<in> R})) (sorted_list_of_set (fst ` R))"
    unfolding hosts .
  show "length ?f = card (fst ` R)"
    using distinct_card [OF d(2)] f(2) by simp
qed

lemma mb_adds_good: "(\<And>n. mem n) \<Longrightarrow> \<not> mb_err b \<Longrightarrow> \<not> mb_err (mb.adds mem ts b)"
  by (rule mb.adds_good) (simp_all add: buf_printf_def Let_def)

lemma set_map_filter: "set (List.map_filter f xs) = {y. \<exists>x\<in>set xs. f x = Some y}"
  by (force simp: List.map_filter_def)

lemma parse_records_map:
  assumes d: "domain = [] \<or> valid_hostname domain"
  shows "\<exists>r. parse_records arr domain False p = Some r \<and> ((\<forall>n. arr n) \<longrightarrow> r \<noteq> None) \<and>
    (\<forall>es. r = Some es \<longrightarrow> sorted_wrt host_le es \<and> (\<forall>e\<in>set es. me_addr_text e = quad (me_addr e)) \<and>
       (\<lambda>e. (me_host e, me_addr e)) ` set es = set (List.map_filter (map_pair domain) (text_lines p)))"
proof -
  obtain r where r: "records_loop arr domain False p 0 [] = Some r"
    "\<And>rs. r = Some rs \<Longrightarrow> rs = List.map_filter (parse_record domain False) (text_lines p)" "(\<forall>n. arr n) \<longrightarrow> r \<noteq> None"
    using records_loop_ends [of arr domain False p 0 "[]"] by auto
  have "sorted_wrt host_le (qsort_by cmp_entry rs) \<and> (\<forall>e\<in>set (qsort_by cmp_entry rs). me_addr_text e = quad (me_addr e)) \<and>
      (\<lambda>e. (me_host e, me_addr e)) ` set (qsort_by cmp_entry rs) = set (List.map_filter (map_pair domain) (text_lines p))"
    if "r = Some rs" for rs
  proof -
    have e: "\<exists>l\<in>set (text_lines p). parse_record domain False l = Some e" if "e \<in> set rs" for e
      using that unfolding r(2) [OF \<open>r = Some rs\<close>] set_map_filter by blast
    have live: "me_live e \<and> me_name e = [] \<and> me_addr_text e = quad (me_addr e)" if "e \<in> set rs" for e
      using e [OF that] map_record d by blast
    have q: "qsort_by cmp_entry rs = sort_key entry_key rs"
      by (rule qsort_by_key) (rule cmp_entry_key)
    have key: "entry_key e = (me_host e, False, me_addr e, [])" if "e \<in> set rs" for e
      using live [OF that] by (simp add: entry_key_def)
    have le: "host_le x y" if "x \<in> set rs" "y \<in> set rs" "entry_key x \<le> entry_key y" for x y
      using that(3) unfolding key [OF that(1)] key [OF that(2)] by (auto simp: host_le_def)
    have "sorted_wrt (\<lambda>x y. entry_key x \<le> entry_key y) (sort_key entry_key rs)"
      using sorted_sort_key [of entry_key rs] by (simp add: sorted_map)
    then have "sorted_wrt host_le (sort_key entry_key rs)"
      by (rule sorted_wrt_mono_rel [rotated]) (simp add: le)
    moreover have "(\<lambda>e. (me_host e, me_addr e)) ` set rs = set (List.map_filter (map_pair domain) (text_lines p))"
      unfolding r(2) [OF that] set_map_filter map_pair_def image_Collect by (rule Collect_cong) (simp add: conj_commute Bex_def ex_simps [symmetric] del: ex_simps, blast)
    ultimately show ?thesis
      using live unfolding q by simp
  qed
  then have "\<forall>es. map_option (qsort_by cmp_entry) r = Some es \<longrightarrow> sorted_wrt host_le es \<and> (\<forall>e\<in>set es. me_addr_text e = quad (me_addr e)) \<and>
      (\<lambda>e. (me_host e, me_addr e)) ` set es = set (List.map_filter (map_pair domain) (text_lines p))"
    by blast
  then show ?thesis
    using r(1,3) by (intro exI [of _ "map_option (qsort_by cmp_entry) r"]) (simp add: parse_records_def)
qed

lemma map_format:
  assumes "domain = [] \<or> valid_hostname domain" and "1 \<le> port \<and> port \<le> 65535"
    and target: "target = (if dflt = [] then None else valid_target dflt)" "dflt \<noteq> [] \<longrightarrow> target \<noteq> None"
    and R: "R = set (List.map_filter (map_pair domain) (text_lines lines))"
    and out: "text = concat (map_head domain target) @
      concat (map (\<lambda>h. host_line port h (Min {a. (h, a) \<in> R})) (sorted_list_of_set (fst ` R))) @ ''}'' @ nl"
  shows "nginx_map_format mem arr lines domain port dflt \<in> {None, Some (text, card (fst ` R))} \<and>
    ((\<forall>n. mem n) \<and> (\<forall>n. arr n) \<longrightarrow> nginx_map_format mem arr lines domain port dflt = Some (text, card (fst ` R)))"
proof -
  obtain r where r: "parse_records arr domain False lines = Some r" "(\<forall>n. arr n) \<longrightarrow> r \<noteq> None"
    and es: "\<And>es. r = Some es \<Longrightarrow> sorted_wrt host_le es \<and> (\<forall>e\<in>set es. me_addr_text e = quad (me_addr e)) \<and>
      (\<lambda>e. (me_host e, me_addr e)) ` set es = R"
    using parse_records_map [OF assms(1), of arr lines] unfolding R by blast
  have g: "\<not> (domain \<noteq> [] \<and> \<not> valid_hostname domain \<or> port < 1 \<or> port > 65535 \<or> dflt \<noteq> [] \<and> target = None)"
    using assms(1,2) target(2) by auto
  have tt: "(if dflt \<noteq> [] then valid_target dflt else None) = target"
    by (simp add: target(1))
  show ?thesis
  proof (cases r)
    case None
    then show ?thesis
      unfolding nginx_map_format_def Let_def tt if_not_P [OF g] using r by simp
  next
    case (Some es')
    let ?out = "mb.adds mem (map_head domain target @ map (map_line port) (first_of_host None es') @ [''}'' @ nl]) mb_zero"
    have f: "nginx_map_format mem arr lines domain port dflt =
        (if mb_err ?out then None else Some (mb_text ?out, length (first_of_host None es')))"
      unfolding nginx_map_format_def Let_def tt if_not_P [OF g]
      using r(1) Some by (simp add: map_lines_first mb.adds_append Let_def flip: mb.adds_def)
    have "concat (map_head domain target @ map (map_line port) (first_of_host None es') @ [''}'' @ nl]) = text"
      and n: "length (first_of_host None es') = card (fst ` R)"
      using first_of_host_lines [of es' R] es [OF Some] by (simp_all add: out)
    then have "\<not> mb_err ?out \<Longrightarrow> mb_text ?out = text"
      using mb.adds_content [of mem _ mb_zero] by (simp add: mb_zero_def)
    then show ?thesis
      unfolding f n using mb_adds_good [of mem mb_zero] by (auto simp: mb_zero_def)
  qed
qed

lemma split_on_chars: "c \<in> set s \<Longrightarrow> c = d \<or> (\<exists>w\<in>set (split_on d s). c \<in> set w)"
  by (induction s) (auto split: list.splits if_splits)

lemma hostname_chars:
  assumes "valid_hostname h" and "map tolower h = h" and "c \<in> set h"
  shows "isdigit c \<or> 97 \<le> (of_char c :: nat) \<and> (of_char c :: nat) \<le> 122 \<or> c \<in> {CHR ''-'', CHR ''.''}"
proof (cases "c = CHR ''.''")
  case False
  then obtain w where w: "w \<in> set (split_on (CHR ''.'') h)" "c \<in> set w"
    using split_on_chars [OF assms(3), of "CHR ''.''"] by blast
  moreover have "valid_label w"
    using assms(1,2) w(1) by (simp add: valid_hostname_def list_all_iff)
  ultimately show ?thesis
    using valid_label_chars by blast
qed simp

lemma valid_target_form:
  assumes "(if dflt = [] then None else valid_target dflt) = Some t"
  shows "\<exists>a p. t = fit 32 (quad a @ '':'' @ dec p) \<and> 1 \<le> p \<and> p \<le> 65535"
proof -
  have "valid_target dflt = Some t"
    using assms by (simp split: if_splits)
  then obtain a port where "t = fit 32 (quad a @ '':'' @ dec (nat port))" "1 \<le> port" "port \<le> 65535"
    unfolding valid_target_def require_def by (auto simp: Let_def split: if_splits prod.splits Option.bind_splits)
  then show ?thesis
    by (intro exI [of _ a] exI [of _ "nat port"]) auto
qed

subsection \<open>Properties\<close>

text \<open>C31: the map is exactly the one its documentation promises: after its head, one line per host named by a
  record, in the order of the hosts, with the least address any record gives the host; so it does not depend on the
  order of the servers' answers or of equal records.  The count is the number of hosts; only without memory is
  there no map.\<close>

theorem nginx_map_exact:
  assumes "domain = [] \<or> valid_hostname domain" and "1 \<le> port \<and> port \<le> 65535"
    and target: "target = (if dflt = [] then None else valid_target dflt)" "dflt \<noteq> [] \<longrightarrow> target \<noteq> None"
    and R: "R = set (List.map_filter (map_pair domain) (text_lines lines))"
    and out: "text = concat (map_head domain target) @
      concat (map (\<lambda>h. host_line port h (Min {a. (h, a) \<in> R})) (sorted_list_of_set (fst ` R))) @ ''}'' @ nl"
  shows "nginx_map_format mem arr lines domain port dflt \<in> {None, Some (text, card (fst ` R))} \<and>
    ((\<forall>n. mem n) \<and> (\<forall>n. arr n) \<longrightarrow> nginx_map_format mem arr lines domain port dflt = Some (text, card (fst ` R)))"
  by (rule map_format [OF assms])

definition two_records :: string where
  "two_records = ''cam-1 10.200.0.9'' @ nl @ ''CAM-1 10.200.0.2'' @ nl @ ''not_a_host 10.200.0.3'' @ nl"

text \<open>C32: reading the records ends on every text, and every line is read exactly once, in order; only without memory
  for the array is there no result.\<close>

theorem records_end:
  "\<exists>r. records_loop arr domain index p 0 [] = Some r \<and> ((\<forall>n. arr n) \<longrightarrow> r \<noteq> None) \<and>
     (r \<noteq> None \<longrightarrow> r = Some (List.map_filter (parse_record domain index) (text_lines p)))"
  using records_loop_ends [of arr domain index p 0 "[]"] by auto

theorem records_end_witness:
  "\<exists>r. records_loop (\<lambda>_. True) [] False two_records 0 [] = Some (Some r)"
  using records_end [of "\<lambda>_. True" "[]" False two_records] by auto

text \<open>Nothing a client or a server sends can add to the map anything but a host: the text is the head, one line per
  entry and the closing brace; every host is a host name of small letters, digits, dots and dashes (so no quote,
  blank, semicolon or brace ends the line early), no host comes twice, and the default target, when there is one,
  is an address and a port.\<close>

lemma nginx_map_clean:
  assumes f: "nginx_map_format mem arr lines domain port dflt = Some (text, n)"
  shows "\<exists>ps target. text = concat (map_head domain target) @ concat (map (\<lambda>(h, a). host_line port h a) ps) @ ''}'' @ nl \<and>
    length ps = n \<and> distinct (map fst ps) \<and>
    (\<forall>(h, a)\<in>set ps. valid_hostname h \<and> (\<forall>c\<in>set h. isdigit c \<or> 97 \<le> (of_char c :: nat) \<and> (of_char c :: nat) \<le> 122 \<or> c \<in> {CHR ''-'', CHR ''.''})) \<and>
    (\<forall>t. target = Some t \<longrightarrow> (\<exists>a p. t = fit 32 (quad a @ '':'' @ dec p) \<and> 1 \<le> p \<and> p \<le> 65535))"
proof -
  let ?target = "if dflt = [] then None else valid_target dflt"
  let ?R = "set (List.map_filter (map_pair domain) (text_lines lines))"
  have g: "\<not> (domain \<noteq> [] \<and> \<not> valid_hostname domain \<or> port < 1 \<or> port > 65535 \<or>
      dflt \<noteq> [] \<and> (if dflt \<noteq> [] then valid_target dflt else None) = None)"
    using f unfolding nginx_map_format_def Let_def by (rule contrapos_pn) (subst if_P, assumption, simp)
  then have d: "domain = [] \<or> valid_hostname domain" and p: "1 \<le> port \<and> port \<le> 65535" and t: "dflt \<noteq> [] \<longrightarrow> ?target \<noteq> None"
    by auto
  let ?ps = "map (\<lambda>h. (h, Min {a. (h, a) \<in> ?R})) (sorted_list_of_set (fst ` ?R))"
  have r: "text = concat (map_head domain ?target) @ concat (map (\<lambda>h. host_line port h (Min {a. (h, a) \<in> ?R})) (sorted_list_of_set (fst ` ?R))) @ ''}'' @ nl"
      "n = card (fst ` ?R)"
    using map_format [OF d p refl t refl refl, of mem arr lines] f by auto
  have hosts: "valid_hostname h \<and> map tolower h = h" if "h \<in> fst ` ?R" for h
    using that map_record d unfolding set_map_filter map_pair_def by auto
  have chars: "isdigit c \<or> 97 \<le> (of_char c :: nat) \<and> (of_char c :: nat) \<le> 122 \<or> c \<in> {CHR ''-'', CHR ''.''}" if "h \<in> fst ` ?R" "c \<in> set h" for h c
    using hostname_chars [of h c] hosts [OF that(1)] that(2) by simp
  have target: "\<exists>a p. t = fit 32 (quad a @ '':'' @ dec p) \<and> 1 \<le> p \<and> p \<le> 65535" if "?target = Some t" for t
    using that by (rule valid_target_form)
  show ?thesis
    by (rule exI [of _ ?ps], rule exI [of _ ?target])
      (use r hosts chars target in \<open>auto simp: comp_def set_sorted_list_of_set\<close>)
qed

subsection \<open>Witnesses\<close>

lemma demo_domain: "[] = [] \<or> valid_hostname []" "1 \<le> (8080 :: int) \<and> (8080 :: int) \<le> 65535"
  by simp_all

theorem nginx_map_exact_witness:
  "\<exists>t. nginx_map_format (\<lambda>_. True) (\<lambda>_. True) two_records [] 8080 [] =
     Some (t, card (fst ` set (List.map_filter (map_pair []) (text_lines two_records))))"
  using nginx_map_exact [OF demo_domain, of None "[]", OF _ _ refl refl, of "\<lambda>_. True" "\<lambda>_. True" two_records] by simp


end
