(* ===== verification/Publish.thy ===== *)
theory Publish
  imports Status Nginxmap
begin

section \<open>From the server's table to the map\<close>

text \<open>
  What \<open>camex --status --format nginx-map\<close> prints for a server: the answer to CLIENTS, read by the map.
\<close>

interpretation sb: text_buffer "sb_printf mem" sb_text sb_err for mem
  by unfold_locales (auto simp: sb_printf_def Let_def split: if_splits)

lemma sb_adds_good: "(\<And>n. mem n) \<Longrightarrow> \<not> sb_err b \<Longrightarrow> \<not> sb_err (sb.adds mem ts b)"
  by (rule sb.adds_good) (simp_all add: sb_printf_def Let_def)

lemma sb_cap_grows: "\<not> sb_err (sb_printf mem t b) \<Longrightarrow> 0 < sb_cap (sb_printf mem t b)"
  using double_until [of 4096 "length (sb_text b) + length t + 1"] double_until [of "sb_cap b * 2" "length (sb_text b) + length t + 1"]
  by (auto simp: sb_printf_def Let_def split: if_splits)

lemma sb_cap_kept: "0 < sb_cap b \<Longrightarrow> 0 < sb_cap (sb.adds mem ts b)"
proof (induction ts arbitrary: b)
  case (Cons t ts)
  have "0 < sb_cap (sb_printf mem t b)"
    using Cons.prems sb_cap_grows [of mem t b] by (auto simp: sb_printf_def Let_def)
  then show ?case
    using Cons.IH by simp
qed simp

text \<open>A printed text, in pieces.\<close>

lemma sb_text_of:
  assumes "sb_done (sb.adds mem ts (sb_printf mem [] sb_zero)) = r"
  shows "r \<in> {None, Some (concat ts)} \<and> ((\<forall>n. mem n) \<longrightarrow> r = Some (concat ts))"
proof -
  let ?b = "sb.adds mem ts (sb_printf mem [] sb_zero)"
  have e: "?b = sb.adds mem ([] # ts) sb_zero"
    by simp
  have "\<not> sb_err ?b \<Longrightarrow> sb_text ?b = concat ts"
    unfolding e by (subst sb.adds_content) (auto simp: sb_zero_def)
  moreover have "\<not> sb_err ?b \<Longrightarrow> 0 < sb_cap ?b"
    using sb_cap_kept [of "sb_printf mem [] sb_zero" mem ts] sb_cap_grows [of mem "[]" sb_zero] sb.adds_bad [of "sb_printf mem [] sb_zero" mem ts] by argo
  moreover have "(\<forall>n. mem n) \<longrightarrow> \<not> sb_err ?b"
    unfolding e using sb_adds_good [of mem sb_zero "[] # ts"] by (auto simp: sb_zero_def)
  ultimately show ?thesis
    using assms by (cases "sb_err ?b") (simp_all add: sb_done_def)
qed

definition client_lines :: "bool \<Rightarrow> server_db \<Rightarrow> server \<Rightarrow> string list" where
  "client_lines names db sv =
     map (clients_line names db) (filter (\<lambda>c. status_listed c \<and> record_id_ok (sc_client_id c)) (sv_clients sv))"

lemma clients_list_text:
  "server_clients_list mem names db sv \<in> {None, Some (concat (client_lines names db sv))} \<and>
   ((\<forall>n. mem n) \<longrightarrow> server_clients_list mem names db sv = Some (concat (client_lines names db sv)))"
proof -
  have f: "fold (\<lambda>c b. if \<not> status_listed c \<or> \<not> record_id_ok (sc_client_id c) then b else sb_printf mem (clients_line names db c) b) cs b =
      sb.adds mem (map (clients_line names db) (filter (\<lambda>c. status_listed c \<and> record_id_ok (sc_client_id c)) cs)) b" for cs b
    by (induction cs arbitrary: b) simp_all
  show ?thesis
    using sb_text_of [of mem "client_lines names db sv" "server_clients_list mem names db sv"]
    unfolding server_clients_list_def f client_lines_def by blast
qed

lemma text_lines_joined:
  "\<forall>l\<in>set ls. CHR 0x0A \<notin> set l \<Longrightarrow> text_lines (concat (map (\<lambda>l. l @ NL) ls)) = ls"
proof (induction ls)
  case (Cons l ls)
  have "split_on (CHR 0x0A) (l @ CHR 0x0A # concat (map (\<lambda>l. l @ NL) ls)) = l # split_on (CHR 0x0A) (concat (map (\<lambda>l. l @ NL) ls))"
    using Cons.prems by (intro split_on_word(1)) simp
  moreover have "text_lines (concat (map (\<lambda>l. l @ NL) ls)) = ls"
    using Cons by simp
  ultimately show ?case
    by (auto simp: NL_def text_lines_def Let_def split: if_splits)
qed simp

text \<open>Numbers and addresses read back.\<close>

lemma scan_u3_dec:
  assumes "n < 256" and "s = [] \<or> \<not> isdigit (hd s)"
  shows "scan_u3 (dec n @ s) = Some (n, s)"
proof -
  have l: "length (dec n) \<le> 3"
    using assms(1) by (intro length_dec) simp_all
  have "takeWhile isdigit (take 3 (dec n @ s)) = dec n"
  proof -
    have "takeWhile isdigit (take (3 - length (dec n)) s) = []"
      using assms(2) by (cases s; cases "3 - length (dec n)") auto
    then show ?thesis
      using l dec_digits [of n] by (simp add: takeWhile_append2)
  qed
  then show ?thesis
    by (simp add: scan_u3_def)
qed

lemma addr_byte_word: "(of_nat (addr_byte a i) :: u32) = take_bit 8 (drop_bit (8 * i) a)"
proof -
  have "unat (take_bit 8 (drop_bit (8 * i) a)) = addr_byte a i"
    unfolding addr_byte_def unsigned_take_bit_eq unat_drop_bit_eq by (simp add: take_bit_eq_mod drop_bit_eq_div power_mult)
  from this [symmetric] show ?thesis
    by simp
qed

lemma addr_from_bytes:
  "push_bit 24 (of_nat (addr_byte a 3)) OR push_bit 16 (of_nat (addr_byte a 2)) OR push_bit 8 (of_nat (addr_byte a 1)) OR of_nat (addr_byte a 0) = (a :: u32)"
  unfolding addr_byte_word
proof (rule bit_word_eqI)
  fix n
  assume "n < LENGTH(32)"
  then consider "n < 8" | "8 \<le> n" "n < 16" | "16 \<le> n" "n < 24" | "24 \<le> n" "n < 32"
    by fastforce
  then show "bit (push_bit 24 (take_bit 8 (drop_bit (8 * 3) a)) OR push_bit 16 (take_bit 8 (drop_bit (8 * 2) a)) OR
      push_bit 8 (take_bit 8 (drop_bit (8 * 1) a)) OR take_bit 8 (drop_bit (8 * 0) a)) n = bit a n"
    by cases (auto simp: bit_simps)
qed

lemma parse_addr_quad [simp]: "parse_addr (quad a) = Some a"
proof -
  have d: "list_all (\<lambda>c. isdigit c \<or> c = CHR ''.'') (quad a)"
    using dec_digits by (auto simp: quad_def list_all_iff)
  have b: "\<not> 255 < addr_byte a i" for i
    using addr_byte_less [of a i] by linarith
  have dot: "\<not> isdigit (CHR ''.'')"
    by (simp add: isdigit_def)
  show ?thesis
    using d by (simp add: b addr_from_bytes [unfolded One_nat_def] parse_addr_def require_def quad_def scan_u3_dec scan_u3_dec [where s = "[]", simplified] dot scan_dot_def)
qed

text \<open>A client's record is read as its host and its address.\<close>

definition fits_domain :: "string \<Rightarrow> string \<Rightarrow> bool" where
  "fits_domain domain cid \<longleftrightarrow> valid_label (map tolower cid) \<and> (domain \<noteq> [] \<longrightarrow> length cid + 1 + length domain \<le> MAP_HOST_MAX)"

lemma scan_s_word:
  assumes "w \<noteq> []" and "\<forall>c\<in>set w. \<not> isspace c" and "length w \<le> n" and "r = [] \<or> isspace (hd r)" and "\<forall>c\<in>set p. isspace c"
  shows "scan_s n (p @ w @ r) = Some (w, r)"
proof -
  have d: "dropWhile isspace (p @ w @ r) = w @ r"
    using assms(1,2,5) by (cases w) (simp_all add: dropWhile_append2)
  have "takeWhile (\<lambda>c. \<not> isspace c) (take (n - length w) r) = []"
    using assms(4) by (cases r; cases "n - length w") auto
  then have "takeWhile (\<lambda>c. \<not> isspace c) (take n (w @ r)) = w"
    using assms(2,3) by (simp add: takeWhile_append2)
  then show ?thesis
    using assms(1) by (simp add: scan_s_def d)
qed

lemma record_id_no_space: "record_id_ok cid \<Longrightarrow> c \<in> set cid \<Longrightarrow> \<not> isspace c"
  by (auto simp: record_id_ok_def list_all_iff isspace_def)

lemma quad_text: "length (quad a) \<le> 15 \<and> (\<forall>c\<in>set (quad a). \<not> isspace c) \<and> quad a \<noteq> []"
proof -
  have "\<not> isspace c" if "c \<in> set (quad a)" for c
    using inet_ntop_chars [of c "htonl a"] that digit_not_special(1) by (auto simp: quad_ntop isspace_def)
  moreover have "quad a \<noteq> []"
    by (simp add: quad_def)
  ultimately show ?thesis
    using length_inet_ntop [of "htonl a"] by (simp add: quad_ntop)
qed

lemma map_pair_client:
  assumes "cid \<noteq> []" and "record_id_ok cid" and "length cid < CAMEX_CLIENT_ID_LEN"
  shows "map_pair domain (cid @ '' '' @ quad a) = (if fits_domain domain cid then Some (host_of domain cid, a) else None)"
proof -
  let ?line = "cid @ '' '' @ quad a"
  have q: "length (quad a) \<le> 15" "\<forall>c\<in>set (quad a). \<not> isspace c" "quad a \<noteq> []"
    using quad_text [of a] by simp_all
  have sp: "isspace (CHR '' '')"
    by (simp add: isspace_def)
  have s1: "scan_s 63 ?line = Some (cid, '' '' @ quad a)"
    using scan_s_word [of cid 63 "'' '' @ quad a" "[]"] assms record_id_no_space sp by (auto simp: CAMEX_CLIENT_ID_LEN_def)
  have s2: "scan_s 31 ('' '' @ quad a) = Some (quad a, [])"
    using scan_s_word [of "quad a" 31 "[]" "'' ''"] q sp by simp
  have s3: "scan_s k [] = None" for k
    by (simp add: scan_s_def)
  have len: "\<not> (?line = [] \<or> length ?line \<ge> 512)"
    using q(1) assms(1,3) by (simp add: CAMEX_CLIENT_ID_LEN_def)
  have "map_fields ?line = Some (cid, Some a, None, entry_zero)"
    unfolding map_fields_def s1 bind.bind_lunit prod.case s2 by (simp add: require_def s3)
  then show ?thesis
    using len unfolding map_pair_def parse_record_def
    by (simp add: require_def fits_domain_def host_of_def Let_def)
qed

text \<open>What the map shall say of the clients of a server.\<close>

definition map_clients :: "string \<Rightarrow> server \<Rightarrow> (string \<times> u32) set" where
  "map_clients domain sv = {(host_of domain (sc_client_id c), ntohl (sc_ip c)) | c.
     c \<in> set (sv_clients sv) \<and> status_listed c \<and> record_id_ok (sc_client_id c) \<and> fits_domain domain (sc_client_id c)}"

lemma map_of_clients:
  assumes "server_ok sv"
  shows "set (List.map_filter (map_pair domain) (text_lines (concat (client_lines False db sv)))) = map_clients domain sv"
proof -
  let ?cs = "filter (\<lambda>c. status_listed c \<and> record_id_ok (sc_client_id c)) (sv_clients sv)"
  let ?l = "\<lambda>c. sc_client_id c @ '' '' @ quad (ntohl (sc_ip c))"
  have line: "clients_line False db = (\<lambda>c. ?l c @ NL)"
    by (rule ext) (simp add: clients_line_def ip_text_def quad_ntop)
  have len: "length (sc_client_id c) < CAMEX_CLIENT_ID_LEN" if "c \<in> set (sv_clients sv)" for c
    using assms that by (auto simp: server_ok_def in_set_conv_nth)
  have "CHR 0x0A \<notin> set (?l c)" if "record_id_ok (sc_client_id c)" for c
    using record_id_no_space [OF that, of "CHR 0x0A"] inet_ntop_chars [of "CHR 0x0A" "sc_ip c"]
    by (auto simp: isspace_def quad_ntop isdigit_def)
  then have "text_lines (concat (map (\<lambda>l. l @ NL) (map ?l ?cs))) = map ?l ?cs"
    by (intro text_lines_joined) auto
  then have t: "text_lines (concat (client_lines False db sv)) = map ?l ?cs"
    by (simp add: client_lines_def comp_def line)
  have p: "map_pair domain (?l c) = (if fits_domain domain (sc_client_id c) then Some (host_of domain (sc_client_id c), ntohl (sc_ip c)) else None)"
    if "c \<in> set ?cs" for c
    using that len by (intro map_pair_client) (auto simp: status_listed_def)
  show ?thesis
    unfolding t set_map_filter map_clients_def using p by (auto split: if_splits)
qed

text \<open>C30: the map lists exactly the live clients: what \<open>camex --status --format nginx-map\<close> prints for a server is the
  head, one line for each host made of the ID of a registered client with an address (with the least address, should
  two clients make one host), and the closing brace; clients whose ID is no host label are left out, and no other host
  is in it.\<close>

theorem map_lists_clients:
  assumes "server_ok sv" and "server_clients_list mem0 False db sv = Some lines"
    and "nginx_map_format mem arr lines domain port [] = Some (text, n)"
    and R: "R = map_clients domain sv"
  shows "n = card (fst ` R) \<and> text = concat (map_head domain None) @
    concat (map (\<lambda>h. host_line port h (Min {a. (h, a) \<in> R})) (sorted_list_of_set (fst ` R))) @ ''}'' @ nl"
proof -
  have l: "lines = concat (client_lines False db sv)"
    using clients_list_text [of mem0 False db sv] assms(2) by auto
  have g: "domain = [] \<or> valid_hostname domain" "1 \<le> port \<and> port \<le> 65535"
    using assms(3) unfolding nginx_map_format_def Let_def by (auto split: if_splits)
  show ?thesis
    using map_format [OF g, of None "[]", OF _ _ refl refl, of mem arr lines] assms(3) map_of_clients [OF assms(1)]
    unfolding R l by auto
qed

subsection \<open>Witness\<close>

theorem map_lists_clients_witness:
  "\<exists>answer t. server_clients_list (\<lambda>_. True) False config_server_db_reset demo_client = Some answer \<and>
     nginx_map_format (\<lambda>_. True) (\<lambda>_. True) answer [] 8080 [] = Some (t, card (fst ` map_clients [] demo_client))"
proof -
  obtain answer where a: "server_clients_list (\<lambda>_. True) False config_server_db_reset demo_client = Some answer"
    using clients_list_text [of "\<lambda>_. True" False config_server_db_reset demo_client] by simp
  obtain t n where f: "nginx_map_format (\<lambda>_. True) (\<lambda>_. True) answer [] 8080 [] = Some (t, n)"
    using map_format [OF demo_domain, of None "[]", OF _ _ refl refl, of "\<lambda>_. True" "\<lambda>_. True" answer] by simp
  then show ?thesis
    using map_lists_clients [OF demo_client_ok(1) a f refl] a by auto
qed

end
