(* ===== verification/Startpage.thy ===== *)
theory Startpage
  imports Publish "HOL-Library.Multiset"
begin

section \<open>The start page of the clients\<close>

text \<open>
  The page of nginxmap.c: the records of CLIENTS INDEX, one entry per host, two lists sorted by the name shown, and
  the HTML around them.  A text is the list of the pieces the code prints one after the other.  \<open>room\<close> says
  whether there is memory for the two lists.
\<close>

subsection \<open>Pieces\<close>

text \<open>A character of a name.\<close>

definition html_char :: "char \<Rightarrow> string" where
  "html_char c =
     (if c = CHR ''&'' then ''&amp;'' else if c = CHR ''<'' then ''&lt;'' else if c = CHR ''>'' then ''&gt;''
      else if c = CHR 0x22 then ''&quot;'' else if c = CHR 0x27 then ''&#39;'' else [c])"

definition buf_html :: "string \<Rightarrow> string list" where
  "buf_html s = map html_char s"

definition pad2 :: "nat \<Rightarrow> string" where
  "pad2 n = (if n < 10 then ''0'' @ dec n else dec n)"

definition buf_dur :: "int \<Rightarrow> string list" where
  "buf_dur v0 =
     (let v = nat (if v0 < 0 then 0 else v0)
      in if v < 60 then [dec v @ ''s'']
         else if v < 3600 then [dec (v div 60) @ ''m'' @ pad2 (v mod 60) @ ''s'']
         else if v < 86400 then [dec (v div 3600) @ ''h'' @ pad2 (v mod 3600 div 60) @ ''m'']
         else [dec (v div 86400) @ ''d'' @ pad2 (v mod 86400 div 3600) @ ''h''])"

text \<open>Digits with a narrow space before every group of three.\<close>

fun kib_digits :: "bool \<Rightarrow> string \<Rightarrow> string list" where
  "kib_digits later [] = []"
| "kib_digits later (c # cs) =
     (if later \<and> length (c # cs) mod 3 = 0 then [''&#8239;''] else []) @ [[c]] @ kib_digits True cs"

definition buf_kib :: "u64 \<Rightarrow> string list" where
  "buf_kib v =
     (if v < 10240 then [dec (unat (v div 1024)) @ ''.'' @ dec (unat ((v mod 1024) * 10 div 1024))]
      else kib_digits False (dec (unat (v div 1024 + (if v mod 1024 \<ge> 512 then 1 else 0)))))"

definition shown_name :: "map_entry \<Rightarrow> string" where
  "shown_name e = (if me_name e \<noteq> [] then me_name e else me_label e)"

text \<open>The sign of the comparison of two names with their letters in lower case.\<close>

fun cmp_nocase :: "string \<Rightarrow> string \<Rightarrow> int" where
  "cmp_nocase [] [] = 0"
| "cmp_nocase [] (q # qs) = 0 - of_char (tolower q)"
| "cmp_nocase (p # ps) [] = of_char (tolower p)"
| "cmp_nocase (p # ps) (q # qs) =
     (if tolower p = tolower q then cmp_nocase ps qs else of_char (tolower p) - of_char (tolower q))"

definition cmp_shown :: "map_entry \<Rightarrow> map_entry \<Rightarrow> int" where
  "cmp_shown x y = (let c = cmp_nocase (shown_name x) (shown_name y) in if c \<noteq> 0 then c else strcmp (me_host x) (me_host y))"

definition Q :: string where "Q = [CHR 0x22]"

definition row_live :: "string \<Rightarrow> map_entry \<Rightarrow> string list" where
  "row_live port d =
     [''<tr class='' @ Q @ ''dev'' @ Q @ ''><td class='' @ Q @ ''lamp'' @ Q @ ''><span class='' @ Q @ ''bulb'' @ Q @
        ''></span></td><td><a href='' @ Q @ (if port \<noteq> [] then ''http:'' else []) @ ''//'' @ me_host d @ port @ ''/'' @ Q @ ''>''] @
     buf_html (shown_name d) @
     [''</a></td><td class='' @ Q @ ''id'' @ Q @ ''>'' @ me_label d @ ''</td><td class='' @ Q @ ''addr'' @ Q @ ''>'' @ me_addr_text d @
        ''</td><td class='' @ Q @ ''addr'' @ Q @ ''>'',
      (if me_peer d = [] then ''&mdash;''
       else if me_peer_port d = 0 then me_peer d
       else if me_peer_port d = 80
       then ''<a class='' @ Q @ ''peer'' @ Q @ '' href='' @ Q @ ''http://'' @ me_peer d @ ''/'' @ Q @ '' target='' @ Q @ ''_blank'' @ Q @
              '' rel='' @ Q @ ''noopener'' @ Q @ ''>'' @ me_peer d @ ''</a>''
       else ''<a class='' @ Q @ ''peer'' @ Q @ '' href='' @ Q @ ''http://'' @ me_peer d @ '':'' @ dec (nat (me_peer_port d)) @ ''/'' @ Q @
              '' target='' @ Q @ ''_blank'' @ Q @ '' rel='' @ Q @ ''noopener'' @ Q @ ''>'' @ me_peer d @ ''</a>''),
      ''</td><td class='' @ Q @ ''conn'' @ Q @ ''>''] @
     buf_dur (me_since d) @ [''</td><td>''] @
     (if me_last d < 0 then [''&mdash;''] else buf_dur (me_last d) @ ['' ago'']) @
     [''</td><td class='' @ Q @ ''hs'' @ Q @ ''>''] @ buf_dur (me_hs_age d) @
     ['' ago &middot; '' @ dec (me_hs d) @ ''</td><td class='' @ Q @ ''tr'' @ Q @ ''>''] @ buf_kib (me_rx d) @ ['' / ''] @ buf_kib (me_tx d) @
     [''</td></tr>'' @ nl]"

definition row_offline :: "map_entry \<Rightarrow> string list" where
  "row_offline d =
     [''<tr class='' @ Q @ ''dev off'' @ Q @ ''><td class='' @ Q @ ''lamp'' @ Q @ ''><span class='' @ Q @ ''bulb'' @ Q @
        ''></span></td><td><span class='' @ Q @ ''nm'' @ Q @ ''>''] @
     buf_html (shown_name d) @
     [''</span></td><td class='' @ Q @ ''id'' @ Q @ ''>'' @ me_label d @ ''</td><td class='' @ Q @ ''addr'' @ Q @ ''>'' @
        (if me_addr_text d \<noteq> [] then me_addr_text d else ''&mdash;'') @ ''</td><td class='' @ Q @ ''addr'' @ Q @
        ''>&mdash;</td><td class='' @ Q @ ''conn'' @ Q @ ''>offline</td><td>&mdash;</td><td class='' @ Q @ ''hs'' @ Q @
        ''>&mdash;</td><td>&mdash;</td></tr>'' @ nl]"

definition buf_list :: "string \<Rightarrow> map_entry list \<Rightarrow> string \<Rightarrow> string \<Rightarrow> string list" where
  "buf_list cls es emptytext port =
     [''<div class='' @ Q @ ''list '' @ cls @ Q @ ''>'' @ nl] @
     (if es = [] then [''<div class='' @ Q @ ''empty'' @ Q @ ''>'' @ emptytext @ ''</div>'' @ nl @ ''</div>'' @ nl]
      else [''<div class='' @ Q @ ''rack'' @ Q @ ''>'' @ nl @ ''<table>'' @ nl @ ''<thead><tr><th></th><th>Name</th><th class='' @ Q @ ''id'' @ Q @
              ''>ID</th><th class='' @ Q @ ''addr'' @ Q @ ''>Address</th><th class='' @ Q @ ''addr'' @ Q @ ''>Peer</th><th class='' @ Q @
              ''conn'' @ Q @ ''>Connected</th><th>Last packet</th><th class='' @ Q @ ''hs'' @ Q @
              ''>Handshake</th><th>RX / TX KiB</th></tr></thead>'' @ nl @ ''<tbody>'' @ nl] @
           concat (map (\<lambda>d. if me_live d then row_live port d else row_offline d) es) @
           [''</tbody>'' @ nl @ ''</table>'' @ nl @ ''</div>'' @ nl @ ''</div>'' @ nl])"

subsection \<open>The page\<close>

definition CAMEX_VERSION :: string where "CAMEX_VERSION = ''3.16.0''"

text \<open>The constant texts of the page.\<close>

definition PAGE_HEAD :: string where
  \<open>PAGE_HEAD = concat [
     ''<!doctype html>'' @ nl,
     ''<!-- camex --status --format nginx-index: generated, do not edit '',
     ''-->'' @ nl,
     ''<html lang="en">'' @ nl @ ''<head>'' @ nl @ ''<meta charset="utf-8">'' @ nl,
     ''<meta name="viewport" content="width=device-width,'',
     ''initial-scale=1">'' @ nl,
     ''<noscript><meta http-equiv="refresh" content="30"></noscript>'' @ nl,
     ''<meta name="camex-version" content="'',
     CAMEX_VERSION,
     ''">'' @ nl,
     ''<title>Camex Devices</title>'' @ nl,
     ''<style>'' @ nl,
     '':root{--panel:#2c2119;--panel2:#3d2d22;--brass:#c9a24d;'',
     ''--brass2:#8c6a2a;--amber:#ffb347;--ink:#e8d9b8;--dim:#8a7455;'',
     ''--green:#5ad38f;--red:#c8452c}'' @ nl,
     ''*{box-sizing:border-box}'' @ nl,
     ''body{margin:0;min-height:100vh;background:radial-gradient(ellipse '',
     ''at 50% 0,#3b2c22 0,#1a1512 55%,#0f0b09 100%);color:var(--ink);'',
     ''font-family:Georgia,'Times New Roman',serif;display:flex;'',
     ''flex-direction:column;align-items:center;padding:28px 16px}'' @ nl,
     ''h1{font-size:clamp(22px,4.5vw,40px);letter-spacing:.2em;'',
     ''text-transform:uppercase;margin:0 0 6px;text-align:center;'',
     ''color:var(--brass);text-shadow:0 1px 0 #f3d78a,0 -1px 0 #3d2a0c,'',
     ''0 0 22px rgba(201,162,77,.35)}'' @ nl,
     ''.sub{font-family:'Courier New',monospace;font-size:12px;'',
     ''color:var(--dim);letter-spacing:.3em;text-transform:uppercase;'',
     ''margin-bottom:24px;text-align:center}'' @ nl,
     ''.panel{position:relative;width:min(1200px,100%);'',
     ''background:linear-gradient(180deg,var(--panel2),var(--panel));'',
     ''border:3px solid var(--brass2);border-radius:16px;'',
     ''box-shadow:inset 0 0 0 2px #1a1210,inset 0 0 50px rgba(0,0,0,.6),'',
     ''0 24px 48px rgba(0,0,0,.65);padding:30px 24px 24px}'' @ nl,
     ''.rivet{position:absolute;width:14px;height:14px;border-radius:50%;'',
     ''background:radial-gradient(circle at 35% 35%,#f1d38b,#8c6a2a 60%,'',
     ''#3a2a10);box-shadow:0 1px 2px #000,inset 0 -1px 1px rgba(0,0,0,.5)}'' @ nl,
     ''.rivet.tl{top:8px;left:8px}.rivet.tr{top:8px;right:8px}'',
     ''.rivet.bl{bottom:8px;left:8px}.rivet.br{bottom:8px;right:8px}'' @ nl,
     ''.plate{font-family:'Courier New',monospace;font-size:12px;'',
     ''letter-spacing:.2em;text-transform:uppercase;color:#2a1c10;'',
     ''background:linear-gradient(180deg,#e2c377,#a88237);'',
     ''border:1px solid #5b4416;border-radius:4px;padding:4px 10px;'',
     ''display:inline-block;box-shadow:inset 0 1px 0 #fbe6a8,'',
     ''0 1px 2px #000}'' @ nl,
     ''.top{display:flex;justify-content:space-between;align-items:center;'',
     ''flex-wrap:wrap;gap:10px}'' @ nl,
     ''.tab{position:absolute;opacity:0;pointer-events:none}'' @ nl,
     ''.tabs{display:flex;gap:10px;margin-top:20px;flex-wrap:wrap}'' @ nl,
     ''.tabs label{cursor:pointer;font-family:'Courier New',monospace;'',
     ''font-size:12px;letter-spacing:.18em;text-transform:uppercase;'',
     ''color:var(--dim);padding:8px 14px;border:1px solid #574123;'',
     ''border-radius:8px;background:rgba(0,0,0,.25);'',
     ''box-shadow:inset 0 2px 6px rgba(0,0,0,.5)}'' @ nl,
     ''.tabs label b{color:var(--ink);font-weight:normal}'' @ nl,
     ''.tabs label i{font-style:normal;color:var(--red)}'' @ nl,
     ''#tab-conf:checked~.tabs label[for=tab-conf],#tab-auto:checked~.tabs '',
     ''label[for=tab-auto]{color:#2a1c10;background:linear-gradient(180deg,'',
     ''#e2c377,#a88237);border-color:#5b4416;box-shadow:inset 0 1px 0 '',
     ''#fbe6a8,0 1px 2px #000}'' @ nl,
     ''#tab-conf:checked~.tabs label[for=tab-conf] b,#tab-auto:checked~'',
     ''.tabs label[for=tab-auto] b{color:#2a1c10;font-weight:bold}'' @ nl,
     ''#tab-conf:checked~.tabs label[for=tab-conf] i{color:#7a1a10}'' @ nl,
     ''.tab:focus-visible~.tabs label{outline:1px dotted var(--dim)}'' @ nl,
     ''.list{display:none}'' @ nl,
     ''#tab-conf:checked~.list-conf,#tab-auto:checked~.list-auto'',
     ''{display:block}'' @ nl,
     ''.rack{margin-top:14px;border:1px solid #574123;border-radius:10px;'',
     ''background:rgba(0,0,0,.25);box-shadow:inset 0 2px 8px rgba(0,0,0,.6);'',
     ''overflow-x:auto}'' @ nl,
     ''table{width:100%;border-collapse:collapse}'' @ nl,
     ''th{font-family:'Courier New',monospace;font-size:11px;'',
     ''font-weight:normal;letter-spacing:.16em;text-transform:uppercase;'',
     ''color:var(--dim);text-align:left;padding:10px 10px;'',
     ''border-bottom:1px solid #574123;white-space:nowrap}'' @ nl,
     ''td{padding:11px 10px;border-bottom:1px solid rgba(87,65,35,.5);'',
     ''vertical-align:middle;font-family:'Courier New',monospace;'',
     ''font-size:13px;color:var(--dim);white-space:nowrap}'' @ nl,
     ''tr:last-child td{border-bottom:0}'' @ nl,
     ''tbody tr:hover{background:rgba(201,162,77,.07)}'' @ nl,
     ''.bulb{display:block;width:14px;height:14px;border-radius:50%;'',
     ''border:2px solid #6e5320;background:radial-gradient(circle at 40% '',
     ''35%,#d8ffe8,var(--green) 45%,#155b34);box-shadow:0 0 10px '',
     ''var(--green)}'' @ nl,
     ''.off .bulb{background:radial-gradient(circle at 40% 35%,#ffd0c4,'',
     ''var(--red) 45%,#5a1a0e);box-shadow:0 0 10px var(--red)}'' @ nl,
     ''td.lamp{width:34px}'' @ nl,
     ''td:nth-child(2){font-family:Georgia,'Times New Roman',serif;'',
     ''white-space:normal;min-width:9em}'' @ nl,
     ''a{color:var(--amber);text-decoration:none;font-size:17px;'',
     ''letter-spacing:.04em;text-shadow:0 0 10px rgba(255,179,71,.35);'',
     ''word-break:break-word}'' @ nl,
     ''a:hover{text-decoration:underline}'' @ nl,
     ''a.peer{font-size:13px;letter-spacing:0;text-shadow:none}'' @ nl,
     ''.nm{font-size:17px;letter-spacing:.04em;color:var(--dim)}'' @ nl,
     ''.off td{opacity:.75}'' @ nl,
     ''.empty{margin-top:14px;font-family:'Courier New',monospace;'',
     ''font-size:clamp(16px,3vw,22px);letter-spacing:.18em;'',
     ''text-transform:uppercase;color:var(--dim);padding:14px 16px;'',
     ''border:2px solid #574123;border-radius:8px;background:#120d0a;'',
     ''box-shadow:inset 0 0 20px rgba(0,0,0,.8);text-align:center}'' @ nl,
     ''.foot{margin-top:18px;font-family:'Courier New',monospace;'',
     ''font-size:11px;color:#5e4d36;letter-spacing:.2em;'',
     ''text-transform:uppercase;text-align:center}'' @ nl,
     ''.stale-mark{display:none;color:var(--red)}'' @ nl,
     ''body.stale .stale-mark{display:inline}'' @ nl,
     ''body.stale .panel{opacity:.7}'' @ nl,
     ''@media (max-width:820px){.addr,.hs{display:none}}'' @ nl,
     ''@media (max-width:560px){.conn,.id{display:none}.panel{padding:26px '',
     ''14px 18px}td,th{padding:10px 6px}td.tr,th{white-space:normal}'',
     ''.tabs{gap:6px}.tabs label{padding:7px 9px;letter-spacing:.08em}}'' @ nl,
     ''</style>'' @ nl @ ''</head>'' @ nl @ ''<body>'' @ nl @ ''<h1>Camex Devices</h1>'' @ nl]\<close>

definition PAGE_FOOT :: string where
  \<open>PAGE_FOOT = concat [
     ''</div>'' @ nl @ ''<div class="foot">Camex &middot; OpenIPC '',
     ''&middot; MIT License</div>'' @ nl,
     ''<script>'' @ nl,
     ''(function(){'' @ nl,
     ''var V=document.querySelector('meta[name=camex-version]')'',
     ''.content;'' @ nl,
     ''function tab(){try{var t=localStorage.getItem('camex-tab'),'',
     ''r=t&&document.getElementById(t);if(r)r.checked=true}'',
     ''catch(e){}}'' @ nl,
     ''tab();'' @ nl,
     ''document.addEventListener('change',function(e){var x=e.target;'',
     ''if(x.classList&&x.classList.contains('tab')){try{localStorage'',
     ''.setItem('camex-tab',x.id)}catch(err){}}});'' @ nl,
     ''function stale(on){document.body.classList.toggle('stale',on)}'',
     nl,
     ''function tls(){if(location.protocol!=='https:')return;'',
     ''[].forEach.call(document.querySelectorAll('',
     [CHR 0x27] @ ''a[href^="http:"]:not(.peer)'),'',
     ''function(x){var m=x.getAttribute('href').match('',
     ''/^http:'' @ [CHR 0x5C] @ ''/'' @ [CHR 0x5C] @ ''/([^'' @ [CHR 0x5C] @ ''/:]+):'' @ [CHR 0x5C] @ ''d+'' @ [CHR 0x5C] @ ''/$/);if(m)x.setAttribute('href','',
     [CHR 0x27] @ ''https://'+m[1]+'/')})}'' @ nl,
     ''tls();'' @ nl,
     ''function swap(d){var a=document.querySelector('.panel'),'',
     ''b=d.querySelector('.panel'),s=document.querySelector('.sub'),'',
     ''t=d.querySelector('.sub');if(!a||!b)return;'',
     ''var c=document.querySelector('.tab:checked'),id=c&&c.id,'',
     ''X=window.scrollX,Y=window.scrollY,x={};'',
     ''[].forEach.call(document.querySelectorAll('.rack'),function(r){'',
     ''x[r.parentNode.className]=r.scrollLeft});'',
     ''a.innerHTML=b.innerHTML;if(s&&t)s.innerHTML=t.innerHTML;tls();'',
     ''var n=id&&document.getElementById(id);if(n)n.checked=true;'',
     ''[].forEach.call(document.querySelectorAll('.rack'),function(r){'',
     ''var v=x[r.parentNode.className];if(v)r.scrollLeft=v});'',
     ''try{window.scrollTo(X,Y)}catch(e){}}'' @ nl,
     ''var last=null,busy=0,gen=0;'' @ nl,
     ''function tick(){if(busy||!window.fetch||!window.DOMParser)'',
     ''return;busy=1;var g=++gen,k=window.AbortController?'',
     ''new AbortController():null,w=setTimeout(function(){'',
     ''if(k)k.abort();if(g===gen){gen++;busy=0;stale(true)}},4000),'',
     ''o={cache:'no-store',credentials:'same-origin'};'',
     ''if(k)o.signal=k.signal;'',
     ''fetch(location.href,o).then(function(r){if(!r.ok)throw r.status;'',
     ''return r.text()}).then(function(h){if(g!==gen)return;'',
     ''if(h===last){stale(false);return}var d=new DOMParser()'',
     ''.parseFromString(h,'text/html'),m=d.querySelector('',
     [CHR 0x27] @ ''meta[name=camex-version]');if(!m||m.content!==V){'',
     ''location.reload();return}last=h;swap(d);stale(false)})'',
     ''['catch'](function(){if(g===gen)stale(true)})'',
     ''.then(function(){clearTimeout(w);if(g===gen)busy=0})}'' @ nl,
     ''setInterval(tick,5000);'' @ nl,
     ''})();'' @ nl,
     ''</script>'' @ nl @ ''</body>'' @ nl @ ''</html>'' @ nl]\<close>

text \<open>The sorted entries, one for each host: the first one, configured if any is, named by the first that has a name.\<close>

fun merge_hosts :: "map_entry list \<Rightarrow> map_entry list" where
  "merge_hosts [] = []"
| "merge_hosts [e] = [e]"
| "merge_hosts (e # e' # es) =
     (if me_host e' = me_host e
      then merge_hosts (e\<lparr>me_conf := me_conf e \<or> me_conf e', me_name := (if me_name e = [] then me_name e' else me_name e)\<rparr> # es)
      else e # merge_hosts (e' # es))"

definition link_port :: "int \<Rightarrow> string" where
  "link_port http_port = (if http_port > 0 \<and> http_port \<noteq> 80 \<and> http_port \<le> 65535 then '':'' @ dec (nat http_port) else [])"

text \<open>The page of the two lists, with the numbers of live and offline clients.\<close>

definition index_page :: "string \<Rightarrow> nat \<Rightarrow> nat \<Rightarrow> map_entry list \<Rightarrow> map_entry list \<Rightarrow> string list" where
  "index_page port live off conf autos =
     (let nconf = length conf; nauto = length autos
      in [PAGE_HEAD,
          ''<div class='' @ Q @ ''sub'' @ Q @ ''>'' @ dec live @ '' online &middot; '' @ dec nconf @ '' configured</div>'' @ nl @
            ''<div class='' @ Q @ ''panel'' @ Q @ ''>'' @ nl @ ''<span class='' @ Q @ ''rivet tl'' @ Q @ ''></span><span class='' @ Q @ ''rivet tr'' @ Q @
            ''></span><span class='' @ Q @ ''rivet bl'' @ Q @ ''></span><span class='' @ Q @ ''rivet br'' @ Q @ ''></span>'' @ nl @
            ''<div class='' @ Q @ ''top'' @ Q @ ''><span class='' @ Q @ ''plate'' @ Q @ ''>Device registry<span class='' @ Q @ ''stale-mark'' @ Q @
            ''> &middot; no connection</span></span><span class='' @ Q @ ''plate'' @ Q @ ''>camex '' @ CAMEX_VERSION @ ''</span></div>'' @ nl,
          ''<input type='' @ Q @ ''radio'' @ Q @ '' name='' @ Q @ ''tab'' @ Q @ '' class='' @ Q @ ''tab'' @ Q @ '' id='' @ Q @ ''tab-conf'' @ Q @
            (if nconf > 0 \<or> nauto = 0 then '' checked'' else []) @ ''>'' @ nl @
            ''<input type='' @ Q @ ''radio'' @ Q @ '' name='' @ Q @ ''tab'' @ Q @ '' class='' @ Q @ ''tab'' @ Q @ '' id='' @ Q @ ''tab-auto'' @ Q @
            (if nconf > 0 \<or> nauto = 0 then [] else '' checked'') @ ''>'' @ nl @
            ''<div class='' @ Q @ ''tabs'' @ Q @ ''><label for='' @ Q @ ''tab-conf'' @ Q @ ''>Configured <b>'' @ dec nconf @ ''</b>''] @
         (if off > 0 then ['' &middot; <i>'' @ dec off @ '' offline</i>''] else []) @
         [''</label><label for='' @ Q @ ''tab-auto'' @ Q @ ''>Auto <b>'' @ dec nauto @ ''</b></label></div>'' @ nl] @
         buf_list ''list-conf'' conf (''No [client ID] blocks in the server'' @ [CHR 0x27] @ ''s file'') port @
         buf_list ''list-auto'' autos ''No auto devices online'' port @
         [PAGE_FOOT])"

definition nginx_index_format :: "(nat \<Rightarrow> bool) \<Rightarrow> (nat \<Rightarrow> bool) \<Rightarrow> bool \<Rightarrow> string \<Rightarrow> string \<Rightarrow> int \<Rightarrow> (string \<times> nat) option" where
  "nginx_index_format mem arr room lines domain http_port =
     (if domain \<noteq> [] \<and> \<not> valid_hostname domain then None
      else case parse_records arr domain True lines of
             Some (Some es) \<Rightarrow>
               (let kept = merge_hosts es;
                    live = length (filter me_live kept);
                    off = length (filter (\<lambda>e. \<not> me_live e) kept);
                    conf = qsort_by cmp_shown (filter me_conf kept);
                    autos = qsort_by cmp_shown (filter (\<lambda>e. \<not> me_conf e) kept);
                    out = fold (buf_printf mem) (index_page (link_port http_port) live off conf autos) mb_zero
                in if kept \<noteq> [] \<and> \<not> room \<or> mb_err out then None else Some (mb_text out, live))
           | _ \<Rightarrow> None)"

subsection \<open>Names\<close>

text \<open>What a browser reads in the escaped text.\<close>

fun html_read :: "string \<Rightarrow> string" where
  "html_read [] = []"
| "html_read (c # cs) =
     (if c \<noteq> CHR ''&'' then c # html_read cs
      else if take 4 cs = ''amp;'' then CHR ''&'' # html_read (drop 4 cs)
      else if take 3 cs = ''lt;'' then CHR ''<'' # html_read (drop 3 cs)
      else if take 3 cs = ''gt;'' then CHR ''>'' # html_read (drop 3 cs)
      else if take 5 cs = ''quot;'' then CHR 0x22 # html_read (drop 5 cs)
      else if take 4 cs = ''#39;'' then CHR 0x27 # html_read (drop 4 cs)
      else c # html_read cs)"

text \<open>No name can add markup to the page: escaped, it has no angle bracket and no quote, every ampersand begins one of
  the five entities, and a browser shows exactly the name.\<close>

lemma html_round_trip:
  "html_read (concat (buf_html s)) = s \<and>
   set (concat (buf_html s)) \<inter> {CHR ''<'', CHR ''>'', CHR 0x22, CHR 0x27} = {}"
proof (induction s)
  case (Cons c s)
  have "html_read (html_char c @ t) = c # html_read t" for t
    by (auto simp: html_char_def)
  then show ?case
    using Cons by (auto simp: buf_html_def html_char_def)
qed (simp add: buf_html_def)

subsection \<open>Records\<close>

lemma quad_chars: "c \<in> set (quad a) \<Longrightarrow> isdigit c \<or> c = CHR ''.''"
  using inet_ntop_chars by (simp add: quad_ntop)

lemma quad_all: "\<forall>c\<in>set (quad a). isdigit c \<or> c = CHR ''.''"
  using quad_chars by blast

lemma parse_num_bound: "parse_num f m = Some v \<Longrightarrow> v \<le> m"
  by (auto simp: parse_num_def split: if_splits prod.splits)

lemma index_fields_clean:
  assumes "index_fields line = Some (cid, addr, name, e)"
  shows "(\<forall>c\<in>set (me_peer e). isdigit c \<or> c = CHR ''.'') \<and> 0 \<le> me_peer_port e \<and> me_peer_port e \<le> 65535 \<and>
    0 \<le> me_since e \<and> - 1 \<le> me_last e \<and> 0 \<le> me_hs_age e"
proof -
  have live: "me_peer e1 = [] \<and> me_peer_port e1 = 0 \<and> 0 \<le> me_since e1 \<and> - 1 \<le> me_last e1 \<and> 0 \<le> me_hs_age e1"
    if "live_fields f = Some e1" for f e1
    using that by (auto simp: live_fields_def entry_zero_def split: Option.bind_splits if_splits)
  have peer: "(me_peer e2 = me_peer e1 \<or> (\<forall>c\<in>set (me_peer e2). isdigit c \<or> c = CHR ''.'')) \<and>
      (me_peer_port e2 = me_peer_port e1 \<or> 0 \<le> me_peer_port e2 \<and> me_peer_port e2 \<le> 65535) \<and>
      me_since e2 = me_since e1 \<and> me_last e2 = me_last e1 \<and> me_hs_age e2 = me_hs_age e1"
    if "peer_fields f e1 = Some e2" for f e1 e2
    using that by (auto simp: peer_fields_def require_def dest: parse_num_bound dest!: quad_chars split: Option.bind_splits if_splits)
  from assms consider "e = entry_zero\<lparr>me_live := False, me_conf := True\<rparr>"
    | f e1 where "live_fields f = Some e1" "e = e1 \<or> peer_fields f e1 = Some e"
    unfolding index_fields_def Let_def by (auto split: Option.bind_splits if_splits)
  then show ?thesis
  proof cases
    case 1
    then show ?thesis by (simp add: entry_zero_def)
  next
    case 2
    then show ?thesis
      using live [OF 2(1)] peer [of f e1 e] by auto
  qed
qed

lemma record_of_fields:
  assumes "parse_record domain index line = Some e"
  obtains cid addr name e0 where "(if \<not> index then map_fields line else index_fields line) = Some (cid, addr, name, e0)"
    and "fits_domain domain cid"
    and "e = e0\<lparr>me_label := map tolower cid, me_host := host_of domain cid,
       me_addr := (case addr of Some a \<Rightarrow> a | None \<Rightarrow> 0), me_addr_text := (case addr of Some a \<Rightarrow> quad a | None \<Rightarrow> []),
       me_name := (case name of Some n \<Rightarrow> if n \<noteq> [] \<and> camex_name_valid n then n else [] | None \<Rightarrow> [])\<rparr>"
proof -
  have l: "map tolower (if domain \<noteq> [] then map tolower cid @ ''.'' @ domain else map tolower cid) = host_of domain cid" for cid
    by (simp add: host_of_def)
  show thesis
    using assms that unfolding parse_record_def require_def Let_def l
    by (auto simp: fits_domain_def split: Option.bind_splits if_splits)
qed

lemma map_fields_zero: "map_fields line = Some (cid, addr, name, e) \<Longrightarrow> e = entry_zero"
  by (auto simp: map_fields_def require_def split: Option.bind_splits if_splits)


subsection \<open>One entry for each host\<close>

definition host_before :: "map_entry \<Rightarrow> map_entry \<Rightarrow> bool" where
  "host_before x y \<longleftrightarrow> me_host x \<le> me_host y \<and> (me_host x = me_host y \<longrightarrow> me_live y \<longrightarrow> me_live x)"

lemma merge_hosts:
  assumes "sorted_wrt host_before es"
  shows "sorted_wrt (<) (map me_host (merge_hosts es)) \<and> me_host ` set (merge_hosts es) = me_host ` set es \<and>
    (\<forall>m\<in>set (merge_hosts es). (me_live m \<longleftrightarrow> (\<exists>e\<in>set es. me_host e = me_host m \<and> me_live e)) \<and>
       (me_conf m \<longleftrightarrow> (\<exists>e\<in>set es. me_host e = me_host m \<and> me_conf e)))"
  using assms
proof (induction es rule: merge_hosts.induct)
  case (3 e e' es)
  show ?case
  proof (cases "me_host e' = me_host e")
    case True
    let ?m = "e\<lparr>me_conf := me_conf e \<or> me_conf e', me_name := (if me_name e = [] then me_name e' else me_name e)\<rparr>"
    have l: "me_live e' \<Longrightarrow> me_live e"
      using "3.prems" True by (simp add: host_before_def)
    have s: "sorted_wrt host_before (?m # es)"
    proof -
      have "sorted_wrt host_before es" "\<forall>x\<in>set es. host_before e x"
        using "3.prems" by simp_all
      then show ?thesis
        by (simp add: host_before_def [of ?m] host_before_def [of e])
    qed
    note IH = "3.IH"(1) [OF True s]
    have "merge_hosts (e # e' # es) = merge_hosts (?m # es)"
      using True by simp
    then have eq: "merge_hosts (e # e' # es) = merge_hosts (?m # es)" "me_host ` set (e # e' # es) = me_host ` set (?m # es)"
      using True by auto
    have ex: "(\<exists>x\<in>set (e # e' # es). me_host x = h \<and> me_live x) \<longleftrightarrow> (\<exists>x\<in>set (?m # es). me_host x = h \<and> me_live x)"
      "(\<exists>x\<in>set (e # e' # es). me_host x = h \<and> me_conf x) \<longleftrightarrow> (\<exists>x\<in>set (?m # es). me_host x = h \<and> me_conf x)" for h
      using l True by auto
    show ?thesis
      unfolding eq ex by (rule IH)
  next
    case False
    have s: "sorted_wrt host_before (e' # es)"
      using "3.prems" by simp
    note IH = "3.IH"(2) [OF False s]
    have gt: "me_host e < me_host x" if "x \<in> set (e' # es)" for x
      using "3.prems" False that by (auto simp: host_before_def less_le)
    let ?r = "merge_hosts (e' # es)"
    have hosts: "me_host ` set ?r = me_host ` set (e' # es)"
      using IH by blast
    have gm: "me_host e < me_host m" if "m \<in> set ?r" for m
      using gt imageI [OF that, of me_host] unfolding hosts by auto
    have r: "merge_hosts (e # e' # es) = e # ?r"
      using False by simp
    have "sorted_wrt (<) (map me_host ?r)"
      using IH by blast
    then have "sorted_wrt (<) (map me_host (e # ?r))"
      using gm by simp
    moreover have "me_host ` set (e # ?r) = me_host ` set (e # e' # es)"
      using hosts by simp
    moreover have "(me_live m \<longleftrightarrow> (\<exists>x\<in>set (e # e' # es). me_host x = me_host m \<and> me_live x)) \<and>
        (me_conf m \<longleftrightarrow> (\<exists>x\<in>set (e # e' # es). me_host x = me_host m \<and> me_conf x))" if "m \<in> set (e # ?r)" for m
    proof (cases "m = e")
      case True
      then show ?thesis using gt by force
    next
      case F: False
      then have m: "m \<in> set ?r"
        using that by simp
      then have "(me_live m \<longleftrightarrow> (\<exists>x\<in>set (e' # es). me_host x = me_host m \<and> me_live x)) \<and>
          (me_conf m \<longleftrightarrow> (\<exists>x\<in>set (e' # es). me_host x = me_host m \<and> me_conf x))"
        using IH by blast
      then show ?thesis
        using gm [OF m] by auto
    qed
    ultimately show ?thesis
      unfolding r by blast
  qed
qed simp_all

text \<open>The records of a page, and what they say of a host.\<close>

definition page_records :: "string \<Rightarrow> string \<Rightarrow> map_entry set" where
  "page_records domain p = set (List.map_filter (parse_record domain True) (text_lines p))"

lemma entry_key_before: "entry_key x \<le> entry_key y \<Longrightarrow> host_before x y"
  by (auto simp: entry_key_def host_before_def less_eq_prod_def)

lemma parse_records_index:
  assumes "parse_records arr domain True p = Some (Some es)"
  shows "sorted_wrt host_before es \<and> set es = page_records domain p"
proof -
  obtain rs where rs: "rs = List.map_filter (parse_record domain True) (text_lines p)" "es = qsort_by cmp_entry rs"
    using assms records_loop_ends [of arr domain True p 0 "[]"] by (auto simp: parse_records_def)
  have q: "es = sort_key entry_key rs"
    unfolding rs(2) by (rule qsort_by_key) (rule cmp_entry_key)
  have "sorted_wrt (\<lambda>x y. entry_key x \<le> entry_key y) es"
    using sorted_sort_key [of entry_key rs] unfolding q by (simp add: sorted_map)
  then have "sorted_wrt host_before es"
    by (rule sorted_wrt_mono_rel [rotated]) (rule entry_key_before)
  then show ?thesis
    by (simp add: q rs(1) page_records_def)
qed

lemma qsort_by_set: "mset (qsort_by cmp xs) = mset xs"
proof -
  have "mset (insert_by cmp x ys) = add_mset x (mset ys)" for x ys
    by (induction ys) auto
  then show ?thesis
    by (induction xs) (simp_all add: qsort_by_def)
qed


subsection \<open>The records a server sends\<close>

definition tabbed :: "string list \<Rightarrow> string" where
  "tabbed fs = concat (map (\<lambda>f. f @ TAB) (butlast fs)) @ last fs"

lemma split_tabs_tabbed:
  "fs \<noteq> [] \<Longrightarrow> length fs \<le> Suc k \<Longrightarrow> \<forall>f\<in>set fs. CHR 0x09 \<notin> set f \<Longrightarrow> split_tabs k (tabbed fs) = fs"
proof (induction fs arbitrary: k)
  case (Cons f fs)
  show ?case
  proof (cases "fs = []")
    case True
    then show ?thesis
      using Cons.prems by (cases k) (simp_all add: tabbed_def)
  next
    case False
    then obtain k' where k: "k = Suc k'"
      using Cons.prems(2) by (cases k) auto
    have t: "tabbed (f # fs) = f @ CHR 0x09 # tabbed fs"
      using False by (simp add: tabbed_def TAB_def)
    have "takeWhile (\<lambda>c. c \<noteq> CHR 0x09) (f @ CHR 0x09 # tabbed fs) = f" "dropWhile (\<lambda>c. c \<noteq> CHR 0x09) (f @ CHR 0x09 # tabbed fs) = CHR 0x09 # tabbed fs"
    proof -
      have "x \<in> set f \<Longrightarrow> x \<noteq> CHR 0x09" for x
        using Cons.prems(3) by auto
      then show "takeWhile (\<lambda>c. c \<noteq> CHR 0x09) (f @ CHR 0x09 # tabbed fs) = f" "dropWhile (\<lambda>c. c \<noteq> CHR 0x09) (f @ CHR 0x09 # tabbed fs) = CHR 0x09 # tabbed fs"
        by (simp_all add: takeWhile_append2 dropWhile_append2)
    qed
    then show ?thesis
      using Cons.IH [of k'] Cons.prems False unfolding k t by simp
  qed
qed simp

lemma dec_clean: "CHR 0x09 \<notin> set (dec n)" "CHR 0x0A \<notin> set (dec n)" "dec n \<noteq> ''-''"
proof -
  show "CHR 0x09 \<notin> set (dec n)" "CHR 0x0A \<notin> set (dec n)"
    using dec_digits [of n] by (auto simp: isdigit_def)
  show "dec n \<noteq> ''-''"
    using dec_digits [of n] by (auto simp: isdigit_def)
qed

lemma parse_num_dec [simp]: "n \<le> m \<Longrightarrow> m < 2 ^ 64 \<Longrightarrow> parse_num (dec n) m = Some n"
  using length_dec [of n 20] dec_digits [of n] strtoul_dec [of n] by (simp add: parse_num_def list_all_iff)

lemma quad_clean: "CHR 0x09 \<notin> set (quad a)" "quad a \<noteq> ''-''"
  using quad_all [of a] by (auto simp: isdigit_def)

lemma cont_bytes: "utf8_cont k cp p = Some (cp', q) \<Longrightarrow> \<exists>w. p = w @ q \<and> (\<forall>b\<in>set w. b AND 0xc0 = 0x80)"
proof (induction k cp p rule: utf8_cont.induct)
  case (3 k cp b p)
  then obtain w where "p = w @ q" "\<forall>b\<in>set w. b AND 0xc0 = 0x80" "b AND 0xc0 = 0x80"
    by (auto split: if_splits)
  then show ?case
    by (intro exI [of _ "b # w"]) simp
qed simp_all

lemma name_no_tab: "name_loop p \<Longrightarrow> 9 \<notin> set p"
proof (induction p rule: name_loop.induct)
  case (2 b p)
  show ?case
  proof (cases "b < 0x80")
    case True
    then show ?thesis
      using 2 by (auto split: if_splits)
  next
    case False
    let ?S = "if 0xc2 \<le> b \<and> b \<le> 0xdf then Some (2, b AND 0x1f)
                  else if 0xe0 \<le> b \<and> b \<le> 0xef then Some (3, b AND 0x0f)
                  else if 0xf0 \<le> b \<and> b \<le> 0xf4 then Some (4 :: nat, b AND 0x07) else None"
    have loop: "case ?S of None \<Rightarrow> False | Some (len, lead) \<Rightarrow>
                (case utf8_cont (len - 1) (ucast lead) p of
                   None \<Rightarrow> False
                 | Some (cp, q) \<Rightarrow>
                     (if (len = 3 \<and> cp < 0x800) \<or> (len = 4 \<and> cp < 0x10000) \<or> cp > 0x10ffff
                         \<or> (0xd800 \<le> cp \<and> cp \<le> 0xdfff) \<or> (0x80 \<le> cp \<and> cp \<le> 0x9f)
                      then False else name_loop q))"
      using "2.prems" unfolding name_loop.simps(2) if_not_P [OF False] .
    obtain len lead where l: "?S = Some (len, lead)"
      using loop by (cases ?S) auto
    obtain cp q where c: "utf8_cont (len - 1) (ucast lead) p = Some (cp, q)"
      using loop unfolding l by (cases "utf8_cont (len - 1) (ucast lead) p") auto
    have g: "\<not> ((len = 3 \<and> cp < 0x800) \<or> (len = 4 \<and> cp < 0x10000) \<or> cp > 0x10ffff
                         \<or> (0xd800 \<le> cp \<and> cp \<le> 0xdfff) \<or> (0x80 \<le> cp \<and> cp \<le> 0x9f))" and q: "name_loop q"
      using loop unfolding l option.case prod.case c by (simp_all split: if_splits)
    have "9 \<notin> set q"
      using "2.IH"(2) [OF False l refl c refl g q] .
    moreover obtain w where w: "p = w @ q" "\<forall>b\<in>set w. b AND 0xc0 = 0x80"
      using cont_bytes [OF c] by blast
    moreover have "9 \<notin> set w"
    proof
      assume "9 \<in> set w"
      then have "(9 :: u8) AND 0xc0 = 0x80"
        using w(2) by blast
      then show False by simp
    qed
    ultimately show ?thesis
      using False by auto
  qed
qed simp

lemma valid_name_no_tab: "camex_name_valid n \<Longrightarrow> CHR 0x09 \<notin> set n"
proof
  assume "camex_name_valid n" "CHR 0x09 \<in> set n"
  then have "(of_nat (of_char (CHR 0x09)) :: u8) \<in> set (str_bytes n)"
    unfolding str_bytes_def by (metis image_eqI list.set_map)
  then show False
    using \<open>camex_name_valid n\<close> name_no_tab by (simp add: camex_name_valid_def)
qed

lemma peer_port_range:
  assumes "db_wf db"
  shows "config_db_peer_port db cid \<le> 65535"
proof -
  have "config_db_find_client db cid = Some i \<Longrightarrow> client_wf (db_clients db ! i)" for i
    using assms find_client_Some(1) [of db cid i] by (simp add: db_wf_def)
  then show ?thesis
    using assms by (auto simp: config_db_peer_port_def Let_def db_wf_def profile_wf_def client_wf_def CAMEX_PEER_PORT_DEFAULT_def split: option.split)
qed

lemma status_name_valid:
  assumes "db_wf db" and "status_name db cid = Some n"
  shows "n \<noteq> [] \<and> camex_name_valid n \<and> length n \<le> CAMEX_NAME_MAX \<and> CHR 0x09 \<notin> set n"
proof -
  obtain i where i: "config_db_find_client db cid = Some i" "n = sp_name (db_clients db ! i)" "n \<noteq> []"
    using assms(2) by (auto simp: status_name_def split: if_splits option.splits)
  then have "client_wf (db_clients db ! i)"
    using assms(1) find_client_Some(1) [of db cid i] by (simp add: db_wf_def)
  then have "camex_name_valid n"
    using i by (simp add: client_wf_def)
  then show ?thesis
    using i(3) valid_name_no_tab by (simp add: camex_name_valid_def)
qed

text \<open>The fields of a live client's record.\<close>

definition age0 :: "int \<Rightarrow> int \<Rightarrow> int" where
  "age0 now t = (if t \<noteq> 0 then age_s now t else 0)"

definition record_peer :: "server_client \<Rightarrow> string" where
  "record_peer c = (if sin_addr (sc_addr c) \<noteq> 0 then inet_ntop (sin_addr (sc_addr c)) else ''-'')"

definition live_record :: "server_db \<Rightarrow> int \<Rightarrow> server_client \<Rightarrow> string list" where
  "live_record db now c =
     [''L'', sc_client_id c, quad (ntohl (sc_ip c)), if config_db_find_client db (sc_client_id c) \<noteq> None then ''1'' else ''0'',
      dec (nat (age0 now (sc_session_since c))), if sc_last_data c = 0 then ''-'' else dec (nat (age_s now (sc_last_data c))),
      dec (nat (age0 now (sc_last_hs c))), dec (unat (sc_handshakes c)), dec (unat (sc_rx_bytes c)), dec (unat (sc_tx_bytes c)), record_peer c,
      if config_db_peer_port db (sc_client_id c) > 0 then dec (nat (config_db_peer_port db (sc_client_id c))) else ''-''] @
     (case status_name db (sc_client_id c) of Some n \<Rightarrow> [n] | None \<Rightarrow> [])"

lemma age_s_nonneg: "0 \<le> age_s now t"
  by (simp add: age_s_def)

lemma index_live_text: "concat (index_live db now c) = tabbed (live_record db now c) @ NL"
proof -
  have l: "(if sc_last_data c \<noteq> 0 then age_s now (sc_last_data c) else - 1) < 0 \<longleftrightarrow> sc_last_data c = 0"
    using age_s_nonneg [of now "sc_last_data c"] by simp
  show ?thesis
    unfolding index_live_def Let_def l
    by (cases "status_name db (sc_client_id c)")
      (simp_all add: live_record_def tabbed_def age0_def record_peer_def ip_text_def quad_ntop)
qed

definition ages_fit :: "int \<Rightarrow> server_client \<Rightarrow> bool" where
  "ages_fit now c \<longleftrightarrow> age0 now (sc_session_since c) < 2 ^ 31 \<and> age0 now (sc_last_data c) < 2 ^ 31 \<and> age0 now (sc_last_hs c) < 2 ^ 31"

lemma live_record_fields:
  assumes "db_wf db" and "ages_fit now c" and r: "f = live_record db now c"
  shows "\<exists>e1. live_fields f = Some e1 \<and> (\<exists>e2. peer_fields f e1 = Some e2 \<and> me_live e2 \<and> me_name e2 = [] \<and>
    (me_conf e2 \<longleftrightarrow> config_db_find_client db (sc_client_id c) \<noteq> None) \<and> me_since e2 = age0 now (sc_session_since c) \<and>
    me_last e2 = (if sc_last_data c = 0 then - 1 else age_s now (sc_last_data c)) \<and> me_hs_age e2 = age0 now (sc_last_hs c) \<and>
    me_hs e2 = unat (sc_handshakes c) \<and> me_rx e2 = sc_rx_bytes c \<and> me_tx e2 = sc_tx_bytes c \<and>
    me_peer e2 = (if sin_addr (sc_addr c) \<noteq> 0 then inet_ntop (sin_addr (sc_addr c)) else []) \<and>
    me_peer_port e2 = (if sin_addr (sc_addr c) \<noteq> 0 \<and> config_db_peer_port db (sc_client_id c) > 0 then config_db_peer_port db (sc_client_id c) else 0))"
proof -
  let ?port = "config_db_peer_port db (sc_client_id c)"
  have ages: "nat (age0 now (sc_session_since c)) \<le> 0x7fffffff" "nat (age0 now (sc_last_hs c)) \<le> 0x7fffffff"
    "sc_last_data c \<noteq> 0 \<Longrightarrow> nat (age_s now (sc_last_data c)) \<le> 0x7fffffff" "0 \<le> age0 now t" for t
    using assms(2) age_s_nonneg [of now] by (auto simp: ages_fit_def age0_def)
  have words: "unat (sc_handshakes c) \<le> 0xffffffff" "unat (sc_rx_bytes c) \<le> 0xffffffffffffffff" "unat (sc_tx_bytes c) \<le> 0xffffffffffffffff"
    using unat_less_2_32 [of "sc_handshakes c"] unat_less_2_64 [of "sc_rx_bytes c"] unat_less_2_64 [of "sc_tx_bytes c"] by linarith+
  have digits: "dec 1 = ''1''" "dec 0 = ''0''"
    by (simp_all add: dec.simps digit_def) code_simp+
  have bit: "parse_num ''1'' 1 = Some 1" "parse_num ''0'' 1 = Some 0"
    unfolding digits [symmetric] by simp_all
  have b: "parse_num (if config_db_find_client db (sc_client_id c) \<noteq> None then ''1'' else ''0'') 1 =
      Some (if config_db_find_client db (sc_client_id c) \<noteq> None then 1 else 0)"
    using bit by simp
  have n: "f ! 3 = (if config_db_find_client db (sc_client_id c) \<noteq> None then ''1'' else ''0'')" "f ! 4 = dec (nat (age0 now (sc_session_since c)))"
    "f ! 5 = (if sc_last_data c = 0 then ''-'' else dec (nat (age_s now (sc_last_data c))))" "f ! 6 = dec (nat (age0 now (sc_last_hs c)))"
    "f ! 7 = dec (unat (sc_handshakes c))" "f ! 8 = dec (unat (sc_rx_bytes c))" "f ! 9 = dec (unat (sc_tx_bytes c))"
    "f ! 10 = record_peer c" "f ! 11 = (if ?port > 0 then dec (nat ?port) else ''-'')"
    by (simp_all add: r live_record_def)
  let ?e1 = "entry_zero\<lparr>me_conf := (config_db_find_client db (sc_client_id c) \<noteq> None), me_since := age0 now (sc_session_since c),
      me_last := (if sc_last_data c = 0 then - 1 else age_s now (sc_last_data c)),
      me_hs_age := age0 now (sc_last_hs c), me_hs := unat (sc_handshakes c), me_rx := sc_rx_bytes c, me_tx := sc_tx_bytes c\<rparr>"
  have l: "live_fields f = Some ?e1"
    unfolding live_fields_def n b
    using ages words dec_clean(3) [of "nat (age_s now (sc_last_data c))"] age_s_nonneg [of now] by (simp add: parse_num_dec)
  have pr: "nat ?port \<le> 65535"
    using peer_port_range [OF assms(1), of "sc_client_id c"] by simp
  have peer: "record_peer c = (if sin_addr (sc_addr c) \<noteq> 0 then quad (ntohl (sin_addr (sc_addr c))) else ''-'')"
    by (simp add: record_peer_def quad_ntop)
  let ?e2 = "if sin_addr (sc_addr c) \<noteq> 0
      then ?e1\<lparr>me_peer := quad (ntohl (sin_addr (sc_addr c))), me_peer_port := (if ?port > 0 then ?port else 0)\<rparr> else ?e1"
  have p: "peer_fields f ?e1 = Some ?e2"
  proof (cases "sin_addr (sc_addr c) = 0")
    case True
    then show ?thesis
      unfolding peer_fields_def n peer using pr dec_clean(3) [of "nat ?port"] by (simp add: require_def)
  next
    case False
    then show ?thesis
      unfolding peer_fields_def n peer using pr dec_clean(3) [of "nat ?port"] quad_clean(2) by (simp add: require_def)
  qed
  show ?thesis
    by (rule exI [of _ ?e1], rule conjI, rule l, rule exI [of _ ?e2], rule conjI, rule p)
      (cases "sin_addr (sc_addr c) = 0"; simp add: entry_zero_def quad_ntop)
qed

lemma record_id_clean: "record_id_ok cid \<Longrightarrow> CHR 0x09 \<notin> set cid" "record_id_ok cid \<Longrightarrow> CHR 0x0A \<notin> set cid"
  by (auto simp: record_id_ok_def list_all_iff)

lemma length_tabbed: "fs \<noteq> [] \<Longrightarrow> length (tabbed fs) + 1 = sum_list (map (\<lambda>f. length f + 1) fs)"
  by (induction fs rule: rev_induct) (simp_all add: tabbed_def TAB_def length_concat comp_def)

lemma live_record_clean:
  assumes "db_wf db" and "record_id_ok (sc_client_id c)"
  shows "\<forall>f\<in>set (live_record db now c). CHR 0x09 \<notin> set f"
proof -
  have p: "CHR 0x09 \<notin> set (record_peer c)"
    using quad_clean(1) by (simp add: record_peer_def flip: quad_ntop [of "htonl a" for a, simplified])
  have n: "\<forall>f\<in>set (case status_name db (sc_client_id c) of Some n \<Rightarrow> [n] | None \<Rightarrow> []). CHR 0x09 \<notin> set f"
    using status_name_valid [OF assms(1)] by (auto split: option.splits)
  show ?thesis
    using p n dec_clean quad_clean record_id_clean(1) [OF assms(2)] by (auto simp: live_record_def)
qed

lemma live_record_short:
  assumes "db_wf db" and "length (sc_client_id c) < CAMEX_CLIENT_ID_LEN" and "ages_fit now c"
  shows "length (tabbed (live_record db now c)) < 512"
proof -
  have d: "length (dec (nat (age0 now t))) \<le> 10" if "age0 now t < 2 ^ 31" for t
    using that by (intro length_dec) auto
  have w: "length (dec (unat (sc_handshakes c))) \<le> 10" "length (dec (unat (sc_rx_bytes c))) \<le> 20" "length (dec (unat (sc_tx_bytes c))) \<le> 20"
    using unat_less_2_32 [of "sc_handshakes c"] unat_less_2_64 [of "sc_rx_bytes c"] unat_less_2_64 [of "sc_tx_bytes c"]
    by (auto intro!: length_dec)
  have p: "length (dec (nat (config_db_peer_port db (sc_client_id c)))) \<le> 5"
    using peer_port_range [OF assms(1), of "sc_client_id c"] by (intro length_dec) auto
  have q: "length (quad a) \<le> 15" "length (inet_ntop a) \<le> 15" for a
    using quad_text [of a] length_inet_ntop by auto
  have a: "length (dec (nat (age0 now (sc_session_since c)))) \<le> 10" "length (dec (nat (age0 now (sc_last_hs c)))) \<le> 10"
    "sc_last_data c \<noteq> 0 \<longrightarrow> length (dec (nat (age_s now (sc_last_data c)))) \<le> 10"
    using assms(3) d [of "sc_session_since c"] d [of "sc_last_hs c"] d [of "sc_last_data c"] by (auto simp: ages_fit_def age0_def)
  have r: "length (record_peer c) \<le> 15"
    using q(2) by (simp add: record_peer_def)
  have n: "sum_list (map (\<lambda>f. length f + 1) (case status_name db (sc_client_id c) of Some n \<Rightarrow> [n] | None \<Rightarrow> [])) \<le> 65"
    using status_name_valid [OF assms(1), of "sc_client_id c"] by (auto simp: CAMEX_NAME_MAX_def split: option.splits)
  have "length (tabbed (live_record db now c)) + 1 = sum_list (map (\<lambda>f. length f + 1) (live_record db now c))"
    by (rule length_tabbed) (simp add: live_record_def)
  also have "\<dots> < 513"
    using a w p q(1) [of "ntohl (sc_ip c)"] r n assms(2) by (auto simp: live_record_def CAMEX_CLIENT_ID_LEN_def)
  finally show ?thesis by simp
qed

lemma record_parsed:
  assumes db: "db_wf db" and "status_listed c" and cid: "record_id_ok (sc_client_id c)" "length (sc_client_id c) < CAMEX_CLIENT_ID_LEN"
    and fits: "fits_domain domain (sc_client_id c)" and ages: "ages_fit now c"
    and line: "concat (index_live db now c) = line @ NL"
  shows "\<exists>e. parse_record domain True line = Some e \<and> me_live e \<and> me_host e = host_of domain (sc_client_id c) \<and>
    me_addr e = ntohl (sc_ip c) \<and> (me_conf e \<longleftrightarrow> config_db_find_client db (sc_client_id c) \<noteq> None) \<and>
    me_since e = age0 now (sc_session_since c) \<and> me_last e = (if sc_last_data c = 0 then - 1 else age_s now (sc_last_data c)) \<and>
    me_hs_age e = age0 now (sc_last_hs c) \<and> me_hs e = unat (sc_handshakes c) \<and> me_rx e = sc_rx_bytes c \<and> me_tx e = sc_tx_bytes c \<and>
    me_name e = (case status_name db (sc_client_id c) of Some n \<Rightarrow> n | None \<Rightarrow> []) \<and>
    me_peer e = (if sin_addr (sc_addr c) \<noteq> 0 then inet_ntop (sin_addr (sc_addr c)) else []) \<and>
    me_peer_port e = (if sin_addr (sc_addr c) \<noteq> 0 \<and> config_db_peer_port db (sc_client_id c) > 0 then config_db_peer_port db (sc_client_id c) else 0)"
proof -
  let ?f = "live_record db now c"
  have l: "line = tabbed ?f"
    using line index_live_text by simp
  obtain e1 e2 where e: "live_fields ?f = Some e1" "peer_fields ?f e1 = Some e2" "me_live e2" "me_name e2 = []"
    "me_conf e2 \<longleftrightarrow> config_db_find_client db (sc_client_id c) \<noteq> None" "me_since e2 = age0 now (sc_session_since c)"
    "me_last e2 = (if sc_last_data c = 0 then - 1 else age_s now (sc_last_data c))" "me_hs_age e2 = age0 now (sc_last_hs c)"
    "me_hs e2 = unat (sc_handshakes c)" "me_rx e2 = sc_rx_bytes c" "me_tx e2 = sc_tx_bytes c"
    "me_peer e2 = (if sin_addr (sc_addr c) \<noteq> 0 then inet_ntop (sin_addr (sc_addr c)) else [])"
    "me_peer_port e2 = (if sin_addr (sc_addr c) \<noteq> 0 \<and> config_db_peer_port db (sc_client_id c) > 0 then config_db_peer_port db (sc_client_id c) else 0)"
    using live_record_fields [OF db ages refl] by (elim exE conjE) blast
  let ?name = "status_name db (sc_client_id c)"
  have len: "length ?f = (if ?name = None then 12 else 13)"
    by (simp add: live_record_def split: option.split)
  have s: "split_tabs 12 line = ?f"
    unfolding l by (rule split_tabs_tabbed) (use live_record_clean [OF db cid(1)] len in \<open>auto simp: live_record_def\<close>)
  have nth: "?f ! 0 = ''L''" "?f ! 1 = sc_client_id c" "?f ! 2 = quad (ntohl (sc_ip c))" "?name = Some n \<Longrightarrow> ?f ! 12 = n" for n
    by (simp_all add: live_record_def)
  have "index_fields line = Some (sc_client_id c, Some (ntohl (sc_ip c)), ?name, e2)"
    unfolding index_fields_def s Let_def nth(1-3) len require_def
    using cid(2) e(1,2) nth(4) by (cases ?name) (simp_all add: CAMEX_CLIENT_ID_LEN_def)
  moreover have "\<not> (line = [] \<or> length line \<ge> 512)"
    using live_record_short [OF db cid(2) ages] by (auto simp: l tabbed_def live_record_def)
  moreover have "(case ?name of Some n \<Rightarrow> if n \<noteq> [] \<and> camex_name_valid n then n else [] | None \<Rightarrow> []) = (case ?name of Some n \<Rightarrow> n | None \<Rightarrow> [])"
    using status_name_valid [OF db, of "sc_client_id c"] by (auto split: option.split)
  ultimately show ?thesis
    using fits e by (cases "domain = []") (simp_all add: parse_record_def require_def fits_domain_def host_of_def Let_def)
qed

text \<open>C33: the page shows of a live client exactly what the server knows: the record the server writes for it (with an
  ID that makes a host) is read back as its host and address, whether it is configured, its ages, handshakes and
  byte counts, its name, and the address it connects from with the port of its link.\<close>

theorem index_record_read:
  assumes db: "db_wf db" and "status_listed c" and cid: "record_id_ok (sc_client_id c)" "length (sc_client_id c) < CAMEX_CLIENT_ID_LEN"
    and fits: "fits_domain domain (sc_client_id c)" and ages: "ages_fit now c"
    and line: "concat (index_live db now c) = line @ NL"
  shows "\<exists>e. parse_record domain True line = Some e \<and> me_live e \<and> me_host e = host_of domain (sc_client_id c) \<and>
    me_addr e = ntohl (sc_ip c) \<and> (me_conf e \<longleftrightarrow> config_db_find_client db (sc_client_id c) \<noteq> None) \<and>
    me_since e = age0 now (sc_session_since c) \<and> me_last e = (if sc_last_data c = 0 then - 1 else age_s now (sc_last_data c)) \<and>
    me_hs_age e = age0 now (sc_last_hs c) \<and> me_hs e = unat (sc_handshakes c) \<and> me_rx e = sc_rx_bytes c \<and> me_tx e = sc_tx_bytes c \<and>
    me_name e = (case status_name db (sc_client_id c) of Some n \<Rightarrow> n | None \<Rightarrow> []) \<and>
    me_peer e = (if sin_addr (sc_addr c) \<noteq> 0 then inet_ntop (sin_addr (sc_addr c)) else []) \<and>
    me_peer_port e = (if sin_addr (sc_addr c) \<noteq> 0 \<and> config_db_peer_port db (sc_client_id c) > 0 then config_db_peer_port db (sc_client_id c) else 0)"
  by (rule record_parsed [OF assms])

subsection \<open>Witnesses\<close>

definition shown_client :: server_client where
  "shown_client = client_wiped\<lparr>sc_active := True, sc_registered := True, sc_client_id := ''Cam-1'', sc_ip := demo_ip,
     sc_last_data := 990, sc_handshakes := 3, sc_rx_bytes := 20480\<rparr>"

definition shown_records :: string where
  "shown_records = concat (index_live config_server_db_reset 1000 shown_client)"

lemma shown_client_facts:
  "db_wf config_server_db_reset" "status_listed shown_client" "record_id_ok (sc_client_id shown_client)"
  "length (sc_client_id shown_client) < CAMEX_CLIENT_ID_LEN" "fits_domain [] (sc_client_id shown_client)" "ages_fit 1000 shown_client"
proof -
  show "db_wf config_server_db_reset"
    by (rule db_reset_ok)
  show "status_listed shown_client"
    by (simp add: status_listed_def shown_client_def) code_simp
  show "record_id_ok (sc_client_id shown_client)" "fits_domain [] (sc_client_id shown_client)"
    by (simp_all add: shown_client_def) code_simp+
qed (simp_all add: shown_client_def CAMEX_CLIENT_ID_LEN_def ages_fit_def age0_def age_s_def client_wiped_def client_zero_def)

theorem index_record_read_witness:
  "\<exists>line e. shown_records = line @ NL \<and> parse_record [] True line = Some e \<and> me_host e = host_of [] ''Cam-1'' \<and> me_last e = 10 \<and> me_rx e = 20480"
proof -
  have l: "shown_records = tabbed (live_record config_server_db_reset 1000 shown_client) @ NL"
    by (simp add: shown_records_def index_live_text)
  have f: "sc_client_id shown_client = ''Cam-1''" "sc_last_data shown_client = 990" "sc_rx_bytes shown_client = 20480" "age_s 1000 990 = 10"
    by (simp_all add: shown_client_def age_s_def)
  show ?thesis
    using index_record_read [OF shown_client_facts l [unfolded shown_records_def]] l by (simp add: f) blast
qed

lemma page_with_memory:
  assumes "domain = [] \<or> valid_hostname domain"
  shows "\<exists>t n. nginx_index_format (\<lambda>_. True) (\<lambda>_. True) True p domain http_port = Some (t, n)"
proof -
  obtain es where "parse_records (\<lambda>_. True) domain True p = Some (Some es)"
    using records_loop_ends [of "\<lambda>_. True" domain True p 0 "[]"] by (auto simp: parse_records_def)
  then show ?thesis
    using assms mb_adds_good [of "\<lambda>_. True" mb_zero] by (auto simp: nginx_index_format_def Let_def mb_zero_def simp flip: mb.adds_def)
qed



end
