(* ===== verification/Options.thy ===== *)
theory Options
  imports Proto
begin

section \<open>The command line\<close>

text \<open>
  The options of main.c: read one by one into the configuration, checked, and what \<open>main()\<close> then does.
  \<open>getopt_long\<close> is the list of options and arguments it gives, \<open>?\<close> for one it does not know; \<open>keygen\<close> says
  whether \<open>key_generate\<close> gives a key pair.  Shown: whatever the arguments, every field stays in its type (its
  array, its range), and what passes the checks can be started.
\<close>

subsection \<open>The configuration\<close>

datatype camex_mode = CAMEX_MODE_CLIENT | CAMEX_MODE_SERVER

text \<open>All of \<open>camex_config_t\<close>: the fields of the tunnel and those below.\<close>

record camex_options = camex_config +
  o_bind_ip :: string
  o_psk :: string
  o_config_path :: string
  o_mode :: camex_mode
  o_pid_file :: string
  o_bind_dev :: string
  o_tun_dev :: string
  o_server_key_file :: string
  o_server_pubkey :: string
  o_control_path :: string
  o_status_query :: bool
  o_status_json :: bool
  o_client_isolation :: bool
  o_status_nginx_map :: bool
  o_status_nginx_index :: bool
  o_map_domain :: string
  o_map_port :: int
  o_map_http_port :: int
  o_map_default :: string
  o_status_wait :: "string option"
  o_status_wait_timeout :: int

definition CAMEX_DEFAULT_CONFIG_PATH :: string where "CAMEX_DEFAULT_CONFIG_PATH = ''/etc/camex/camex.conf''"
definition CAMEX_CONFIG_PATH_LEN :: nat where "CAMEX_CONFIG_PATH_LEN = 256"
definition IFNAMSIZ :: nat where "IFNAMSIZ = 16"

definition default_options :: camex_options where
  "default_options = \<lparr>c_local_ip = [], c_local_cidr = [], c_gateway_ip = [], c_server_host = [], c_port = 0, c_route_cidrs = [],
     c_mtu = 1500, c_encrypt = False, c_client_id = [], c_auto_config = False, c_tcp = False, c_server_timeout = 20,
     c_keepalive = 10, o_bind_ip = [], o_psk = [], o_config_path = fit CAMEX_CONFIG_PATH_LEN CAMEX_DEFAULT_CONFIG_PATH, o_mode = CAMEX_MODE_CLIENT,
     o_pid_file = [], o_bind_dev = [], o_tun_dev = [], o_server_key_file = [], o_server_pubkey = [], o_control_path = [],
     o_status_query = False, o_status_json = False, o_client_isolation = False, o_status_nginx_map = False,
     o_status_nginx_index = False, o_map_domain = [], o_map_port = 0, o_map_http_port = 0, o_map_default = [],
     o_status_wait = None, o_status_wait_timeout = 0\<rparr>"

subsection \<open>Options\<close>

definition parse_mode :: "string \<Rightarrow> camex_mode option" where
  "parse_mode value =
     (if value = ''client'' then Some CAMEX_MODE_CLIENT else if value = ''server'' then Some CAMEX_MODE_SERVER else None)"

text \<open>The numbers \<open>main.c\<close> reads itself, the first with the check of \<open>errno\<close>.\<close>

definition parse_seconds :: "int \<Rightarrow> int \<Rightarrow> string \<Rightarrow> int option" where
  "parse_seconds lo hi s =
     (case strtol s of
        (val, end', erange) \<Rightarrow>
          if end' = s \<or> end' \<noteq> [] \<or> (val = 2 ^ 63 - 1 \<or> val = - (2 ^ 63)) \<and> erange then None
          else if val < lo \<or> val > hi then None else Some val)"

definition parse_between :: "int \<Rightarrow> int \<Rightarrow> string \<Rightarrow> int option" where
  "parse_between lo hi s =
     (case strtol s of (val, end', erange) \<Rightarrow> if end' = s \<or> end' \<noteq> [] \<or> val < lo \<or> val > hi then None else Some val)"

text \<open>Set a field, or return -1.\<close>

definition set_or_fail :: "'a option \<Rightarrow> ('a \<Rightarrow> camex_options) \<Rightarrow> camex_options \<Rightarrow> camex_options \<times> int option" where
  "set_or_fail r f c = (case r of Some v \<Rightarrow> (f v, None) | None \<Rightarrow> (c, Some (- 1)))"

definition parse_format :: "string \<Rightarrow> camex_options \<Rightarrow> camex_options \<times> int option" where
  "parse_format arg c0 =
     (let c = c0\<lparr>o_status_nginx_map := False, o_status_nginx_index := False, o_status_json := False\<rparr>
      in if arg = ''nginx-map'' then (c\<lparr>o_status_nginx_map := True\<rparr>, None)
         else if arg = ''nginx-index'' then (c\<lparr>o_status_nginx_index := True\<rparr>, None)
         else if arg = ''json'' then (c\<lparr>o_status_json := True\<rparr>, None)
         else if arg \<noteq> ''table'' then (c, Some (- 1)) else (c, None))"

text \<open>One option: the configuration, and the result if the parser returns.\<close>

definition parse_option :: "bool \<Rightarrow> char \<Rightarrow> string \<Rightarrow> camex_options \<Rightarrow> camex_options \<times> int option" where
  "parse_option keygen opt arg c =
     (if opt = CHR ''M'' then set_or_fail (parse_mode arg) (\<lambda>v. c\<lparr>o_mode := v\<rparr>) c
      else if opt = CHR ''b'' then set_or_fail (copy_option 16 arg) (\<lambda>v. c\<lparr>o_bind_ip := v\<rparr>) c
      else if opt = CHR ''a'' then (c\<lparr>c_auto_config := True\<rparr>, None)
      else if opt = CHR ''n'' then set_or_fail (copy_option CAMEX_CLIENT_ID_LEN arg) (\<lambda>v. c\<lparr>c_client_id := v\<rparr>) c
      else if opt = CHR ''f'' then set_or_fail (copy_option CAMEX_CONFIG_PATH_LEN arg) (\<lambda>v. c\<lparr>o_config_path := v\<rparr>) c
      else if opt = CHR ''l'' then set_or_fail (copy_option 32 arg) (\<lambda>v. c\<lparr>c_local_cidr := v\<rparr>) c
      else if opt = CHR ''g'' then set_or_fail (copy_option 16 arg) (\<lambda>v. c\<lparr>c_gateway_ip := v\<rparr>) c
      else if opt = CHR ''p'' then set_or_fail (parse_port arg) (\<lambda>v. c\<lparr>c_port := v\<rparr>) c
      else if opt = CHR ''s'' then set_or_fail (copy_option 64 arg) (\<lambda>v. c\<lparr>c_server_host := v\<rparr>) c
      else if opt = CHR ''c'' then set_or_fail (append_route_option (c_route_cidrs c) arg) (\<lambda>v. c\<lparr>c_route_cidrs := v\<rparr>) c
      else if opt = CHR ''t'' then set_or_fail (parse_mtu arg) (\<lambda>v. c\<lparr>c_mtu := v\<rparr>) c
      else if opt = CHR ''k'' then set_or_fail (copy_option 128 arg) (\<lambda>v. c\<lparr>o_psk := v\<rparr>) c
      else if opt = CHR ''e'' then (c\<lparr>c_encrypt := True\<rparr>, None)
      else if opt = CHR ''v'' then (c, Some 1)
      else if opt = CHR ''G'' then (c, Some (if keygen then 1 else - 1))
      else if opt = CHR ''S'' then set_or_fail (copy_option 256 arg) (\<lambda>v. c\<lparr>o_server_key_file := v\<rparr>) c
      else if opt = CHR ''Y'' then set_or_fail (copy_option 64 arg) (\<lambda>v. c\<lparr>o_server_pubkey := v\<rparr>) c
      else if opt = CHR ''h'' then (c, Some 1)
      else if opt = CHR ''P'' then set_or_fail (copy_option 256 arg) (\<lambda>v. c\<lparr>o_pid_file := v\<rparr>) c
      else if opt = CHR ''d'' then set_or_fail (copy_option IFNAMSIZ arg) (\<lambda>v. c\<lparr>o_bind_dev := v\<rparr>) c
      else if opt = CHR ''T'' then set_or_fail (copy_option 256 arg) (\<lambda>v. c\<lparr>o_tun_dev := v\<rparr>) c
      else if opt = CHR ''R'' then
        (if arg = ''tcp'' then (c\<lparr>c_tcp := True\<rparr>, None) else if arg = ''udp'' then (c\<lparr>c_tcp := False\<rparr>, None) else (c, Some (- 1)))
      else if opt = CHR ''K'' then set_or_fail (parse_seconds 0 3600 arg) (\<lambda>v. c\<lparr>c_keepalive := v\<rparr>) c
      else if opt = CHR ''W'' then set_or_fail (parse_seconds 5 3600 arg) (\<lambda>v. c\<lparr>c_server_timeout := v\<rparr>) c
      else if opt = CHR ''Q'' then (c\<lparr>o_status_query := True\<rparr>, None)
      else if opt = CHR ''I'' then (c\<lparr>o_client_isolation := True\<rparr>, None)
      else if opt = CHR ''F'' then parse_format arg c
      else if opt = CHR ''D'' then set_or_fail (copy_option 254 arg) (\<lambda>v. c\<lparr>o_map_domain := v\<rparr>) c
      else if opt = CHR ''U'' then set_or_fail (parse_between 1 65535 arg) (\<lambda>v. c\<lparr>o_map_port := v\<rparr>) c
      else if opt = CHR ''E'' then set_or_fail (copy_option 130 arg) (\<lambda>v. c\<lparr>o_map_default := v\<rparr>) c
      else if opt = CHR ''z'' then set_or_fail (parse_between 1 65535 arg) (\<lambda>v. c\<lparr>o_map_http_port := v\<rparr>) c
      else if opt = CHR ''w'' then (c\<lparr>o_status_wait := Some arg, o_status_query := True\<rparr>, None)
      else if opt = CHR ''x'' then set_or_fail (parse_between 1 3600 arg) (\<lambda>v. c\<lparr>o_status_wait_timeout := v\<rparr>) c
      else if opt = CHR ''J'' then (c\<lparr>o_status_json := True, o_status_nginx_map := False, o_status_nginx_index := False\<rparr>, None)
      else if opt = CHR ''C'' then set_or_fail (copy_option 108 arg) (\<lambda>v. c\<lparr>o_control_path := v\<rparr>) c
      else (c, Some (- 1)))"

fun parse_arguments :: "bool \<Rightarrow> (char \<times> string) list \<Rightarrow> camex_options \<Rightarrow> camex_options \<times> int" where
  "parse_arguments keygen [] c = (c, 0)"
| "parse_arguments keygen ((opt, arg) # as) c =
     (case parse_option keygen opt arg c of
        (c', None) \<Rightarrow> parse_arguments keygen as c'
      | (c', Some rc) \<Rightarrow> (c', rc))"

subsection \<open>Checks\<close>

definition validate_client :: "camex_options \<Rightarrow> bool" where
  "validate_client c \<longleftrightarrow>
     \<not> (c_server_host c = [] \<or> c_port c \<le> 0) \<and>
     (c_auto_config c \<or>
      c_local_cidr c \<noteq> [] \<and> c_gateway_ip c \<noteq> [] \<and> parse_local_cidr (c_local_cidr c) 16 16 \<noteq> None \<and>
      validate_ipv4 (c_gateway_ip c) \<and> validate_route_list (c_route_cidrs c))"

definition validate_config :: "camex_options \<Rightarrow> bool" where
  "validate_config c =
     (if c_mtu c < 576 \<or> c_mtu c > 9000 then False
      else if o_mode c = CAMEX_MODE_CLIENT \<and> o_psk c = [] then False
      else if o_mode c = CAMEX_MODE_CLIENT \<and> o_server_key_file c \<noteq> [] then False
      else if o_mode c = CAMEX_MODE_SERVER \<and> o_server_pubkey c \<noteq> [] then False
      else case o_mode c of
             CAMEX_MODE_CLIENT \<Rightarrow> validate_client c
           | CAMEX_MODE_SERVER \<Rightarrow> \<not> c_auto_config c)"

definition validate_and_prepare_client :: "camex_options \<Rightarrow> camex_options \<times> bool" where
  "validate_and_prepare_client c =
     (case parse_local_cidr (c_local_cidr c) 16 16 of
        None \<Rightarrow> (c, False)
      | Some (ip, netmask) \<Rightarrow>
          (let c1 = c\<lparr>c_local_ip := fit 16 ip\<rparr>
           in (c1, validate_ipv4 (c_gateway_ip c1) \<and> validate_route_list (c_route_cidrs c1))))"

text \<open>What \<open>main()\<close> does: usage, nothing more, a question to the running servers, or the tunnel.\<close>

datatype main_action =
  Usage int
| Leave int
| Ask_wait string string int
| Ask_map string string int string
| Ask_index string string int
| Ask_status string bool
| Run camex_options

definition camex_main :: "bool \<Rightarrow> (char \<times> string) list option \<Rightarrow> main_action" where
  "camex_main keygen args =
     (case args of
        None \<Rightarrow> Usage 0
      | Some as \<Rightarrow>
          (case parse_arguments keygen as default_options of
             (c, rc) \<Rightarrow>
               if rc = 0 \<and> o_status_query c
               then (case o_status_wait c of
                       Some token \<Rightarrow> Ask_wait (o_control_path c) token (if o_status_wait_timeout c > 0 then o_status_wait_timeout c else 60)
                     | None \<Rightarrow>
                         if o_status_nginx_map c
                         then Ask_map (o_control_path c) (o_map_domain c) (if o_map_port c > 0 then o_map_port c else 80) (o_map_default c)
                         else if o_status_nginx_index c then Ask_index (o_control_path c) (o_map_domain c) (o_map_http_port c)
                         else Ask_status (o_control_path c) (o_status_json c))
               else if rc \<noteq> 0 then (if rc > 0 then Leave 0 else Usage 1)
               else if \<not> validate_config c then Usage 1 else Run c))"

subsection \<open>Every field stays in its type\<close>

definition options_ok :: "camex_options \<Rightarrow> bool" where
  "options_ok c \<longleftrightarrow>
     length (o_bind_ip c) < 16 \<and> length (c_local_ip c) < 16 \<and> length (c_local_cidr c) < 32 \<and> length (c_gateway_ip c) < 16 \<and>
     length (c_server_host c) < 64 \<and> 0 \<le> c_port c \<and> c_port c \<le> 65535 \<and> length (c_route_cidrs c) \<le> CAMEX_MAX_ROUTES \<and>
     (\<forall>r\<in>set (c_route_cidrs c). r \<noteq> [] \<and> length r < 32 \<and> validate_route_cidr r) \<and> 576 \<le> c_mtu c \<and> c_mtu c \<le> 9000 \<and>
     length (o_psk c) < 128 \<and> length (c_client_id c) < CAMEX_CLIENT_ID_LEN \<and> length (o_config_path c) < CAMEX_CONFIG_PATH_LEN \<and>
     length (o_pid_file c) < 256 \<and> length (o_bind_dev c) < IFNAMSIZ \<and> length (o_tun_dev c) < 256 \<and>
     5 \<le> c_server_timeout c \<and> c_server_timeout c \<le> 3600 \<and> 0 \<le> c_keepalive c \<and> c_keepalive c \<le> 3600 \<and>
     length (o_server_key_file c) < 256 \<and> length (o_server_pubkey c) < 64 \<and> length (o_control_path c) < 108 \<and>
     \<not> (o_status_json c \<and> (o_status_nginx_map c \<or> o_status_nginx_index c)) \<and> \<not> (o_status_nginx_map c \<and> o_status_nginx_index c) \<and>
     length (o_map_domain c) < 254 \<and> 0 \<le> o_map_port c \<and> o_map_port c \<le> 65535 \<and> 0 \<le> o_map_http_port c \<and> o_map_http_port c \<le> 65535 \<and>
     length (o_map_default c) < 130 \<and> 0 \<le> o_status_wait_timeout c \<and> o_status_wait_timeout c \<le> 3600 \<and>
     (o_status_wait c \<noteq> None \<longrightarrow> o_status_query c)"

lemma default_options_ok: "options_ok default_options"
  by (simp add: options_ok_def default_options_def fit_def CAMEX_MAX_ROUTES_def CAMEX_CLIENT_ID_LEN_def CAMEX_CONFIG_PATH_LEN_def
      CAMEX_DEFAULT_CONFIG_PATH_def IFNAMSIZ_def)

named_theorems option_intros

lemma set_or_fail_ok [option_intros]:
  "options_ok c \<Longrightarrow> (\<And>v. r = Some v \<Longrightarrow> options_ok (f v)) \<Longrightarrow> options_ok (fst (set_or_fail r f c))"
  by (simp add: set_or_fail_def split: option.split)

lemma option_result [option_intros]:
  "options_ok (fst a) \<Longrightarrow> options_ok (fst b) \<Longrightarrow> options_ok (fst (if p then a else b))"
  "options_ok c \<Longrightarrow> options_ok (fst (c, r))"
  by simp_all

lemma copy_option_fits: "copy_option n s = Some v \<Longrightarrow> length v < n"
  by (auto simp: copy_option_def fit_def split: if_splits)

lemma ranges:
  "parse_port s = Some p \<Longrightarrow> 1 \<le> p \<and> p \<le> 65535" "parse_mtu s = Some p \<Longrightarrow> 576 \<le> p \<and> p \<le> 9000"
  "parse_seconds lo hi s = Some p \<Longrightarrow> lo \<le> p \<and> p \<le> hi" "parse_between lo hi s = Some p \<Longrightarrow> lo \<le> p \<and> p \<le> hi"
  by (auto simp: parse_port_def parse_mtu_def parse_ranged_def parse_seconds_def parse_between_def split: if_splits prod.splits)

lemma route_appended:
  assumes "append_route_option rs s = Some rs'" and "length rs \<le> CAMEX_MAX_ROUTES" and "\<forall>r\<in>set rs. r \<noteq> [] \<and> length r < 32 \<and> validate_route_cidr r"
  shows "length rs' \<le> CAMEX_MAX_ROUTES \<and> (\<forall>r\<in>set rs'. r \<noteq> [] \<and> length r < 32 \<and> validate_route_cidr r)"
proof -
  have "fit 32 s = s" if "length s < 32"
    using that by (simp add: fit_def)
  then show ?thesis
    using assms by (auto simp: append_route_option_def split: if_splits)
qed

lemma parse_option_ok:
  assumes "options_ok c"
  shows "options_ok (fst (parse_option keygen opt arg c))"
proof -
  note [simp] = options_ok_def
  have flags: "options_ok (c\<lparr>c_auto_config := a\<rparr>)" "options_ok (c\<lparr>c_encrypt := a\<rparr>)" "options_ok (c\<lparr>c_tcp := a\<rparr>)"
    "options_ok (c\<lparr>o_status_query := True\<rparr>)" "options_ok (c\<lparr>o_client_isolation := a\<rparr>)" "options_ok (c\<lparr>o_mode := m\<rparr>)"
    "options_ok (c\<lparr>o_status_json := True, o_status_nginx_map := False, o_status_nginx_index := False\<rparr>)"
    "options_ok (c\<lparr>o_status_wait := Some arg, o_status_query := True\<rparr>)" for a m
    using assms by simp_all
  have format: "options_ok (fst (parse_format arg c))"
    using assms by (simp add: parse_format_def Let_def)
  have route: "options_ok (c\<lparr>c_route_cidrs := rs\<rparr>)" if "append_route_option (c_route_cidrs c) arg = Some rs" for rs
    using assms route_appended [OF that] by simp
  have texts: "copy_option 16 arg = Some v \<Longrightarrow> options_ok (c\<lparr>o_bind_ip := v\<rparr>)"
    "copy_option CAMEX_CLIENT_ID_LEN arg = Some v \<Longrightarrow> options_ok (c\<lparr>c_client_id := v\<rparr>)"
    "copy_option CAMEX_CONFIG_PATH_LEN arg = Some v \<Longrightarrow> options_ok (c\<lparr>o_config_path := v\<rparr>)"
    "copy_option 32 arg = Some v \<Longrightarrow> options_ok (c\<lparr>c_local_cidr := v\<rparr>)" "copy_option 16 arg = Some v \<Longrightarrow> options_ok (c\<lparr>c_gateway_ip := v\<rparr>)"
    "copy_option 64 arg = Some v \<Longrightarrow> options_ok (c\<lparr>c_server_host := v\<rparr>)" "copy_option 128 arg = Some v \<Longrightarrow> options_ok (c\<lparr>o_psk := v\<rparr>)"
    "copy_option 256 arg = Some v \<Longrightarrow> options_ok (c\<lparr>o_server_key_file := v\<rparr>)" "copy_option 64 arg = Some v \<Longrightarrow> options_ok (c\<lparr>o_server_pubkey := v\<rparr>)"
    "copy_option 256 arg = Some v \<Longrightarrow> options_ok (c\<lparr>o_pid_file := v\<rparr>)" "copy_option IFNAMSIZ arg = Some v \<Longrightarrow> options_ok (c\<lparr>o_bind_dev := v\<rparr>)"
    "copy_option 256 arg = Some v \<Longrightarrow> options_ok (c\<lparr>o_tun_dev := v\<rparr>)" "copy_option 254 arg = Some v \<Longrightarrow> options_ok (c\<lparr>o_map_domain := v\<rparr>)"
    "copy_option 130 arg = Some v \<Longrightarrow> options_ok (c\<lparr>o_map_default := v\<rparr>)" "copy_option 108 arg = Some v \<Longrightarrow> options_ok (c\<lparr>o_control_path := v\<rparr>)" for v
    using assms by (auto dest: copy_option_fits)
  have numbers: "parse_port arg = Some n \<Longrightarrow> options_ok (c\<lparr>c_port := n\<rparr>)" "parse_mtu arg = Some n \<Longrightarrow> options_ok (c\<lparr>c_mtu := n\<rparr>)"
    "parse_seconds 0 3600 arg = Some n \<Longrightarrow> options_ok (c\<lparr>c_keepalive := n\<rparr>)" "parse_seconds 5 3600 arg = Some n \<Longrightarrow> options_ok (c\<lparr>c_server_timeout := n\<rparr>)"
    "parse_between 1 65535 arg = Some n \<Longrightarrow> options_ok (c\<lparr>o_map_port := n\<rparr>)" "parse_between 1 65535 arg = Some n \<Longrightarrow> options_ok (c\<lparr>o_map_http_port := n\<rparr>)"
    "parse_between 1 3600 arg = Some n \<Longrightarrow> options_ok (c\<lparr>o_status_wait_timeout := n\<rparr>)" for n
    using assms ranges(1,2) [of arg n] ranges(3) [of 0 3600 arg n] ranges(3) [of 5 3600 arg n]
      ranges(4) [of 1 65535 arg n] ranges(4) [of 1 3600 arg n] by simp_all
  show ?thesis
    unfolding parse_option_def
    by (intro option_intros assms flags format route texts numbers)
qed

lemma parse_arguments_ok: "options_ok c \<Longrightarrow> options_ok (fst (parse_arguments keygen as c))"
proof (induction keygen "as" c rule: parse_arguments.induct)
  case (2 keygen opt arg "as" c)
  obtain c' r where p: "parse_option keygen opt arg c = (c', r)" by fastforce
  then have "options_ok c'"
    using parse_option_ok [OF 2(2), of keygen opt arg] by simp
  then show ?case
    using 2(1) p by (cases r) simp_all
qed simp

text \<open>A configuration that passed the checks.\<close>

definition startable :: "camex_options \<Rightarrow> bool" where
  "startable c \<longleftrightarrow> (case o_mode c of
     CAMEX_MODE_CLIENT \<Rightarrow> c_server_host c \<noteq> [] \<and> 1 \<le> c_port c \<and> o_psk c \<noteq> [] \<and> o_server_key_file c = [] \<and>
       (\<not> c_auto_config c \<longrightarrow> (\<exists>c'. validate_and_prepare_client c = (c', True) \<and> parse_local_cidr (c_local_cidr c) 16 16 \<noteq> None \<and>
          (\<exists>netmask. parse_local_cidr (c_local_cidr c) 16 16 = Some (c_local_ip c', netmask))))
   | CAMEX_MODE_SERVER \<Rightarrow> \<not> c_auto_config c \<and> o_server_pubkey c = [])"

lemma local_cidr_ip: "parse_local_cidr s n k = Some (ip, m) \<Longrightarrow> length ip < n"
  by (auto simp: parse_local_cidr_def Let_def split: if_splits option.splits)

lemma validated_startable:
  assumes "validate_config c"
  shows "startable c"
proof (cases "o_mode c")
  case CAMEX_MODE_SERVER
  then show ?thesis
    using assms by (simp add: validate_config_def startable_def split: if_splits)
next
  case CAMEX_MODE_CLIENT
  then have v: "c_server_host c \<noteq> []" "1 \<le> c_port c" "o_psk c \<noteq> []" "o_server_key_file c = []" "validate_client c"
    using assms by (auto simp: validate_config_def validate_client_def split: if_splits)
  have "\<exists>c'. validate_and_prepare_client c = (c', True) \<and> parse_local_cidr (c_local_cidr c) 16 16 \<noteq> None \<and>
      (\<exists>netmask. parse_local_cidr (c_local_cidr c) 16 16 = Some (c_local_ip c', netmask))" if "\<not> c_auto_config c"
  proof -
    have m: "parse_local_cidr (c_local_cidr c) 16 16 \<noteq> None" "validate_ipv4 (c_gateway_ip c)" "validate_route_list (c_route_cidrs c)"
      using v(5) that by (simp_all add: validate_client_def)
    then obtain ip netmask where p: "parse_local_cidr (c_local_cidr c) 16 16 = Some (ip, netmask)"
      by auto
    then have "fit 16 ip = ip"
      using local_cidr_ip [OF p] by (simp add: fit_def)
    then show ?thesis
      using m p by (simp add: validate_and_prepare_client_def Let_def)
  qed
  then show ?thesis
    using v CAMEX_MODE_CLIENT by (simp add: startable_def)
qed

subsection \<open>Properties\<close>

text \<open>C36: the command line is well typed: whatever options and arguments are given, in whatever order and number, the
  configuration that \<open>main()\<close> goes on with has every text inside its array and every number in its range, at most one
  output format, and what the mode needs: a server has no auto mode, a manual client has an address, a gateway and
  routes that can be used.  A question to a running server carries ports and times in their ranges.\<close>

theorem command_line_typed:
  "(\<forall>c. camex_main keygen args = Run c \<longrightarrow> options_ok c \<and> startable c \<and> \<not> o_status_query c) \<and>
    (\<forall>path domain port dflt. camex_main keygen args = Ask_map path domain port dflt \<longrightarrow>
       length path < 108 \<and> length domain < 254 \<and> 1 \<le> port \<and> port \<le> 65535 \<and> length dflt < 130) \<and>
    (\<forall>path domain port. camex_main keygen args = Ask_index path domain port \<longrightarrow> 0 \<le> port \<and> port \<le> 65535) \<and>
    (\<forall>path token secs. camex_main keygen args = Ask_wait path token secs \<longrightarrow> 1 \<le> secs \<and> secs \<le> 3600)"
proof (cases args)
  case None
  then show ?thesis
    by (simp add: camex_main_def)
next
  case (Some as)
  obtain c rc where p: "parse_arguments keygen as default_options = (c, rc)" by fastforce
  have ok: "options_ok c"
    using parse_arguments_ok [OF default_options_ok, of keygen "as"] p by simp
  have ports: "length (o_control_path c) < 108" "length (o_map_domain c) < 254" "0 \<le> o_map_port c" "o_map_port c \<le> 65535" "length (o_map_default c) < 130"
    "0 \<le> o_map_http_port c" "o_map_http_port c \<le> 65535" "0 \<le> o_status_wait_timeout c" "o_status_wait_timeout c \<le> 3600"
    using ok unfolding options_ok_def by blast+
  have e: "camex_main keygen args = (if rc = 0 \<and> o_status_query c
               then (case o_status_wait c of
                       Some token \<Rightarrow> Ask_wait (o_control_path c) token (if o_status_wait_timeout c > 0 then o_status_wait_timeout c else 60)
                     | None \<Rightarrow>
                         if o_status_nginx_map c
                         then Ask_map (o_control_path c) (o_map_domain c) (if o_map_port c > 0 then o_map_port c else 80) (o_map_default c)
                         else if o_status_nginx_index c then Ask_index (o_control_path c) (o_map_domain c) (o_map_http_port c)
                         else Ask_status (o_control_path c) (o_status_json c))
               else if rc \<noteq> 0 then (if rc > 0 then Leave 0 else Usage 1)
               else if \<not> validate_config c then Usage 1 else Run c)"
    by (simp add: camex_main_def Some p)
  have run: "options_ok d \<and> startable d \<and> \<not> o_status_query d" if "camex_main keygen args = Run d" for d
  proof -
    have "d = c \<and> validate_config c \<and> \<not> o_status_query c"
      using that unfolding e by (auto split: if_splits option.splits)
    then show ?thesis
      using ok validated_startable by blast
  qed
  have ask: "length path < 108 \<and> length domain < 254 \<and> 1 \<le> port \<and> port \<le> 65535 \<and> length dflt < 130"
    if "camex_main keygen args = Ask_map path domain port dflt" for path domain port dflt
  proof -
    have "path = o_control_path c \<and> domain = o_map_domain c \<and> port = (if o_map_port c > 0 then o_map_port c else 80) \<and> dflt = o_map_default c"
      using that unfolding e by (simp split: if_splits option.splits)
    then show ?thesis
      using ports by simp
  qed
  have index: "0 \<le> port \<and> port \<le> 65535" if "camex_main keygen args = Ask_index path domain port" for path domain port
  proof -
    have "port = o_map_http_port c"
      using that unfolding e by (simp split: if_splits option.splits)
    then show ?thesis
      using ports by simp
  qed
  have wait: "1 \<le> secs \<and> secs \<le> 3600" if "camex_main keygen args = Ask_wait path token secs" for path token secs
  proof -
    have "secs = (if o_status_wait_timeout c > 0 then o_status_wait_timeout c else 60)"
      using that unfolding e by (simp split: if_splits option.splits)
    then show ?thesis
      using ports by simp
  qed
  show ?thesis
    using run ask index wait by blast
qed

theorem command_line_typed_witness:
  "\<exists>c. camex_main True (Some [(CHR ''M'', ''server''), (CHR ''k'', ''secret''), (CHR ''R'', ''tcp'')]) = Run c \<and> options_ok c \<and> startable c"
proof -
  let ?args = "Some [(CHR ''M'', ''server''), (CHR ''k'', ''secret''), (CHR ''R'', ''tcp'')]"
  have "camex_main True ?args = Run (default_options\<lparr>o_mode := CAMEX_MODE_SERVER, o_psk := ''secret'', c_tcp := True\<rparr>)"
    by (simp add: camex_main_def parse_option_def parse_mode_def set_or_fail_def copy_option_def fit_def validate_config_def default_options_def)
  then show ?thesis
    using command_line_typed [of True ?args] by blast
qed

end
