(* ===== verification/Spec2Isabelle.thy ===== *)
theory Spec2Isabelle
  imports Keystore Packet Clientloop Startpage Options
begin

text \<open>
  A verification library of camex, the point-to-multipoint VPN tunnel of OpenIPC: a server with a table of
  clients and a client, over UDP or TCP, with a Noise handshake (NKpsk0) and transport sessions with a replay
  window.  The theories follow the C files under \<open>src/\<close>.

  Data flow.  The client puts a REGISTER into message 1 of a handshake and sends it (\<open>Client\<close>); the server
  counts it against its budgets (\<open>Budget\<close>), tries its keys on it (\<open>Keystore\<close>, \<open>Noise\<close>), reads the REGISTER
  (\<open>Proto\<close>), picks an entry and an address (\<open>Clients\<close>, \<open>Pool\<close>, \<open>Leases\<close>), and answers with message 2 and a
  CONFIG (\<open>Handshake\<close>).  Then both ends seal and open packets (\<open>Session\<close>), which the server writes to its
  tunnel or forwards to another client (\<open>Forward\<close>).  The event loop moves all of it (\<open>Serverloop\<close>).

  Theories, and what each shows:
  \<^item> \<open>Prelude\<close>: maps, lists, least elements; the locales \<open>slot_index\<close> (an index from a hash to slots answers as a
    scan), \<open>stepper\<close> (an invariant of a step holds along a run) and the others the components share.
    \<open>Cstring\<close>: the C library functions on strings and numbers that the program calls.
  \<^item> \<open>Slotidx\<close> (slotidx.c): the hash index over slot tables.  A search ends and gives the least accepted slot.
  \<^item> \<open>Util\<close> (util.c): validators, control-message fields, the IPv4 header check.
  \<^item> \<open>Monocypher\<close>, \<open>Noise\<close> (noise.c): the primitives as a parameter with the laws used (\<open>mono_ok\<close>); both roles of
    the handshake agree on the payloads and the transport keys.
  \<^item> \<open>Session\<close> (session.c): sealing and opening, the bitmap replay window as a refinement of a set of counters.
  \<^item> \<open>Keys\<close>, \<open>Crypto\<close> (keys.c, crypto.c): key parsing, the passphrase cache with its marks, the key context.
  \<^item> \<open>Config\<close>, \<open>Keystore\<close> (config.c): the file parser, profiles with their indexes, the keystore and which key
    may be used for which client ID.
  \<^item> \<open>Proto\<close> (proto.c): REGISTER and CONFIG, built and parsed.
  \<^item> \<open>Net\<close> (net.c): TCP frames in both directions, pending sends, the write set.  \<open>Packet\<close> (packet.c): backends.
  \<^item> \<open>Leases\<close>, \<open>Budget\<close>, \<open>Clients\<close>, \<open>Pool\<close>, \<open>Handshake\<close>, \<open>Forward\<close> (server.c): the lease table, the per-second
    budgets, the client table with its four indexes (\<open>server_ok\<close>: lookups are scans), the address pool and the
    checks of a reload, the whole handshake and the data path.
  \<^item> \<open>Client\<close> (client.c and the reconfiguration in camex.c): handshakes, sessions, keepalives, reconnects.
  \<^item> \<open>Endtoend\<close>: client and server together: what the client sends the server accepts, and its answer gives the
    client the matching session.
  \<^item> \<open>Serverloop\<close> (camex.c): passes of the server's event loop, TCP accept and reads, the reload and its rollback;
    the invariant of the whole process along any run.
  \<^item> \<open>Clientloop\<close> (camex.c, client.c): passes of the client's event loop and its wait for the first CONFIG; a
    client that got under way never stands still.

  Conventions.  Global variables are records passed along.  What the system answers (time, random bytes, memory,
  sockets, the tunnel device) is an argument: a record such as \<open>srv_ctx\<close>, \<open>client_ctx\<close> or \<open>pass_env\<close>, or a list
  of results.  Errors are \<open>option\<close>, a sum, or the C return code as an \<open>int\<close>.  32- and 64-bit integers are words,
  \<open>time_t\<close> is \<open>int\<close>.  Log messages are left out, the state that rate-limits a message is kept where the source
  keeps it in an entry.

  Bounds and fuel.  Probe loops of the index take the number of buckets as fuel, which is enough as one bucket is
  always free; the 16 draws of a session index, the wait of a connect and the drain of the tunnel run their
  literal bounds; all else recurses on its data.

  Not modelled: monocypher.c (third-party code, a parameter); opening sockets, name resolution, the TUN device
  and the kernel module (system interfaces); the control socket, the log and the status text (output); the
  options and the process set-up of main.c and camex.c, signals; the
  generator of the nginx map.
\<close>

end
